(* ===== verification/Prelude.thy ===== *)
theory Prelude
  imports Main "HOL-Library.List_Lexorder" "HOL-Library.Char_ord" "HOL-Library.Product_Lexorder"
begin

text \<open>
  Shared vocabulary of the development: the result type of every fallible operation
  (an error value or a result), the parts of Go's \<open>strings\<close>, \<open>strconv\<close> and
  \<open>encoding/base64\<close> packages the program uses, over byte strings, and the generic facts
  about keyed lists (a table of the database is the list of its rows) that the components share.
\<close>

named_theorems keyed \<open>facts about lists searched and updated by a key\<close>
named_theorems preserves \<open>each operation keeps the invariant\<close>

section \<open>Results\<close>

text \<open>
  A Go function that returns \<open>(T, error)\<close> returns \<open>Inl\<close> its error or \<open>Inr\<close> its
  value. \<open>bindE\<close> is the early return \<open>if err != nil { return err }\<close>.
\<close>

datatype err =
    ErrNotFound string string      \<comment> \<open>kind of thing, its identifier\<close>
  | ErrExists string
  | ErrUnique string               \<comment> \<open>a UNIQUE or PRIMARY KEY constraint of the database\<close>
  | ErrForeignKey string
  | ErrEmptyTitle
  | ErrEmptyText
  | ErrTextTooLong
  | ErrTooManyOptions nat
  | ErrUnknownStatus string
  | ErrMergeTarget
  | ErrMergeIntoMerged
  | ErrNotAccepting
  | ErrNoWriteIns
  | ErrTooManyPending nat
  | ErrQueueFull nat
  | ErrBadUsername
  | ErrUnknownRole string
  | ErrShortPassword
  | ErrLastAdmin
  | ErrAlreadyApproved string
  | ErrLinkInvalid
  | ErrNameTaken string
  | ErrAlreadyClaimed
  | ErrBadDocument string
  | ErrDangling nat string
  | ErrRefused string
  | ErrBackfillDone

definition bindE :: "'e + 'a \<Rightarrow> ('a \<Rightarrow> 'e + 'b) \<Rightarrow> 'e + 'b" where
  "bindE m f = (case m of Inl e \<Rightarrow> Inl e | Inr x \<Rightarrow> f x)"

definition ensure :: "bool \<Rightarrow> 'e \<Rightarrow> 'e + unit" where
  "ensure b e = (if b then Inr () else Inl e)"

lemma bindE_Inl [simp]: "bindE (Inl e) f = Inl e"
  by (simp add: bindE_def)

lemma bindE_Inr [simp]: "bindE (Inr x) f = f x"
  by (simp add: bindE_def)

lemma bindE_eq_Inr [simp]: "bindE m f = Inr y \<longleftrightarrow> (\<exists>x. m = Inr x \<and> f x = Inr y)"
  by (cases m) simp_all

lemma ensure_eq_Inr [simp]: "ensure b e = Inr u \<longleftrightarrow> b"
  by (simp add: ensure_def)

lemma ensure_True [simp]: "ensure True e = Inr ()"
  by (simp add: ensure_def)

lemma ensure_False [simp]: "ensure False e = Inl e"
  by (simp add: ensure_def)

section \<open>Keyed lists\<close>

text \<open>
  The database's tables, and the lists the Go code scans for an identifier, are lists
  searched by a key. \<open>lookup_by key k xs\<close> is the first row whose key is \<open>k\<close>;
  \<open>modify_by key k f xs\<close> rewrites every row with that key in place.
\<close>

definition lookup_by :: "('a \<Rightarrow> 'k) \<Rightarrow> 'k \<Rightarrow> 'a list \<Rightarrow> 'a option" where
  "lookup_by key k xs = List.find (\<lambda>x. key x = k) xs"

definition modify_by :: "('a \<Rightarrow> 'k) \<Rightarrow> 'k \<Rightarrow> ('a \<Rightarrow> 'a) \<Rightarrow> 'a list \<Rightarrow> 'a list" where
  "modify_by key k f xs = map (\<lambda>x. if key x = k then f x else x) xs"

lemma lookup_by_Nil [simp]: "lookup_by key k [] = None"
  by (simp add: lookup_by_def)

lemma lookup_by_Cons [simp]:
  "lookup_by key k (x # xs) = (if key x = k then Some x else lookup_by key k xs)"
  by (simp add: lookup_by_def)

lemma lookup_by_append [simp]:
  "lookup_by key k (xs @ ys) =
     (case lookup_by key k xs of None \<Rightarrow> lookup_by key k ys | Some x \<Rightarrow> Some x)"
  by (induction xs) simp_all

lemma lookup_by_None_iff [keyed]: "lookup_by key k xs = None \<longleftrightarrow> k \<notin> key ` set xs"
  by (induction xs) auto

lemma lookup_by_SomeD [keyed, dest]: "lookup_by key k xs = Some x \<Longrightarrow> x \<in> set xs \<and> key x = k"
  by (induction xs) (auto split: if_splits)

lemma lookup_by_mem [keyed]:
  "distinct (map key xs) \<Longrightarrow> x \<in> set xs \<Longrightarrow> lookup_by key (key x) xs = Some x"
  by (induction xs) (auto simp: image_iff)

lemma lookup_by_Some_iff [keyed]:
  "distinct (map key xs) \<Longrightarrow> lookup_by key k xs = Some x \<longleftrightarrow> x \<in> set xs \<and> key x = k"
  using lookup_by_mem by (metis lookup_by_SomeD)

lemma lookup_by_ex [keyed]: "k \<in> key ` set xs \<Longrightarrow> \<exists>x. lookup_by key k xs = Some x"
  by (meson lookup_by_None_iff not_None_eq)

lemma set_modify_by [keyed]:
  "set (modify_by key k f xs) = (\<lambda>x. if key x = k then f x else x) ` set xs"
  by (simp add: modify_by_def)

lemma map_key_modify_by [keyed]:
  assumes "\<And>x. key x = k \<Longrightarrow> key' (f x) = key' x"
  shows "map key' (modify_by key k f xs) = map key' xs"
  using assms by (simp add: modify_by_def)

lemma image_key_modify_by [simp]:
  assumes "\<And>x. key' (f x) = key' x"
  shows "key' ` set (modify_by key k f xs) = key' ` set xs"
  using assms by (metis list.set_map map_key_modify_by)

lemma length_modify_by [simp]: "length (modify_by key k f xs) = length xs"
  by (simp add: modify_by_def)

lemma modify_by_Nil [simp]: "modify_by key k f [] = []"
  by (simp add: modify_by_def)

lemma modify_by_Cons [simp]:
  "modify_by key k f (x # xs) = (if key x = k then f x else x) # modify_by key k f xs"
  by (simp add: modify_by_def)

lemma modify_by_append [simp]:
  "modify_by key k f (xs @ ys) = modify_by key k f xs @ modify_by key k f ys"
  by (simp add: modify_by_def)

lemma modify_by_absent [keyed]: "k \<notin> key ` set xs \<Longrightarrow> modify_by key k f xs = xs"
  by (induction xs) auto

lemma lookup_modify_by [keyed]:
  assumes "\<And>x. key x = k \<Longrightarrow> key (f x) = key x"
  shows "lookup_by key j (modify_by key k f xs) =
         (if j = k then map_option f (lookup_by key j xs) else lookup_by key j xs)"
  using assms by (induction xs) auto

lemma lookup_filter_other [keyed]:
  "(\<And>x. key x = k \<Longrightarrow> P x) \<Longrightarrow> lookup_by key k (filter P xs) = lookup_by key k xs"
  by (induction xs) auto

lemma map_distinct_filter [keyed]: "distinct (map f xs) \<Longrightarrow> distinct (map f (filter P xs))"
  by (induction xs) auto

text \<open>Go's \<open>m[k]\<close> on a map that counts: a missing key reads as zero.\<close>

definition get0 :: "('k \<rightharpoonup> nat) \<Rightarrow> 'k \<Rightarrow> nat" where
  "get0 m k = (case m k of None \<Rightarrow> 0 | Some n \<Rightarrow> n)"

lemma get0_empty [simp]: "get0 Map.empty k = 0"
  by (simp add: get0_def)

lemma get0_upd [simp]: "get0 (m(k \<mapsto> n)) j = (if j = k then n else get0 m j)"
  by (simp add: get0_def)

section \<open>Decimal numbers\<close>

definition digit :: "nat \<Rightarrow> char" where
  "digit n = char_of (48 + n)"

fun decimal :: "nat \<Rightarrow> string" where
  "decimal n = (if n < 10 then [digit n] else decimal (n div 10) @ [digit (n mod 10)])"

declare decimal.simps [simp del]

lemma of_char_digit [simp]: "n < 10 \<Longrightarrow> of_char (digit n) = (48 + n :: nat)"
  by (simp add: digit_def)

lemma digit_inj [simp]: "m < 10 \<Longrightarrow> n < 10 \<Longrightarrow> digit m = digit n \<longleftrightarrow> m = n"
  by (metis of_char_digit add_left_cancel)

lemma decimal_nonempty [simp]: "decimal n \<noteq> []"
  by (subst decimal.simps) simp

lemma decimal_chars: "c \<in> set (decimal n) \<Longrightarrow> \<exists>d<10. c = digit d"
proof (induction n rule: decimal.induct)
  case (1 n)
  show ?case
  proof (cases "n < 10")
    case True
    with "1.prems" show ?thesis by (subst (asm) decimal.simps) auto
  next
    case False
    with "1.prems" have "c \<in> set (decimal (n div 10)) \<or> c = digit (n mod 10)"
      by (subst (asm) decimal.simps) auto
    with "1.IH" False show ?thesis
      by (metis mod_less_divisor zero_less_numeral)
  qed
qed

text \<open>Reading a decimal number back, most significant digit first.\<close>

definition undecimal :: "string \<Rightarrow> nat" where
  "undecimal s = foldl (\<lambda>a c. 10 * a + (of_char c - 48)) 0 s"

lemma undecimal_decimal [simp]: "undecimal (decimal n) = n"
proof (induction n rule: decimal.induct)
  case (1 n)
  show ?case
  proof (cases "n < 10")
    case True
    then show ?thesis by (subst decimal.simps) (simp add: undecimal_def)
  next
    case False
    with "1.IH" have "undecimal (decimal n) = 10 * (n div 10) + n mod 10"
      by (subst decimal.simps) (simp add: undecimal_def)
    then show ?thesis by simp
  qed
qed

lemma decimal_inject [simp]: "decimal m = decimal n \<longleftrightarrow> m = n"
  by (metis undecimal_decimal)

section \<open>Go strings\<close>

text \<open>
  A Go string is a sequence of bytes, so \<open>len\<close> counts bytes; a byte is a \<open>char\<close> here.
  \<open>strings.TrimSpace\<close> removes, from both ends, every rune \<open>unicode.IsSpace\<close> accepts;
  \<open>space_runes\<close> lists their UTF-8 encodings (the six ASCII ones, U+0085, U+00A0, U+1680,
  U+2000 to U+200A, U+2028, U+2029, U+202F, U+205F and U+3000).
\<close>

definition space_runes :: "string list" where
  "space_runes =
    [[CHR 0x20], [CHR 0x09], [CHR 0x0A], [CHR 0x0B], [CHR 0x0C], [CHR 0x0D],
     [CHR 0xC2, CHR 0x85], [CHR 0xC2, CHR 0xA0], [CHR 0xE1, CHR 0x9A, CHR 0x80],
     [CHR 0xE2, CHR 0x80, CHR 0x80], [CHR 0xE2, CHR 0x80, CHR 0x81],
     [CHR 0xE2, CHR 0x80, CHR 0x82], [CHR 0xE2, CHR 0x80, CHR 0x83],
     [CHR 0xE2, CHR 0x80, CHR 0x84], [CHR 0xE2, CHR 0x80, CHR 0x85],
     [CHR 0xE2, CHR 0x80, CHR 0x86], [CHR 0xE2, CHR 0x80, CHR 0x87],
     [CHR 0xE2, CHR 0x80, CHR 0x88], [CHR 0xE2, CHR 0x80, CHR 0x89],
     [CHR 0xE2, CHR 0x80, CHR 0x8A], [CHR 0xE2, CHR 0x80, CHR 0xA8],
     [CHR 0xE2, CHR 0x80, CHR 0xA9], [CHR 0xE2, CHR 0x80, CHR 0xAF],
     [CHR 0xE2, CHR 0x81, CHR 0x9F], [CHR 0xE3, CHR 0x80, CHR 0x80]]"

definition starts_with :: "string \<Rightarrow> string \<Rightarrow> bool" where
  "starts_with p s = (take (length p) s = p)"

function trim_left :: "string list \<Rightarrow> string \<Rightarrow> string" where
  "trim_left rs s =
     (case List.find (\<lambda>p. p \<noteq> [] \<and> starts_with p s) rs of
        None \<Rightarrow> s
      | Some p \<Rightarrow> trim_left rs (drop (length p) s))"
  by pat_completeness auto
termination
proof (relation "measure (\<lambda>(rs, s). length s)")
  fix rs s p
  assume "List.find (\<lambda>p. p \<noteq> [] \<and> starts_with p s) rs = Some p"
  then have "p \<noteq> []" and "starts_with p s"
    by (auto simp: find_Some_iff)
  then show "((rs, drop (length p) s), rs, s) \<in> measure (\<lambda>(rs, s). length s)"
    by (cases s; cases p) (auto simp: starts_with_def)
qed simp

declare trim_left.simps [simp del]

definition TrimSpace :: "string \<Rightarrow> string" where
  "TrimSpace s = rev (trim_left (map rev space_runes) (rev (trim_left space_runes s)))"

text \<open>What \<open>trim_left\<close> returns starts with none of the runes, and is a suffix.\<close>

definition no_lead :: "string list \<Rightarrow> string \<Rightarrow> bool" where
  "no_lead rs s = (\<forall>p\<in>set rs. p \<noteq> [] \<longrightarrow> \<not> starts_with p s)"

lemma starts_with_hd: "starts_with p (c # xs) \<Longrightarrow> p \<noteq> [] \<Longrightarrow> hd p = c"
  by (cases p) (auto simp: starts_with_def)

lemma find_lead_None: "List.find (\<lambda>p. p \<noteq> [] \<and> starts_with p s) rs = None \<longleftrightarrow> no_lead rs s"
  by (auto simp: find_None_iff no_lead_def)

lemma no_lead_trim_left: "no_lead rs (trim_left rs s)"
proof (induction rs s rule: trim_left.induct)
  case (1 rs s)
  show ?case
  proof (cases "List.find (\<lambda>p. p \<noteq> [] \<and> starts_with p s) rs")
    case None
    then show ?thesis unfolding trim_left.simps [of rs s] by (simp add: find_lead_None [symmetric])
  next
    case (Some p)
    with "1.IH" show ?thesis unfolding trim_left.simps [of rs s] by simp
  qed
qed

lemma trim_left_id: "no_lead rs s \<Longrightarrow> trim_left rs s = s"
  unfolding trim_left.simps [of rs s] by (simp add: find_lead_None [symmetric])

lemma trim_left_suffix: "\<exists>u. s = u @ trim_left rs s"
proof (induction rs s rule: trim_left.induct)
  case (1 rs s)
  show ?case
  proof (cases "List.find (\<lambda>p. p \<noteq> [] \<and> starts_with p s) rs")
    case None
    then show ?thesis by (simp add: trim_left.simps [of rs s])
  next
    case (Some p)
    with "1.IH" obtain u where "drop (length p) s = u @ trim_left rs (drop (length p) s)"
      by blast
    then have "s = (take (length p) s @ u) @ trim_left rs (drop (length p) s)"
      by (metis append.assoc append_take_drop_id)
    with Some show ?thesis
      unfolding trim_left.simps [of rs s] by (metis append.assoc option.simps(5))
  qed
qed

lemma length_trim_left: "length (trim_left rs s) \<le> length s"
  by (metis trim_left_suffix le_add2 length_append)

lemma length_TrimSpace: "length (TrimSpace s) \<le> length s"
  unfolding TrimSpace_def by (metis length_rev length_trim_left le_trans)

lemma no_lead_prefix: "no_lead rs (s @ u) \<Longrightarrow> no_lead rs s"
  unfolding no_lead_def starts_with_def
  by (metis append.assoc append_eq_conv_conj append_take_drop_id)

lemma TrimSpace_idem [simp]: "TrimSpace (TrimSpace s) = TrimSpace s"
proof -
  let ?l = "trim_left space_runes s"
  let ?r = "trim_left (map rev space_runes) (rev ?l)"
  obtain u where "rev ?l = u @ ?r"
    using trim_left_suffix by blast
  then have "?l = rev ?r @ rev u"
    by (metis rev_append rev_rev_ident)
  with no_lead_trim_left [of space_runes s] have "no_lead space_runes (rev ?r)"
    by (metis no_lead_prefix)
  then have "trim_left space_runes (rev ?r) = rev ?r"
    by (rule trim_left_id)
  moreover have "trim_left (map rev space_runes) ?r = ?r"
    by (intro trim_left_id no_lead_trim_left)
  ultimately show ?thesis by (simp add: TrimSpace_def)
qed

lemma TrimSpace_Nil [simp]: "TrimSpace [] = []"
  by (metis le_zero_eq length_0_conv length_TrimSpace list.size(3))

end
