(* ===== verification/GoTime.thy ===== *)
theory GoTime
  imports Prelude
begin

text \<open>
  Instants and their database text (\<open>internal/store/store.go\<close>, the time helpers). A Go
  \<open>time.Time\<close> in UTC is the number of nanoseconds since the zero \<open>Time\<close>, 1 January of year 1:
  an unbounded \<open>int\<close>, whose \<open>0\<close> is the value \<open>IsZero\<close> recognises. \<open>dbTime\<close> is the
  layout RFC3339Nano, which drops trailing zeros of the fraction, for years from 0 on (four
  digits up to the year 9999). A column that holds a time is an instant in the model; where
  a query orders by such a column it orders by this text, as SQLite does.
\<close>

type_synonym time = int

definition IsZero :: "time \<Rightarrow> bool" where
  "IsZero t = (t = 0)"

definition Before :: "time \<Rightarrow> time \<Rightarrow> bool" where
  "Before s t = (s < t)"

lemma IsZero_0 [simp]: "IsZero 0"
  by (simp add: IsZero_def)

definition second :: int where "second = 1000000000"
definition hour :: int where "hour = 3600 * second"

section \<open>The calendar\<close>

definition leap :: "int \<Rightarrow> bool" where
  "leap y = (y mod 4 = 0 \<and> (y mod 100 \<noteq> 0 \<or> y mod 400 = 0))"

text \<open>Days from 1 January of year 1 to 1 January of year \<open>y\<close>, and the year a day falls in.\<close>

definition days_before_year :: "int \<Rightarrow> int" where
  "days_before_year y = 365 * (y - 1) + (y - 1) div 4 - (y - 1) div 100 + (y - 1) div 400"

definition year_of_day :: "int \<Rightarrow> int" where
  "year_of_day d =
     (let n400 = d div 146097; d400 = d mod 146097;
          n100 = min 3 (d400 div 36524); d100 = d400 - n100 * 36524;
          n4 = d100 div 1461; d4 = d100 mod 1461;
          n1 = min 3 (d4 div 365)
      in 400 * n400 + 100 * n100 + 4 * n4 + n1 + 1)"

definition month_lengths :: "int \<Rightarrow> int list" where
  "month_lengths y = [31, if leap y then 29 else 28, 31, 30, 31, 30, 31, 31, 30, 31, 30, 31]"

fun month_day :: "int list \<Rightarrow> int \<Rightarrow> int \<Rightarrow> int \<times> int" where
  "month_day [] m yd = (m, yd + 1)"
| "month_day (l # ls) m yd = (if yd < l then (m, yd + 1) else month_day ls (m + 1) (yd - l))"

definition civil :: "int \<Rightarrow> int \<times> int \<times> int" where
  "civil d = (let y = year_of_day d; (m, dd) = month_day (month_lengths y) 1 (d - days_before_year y)
              in (y, m, dd))"

section \<open>RFC3339Nano\<close>

text \<open>The last \<open>w\<close> decimal digits, with leading zeros.\<close>

primrec pad :: "nat \<Rightarrow> int \<Rightarrow> string" where
  "pad 0 n = []"
| "pad (Suc w) n = pad w (n div 10) @ [digit (nat (n mod 10))]"

text \<open>The fraction: nine digits without their trailing zeros, and no point if nothing is left.\<close>

definition frac :: "int \<Rightarrow> string" where
  "frac ns = (if ns = 0 then '''' else ''.'' @ rev (dropWhile (\<lambda>c. c = CHR ''0'') (rev (pad 9 ns))))"

definition dbTime :: "time \<Rightarrow> string" where
  "dbTime t =
     (let secs = t div second; ns = t mod second; sod = secs mod 86400; (y, m, d) = civil (secs div 86400)
      in pad 4 y @ ''-'' @ pad 2 m @ ''-'' @ pad 2 d @ ''T'' @
         pad 2 (sod div 3600) @ '':'' @ pad 2 (sod div 60 mod 60) @ '':'' @
         pad 2 (sod mod 60) @ frac ns @ ''Z'')"

text \<open>\<open>dbTimePtr\<close>: an optional time is stored as NULL when it is zero.\<close>

definition dbTimePtr :: "time \<Rightarrow> time option" where
  "dbTimePtr t = (if IsZero t then None else Some t)"

definition goTimePtr :: "time option \<Rightarrow> time" where
  "goTimePtr v = (case v of None \<Rightarrow> 0 | Some t \<Rightarrow> t)"

lemma goTimePtr_dbTimePtr [simp]: "goTimePtr (dbTimePtr t) = t"
  by (simp add: goTimePtr_def dbTimePtr_def IsZero_def)

lemma dbTime_examples:
  "dbTime 0 = ''0001-01-01T00:00:00Z''"
  "dbTime (63854006400 * second + 120000000) = ''2024-06-15T00:00:00.12Z''"
  by code_simp+

lemma dbTime_unsorted_pair:
  "dbTime (63854006400 * second + 100000000) = ''2024-06-15T00:00:00.1Z''"
  "dbTime (63854006400 * second + 120000000) < dbTime (63854006400 * second + 100000000)"
  by code_simp+

end
