(* ===== verification/Surveys.thy ===== *)
theory Surveys
  imports GoTime "HOL-Library.Multiset"
begin

text \<open>
  The survey definition and its pure operations (\<open>internal/store/survey.go\<close>): states and
  option statuses, the accepting window, merge chains and \<open>Resolve\<close>, the ballot a respondent
  sees, and the in-memory edits \<open>SetOptionText\<close>, \<open>SetOptionStatus\<close> and \<open>AddOption\<close>.
  The lemmas show that \<open>Resolve\<close>'s bounded walk decides exactly the relation "the merge chain
  ends at this option", that the edits keep chains finite and identifiers unique, and that a
  shuffled ballot is a permutation of the unshuffled one.
\<close>

section \<open>States and statuses\<close>

definition StateDraft :: string where "StateDraft = ''draft''"
definition StateOpen :: string where "StateOpen = ''open''"
definition StateClosed :: string where "StateClosed = ''closed''"

definition OptApproved :: string where "OptApproved = ''approved''"
definition OptPending :: string where "OptPending = ''pending''"
definition OptRejected :: string where "OptRejected = ''rejected''"
definition OptRemoved :: string where "OptRemoved = ''removed''"
definition OptMerged :: string where "OptMerged = ''merged''"

definition TypeThumbsUp :: string where "TypeThumbsUp = ''thumbsup''"

lemma states_distinct [simp]:
  "StateDraft \<noteq> StateOpen" "StateOpen \<noteq> StateDraft" "StateDraft \<noteq> StateClosed"
  "StateClosed \<noteq> StateDraft" "StateOpen \<noteq> StateClosed" "StateClosed \<noteq> StateOpen"
  by (simp_all add: StateDraft_def StateOpen_def StateClosed_def)

lemma states_nonempty [simp]: "StateDraft \<noteq> []" "StateOpen \<noteq> []" "StateClosed \<noteq> []"
  by (simp_all add: StateDraft_def StateOpen_def StateClosed_def)

lemma statuses_nonempty [simp]:
  "OptApproved \<noteq> []" "OptPending \<noteq> []" "OptRejected \<noteq> []" "OptRemoved \<noteq> []" "OptMerged \<noteq> []"
  by (simp_all add: OptApproved_def OptPending_def OptRejected_def OptRemoved_def OptMerged_def)

lemma statuses_distinct [simp]:
  "OptApproved \<noteq> OptPending" "OptPending \<noteq> OptApproved"
  "OptApproved \<noteq> OptRejected" "OptRejected \<noteq> OptApproved"
  "OptApproved \<noteq> OptRemoved" "OptRemoved \<noteq> OptApproved"
  "OptApproved \<noteq> OptMerged" "OptMerged \<noteq> OptApproved"
  "OptPending \<noteq> OptRejected" "OptRejected \<noteq> OptPending"
  "OptPending \<noteq> OptRemoved" "OptRemoved \<noteq> OptPending"
  "OptPending \<noteq> OptMerged" "OptMerged \<noteq> OptPending"
  "OptRejected \<noteq> OptRemoved" "OptRemoved \<noteq> OptRejected"
  "OptRejected \<noteq> OptMerged" "OptMerged \<noteq> OptRejected"
  "OptRemoved \<noteq> OptMerged" "OptMerged \<noteq> OptRemoved"
  by (simp_all add: OptApproved_def OptPending_def OptRejected_def OptRemoved_def OptMerged_def)

definition validOptionStatus :: "string \<Rightarrow> bool" where
  "validOptionStatus s =
     (s = OptApproved \<or> s = OptPending \<or> s = OptRejected \<or> s = OptRemoved \<or> s = OptMerged)"

section \<open>Data\<close>

record opt =
  o_id :: string
  o_text :: string
  o_status :: string
  o_source :: string
  o_merged :: string
  o_created :: time

text \<open>
  A survey is its row in the \<open>surveys\<close> table extended by the list of its options, which
  live in a table of their own.
\<close>

record survey_row =
  sv_id :: string
  sv_type :: string
  sv_title :: string
  sv_desc :: string
  sv_state :: string
  show_results :: bool
  allow_write_in :: bool
  allow_comment :: bool
  no_randomize :: bool
  close_at :: time
  first_opened_at :: time
  sv_created :: time
  sv_updated :: time

record survey = survey_row +
  options :: "opt list"

section \<open>Accepting responses\<close>

definition Accepting :: "survey \<Rightarrow> time \<Rightarrow> bool" where
  "Accepting s now =
     (if sv_state s \<noteq> StateOpen then False
      else IsZero (close_at s) \<or> Before now (close_at s))"

definition AcceptingFrom :: "survey \<Rightarrow> time \<Rightarrow> bool \<Rightarrow> bool" where
  "AcceptingFrom s now previewer =
     (if previewer \<and> sv_state s = StateDraft then True else Accepting s now)"

definition ClosedByClock :: "survey \<Rightarrow> time \<Rightarrow> bool" where
  "ClosedByClock s now =
     (sv_state s = StateOpen \<and> \<not> IsZero (close_at s) \<and> \<not> Before now (close_at s))"

definition Randomize :: "survey \<Rightarrow> bool" where
  "Randomize s = (\<not> no_randomize s)"

lemma open_accepting_or_closed_by_clock:
  "sv_state s = StateOpen \<Longrightarrow> Accepting s now \<longleftrightarrow> \<not> ClosedByClock s now"
  by (auto simp: Accepting_def ClosedByClock_def)

lemma AcceptingFrom_public [simp]: "AcceptingFrom s now False = Accepting s now"
  by (simp add: AcceptingFrom_def)

section \<open>Merge chains\<close>

definition OptionOf :: "survey \<Rightarrow> string \<Rightarrow> opt option" where
  "OptionOf s i = lookup_by o_id i (options s)"

text \<open>The loop of \<open>Resolve\<close>; its range is the number of options plus one.\<close>

fun resolve_loop :: "survey \<Rightarrow> nat \<Rightarrow> string \<Rightarrow> string \<times> bool" where
  "resolve_loop s 0 i = (i, False)"
| "resolve_loop s (Suc n) i =
     (case OptionOf s i of
        None \<Rightarrow> (i, False)
      | Some o' \<Rightarrow>
          if o_status o' = OptMerged \<and> o_merged o' \<noteq> [] then resolve_loop s n (o_merged o')
          else (o_id o', o_status o' = OptApproved))"

definition Resolve :: "survey \<Rightarrow> string \<Rightarrow> string \<times> bool" where
  "Resolve s i = resolve_loop s (length (options s) + 1) i"

definition forwards :: "opt \<Rightarrow> bool" where
  "forwards o' = (o_status o' = OptMerged \<and> o_merged o' \<noteq> [])"

text \<open>
  What \<open>Resolve\<close> is meant to compute: \<open>leads s n i o'\<close> says that following merge
  pointers from \<open>i\<close> reaches, after \<open>n\<close> of them, the option \<open>o'\<close>, which points nowhere.
\<close>

inductive leads :: "survey \<Rightarrow> nat \<Rightarrow> string \<Rightarrow> opt \<Rightarrow> bool" for s where
  here: "OptionOf s i = Some o' \<Longrightarrow> \<not> forwards o' \<Longrightarrow> leads s 0 i o'"
| onward: "OptionOf s i = Some o1 \<Longrightarrow> forwards o1 \<Longrightarrow> leads s n (o_merged o1) o'
     \<Longrightarrow> leads s (Suc n) i o'"

inductive_cases leadsE: "leads s n i o'"

lemma OptionOf_SomeD: "OptionOf s i = Some o' \<Longrightarrow> o' \<in> set (options s) \<and> o_id o' = i"
  by (auto simp: OptionOf_def)

lemma leads_det: "leads s n i o1 \<Longrightarrow> leads s m i o2 \<Longrightarrow> n = m \<and> o1 = o2"
proof (induction arbitrary: m o2 rule: leads.induct)
  case (here i o')
  from here.prems show ?case by cases (use here.hyps in auto)
next
  case (onward i o1 n o')
  from onward.prems show ?case
  proof cases
    case here
    with onward.hyps show ?thesis by simp
  next
    case (onward o1' n')
    with \<open>OptionOf s i = Some o1\<close> have "leads s n' (o_merged o1) o2" by simp
    with \<open>m = Suc n'\<close> show ?thesis using onward.IH by blast
  qed
qed

lemma leads_end: "leads s n i o' \<Longrightarrow> o' \<in> set (options s) \<and> \<not> forwards o'"
  by (induction rule: leads.induct) (auto dest: OptionOf_SomeD)

text \<open>Every shorter chain length occurs on the way, at an option of the survey.\<close>

lemma leads_visits:
  "leads s n i o' \<Longrightarrow> m \<le> n \<Longrightarrow> \<exists>j \<in> o_id ` set (options s). leads s m j o'"
proof (induction rule: leads.induct)
  case (here i o')
  then show ?case by (auto intro: leads.here dest: OptionOf_SomeD)
next
  case (onward i o1 n o')
  show ?case
  proof (cases "m = Suc n")
    case True
    with onward.hyps show ?thesis
      by (auto intro: leads.onward dest: OptionOf_SomeD)
  next
    case False
    with onward.prems onward.IH show ?thesis by auto
  qed
qed

lemma leads_length:
  assumes "leads s n i o'"
  shows "n < length (options s)"
proof -
  from assms have "\<forall>m\<in>{..n}. \<exists>j. j \<in> o_id ` set (options s) \<and> leads s m j o'"
    using leads_visits by fastforce
  then obtain f where f: "\<And>m. m \<le> n \<Longrightarrow> f m \<in> o_id ` set (options s) \<and> leads s m (f m) o'"
    by (metis atMost_iff)
  then have "inj_on f {..n}"
    by (metis (mono_tags, lifting) atMost_iff inj_onI leads_det)
  moreover have "f ` {..n} \<subseteq> o_id ` set (options s)"
    using f by auto
  ultimately have "card {..n} \<le> card (o_id ` set (options s))"
    by (metis List.finite_set card_image card_mono finite_imageI)
  also have "\<dots> \<le> length (options s)"
    by (metis card_image_le card_length List.finite_set le_trans)
  finally show ?thesis by simp
qed

lemma resolve_loop_leads:
  "leads s n i o' \<Longrightarrow> n < k \<Longrightarrow> resolve_loop s k i = (o_id o', o_status o' = OptApproved)"
proof (induction arbitrary: k rule: leads.induct)
  case (here i o')
  then show ?case by (cases k) (auto simp: forwards_def)
next
  case (onward i o1 n o')
  then show ?case by (cases k) (auto simp: forwards_def)
qed

lemma Resolve_leads: "leads s n i o' \<Longrightarrow> Resolve s i = (o_id o', o_status o' = OptApproved)"
  unfolding Resolve_def by (rule resolve_loop_leads) (auto dest: leads_length)

lemma resolve_loop_counted:
  "resolve_loop s k i = (t, True) \<Longrightarrow> \<exists>n o'. leads s n i o' \<and> o_id o' = t \<and> o_status o' = OptApproved"
proof (induction k arbitrary: i)
  case (Suc k)
  show ?case
  proof (cases "OptionOf s i")
    case None
    with Suc.prems show ?thesis by simp
  next
    case (Some o1)
    show ?thesis
    proof (cases "forwards o1")
      case True
      with Some Suc.prems have "resolve_loop s k (o_merged o1) = (t, True)"
        by (simp add: forwards_def)
      then show ?thesis using Suc.IH leads.onward [OF Some True] by blast
    next
      case False
      with Some Suc.prems show ?thesis
        by (intro exI [of _ 0] exI [of _ o1])
          (auto intro: leads.here simp: forwards_def split: if_splits)
    qed
  qed
qed simp

lemma Resolve_idem_target:
  "Resolve s i = (t, True) \<Longrightarrow> \<exists>o'. OptionOf s t = Some o' \<and> o_status o' = OptApproved"
proof -
  assume "Resolve s i = (t, True)"
  then obtain n o' where l: "leads s n i o'" and o': "o_id o' = t" "o_status o' = OptApproved"
    unfolding Resolve_def using resolve_loop_counted by blast
  from leads_visits [OF l, of 0] obtain j where "leads s 0 j o'" by blast
  then have "OptionOf s j = Some o'" by (auto elim: leadsE)
  moreover from this o' have "j = t" by (auto dest: OptionOf_SomeD)
  ultimately show ?thesis using o' by blast
qed

text \<open>A decision procedure for "the chain from here ends", used by the invariant.\<close>

definition ends :: "survey \<Rightarrow> string \<Rightarrow> bool" where
  "ends s i = (case OptionOf s (fst (Resolve s i)) of None \<Rightarrow> False | Some o' \<Rightarrow> \<not> forwards o')"

lemma leads_OptionOf: "leads s n i o' \<Longrightarrow> OptionOf s (o_id o') = Some o'"
proof -
  assume l: "leads s n i o'"
  from leads_visits [OF l, of 0] obtain j where "leads s 0 j o'" by blast
  then have "OptionOf s j = Some o'" by cases
  then show ?thesis by (auto dest: OptionOf_SomeD)
qed

lemma resolve_loop_ends:
  "resolve_loop s k i = (t, b) \<Longrightarrow> OptionOf s t = Some o' \<Longrightarrow> \<not> forwards o' \<Longrightarrow> \<exists>n. leads s n i o'"
proof (induction k arbitrary: i)
  case 0
  then show ?case by (auto intro: leads.here)
next
  case (Suc k)
  show ?case
  proof (cases "OptionOf s i")
    case None
    with Suc.prems show ?thesis by auto
  next
    case (Some o1)
    show ?thesis
    proof (cases "forwards o1")
      case True
      with Some Suc.prems(1) have "resolve_loop s k (o_merged o1) = (t, b)"
        by (simp add: forwards_def)
      with Suc.IH Suc.prems(2,3) leads.onward [OF Some True] show ?thesis by blast
    next
      case False
      with Some Suc.prems(1) have "o_id o1 = t" by (simp add: forwards_def split: if_splits)
      moreover have "o_id o1 = i" using Some by (auto dest: OptionOf_SomeD)
      ultimately have "o1 = o'" using Some Suc.prems(2) by simp
      with Some False show ?thesis by (auto intro: leads.here)
    qed
  qed
qed

lemma ends_iff: "ends s i \<longleftrightarrow> (\<exists>n o'. leads s n i o')"
proof
  assume "ends s i"
  then obtain o' where "OptionOf s (fst (Resolve s i)) = Some o'" "\<not> forwards o'"
    by (auto simp: ends_def split: option.splits)
  then show "\<exists>n o'. leads s n i o'"
    unfolding Resolve_def using resolve_loop_ends by (metis prod.collapse)
next
  assume "\<exists>n o'. leads s n i o'"
  then show "ends s i"
    by (auto simp: ends_def Resolve_leads leads_OptionOf dest: leads_end)
qed

text \<open>
  What \<open>Resolve\<close> answers on every input: the end of the chain when there is one, and
  "not counted" otherwise, whatever the shape of the pointers.
\<close>

lemma Resolve_not_ending: "\<not> ends s i \<Longrightarrow> snd (Resolve s i) = False"
proof (rule ccontr)
  assume "\<not> ends s i" and "snd (Resolve s i) \<noteq> False"
  then obtain t where "Resolve s i = (t, True)" by (cases "Resolve s i") auto
  with resolve_loop_counted have "\<exists>n o'. leads s n i o'" unfolding Resolve_def by blast
  with \<open>\<not> ends s i\<close> show False by (simp add: ends_iff)
qed

section \<open>Ballots\<close>

definition Ballot :: "survey \<Rightarrow> string list \<Rightarrow> opt list" where
  "Ballot s pending =
     filter (\<lambda>o'. o_status o' = OptApproved) (options s) @
     List.map_filter
       (\<lambda>i. case OptionOf s i of None \<Rightarrow> None
            | Some o' \<Rightarrow> if o_status o' = OptPending then Some o' else None) pending"

text \<open>
  \<open>rand.Shuffle\<close> walks down from the last index and swaps each with a drawn index not above
  it. \<open>draw seed i\<close> is the number drawn at index \<open>i\<close> by the ChaCha8 generator seeded with
  the SHA-256 of \<open>seed\<close>.
\<close>

definition swap_at :: "nat \<Rightarrow> nat \<Rightarrow> 'a list \<Rightarrow> 'a list" where
  "swap_at i j xs = xs[i := xs ! j, j := xs ! i]"

primrec shuffle_down :: "(nat \<Rightarrow> nat) \<Rightarrow> nat \<Rightarrow> 'a list \<Rightarrow> 'a list" where
  "shuffle_down draw 0 xs = xs"
| "shuffle_down draw (Suc i) xs = shuffle_down draw i (swap_at (Suc i) (draw (Suc i)) xs)"

definition BallotFor :: "(string \<Rightarrow> nat \<Rightarrow> nat) \<Rightarrow> survey \<Rightarrow> string list \<Rightarrow> string \<Rightarrow> opt list" where
  "BallotFor draw s pending seed =
     (let approved = Ballot s [];
          approved = (if Randomize s \<and> length approved > 1
                      then shuffle_down (draw seed) (length approved - 1) approved else approved)
      in approved @
         List.map_filter
           (\<lambda>i. case OptionOf s i of None \<Rightarrow> None
                | Some o' \<Rightarrow> if o_status o' = OptPending then Some o' else None) pending)"

definition PendingOptions :: "survey \<Rightarrow> opt list" where
  "PendingOptions s = sort_key o_created (filter (\<lambda>o'. o_status o' = OptPending) (options s))"

lemma map_filter_Nil [simp]: "List.map_filter f [] = []"
  by (simp add: List.map_filter_def)

lemma mset_swap_at:
  "i < length xs \<Longrightarrow> j < length xs \<Longrightarrow> mset (swap_at i j xs) = mset xs"
  by (simp add: swap_at_def mset_swap)

lemma length_swap_at [simp]: "length (swap_at i j xs) = length xs"
  by (simp add: swap_at_def)

lemma mset_shuffle_down:
  "(\<And>i. draw i \<le> i) \<Longrightarrow> k < length xs \<Longrightarrow> mset (shuffle_down draw k xs) = mset xs"
proof (induction k arbitrary: xs)
  case (Suc k)
  from Suc.prems(1) [of "Suc k"] Suc.prems(2) have "draw (Suc k) < length xs" by simp
  then have "mset (swap_at (Suc k) (draw (Suc k)) xs) = mset xs"
    using Suc.prems(2) by (intro mset_swap_at)
  with Suc show ?case by simp
qed simp

lemma BallotFor_tail:
  "\<exists>front. BallotFor draw s pending seed = front @ drop (length (Ballot s [])) (Ballot s pending)
     \<and> ((\<forall>i. draw seed i \<le> i) \<longrightarrow> mset front = mset (Ballot s []))"
  by (auto simp: BallotFor_def Ballot_def Let_def mset_shuffle_down)

text \<open>An option is on the ballot exactly when it is approved, or pending and the respondent's own.\<close>

lemma set_Ballot:
  "set (Ballot s pending) =
     {o' \<in> set (options s). o_status o' = OptApproved} \<union>
     {o'. \<exists>i\<in>set pending. OptionOf s i = Some o' \<and> o_status o' = OptPending}"
  by (force simp: Ballot_def List.map_filter_def split: option.splits if_splits)

section \<open>Edits\<close>

definition maxOptions :: nat where "maxOptions = 500"
definition MaxOptionText :: nat where "MaxOptionText = 200"

text \<open>The loop \<open>for i := range xs { if p(xs[i]) { idx = i } }\<close>: the last match wins.\<close>

primrec last_index_from :: "('a \<Rightarrow> bool) \<Rightarrow> nat \<Rightarrow> 'a list \<Rightarrow> nat option" where
  "last_index_from p i [] = None"
| "last_index_from p i (x # xs) =
     (case last_index_from p (Suc i) xs of
        Some j \<Rightarrow> Some j | None \<Rightarrow> if p x then Some i else None)"

primrec first_index_from :: "('a \<Rightarrow> bool) \<Rightarrow> nat \<Rightarrow> 'a list \<Rightarrow> nat option" where
  "first_index_from p i [] = None"
| "first_index_from p i (x # xs) = (if p x then Some i else first_index_from p (Suc i) xs)"

definition edit_at :: "survey \<Rightarrow> nat \<Rightarrow> (opt \<Rightarrow> opt) \<Rightarrow> survey" where
  "edit_at sv idx f = sv\<lparr>options := (options sv)[idx := f (options sv ! idx)]\<rparr>"

definition SetOptionText :: "survey \<Rightarrow> string \<Rightarrow> string \<Rightarrow> err + survey" where
  "SetOptionText sv i txt =
     (let txt = TrimSpace txt in
      if txt = [] then Inl ErrEmptyText
      else if length txt > MaxOptionText then Inl ErrTextTooLong
      else case first_index_from (\<lambda>o'. o_id o' = i) 0 (options sv) of
             Some idx \<Rightarrow> Inr (edit_at sv idx (\<lambda>o'. o'\<lparr>o_text := txt\<rparr>))
           | None \<Rightarrow> Inl (ErrNotFound ''option'' i))"

definition SetOptionStatus :: "survey \<Rightarrow> string \<Rightarrow> string \<Rightarrow> string \<Rightarrow> err + survey" where
  "SetOptionStatus sv i status mergeInto =
     (case last_index_from (\<lambda>o'. o_id o' = i) 0 (options sv) of
        None \<Rightarrow> Inl (ErrNotFound ''option'' i)
      | Some idx \<Rightarrow>
          if status = OptApproved \<or> status = OptPending \<or> status = OptRejected \<or> status = OptRemoved
          then Inr (edit_at sv idx (\<lambda>o'. o'\<lparr>o_status := status, o_merged := []\<rparr>))
          else if status = OptMerged then
            if mergeInto = [] \<or> mergeInto = i then Inl ErrMergeTarget
            else case OptionOf sv mergeInto of
                   None \<Rightarrow> Inl (ErrNotFound ''merge target'' mergeInto)
                 | Some target \<Rightarrow>
                     if o_status target = OptMerged then Inl ErrMergeIntoMerged
                     else Inr (edit_at sv idx (\<lambda>o'. o'\<lparr>o_status := OptMerged, o_merged := mergeInto\<rparr>))
          else Inl (ErrUnknownStatus status))"

text \<open>\<open>nid\<close> is the identifier \<open>newID\<close> draws, \<open>now\<close> the clock.\<close>

definition AddOption ::
  "string \<Rightarrow> time \<Rightarrow> survey \<Rightarrow> string \<Rightarrow> string \<Rightarrow> string \<Rightarrow> err + (string \<times> survey)" where
  "AddOption nid now sv txt status source =
     (let txt = TrimSpace txt in
      if txt = [] then Inl ErrEmptyText
      else if length txt > MaxOptionText then Inl ErrTextTooLong
      else if length (options sv) \<ge> maxOptions then Inl (ErrTooManyOptions maxOptions)
      else Inr (nid, sv\<lparr>options := options sv @
             [\<lparr>o_id = nid, o_text = txt, o_status = status, o_source = source,
               o_merged = [], o_created = now\<rparr>]\<rparr>))"

lemma last_index_from_Some:
  "last_index_from p i xs = Some j \<Longrightarrow> i \<le> j \<and> j < i + length xs \<and> p (xs ! (j - i))"
  by (induction xs arbitrary: i) (fastforce split: option.splits if_splits simp: nth_Cons')+

lemma last_index_from_None: "last_index_from p i xs = None \<longleftrightarrow> (\<forall>x\<in>set xs. \<not> p x)"
proof (induction xs arbitrary: i)
  case (Cons x xs)
  show ?case
    by (cases "last_index_from p (Suc i) xs") (use Cons.IH [of "Suc i"] in auto)
qed simp

lemma first_index_from_Some:
  "first_index_from p i xs = Some j \<Longrightarrow> i \<le> j \<and> j < i + length xs \<and> p (xs ! (j - i))"
  by (induction xs arbitrary: i) (fastforce split: if_splits simp: nth_Cons')+

lemma first_index_from_None: "first_index_from p i xs = None \<longleftrightarrow> (\<forall>x\<in>set xs. \<not> p x)"
  by (induction xs arbitrary: i) auto

lemma update_nth_modify_by:
  "distinct (map key xs) \<Longrightarrow> j < length xs \<Longrightarrow> key (xs ! j) = k \<Longrightarrow>
   xs[j := f (xs ! j)] = modify_by key k f xs"
proof (induction xs arbitrary: j)
  case (Cons x xs)
  show ?case
  proof (cases j)
    case 0
    with Cons.prems show ?thesis by (auto simp: modify_by_absent)
  next
    case (Suc j')
    with Cons.prems have "key x \<noteq> k" by (auto simp: image_iff)
    with Suc Cons show ?thesis by simp
  qed
qed simp

text \<open>
  With unique identifiers, both index loops find the one option with that identifier, and
  the edit is the keyed update of the option list.
\<close>

definition ids_unique :: "survey \<Rightarrow> bool" where
  "ids_unique s = distinct (map o_id (options s))"

lemma edit_at_modify_by:
  assumes "ids_unique s" and "idx < length (options s)" and "o_id (options s ! idx) = i"
  shows "edit_at s idx f = s\<lparr>options := modify_by o_id i f (options s)\<rparr>"
  using assms by (simp add: edit_at_def ids_unique_def update_nth_modify_by)

lemma last_index_edit:
  assumes "ids_unique s" and "last_index_from (\<lambda>o'. o_id o' = i) 0 (options s) = Some idx"
  shows "edit_at s idx f = s\<lparr>options := modify_by o_id i f (options s)\<rparr>"
  using assms by (intro edit_at_modify_by) (auto dest: last_index_from_Some)

lemma first_index_edit:
  assumes "ids_unique s" and "first_index_from (\<lambda>o'. o_id o' = i) 0 (options s) = Some idx"
  shows "edit_at s idx f = s\<lparr>options := modify_by o_id i f (options s)\<rparr>"
  using assms by (intro edit_at_modify_by) (auto dest: first_index_from_Some)

definition opt_ok :: "opt \<Rightarrow> bool" where
  "opt_ok o' = (validOptionStatus (o_status o') \<and> (o_merged o' \<noteq> [] \<longleftrightarrow> o_status o' = OptMerged))"

text \<open>
  The invariant of a survey's options: identifiers are unique, statuses are known ones and
  exactly the merged options carry a pointer, and every merge chain ends.
\<close>

definition survey_ok :: "survey \<Rightarrow> bool" where
  "survey_ok s = (ids_unique s \<and> list_all opt_ok (options s) \<and> list_all (\<lambda>o'. ends s (o_id o')) (options s))"

lemma survey_okD:
  assumes "survey_ok s"
  shows "ids_unique s" and "\<And>o'. o' \<in> set (options s) \<Longrightarrow> opt_ok o'"
    and "\<And>o'. o' \<in> set (options s) \<Longrightarrow> ends s (o_id o')"
  using assms by (auto simp: survey_ok_def list_all_iff)

lemma OptionOf_modify:
  assumes "\<And>o'. o_id (f o') = o_id o'"
  shows "OptionOf (s\<lparr>options := modify_by o_id k f (options s)\<rparr>) i =
         (if i = k then map_option f (OptionOf s i) else OptionOf s i)"
  using assms by (simp add: OptionOf_def lookup_modify_by)

text \<open>An edit of one option keeps every chain finite if the edited option's own chain is.\<close>

lemma ends_after_edit:
  assumes "leads s n i o'" and same: "\<And>j. j \<noteq> k \<Longrightarrow> OptionOf s' j = OptionOf s j"
    and "ends s' k"
  shows "ends s' i"
  using assms(1)
proof (induction rule: leads.induct)
  case (here i o')
  then show ?case
    using same [of i] \<open>ends s' k\<close> by (metis ends_iff leads.here)
next
  case (onward i o1 n o')
  then show ?case
    using same [of i] \<open>ends s' k\<close> by (metis ends_iff leads.onward)
qed

lemma survey_ok_edit:
  assumes ok: "survey_ok s"
    and f: "\<And>o'. o_id (f o') = o_id o'" "\<And>o'. opt_ok o' \<Longrightarrow> opt_ok (f o')"
    and e: "ends s' k" and s': "s' = s\<lparr>options := modify_by o_id k f (options s)\<rparr>"
  shows "survey_ok s'"
proof -
  have same: "OptionOf s' j = OptionOf s j" if "j \<noteq> k" for j
    using that f(1) by (simp add: s' OptionOf_modify)
  have "map o_id (options s') = map o_id (options s)"
    using f(1) by (simp add: s' map_key_modify_by)
  moreover from this have ids: "o_id ` set (options s') = o_id ` set (options s)"
    by (metis list.set_map)
  moreover have "ends s' (o_id o')" if "o' \<in> set (options s')" for o'
  proof -
    from that ids obtain o1 where "o1 \<in> set (options s)" "o_id o1 = o_id o'"
      by (metis image_iff)
    with survey_okD(3) [OF ok, of o1] obtain n o2 where "leads s n (o_id o') o2"
      unfolding ends_iff by auto
    then show ?thesis using same e by (rule ends_after_edit)
  qed
  moreover have "opt_ok o'" if "o' \<in> set (options s')" for o'
    using that survey_okD(2) [OF ok] f(2) by (auto simp: s' set_modify_by)
  ultimately show ?thesis
    using survey_okD(1) [OF ok] by (simp add: survey_ok_def ids_unique_def list_all_iff)
qed

lemma SetOptionText_cases:
  assumes "SetOptionText sv i txt = Inr sv'" and "ids_unique sv"
  shows "sv' = sv\<lparr>options := modify_by o_id i (\<lambda>o'. o'\<lparr>o_text := TrimSpace txt\<rparr>) (options sv)\<rparr>
    \<and> TrimSpace txt \<noteq> [] \<and> length (TrimSpace txt) \<le> MaxOptionText \<and> i \<in> o_id ` set (options sv)"
proof -
  from assms(1) obtain idx where
    "first_index_from (\<lambda>o'. o_id o' = i) 0 (options sv) = Some idx"
    "sv' = edit_at sv idx (\<lambda>o'. o'\<lparr>o_text := TrimSpace txt\<rparr>)"
    "TrimSpace txt \<noteq> []" "length (TrimSpace txt) \<le> MaxOptionText"
    by (auto simp: SetOptionText_def Let_def split: if_splits option.splits)
  with assms(2) first_index_edit first_index_from_Some [of "\<lambda>o'. o_id o' = i" 0 "options sv" idx]
  show ?thesis by auto
qed

lemma SetOptionStatus_cases:
  assumes "SetOptionStatus sv i status into = Inr sv'" and "ids_unique sv"
  shows "i \<in> o_id ` set (options sv) \<and>
    (status \<in> {OptApproved, OptPending, OptRejected, OptRemoved} \<and>
       sv' = sv\<lparr>options := modify_by o_id i (\<lambda>o'. o'\<lparr>o_status := status, o_merged := []\<rparr>) (options sv)\<rparr>
   \<or> status = OptMerged \<and> into \<noteq> [] \<and> into \<noteq> i \<and>
       (\<exists>target. OptionOf sv into = Some target \<and> o_status target \<noteq> OptMerged) \<and>
       sv' = sv\<lparr>options := modify_by o_id i (\<lambda>o'. o'\<lparr>o_status := OptMerged, o_merged := into\<rparr>) (options sv)\<rparr>)"
proof -
  from assms(1) obtain idx where idx: "last_index_from (\<lambda>o'. o_id o' = i) 0 (options sv) = Some idx"
    by (auto simp: SetOptionStatus_def split: option.splits)
  then have "i \<in> o_id ` set (options sv)"
    by (metis (mono_tags, lifting) image_eqI last_index_from_None option.distinct(1))
  moreover note last_index_edit [OF assms(2) idx]
  ultimately show ?thesis using assms(1) idx
    by (auto simp: SetOptionStatus_def split: if_splits option.splits)
qed

section \<open>What the edits do to chains\<close>

lemma SetOptionStatus_ok [preserves]:
  assumes ok: "survey_ok sv" and r: "SetOptionStatus sv i status into = Inr sv'"
  shows "survey_ok sv'"
proof -
  have uniq: "ids_unique sv" using ok by (rule survey_okD)
  from SetOptionStatus_cases [OF r uniq] consider
    (plain) "i \<in> o_id ` set (options sv)" "status \<in> {OptApproved, OptPending, OptRejected, OptRemoved}"
      "sv' = sv\<lparr>options := modify_by o_id i (\<lambda>o'. o'\<lparr>o_status := status, o_merged := []\<rparr>) (options sv)\<rparr>"
  | (merge) target where "i \<in> o_id ` set (options sv)" "into \<noteq> []" "into \<noteq> i"
      "OptionOf sv into = Some target" "o_status target \<noteq> OptMerged"
      "sv' = sv\<lparr>options := modify_by o_id i (\<lambda>o'. o'\<lparr>o_status := OptMerged, o_merged := into\<rparr>) (options sv)\<rparr>"
    by auto
  then show ?thesis
  proof cases
    case plain
    from plain(1) obtain o0 where "OptionOf sv i = Some o0"
      unfolding OptionOf_def using lookup_by_ex by metis
    then have "OptionOf sv' i = Some (o0\<lparr>o_status := status, o_merged := []\<rparr>)"
      by (simp add: plain(3) OptionOf_modify)
    then have "ends sv' i"
      unfolding ends_iff by (metis leads.here forwards_def opt.select_convs(5) opt.surjective opt.update_convs(5))
    then show ?thesis
      by (rule survey_ok_edit [OF ok _ _ _ plain(3), rotated 2])
        (use plain(2) in \<open>auto simp: opt_ok_def validOptionStatus_def\<close>)
  next
    case merge
    from merge(1) obtain o0 where "OptionOf sv i = Some o0"
      unfolding OptionOf_def using lookup_by_ex by metis
    then have i: "OptionOf sv' i = Some (o0\<lparr>o_status := OptMerged, o_merged := into\<rparr>)"
      by (simp add: merge(6) OptionOf_modify)
    have "OptionOf sv' into = Some target"
      using merge by (simp add: OptionOf_modify)
    then have "leads sv' 0 into target"
      by (rule leads.here) (simp add: forwards_def merge)
    then have "leads sv' (Suc 0) i target"
      by (intro leads.onward [OF i]) (auto simp: forwards_def merge(2))
    then have "ends sv' i" unfolding ends_iff by blast
    then show ?thesis
      by (rule survey_ok_edit [OF ok _ _ _ merge(6), rotated 2])
        (use merge(2) in \<open>auto simp: opt_ok_def validOptionStatus_def\<close>)
  qed
qed

text \<open>\<open>Resolve\<close> looks only at identifiers, statuses and pointers.\<close>

definition shape :: "opt \<Rightarrow> string \<times> string \<times> string" where
  "shape o' = (o_id o', o_status o', o_merged o')"

lemma resolve_loop_shape:
  assumes "\<And>j. map_option shape (OptionOf s' j) = map_option shape (OptionOf s j)"
  shows "resolve_loop s' k i = resolve_loop s k i"
proof (induction k arbitrary: i)
  case (Suc k)
  show ?case
  proof (cases "OptionOf s i")
    case None
    with assms [of i] show ?thesis by simp
  next
    case (Some o1)
    with assms [of i] obtain o2 where "OptionOf s' i = Some o2" "shape o2 = shape o1" by auto
    with Some show ?thesis by (simp add: Suc.IH shape_def)
  qed
qed simp

lemma ends_by_shape:
  "ends s i = (case map_option shape (OptionOf s (fst (Resolve s i))) of None \<Rightarrow> False
               | Some (a, b, c) \<Rightarrow> \<not> (b = OptMerged \<and> c \<noteq> []))"
  by (simp add: ends_def shape_def forwards_def split: option.splits)

lemma Resolve_shape:
  assumes "\<And>j. map_option shape (OptionOf s' j) = map_option shape (OptionOf s j)"
    and "length (options s') = length (options s)"
  shows "Resolve s' i = Resolve s i" and "ends s' i = ends s i"
proof -
  show *: "Resolve s' i = Resolve s i"
    unfolding Resolve_def assms(2) by (rule resolve_loop_shape) (rule assms(1))
  show "ends s' i = ends s i"
    unfolding ends_by_shape [of s'] ends_by_shape [of s] unfolding * unfolding assms(1) ..
qed

lemma edit_shape:
  assumes "\<And>o'. shape (f o') = shape o'"
  shows "map_option shape (OptionOf (s\<lparr>options := modify_by o_id k f (options s)\<rparr>) j) =
         map_option shape (OptionOf s j)"
proof -
  have "\<And>o'. o_id (f o') = o_id o'" using assms by (auto simp: shape_def)
  then show ?thesis
    using assms by (simp add: OptionOf_modify option.map_comp comp_def)
qed

lemma SetOptionText_shape:
  assumes "SetOptionText sv i txt = Inr sv'" and "ids_unique sv"
  shows "Resolve sv' j = Resolve sv j" and "ends sv' j = ends sv j"
  using SetOptionText_cases [OF assms]
  by (auto intro!: Resolve_shape edit_shape simp: shape_def)

lemma SetOptionText_ok [preserves]:
  assumes ok: "survey_ok sv" and r: "SetOptionText sv i txt = Inr sv'"
  shows "survey_ok sv'"
proof -
  from SetOptionText_cases [OF r survey_okD(1) [OF ok]]
  have sv': "sv' = sv\<lparr>options := modify_by o_id i (\<lambda>o'. o'\<lparr>o_text := TrimSpace txt\<rparr>) (options sv)\<rparr>"
    and i: "i \<in> o_id ` set (options sv)" by auto
  from i survey_okD(3) [OF ok] have "ends sv i" by auto
  then have "ends sv' i" by (simp add: SetOptionText_shape [OF r survey_okD(1) [OF ok]])
  then show ?thesis
    by (rule survey_ok_edit [OF ok _ _ _ sv', rotated 2]) (auto simp: opt_ok_def)
qed

lemma OptionOf_append:
  "nid \<notin> o_id ` set (options s) \<Longrightarrow> o_id new = nid \<Longrightarrow>
   OptionOf (s\<lparr>options := options s @ [new]\<rparr>) j = (if j = nid then Some new else OptionOf s j)"
  using lookup_by_None_iff [of o_id nid "options s"]
  by (simp add: OptionOf_def split: option.splits)

lemma AddOption_cases:
  assumes "AddOption nid now sv txt status source = Inr (i, sv')"
  shows "i = nid \<and> TrimSpace txt \<noteq> [] \<and> length (TrimSpace txt) \<le> MaxOptionText \<and>
    length (options sv) < maxOptions \<and>
    sv' = sv\<lparr>options := options sv @
      [\<lparr>o_id = nid, o_text = TrimSpace txt, o_status = status, o_source = source, o_merged = [],
        o_created = now\<rparr>]\<rparr>"
  using assms by (auto simp: AddOption_def Let_def split: if_splits)

lemma AddOption_ok [preserves]:
  assumes ok: "survey_ok sv" and r: "AddOption nid now sv txt status source = Inr (i, sv')"
    and fresh: "nid \<notin> o_id ` set (options sv)"
    and st: "validOptionStatus status" "status \<noteq> OptMerged"
  shows "survey_ok sv'"
proof -
  define new where "new = \<lparr>o_id = nid, o_text = TrimSpace txt, o_status = status, o_source = source,
    o_merged = [], o_created = now\<rparr>"
  from AddOption_cases [OF r] have sv': "sv' = sv\<lparr>options := options sv @ [new]\<rparr>"
    by (simp add: new_def)
  have look: "OptionOf sv' j = (if j = nid then Some new else OptionOf sv j)" for j
    unfolding sv' by (rule OptionOf_append) (use fresh in \<open>simp_all add: new_def\<close>)
  have e: "ends sv' nid"
    unfolding ends_iff
    by (intro exI, rule leads.here [of _ _ new]) (use st look in \<open>auto simp: forwards_def new_def\<close>)
  have "ends sv' (o_id o')" if o': "o' \<in> set (options sv)" for o'
  proof -
    from survey_okD(3) [OF ok o'] obtain n o2 where "leads sv n (o_id o') o2"
      unfolding ends_iff by auto
    then show ?thesis by (rule ends_after_edit [OF _ _ e]) (simp add: look)
  qed
  then show ?thesis
    using survey_okD(1,2) [OF ok] fresh e st
    by (auto simp: survey_ok_def sv' ids_unique_def list_all_iff new_def opt_ok_def)
qed

lemma leads_avoids:
  assumes l: "leads s n j o'" and other: "o_id o' \<noteq> k"
    and stop: "\<And>o1. OptionOf s k = Some o1 \<Longrightarrow> \<not> forwards o1"
    and same: "\<And>j. j \<noteq> k \<Longrightarrow> OptionOf s' j = OptionOf s j"
  shows "leads s' n j o'"
  using l other
proof (induction rule: leads.induct)
  case (here i o')
  then have "i \<noteq> k" by (auto dest: OptionOf_SomeD)
  with here show ?case by (auto intro: leads.here simp: same)
next
  case (onward i o1 n o')
  then have "i \<noteq> k" using stop by auto
  with onward show ?case by (auto intro: leads.onward simp: same)
qed

lemma leads_redirected:
  assumes l: "leads s n j o'" and k: "o_id o' = k"
    and same: "\<And>j. j \<noteq> k \<Longrightarrow> OptionOf s' j = OptionOf s j"
    and k': "leads s' m k o2"
  shows "\<exists>m'. leads s' m' j o2"
  using l k
proof (induction rule: leads.induct)
  case (here i o')
  then have "i = k" by (auto dest: OptionOf_SomeD)
  with k' show ?case by blast
next
  case (onward i o1 n o')
  show ?case
  proof (cases "i = k")
    case True
    with k' show ?thesis by blast
  next
    case False
    with onward show ?thesis by (metis leads.onward same)
  qed
qed

section \<open>A small survey to evaluate on\<close>

definition demo_opt :: "string \<Rightarrow> string \<Rightarrow> string \<Rightarrow> string \<Rightarrow> opt" where
  "demo_opt i txt status into =
     \<lparr>o_id = i, o_text = txt, o_status = status, o_source = ''editor'', o_merged = into, o_created = 7\<rparr>"

definition demo_survey :: survey where
  "demo_survey =
     \<lparr>sv_id = ''s1'', sv_type = TypeThumbsUp, sv_title = ''Lunch'', sv_desc = [], sv_state = StateOpen,
      show_results = True, allow_write_in = True, allow_comment = True, no_randomize = False,
      close_at = 0, first_opened_at = 5, sv_created = 3, sv_updated = 3,
      options = [demo_opt ''a'' ''Pizza'' OptApproved [], demo_opt ''b'' ''Salad'' OptApproved [],
                 demo_opt ''c'' ''pizza!!'' OptPending [], demo_opt ''d'' ''Pizzza'' OptMerged ''c'']\<rparr>"

lemma demo_survey_ok: "survey_ok demo_survey"
  by code_simp

text \<open>Appending an option with a new identifier changes no chain.\<close>

lemma Resolve_after_append:
  assumes ok: "survey_ok s" and nid: "nid \<notin> o_id ` set (options s)"
    and look: "\<And>j. OptionOf s' j = (if j = nid then Some new else OptionOf s j)"
    and j: "j \<in> o_id ` set (options s)"
  shows "Resolve s' j = Resolve s j"
proof -
  from j survey_okD(3) [OF ok] have "\<exists>n o'. leads s n j o'" unfolding ends_iff by blast
  then obtain n o' where l: "leads s n j o'" by blast
  have "OptionOf s nid = None" using nid by (simp add: OptionOf_def lookup_by_None_iff)
  moreover have "o_id o' \<noteq> nid" using leads_end [OF l] nid by auto
  ultimately have "leads s' n j o'" by (intro leads_avoids [OF l]) (auto simp: look)
  with l show ?thesis by (simp add: Resolve_leads)
qed

text \<open>
  Merging an option that is not itself merged moves exactly its votes: every choice that
  used to resolve to it resolves to the merge target from then on (counting when the target is
  approved), and every other choice resolves as before. No stored response is touched.
\<close>

lemma Resolve_after_merge:
  assumes ok: "survey_ok sv" and r: "SetOptionStatus sv i OptMerged into = Inr sv'"
    and src: "OptionOf sv i = Some o0" "\<not> forwards o0" and tgt: "OptionOf sv into = Some target"
    and j: "j \<in> o_id ` set (options sv)"
  shows "Resolve sv' j =
    (if fst (Resolve sv j) = i then (into, o_status target = OptApproved) else Resolve sv j)"
proof -
  have into: "into \<noteq> []" "into \<noteq> i" "o_status target \<noteq> OptMerged"
    and sv': "sv' = sv\<lparr>options := modify_by o_id i (\<lambda>o'. o'\<lparr>o_status := OptMerged, o_merged := into\<rparr>) (options sv)\<rparr>"
    using SetOptionStatus_cases [OF r survey_okD(1) [OF ok]] tgt by auto
  have same: "\<And>j. j \<noteq> i \<Longrightarrow> OptionOf sv' j = OptionOf sv j"
    by (simp add: sv' OptionOf_modify)
  have l0: "leads sv' 0 into target"
    using same tgt into by (intro leads.here) (auto simp: forwards_def)
  have "OptionOf sv' i = Some (o0\<lparr>o_status := OptMerged, o_merged := into\<rparr>)"
    using src by (simp add: sv' OptionOf_modify)
  from leads.onward [OF this _ ] l0 have l1: "leads sv' (Suc 0) i target"
    by (simp add: forwards_def into)
  from j survey_okD(3) [OF ok] obtain n o' where l: "leads sv n j o'"
    unfolding ends_iff by fastforce
  have id: "o_id target = into" using tgt by (auto dest: OptionOf_SomeD)
  show ?thesis
  proof (cases "o_id o' = i")
    case True
    from leads_redirected [OF l True same l1] obtain m where "leads sv' m j target" by blast
    with True l id show ?thesis by (simp add: Resolve_leads)
  next
    case False
    have "leads sv' n j o'"
      using leads_avoids [OF l False _ same] src by simp
    with False l show ?thesis by (simp add: Resolve_leads)
  qed
qed

lemma resolves_to_approved:
  assumes ok: "survey_ok sv" and j: "j \<in> o_id ` set (options sv)"
    and t: "OptionOf sv t = Some o'" "o_status o' = OptApproved" and f: "fst (Resolve sv j) = t"
  shows "Resolve sv j = (t, True)"
proof -
  from j survey_okD(3) [OF ok] have "\<exists>n e. leads sv n j e" unfolding ends_iff by blast
  then obtain n e where l: "leads sv n j e" by blast
  with f have "o_id e = t" by (simp add: Resolve_leads)
  with t leads_OptionOf [OF l] have "e = o'" by simp
  with Resolve_leads [OF l] t(2) \<open>o_id e = t\<close> show ?thesis by simp
qed

lemma merged_resolution:
  assumes ok: "survey_ok sv" and r: "SetOptionStatus sv i OptMerged into = Inr sv1"
    and src: "OptionOf sv i = Some o0" "\<not> forwards o0"
    and tgt: "OptionOf sv into = Some o1" "o_status o1 = OptApproved"
    and c: "c \<in> o_id ` set (options sv)"
  shows "Resolve sv1 c = (into, True) \<longleftrightarrow> fst (Resolve sv c) \<in> {i, into}"
    and "t \<noteq> i \<Longrightarrow> t \<noteq> into \<Longrightarrow> Resolve sv1 c = (t, True) \<longleftrightarrow> Resolve sv c = (t, True)"
proof -
  have res: "Resolve sv1 c = (if fst (Resolve sv c) = i then (into, True) else Resolve sv c)"
    using Resolve_after_merge [OF ok r src tgt(1) c] tgt(2) by simp
  show "Resolve sv1 c = (into, True) \<longleftrightarrow> fst (Resolve sv c) \<in> {i, into}"
    using res resolves_to_approved [OF ok c tgt] by (metis fst_conv insert_iff empty_iff)
  show "t \<noteq> i \<Longrightarrow> t \<noteq> into \<Longrightarrow> Resolve sv1 c = (t, True) \<longleftrightarrow> Resolve sv c = (t, True)"
    using res by (cases "fst (Resolve sv c) = i") auto
qed

section \<open>Properties\<close>

text \<open>
  C12. \<open>Resolve\<close> decides the merge relation exactly, on every survey: either the chain of
  merge pointers from an option ends, and then \<open>Resolve\<close> returns its last option and whether
  that option is approved; or it does not end (a cycle, or a pointer to nothing), and then the
  vote is not counted. The loop bound of the code is therefore always enough.
\<close>

theorem Resolve_decides_chain:
  "(\<exists>n o'. leads s n i o' \<and> n < length (options s) \<and> Resolve s i = (o_id o', o_status o' = OptApproved))
   \<or> ((\<nexists>n o'. leads s n i o') \<and> snd (Resolve s i) = False)"
proof (cases "ends s i")
  case True
  then obtain n o' where "leads s n i o'" unfolding ends_iff by blast
  then show ?thesis using Resolve_leads leads_length by blast
next
  case False
  then show ?thesis using Resolve_not_ending ends_iff by blast
qed

text \<open>
  C11. No sequence of moderation decisions can build a merge cycle: \<open>SetOptionStatus\<close> keeps
  identifiers unique, statuses known, pointers on exactly the merged options, and every merge
  chain finite.
\<close>

theorem moderation_keeps_chains_finite:
  assumes "survey_ok sv" and "SetOptionStatus sv i status into = Inr sv'"
  shows "survey_ok sv' \<and> (\<exists>n o'. leads sv' n i o')"
proof -
  from SetOptionStatus_ok [OF assms] have ok: "survey_ok sv'" .
  from SetOptionStatus_cases [OF assms(2) survey_okD(1) [OF assms(1)]]
  have "i \<in> o_id ` set (options sv')" by (elim conjE disjE) simp_all
  with survey_okD(3) [OF ok] have "ends sv' i" by auto
  with ok show ?thesis by (simp add: ends_iff)
qed

theorem moderation_keeps_chains_finite_witness:
  "\<exists>sv'. SetOptionStatus demo_survey ''c'' OptMerged ''a'' = Inr sv' \<and> survey_ok sv'
     \<and> (\<exists>n o'. leads sv' n ''c'' o')"
proof -
  have "\<exists>sv'. SetOptionStatus demo_survey ''c'' OptMerged ''a'' = Inr sv'"
    by (simp add: SetOptionStatus_def demo_survey_def demo_opt_def OptionOf_def)
  then show ?thesis using moderation_keeps_chains_finite [OF demo_survey_ok] by blast
qed

text \<open>
  Renaming an option carries its votes: no choice resolves differently, and the renamed
  option's text is the trimmed input, non-empty and within the limit.
\<close>

theorem rename_keeps_votes:
  assumes "ids_unique sv" and "SetOptionText sv i txt = Inr sv'"
  shows "Resolve sv' j = Resolve sv j \<and>
    (\<exists>o'. OptionOf sv' i = Some o' \<and> o_text o' = TrimSpace txt \<and> o_text o' \<noteq> []
       \<and> length (o_text o') \<le> MaxOptionText)"
proof -
  note c = SetOptionText_cases [OF assms(2,1)]
  then obtain o0 where "OptionOf sv i = Some o0"
    unfolding OptionOf_def using lookup_by_ex by metis
  with c have "OptionOf sv' i = Some (o0\<lparr>o_text := TrimSpace txt\<rparr>)"
    by (auto simp: OptionOf_modify)
  with c SetOptionText_shape [OF assms(2,1)] show ?thesis by auto
qed

theorem rename_keeps_votes_witness:
  "\<exists>sv'. SetOptionText demo_survey ''a'' '' Pizza, hot '' = Inr sv' \<and>
     Resolve sv' ''a'' = Resolve demo_survey ''a''"
proof -
  have u: "ids_unique demo_survey" using demo_survey_ok by (rule survey_okD)
  have "TrimSpace '' Pizza, hot '' = ''Pizza, hot''" by code_simp
  then obtain sv' where s: "SetOptionText demo_survey ''a'' '' Pizza, hot '' = Inr sv'"
    by (simp add: SetOptionText_def demo_survey_def demo_opt_def MaxOptionText_def)
  from rename_keeps_votes [OF u s] s show ?thesis by blast
qed

lemma modify_by_id: "(\<And>x. x \<in> set xs \<Longrightarrow> key x = k \<Longrightarrow> f x = x) \<Longrightarrow> modify_by key k f xs = xs"
  by (induction xs) auto

lemma modify_by_twice:
  "(\<And>x. key (f x) = key x) \<Longrightarrow>
   modify_by key k g (modify_by key k f xs) = modify_by key k (\<lambda>x. g (f x)) xs"
  by (induction xs) auto

text \<open>
  Removing an option and restoring it is the identity on the survey: the option comes
  back exactly as it was, so every stored choice of it counts again.
\<close>

theorem remove_then_restore:
  assumes ok: "survey_ok sv" and o0: "OptionOf sv i = Some o0" "o_status o0 = OptApproved"
    and r1: "SetOptionStatus sv i OptRemoved x = Inr sv1"
    and r2: "SetOptionStatus sv1 i OptApproved y = Inr sv2"
  shows "sv2 = sv \<and> fst (Resolve sv1 i) = i \<and> \<not> snd (Resolve sv1 i)"
proof -
  note u = survey_okD(1) [OF ok]
  have sv1: "sv1 = sv\<lparr>options := modify_by o_id i (\<lambda>o'. o'\<lparr>o_status := OptRemoved, o_merged := []\<rparr>) (options sv)\<rparr>"
    using SetOptionStatus_cases [OF r1 u] by auto
  have u1: "ids_unique sv1"
    using survey_okD(1) [OF SetOptionStatus_ok [OF ok r1]] .
  have sv2: "sv2 = sv1\<lparr>options := modify_by o_id i (\<lambda>o'. o'\<lparr>o_status := OptApproved, o_merged := []\<rparr>) (options sv1)\<rparr>"
    using SetOptionStatus_cases [OF r2 u1] by auto
  have "o' = o0" if "o' \<in> set (options sv)" "o_id o' = i" for o'
    using that u o0 lookup_by_mem [of o_id "options sv" o'] by (simp add: ids_unique_def OptionOf_def)
  moreover have "o_merged o0 = []"
    using o0 survey_okD(2) [OF ok, of o0] by (auto simp: opt_ok_def dest: OptionOf_SomeD)
  ultimately have "modify_by o_id i (\<lambda>o'. o'\<lparr>o_status := OptApproved, o_merged := []\<rparr>) (options sv) = options sv"
    using o0 by (intro modify_by_id) auto
  then have "sv2 = sv" by (simp add: sv1 sv2 modify_by_twice)
  moreover have "OptionOf sv1 i = Some (o0\<lparr>o_status := OptRemoved, o_merged := []\<rparr>)"
    using o0 by (simp add: sv1 OptionOf_modify)
  then have "leads sv1 0 i (o0\<lparr>o_status := OptRemoved, o_merged := []\<rparr>)"
    by (rule leads.here) (simp add: forwards_def)
  ultimately show ?thesis using o0 by (auto simp: Resolve_leads dest: OptionOf_SomeD)
qed

theorem remove_then_restore_witness:
  "\<exists>sv1 sv2. SetOptionStatus demo_survey ''b'' OptRemoved [] = Inr sv1 \<and>
     SetOptionStatus sv1 ''b'' OptApproved [] = Inr sv2 \<and> sv2 = demo_survey \<and> sv1 \<noteq> demo_survey"
proof -
  have o: "OptionOf demo_survey ''b'' = Some (demo_opt ''b'' ''Salad'' OptApproved [])"
    by (simp add: demo_survey_def demo_opt_def OptionOf_def)
  obtain sv1 where r1: "SetOptionStatus demo_survey ''b'' OptRemoved [] = Inr sv1"
    by (simp add: SetOptionStatus_def demo_survey_def demo_opt_def)
  then have e: "sv1 = edit_at demo_survey 1 (\<lambda>o'. o'\<lparr>o_status := OptRemoved, o_merged := []\<rparr>)"
    by (simp add: SetOptionStatus_def demo_survey_def demo_opt_def)
  obtain sv2 where r2: "SetOptionStatus sv1 ''b'' OptApproved [] = Inr sv2"
    by (simp add: SetOptionStatus_def e demo_survey_def demo_opt_def edit_at_def)
  have "sv1 \<noteq> demo_survey" by (simp add: e demo_survey_def demo_opt_def edit_at_def)
  with r1 r2 remove_then_restore [OF demo_survey_ok o _ r1 r2] show ?thesis
    by (auto simp: demo_opt_def)
qed

text \<open>
  What a respondent is shown is the editor's ballot with the approved options reordered:
  the shuffled ballot is a permutation of the plain one, the respondent's own pending write-ins
  stay at its end in order, it is the plain ballot when the survey does not randomise, and it
  depends on the seed only through the shuffle (the same respondent always sees the same order).
\<close>

theorem BallotFor_permutes_Ballot:
  assumes "\<And>seed i. draw seed i \<le> i"
  shows "mset (BallotFor draw s pending seed) = mset (Ballot s pending)
    \<and> drop (length (Ballot s [])) (BallotFor draw s pending seed) = drop (length (Ballot s [])) (Ballot s pending)
    \<and> (no_randomize s \<longrightarrow> BallotFor draw s pending seed = Ballot s pending)"
proof -
  obtain front where f: "BallotFor draw s pending seed = front @ drop (length (Ballot s [])) (Ballot s pending)"
    and m: "mset front = mset (Ballot s [])"
    using BallotFor_tail [of draw s pending seed] assms by auto
  have split: "Ballot s pending = Ballot s [] @ drop (length (Ballot s [])) (Ballot s pending)"
    by (simp add: Ballot_def)
  have "mset (BallotFor draw s pending seed) = mset (Ballot s pending)"
    by (subst split) (simp add: f m)
  moreover have "length front = length (Ballot s [])"
    using m by (metis size_mset)
  moreover have "BallotFor draw s pending seed = Ballot s pending" if "no_randomize s"
    using that by (simp add: BallotFor_def Randomize_def Ballot_def)
  ultimately show ?thesis by (simp add: f)
qed

theorem BallotFor_permutes_Ballot_witness:
  "map o_id (BallotFor (\<lambda>seed i. 0) demo_survey [''c''] ''v'') = [''b'', ''a'', ''c'']
   \<and> mset (BallotFor (\<lambda>seed i. 0) demo_survey [''c''] ''v'') = mset (Ballot demo_survey [''c''])"
proof -
  have "map o_id (BallotFor (\<lambda>seed i. 0) demo_survey [''c''] ''v'') = [''b'', ''a'', ''c'']"
    by code_simp
  with BallotFor_permutes_Ballot [of "\<lambda>seed i. 0"] show ?thesis by simp
qed

end
