(* ===== verification/Database.thy ===== *)
theory Database
  imports Surveys "HOL-Library.Word"
begin

text \<open>
  The database and the survey rows in it (\<open>internal/store/store.go\<close>: the schema, \<open>tx\<close>;
  \<open>internal/store/survey.go\<close>: \<open>loadSurvey\<close>, \<open>saveSurvey\<close>, \<open>CreateSurvey\<close>,
  \<open>UpdateSurvey\<close>, \<open>DeleteSurvey\<close>). A table is the list of its rows in insertion order; an SQL
  statement of the source is translated into the list operation it denotes, with its
  constraints (primary keys, the unique pair of \<open>responses\<close>, ON DELETE CASCADE, the ON CONFLICT
  clauses) written out. The main lemmas: a saved survey is read back as it was saved, saving one
  survey does not disturb another, and every write keeps the keys unique and the references whole.
\<close>

section \<open>The schema\<close>

record user =
  u_name :: string
  u_role :: string
  u_hash :: string
  u_created :: time
  u_must_change :: bool
  u_pending :: bool
  u_invited_by :: string
  u_sessions_from :: time       \<comment> \<open>nullable: 0 is NULL\<close>

record invite =
  i_id :: string
  i_digest :: string
  i_role :: string
  i_note :: string
  i_created_by :: string
  i_created :: time
  i_expires :: time
  i_claimed_by :: string
  i_claimed :: time             \<comment> \<open>nullable: 0 is NULL\<close>
  i_revoked :: bool

record reset =
  p_id :: string
  p_digest :: string
  p_user :: string
  p_created_by :: string
  p_created :: time
  p_expires :: time
  p_used :: time                \<comment> \<open>nullable: 0 is NULL\<close>

record option_row = opt +
  o_survey :: string
  o_position :: nat

record response_row =
  r_id :: string
  r_survey :: string
  r_voter :: string
  r_comment :: string
  r_created :: time
  r_updated :: time

record db =
  meta :: "(string \<times> string) list"
  users :: "user list"
  invites :: "invite list"
  resets :: "reset list"
  surveys :: "survey_row list"
  opts :: "option_row list"
  responses :: "response_row list"
  choices :: "(string \<times> string) list"     \<comment> \<open>response, option\<close>
  seen :: "(string \<times> string) list"        \<comment> \<open>response, option\<close>

definition empty_db :: db where
  "empty_db = \<lparr>meta = [], users = [], invites = [], resets = [], surveys = [], opts = [],
     responses = [], choices = [], seen = []\<rparr>"

text \<open>
  The store: the database and the counter of committed write transactions, an
  \<open>atomic.Uint64\<close>. \<open>tx\<close> runs a body, keeps its writes and bumps the counter when it
  succeeds, and leaves everything as it was when it fails.
\<close>

record store =
  sdb :: db
  gen :: "64 word"

definition tx :: "(db \<Rightarrow> err + ('a \<times> db)) \<Rightarrow> store \<Rightarrow> (err + 'a) \<times> store" where
  "tx fn s =
     (case fn (sdb s) of
        Inl e \<Rightarrow> (Inl e, s)
      | Inr (x, d) \<Rightarrow> (Inr x, s\<lparr>sdb := d, gen := gen s + 1\<rparr>))"

section \<open>Loading and saving a survey\<close>

definition owned :: "db \<Rightarrow> string \<Rightarrow> option_row list" where
  "owned d i = filter (\<lambda>o'. o_survey o' = i) (opts d)"

definition loadOptions :: "db \<Rightarrow> string \<Rightarrow> opt list" where
  "loadOptions d i = map opt.truncate (sort_key o_position (owned d i))"

definition loadSurvey :: "db \<Rightarrow> string \<Rightarrow> survey option" where
  "loadSurvey d i =
     (case lookup_by sv_id i (surveys d) of
        None \<Rightarrow> None
      | Some r \<Rightarrow> Some (survey_row.extend r (survey.fields (loadOptions d i))))"

definition upsert_survey :: "survey_row \<Rightarrow> survey_row list \<Rightarrow> survey_row list" where
  "upsert_survey r t =
     (case lookup_by sv_id (sv_id r) t of
        None \<Rightarrow> t @ [r]
      | Some _ \<Rightarrow> modify_by sv_id (sv_id r) (\<lambda>old. r\<lparr>sv_created := sv_created old\<rparr>) t)"

definition option_row_of :: "string \<Rightarrow> nat \<Rightarrow> opt \<Rightarrow> option_row" where
  "option_row_of i pos o' = opt.extend o' (option_row.fields i pos)"

text \<open>The upsert of one option: a conflicting row is rewritten only if this survey owns it.\<close>

definition upsert_option :: "string \<Rightarrow> nat \<Rightarrow> opt \<Rightarrow> option_row list \<Rightarrow> option_row list" where
  "upsert_option i pos o' t =
     (case lookup_by o_id (o_id o') t of
        None \<Rightarrow> t @ [option_row_of i pos o']
      | Some _ \<Rightarrow> modify_by o_id (o_id o')
          (\<lambda>old. if o_survey old = i
                 then (option_row_of i pos o')\<lparr>o_created := o_created old\<rparr> else old) t)"

primrec upsert_options :: "string \<Rightarrow> nat \<Rightarrow> opt list \<Rightarrow> option_row list \<Rightarrow> option_row list" where
  "upsert_options i pos [] t = t"
| "upsert_options i pos (o' # os) t = upsert_options i (Suc pos) os (upsert_option i pos o' t)"

definition stamp_opened :: "time \<Rightarrow> survey \<Rightarrow> survey" where
  "stamp_opened now sv =
     (if sv_state sv = StateOpen \<and> IsZero (first_opened_at sv) then sv\<lparr>first_opened_at := now\<rparr> else sv)"

definition saveSurvey :: "time \<Rightarrow> db \<Rightarrow> survey \<Rightarrow> err + (survey \<times> db)" where
  "saveSurvey now d sv =
     (let sv = stamp_opened now sv in
      if length (options sv) > maxOptions \<and> length (options sv) > length (owned d (sv_id sv))
      then Inl (ErrTooManyOptions (length (options sv)))
      else Inr (sv, d\<lparr>surveys := upsert_survey (survey_row.truncate sv) (surveys d),
                      opts := upsert_options (sv_id sv) 0 (options sv) (opts d)\<rparr>))"

section \<open>Store operations on surveys\<close>

text \<open>\<open>ids k\<close> is the identifier the \<open>k\<close>-th call of \<open>newID\<close> draws.\<close>

primrec mk_options :: "(nat \<Rightarrow> string) \<Rightarrow> nat \<Rightarrow> time \<Rightarrow> string list \<Rightarrow> opt list" where
  "mk_options ids k now [] = []"
| "mk_options ids k now (t # ts) =
     (let t = TrimSpace t in
      if t \<noteq> [] then
        \<lparr>o_id = ids k, o_text = t, o_status = OptApproved, o_source = ''editor'', o_merged = [],
         o_created = now\<rparr> # mk_options ids (Suc k) now ts
      else mk_options ids k now ts)"

definition CreateSurvey ::
  "string \<Rightarrow> (nat \<Rightarrow> string) \<Rightarrow> time \<Rightarrow> string \<Rightarrow> string \<Rightarrow> string list \<Rightarrow> db \<Rightarrow> err + (survey \<times> db)" where
  "CreateSurvey nid ids now title desc texts d =
     (let title = TrimSpace title in
      if title = [] then Inl ErrEmptyTitle
      else saveSurvey now d
        \<lparr>sv_id = nid, sv_type = TypeThumbsUp, sv_title = title, sv_desc = TrimSpace desc,
         sv_state = StateDraft, show_results = False, allow_write_in = True, allow_comment = True,
         no_randomize = False, close_at = 0, first_opened_at = 0, sv_created = now, sv_updated = now,
         options = mk_options ids 0 now texts\<rparr>)"

definition UpdateSurvey ::
  "time \<Rightarrow> string \<Rightarrow> (survey \<Rightarrow> err + survey) \<Rightarrow> db \<Rightarrow> err + (survey \<times> db)" where
  "UpdateSurvey now i fn d =
     (case loadSurvey d i of
        None \<Rightarrow> Inl (ErrNotFound ''survey'' i)
      | Some sv \<Rightarrow> bindE (fn sv) (\<lambda>sv. saveSurvey now d (sv\<lparr>sv_updated := now\<rparr>)))"

text \<open>Deleting response rows takes their \<open>choices\<close> and \<open>seen\<close> rows along (ON DELETE CASCADE).\<close>

definition delete_responses :: "(response_row \<Rightarrow> bool) \<Rightarrow> db \<Rightarrow> db" where
  "delete_responses p d =
     (let dead = map r_id (filter p (responses d)) in
      d\<lparr>responses := filter (\<lambda>r. \<not> p r) (responses d),
        choices := filter (\<lambda>c. fst c \<notin> set dead) (choices d),
        seen := filter (\<lambda>c. fst c \<notin> set dead) (seen d)\<rparr>)"

definition DeleteSurvey :: "string \<Rightarrow> db \<Rightarrow> err + (unit \<times> db)" where
  "DeleteSurvey i d =
     (if lookup_by sv_id i (surveys d) = None then Inl (ErrNotFound ''survey'' i)
      else Inr ((), (delete_responses (\<lambda>r. r_survey r = i) d)
             \<lparr>surveys := filter (\<lambda>s. sv_id s \<noteq> i) (surveys d),
              opts := filter (\<lambda>o'. o_survey o' \<noteq> i) (opts d)\<rparr>))"

text \<open>\<open>Surveys\<close> lists every survey, ORDER BY created DESC; the order is that of the stored text.\<close>

definition Surveys_list :: "db \<Rightarrow> survey list" where
  "Surveys_list d =
     map (\<lambda>r. survey_row.extend r (survey.fields (loadOptions d (sv_id r))))
       (rev (sort_key (\<lambda>r. dbTime (sv_created r)) (rev (surveys d))))"

section \<open>Reading back what was saved\<close>

lemma survey_parts [simp]:
  "survey_row.extend (survey_row.truncate sv) (survey.fields os) = sv\<lparr>options := os\<rparr>"
  by (cases sv) (simp add: survey_row.defs survey.defs)

lemma row_fields [simp]:
  "sv_id (survey_row.truncate sv) = sv_id sv"
  "sv_state (survey_row.truncate sv) = sv_state sv"
  "first_opened_at (survey_row.truncate sv) = first_opened_at sv"
  "sv_created (survey_row.truncate sv) = sv_created sv"
  by (simp_all add: survey_row.defs)

lemma extended_fields [simp]:
  "sv_id (survey_row.extend r (survey.fields os)) = sv_id r"
  "sv_state (survey_row.extend r (survey.fields os)) = sv_state r"
  "close_at (survey_row.extend r (survey.fields os)) = close_at r"
  "first_opened_at (survey_row.extend r (survey.fields os)) = first_opened_at r"
  "sv_created (survey_row.extend r (survey.fields os)) = sv_created r"
  "options (survey_row.extend r (survey.fields os)) = os"
  by (simp_all add: survey_row.defs survey.defs)

lemma option_row_fields [simp]:
  "o_id (option_row_of i pos o') = o_id o'"
  "o_survey (option_row_of i pos o') = i"
  "o_position (option_row_of i pos o') = pos"
  "o_created (option_row_of i pos o') = o_created o'"
  "opt.truncate (option_row_of i pos o') = o'"
  by (simp_all add: option_row_of_def opt.defs option_row.defs)

lemma truncate_fields [simp]:
  "o_id (opt.truncate r) = o_id r" "o_status (opt.truncate r) = o_status r"
  "o_created (opt.truncate r) = o_created r"
  by (simp_all add: opt.defs)

lemma loadSurvey_id: "loadSurvey d i = Some sv \<Longrightarrow> sv_id sv = i"
  by (auto simp: loadSurvey_def split: option.splits dest: lookup_by_SomeD)

lemma loadSurvey_None_iff: "loadSurvey d i = None \<longleftrightarrow> i \<notin> sv_id ` set (surveys d)"
  by (simp add: loadSurvey_def lookup_by_None_iff split: option.splits)
    (metis lookup_by_None_iff option.distinct(1))

lemma loadSurvey_cong:
  "surveys d' = surveys d \<Longrightarrow> opts d' = opts d \<Longrightarrow> loadSurvey d' i = loadSurvey d i"
  by (simp add: loadSurvey_def loadOptions_def owned_def split: option.split)

lemma set_loadOptions: "set (loadOptions d i) = opt.truncate ` set (owned d i)"
  by (simp add: loadOptions_def)

lemma ids_loadOptions: "o_id ` set (loadOptions d i) = o_id ` set (owned d i)"
  by (auto simp: set_loadOptions image_iff)

text \<open>The upsert of one option, seen through the key.\<close>

lemma lookup_upsert_option:
  "lookup_by o_id j (upsert_option i pos o' t) =
     (if j = o_id o' then
        (case lookup_by o_id j t of
           None \<Rightarrow> Some (option_row_of i pos o')
         | Some old \<Rightarrow> Some (if o_survey old = i
             then (option_row_of i pos o')\<lparr>o_created := o_created old\<rparr> else old))
      else lookup_by o_id j t)"
proof (cases "lookup_by o_id (o_id o') t")
  case None
  then have u: "upsert_option i pos o' t = t @ [option_row_of i pos o']"
    by (simp add: upsert_option_def)
  show ?thesis
  proof (cases "j = o_id o'")
    case True
    with None show ?thesis unfolding u by simp
  next
    case False
    then show ?thesis unfolding u by (simp split: option.split)
  qed
next
  case (Some old)
  let ?f = "\<lambda>old. if o_survey old = i then (option_row_of i pos o')\<lparr>o_created := o_created old\<rparr> else old"
  have "upsert_option i pos o' t = modify_by o_id (o_id o') ?f t"
    by (simp add: upsert_option_def Some)
  moreover have "lookup_by o_id j (modify_by o_id (o_id o') ?f t) =
      (if j = o_id o' then map_option ?f (lookup_by o_id j t) else lookup_by o_id j t)"
    by (rule lookup_modify_by) simp
  ultimately show ?thesis using Some by simp
qed

lemma ids_upsert_option:
  assumes "distinct (map o_id t)"
  shows "distinct (map o_id (upsert_option i pos o' t)) \<and>
   o_id ` set (upsert_option i pos o' t) = insert (o_id o') (o_id ` set t)"
proof (cases "lookup_by o_id (o_id o') t")
  case None
  then have "o_id o' \<notin> o_id ` set t" by (simp add: lookup_by_None_iff)
  with assms show ?thesis unfolding upsert_option_def None by simp
next
  case (Some old)
  let ?f = "\<lambda>old. if o_survey old = i then (option_row_of i pos o')\<lparr>o_created := o_created old\<rparr> else old"
  have "map o_id (modify_by o_id (o_id o') ?f t) = map o_id t"
    by (rule map_key_modify_by) simp
  moreover from this have "o_id ` set (modify_by o_id (o_id o') ?f t) = o_id ` set t"
    by (metis list.set_map)
  moreover have "o_id o' \<in> o_id ` set t" using lookup_by_SomeD [OF Some] by (metis imageI)
  ultimately show ?thesis
    using assms unfolding upsert_option_def Some by auto
qed

lemma others_upsert_option:
  "j \<noteq> i \<Longrightarrow> filter (\<lambda>r. o_survey r = j) (upsert_option i pos o' t) = filter (\<lambda>r. o_survey r = j) t"
proof (cases "lookup_by o_id (o_id o') t")
  case (Some old)
  then show "j \<noteq> i \<Longrightarrow> ?thesis"
    unfolding upsert_option_def Some option.case modify_by_def by (induction t) auto
qed (simp add: upsert_option_def)

lemma ids_upsert_options:
  "distinct (map o_id t) \<Longrightarrow> distinct (map o_id (upsert_options i pos os t)) \<and>
   o_id ` set (upsert_options i pos os t) = o_id ` set os \<union> o_id ` set t"
  by (induction os arbitrary: pos t) (simp_all add: ids_upsert_option)

lemma others_upsert_options:
  "j \<noteq> i \<Longrightarrow> filter (\<lambda>r. o_survey r = j) (upsert_options i pos os t) = filter (\<lambda>r. o_survey r = j) t"
  by (induction os arbitrary: pos t) (simp_all add: others_upsert_option)

lemma lookup_upsert_options_other:
  "j \<notin> o_id ` set os \<Longrightarrow> lookup_by o_id j (upsert_options i pos os t) = lookup_by o_id j t"
  by (induction os arbitrary: pos t) (simp_all add: lookup_upsert_option)

lemma lookup_upsert_options:
  assumes "distinct (map o_id os)" and "k < length os"
  shows "lookup_by o_id (o_id (os ! k)) (upsert_options i pos os t) =
     Some (case lookup_by o_id (o_id (os ! k)) t of
           None \<Rightarrow> option_row_of i (pos + k) (os ! k)
         | Some old \<Rightarrow> if o_survey old = i
             then (option_row_of i (pos + k) (os ! k))\<lparr>o_created := o_created old\<rparr> else old)"
  using assms
proof (induction os arbitrary: pos t k)
  case (Cons o' os)
  show ?case
  proof (cases k)
    case 0
    with Cons.prems show ?thesis
      by (simp add: lookup_upsert_options_other lookup_upsert_option split: option.splits)
  next
    case (Suc k')
    with Cons.prems have "os ! k' \<in> set os" by simp
    moreover have "o_id o' \<notin> o_id ` set os" using Cons.prems by simp
    ultimately have "o_id (os ! k') \<noteq> o_id o'" by (metis imageI)
    moreover have "lookup_by o_id (o_id (os ! k')) (upsert_options i (Suc pos) os (upsert_option i pos o' t)) =
      Some (case lookup_by o_id (o_id (os ! k')) (upsert_option i pos o' t) of
           None \<Rightarrow> option_row_of i (Suc pos + k') (os ! k')
         | Some old \<Rightarrow> if o_survey old = i
             then (option_row_of i (Suc pos + k') (os ! k'))\<lparr>o_created := o_created old\<rparr> else old)"
      using Cons.prems Suc by (intro Cons.IH) auto
    ultimately show ?thesis
      by (simp add: Suc lookup_upsert_option split: option.split)
  qed
qed simp

text \<open>
  A survey can be saved faithfully when its identifiers are unique, the rows the tables
  already hold for it are its own and among its options with the same creation times, and no
  other survey owns one of its identifiers.
\<close>

definition savable :: "db \<Rightarrow> survey \<Rightarrow> bool" where
  "savable d sv =
     (ids_unique sv \<and>
      list_all (\<lambda>r. sv_id r = sv_id sv \<longrightarrow> sv_created r = sv_created sv) (surveys d) \<and>
      list_all (\<lambda>r. o_survey r = sv_id sv \<longrightarrow>
         list_ex (\<lambda>o'. o_id o' = o_id r \<and> o_created o' = o_created r) (options sv)) (opts d) \<and>
      list_all (\<lambda>r. o_id r \<in> o_id ` set (options sv) \<longrightarrow> o_survey r = sv_id sv) (opts d))"

definition keys_ok :: "db \<Rightarrow> bool" where
  "keys_ok d =
     (distinct (map sv_id (surveys d)) \<and> distinct (map o_id (opts d)) \<and>
      distinct (map r_id (responses d)) \<and>
      distinct (map (\<lambda>r. (r_survey r, r_voter r)) (responses d)) \<and>
      distinct (choices d) \<and> distinct (seen d))"

lemma unique_by_id: "ids_unique sv \<Longrightarrow> o1 \<in> set (options sv) \<Longrightarrow> o2 \<in> set (options sv) \<Longrightarrow>
  o_id o1 = o_id o2 \<Longrightarrow> o1 = o2"
  unfolding ids_unique_def by (metis lookup_by_mem option.inject)

lemma saved_rows:
  assumes k: "keys_ok d" and s: "savable d sv"
  shows "set (filter (\<lambda>r. o_survey r = sv_id sv) (upsert_options (sv_id sv) 0 (options sv) (opts d))) =
         (\<lambda>k. option_row_of (sv_id sv) k (options sv ! k)) ` {..<length (options sv)}"
    (is "?L = ?R")
proof -
  let ?t = "upsert_options (sv_id sv) 0 (options sv) (opts d)"
  have u: "distinct (map o_id (options sv))" using s by (simp add: savable_def ids_unique_def)
  have dt: "distinct (map o_id (opts d))" using k by (simp add: keys_ok_def)
  have dt': "distinct (map o_id ?t)" using ids_upsert_options [OF dt] by blast
  have row: "lookup_by o_id (o_id (options sv ! k)) ?t = Some (option_row_of (sv_id sv) k (options sv ! k))"
    if kk: "k < length (options sv)" for k
  proof (cases "lookup_by o_id (o_id (options sv ! k)) (opts d)")
    case None
    then show ?thesis using lookup_upsert_options [OF u kk, of "sv_id sv" 0 "opts d"] by simp
  next
    case (Some old)
    then have old: "old \<in> set (opts d)" "o_id old = o_id (options sv ! k)" by auto
    with s kk have own: "o_survey old = sv_id sv"
      by (auto simp: savable_def list_all_iff)
    with s old obtain o2 where "o2 \<in> set (options sv)" "o_id o2 = o_id old" "o_created o2 = o_created old"
      by (auto simp: savable_def list_all_iff list_ex_iff)
    with old kk s have "o_created old = o_created (options sv ! k)"
      using unique_by_id [of sv o2 "options sv ! k"] by (auto simp: savable_def)
    then show ?thesis
      using lookup_upsert_options [OF u kk, of "sv_id sv" 0 "opts d"] Some own
      by (simp add: option_row_of_def opt.defs option_row.defs)
  qed
  show ?thesis
  proof (intro equalityI subsetI)
    fix r assume "r \<in> ?L"
    then have r: "r \<in> set ?t" "o_survey r = sv_id sv" by auto
    have "o_id r \<in> o_id ` set (options sv)"
    proof (rule ccontr)
      assume no: "o_id r \<notin> o_id ` set (options sv)"
      from r dt' have "lookup_by o_id (o_id r) ?t = Some r" by (intro lookup_by_mem)
      with no have "lookup_by o_id (o_id r) (opts d) = Some r"
        by (simp add: lookup_upsert_options_other)
      then have "r \<in> set (opts d)" by auto
      with s r no show False
        unfolding savable_def list_all_iff list_ex_iff by (metis image_eqI)
    qed
    then obtain k where kk: "k < length (options sv)" "o_id r = o_id (options sv ! k)"
      by (auto simp: in_set_conv_nth)
    from r dt' have "lookup_by o_id (o_id r) ?t = Some r" by (intro lookup_by_mem)
    with row [OF kk(1)] kk(2) have "r = option_row_of (sv_id sv) k (options sv ! k)" by simp
    with kk(1) show "r \<in> ?R" by blast
  next
    fix r assume "r \<in> ?R"
    then obtain k where kk: "k < length (options sv)" "r = option_row_of (sv_id sv) k (options sv ! k)"
      by blast
    with row [OF kk(1)] have "r \<in> set ?t" by auto
    with kk(2) show "r \<in> ?L" by simp
  qed
qed

lemma saved_options:
  assumes k: "keys_ok d" and s: "savable d sv"
  shows "map opt.truncate (sort_key o_position
      (filter (\<lambda>r. o_survey r = sv_id sv) (upsert_options (sv_id sv) 0 (options sv) (opts d)))) = options sv"
    (is "map _ (sort_key _ ?rows) = _")
proof -
  let ?spec = "map (\<lambda>k. option_row_of (sv_id sv) k (options sv ! k)) [0..<length (options sv)]"
  have pos: "map o_position ?spec = [0..<length (options sv)]"
    by (simp add: comp_def)
  have st: "set (sort_key o_position ?rows) = set ?spec"
    using saved_rows [OF k s] by (simp add: atLeast0LessThan)
  have "distinct (map o_id (opts d))" using k by (simp add: keys_ok_def)
  then have "distinct (map o_id ?rows)"
    using ids_upsert_options by (metis map_distinct_filter)
  then have "distinct (sort_key o_position ?rows)"
    by (simp add: distinct_map)
  moreover have inj: "inj_on o_position (set ?spec)"
    by (rule inj_onI) (auto simp: )
  ultimately have "distinct (map o_position (sort_key o_position ?rows))"
    using st by (simp add: distinct_map)
  then have "sort_key o_position ?rows = ?spec"
    using st inj pos
    by (intro map_sorted_distinct_set_unique [where f = o_position]) (auto simp del: map_map)
  then have "map opt.truncate (sort_key o_position ?rows) = map opt.truncate ?spec"
    by (simp only:)
  also have "\<dots> = map (\<lambda>k. options sv ! k) [0..<length (options sv)]"
    by (simp add: comp_def)
  also have "\<dots> = options sv" by (rule map_nth)
  finally show ?thesis .
qed

lemma lookup_upsert_survey:
  "lookup_by sv_id j (upsert_survey r t) =
     (if j = sv_id r then
        Some (case lookup_by sv_id j t of None \<Rightarrow> r | Some old \<Rightarrow> r\<lparr>sv_created := sv_created old\<rparr>)
      else lookup_by sv_id j t)"
proof (cases "lookup_by sv_id (sv_id r) t")
  case None
  then have "upsert_survey r t = t @ [r]" by (simp add: upsert_survey_def)
  with None show ?thesis by (simp split: option.split)
next
  case (Some old)
  then have "upsert_survey r t = modify_by sv_id (sv_id r) (\<lambda>old. r\<lparr>sv_created := sv_created old\<rparr>) t"
    by (simp add: upsert_survey_def)
  moreover have "lookup_by sv_id j (modify_by sv_id (sv_id r) (\<lambda>old. r\<lparr>sv_created := sv_created old\<rparr>) t) =
      (if j = sv_id r then map_option (\<lambda>old. r\<lparr>sv_created := sv_created old\<rparr>) (lookup_by sv_id j t)
       else lookup_by sv_id j t)"
    by (rule lookup_modify_by) simp
  ultimately show ?thesis using Some by simp
qed

lemma ids_upsert_survey:
  assumes "distinct (map sv_id t)"
  shows "distinct (map sv_id (upsert_survey r t)) \<and>
    sv_id ` set (upsert_survey r t) = insert (sv_id r) (sv_id ` set t)"
proof (cases "lookup_by sv_id (sv_id r) t")
  case None
  then have "sv_id r \<notin> sv_id ` set t" by (simp add: lookup_by_None_iff)
  with assms show ?thesis unfolding upsert_survey_def None by simp
next
  case (Some old)
  let ?f = "\<lambda>old. r\<lparr>sv_created := sv_created old\<rparr>"
  have "map sv_id (modify_by sv_id (sv_id r) ?f t) = map sv_id t"
    by (rule map_key_modify_by) simp
  moreover from this have "sv_id ` set (modify_by sv_id (sv_id r) ?f t) = sv_id ` set t"
    by (metis list.set_map)
  moreover have "sv_id r \<in> sv_id ` set t" using lookup_by_SomeD [OF Some] by (metis imageI)
  ultimately show ?thesis using assms unfolding upsert_survey_def Some by auto
qed

lemma upsert_survey_mem: "s \<in> set (upsert_survey r t) \<Longrightarrow> s \<in> set t \<or> (\<exists>c. s = r\<lparr>sv_created := c\<rparr>)"
proof (cases "lookup_by sv_id (sv_id r) t")
  case None
  assume "s \<in> set (upsert_survey r t)"
  with None have "s \<in> set t \<or> s = r" by (auto simp: upsert_survey_def)
  then show ?thesis by (metis survey_row.surjective survey_row.update_convs(12))
next
  case (Some old)
  assume "s \<in> set (upsert_survey r t)"
  with Some show ?thesis by (auto simp: upsert_survey_def set_modify_by)
qed

lemma stamp_opened_fields [simp]:
  "sv_id (stamp_opened now sv) = sv_id sv" "options (stamp_opened now sv) = options sv"
  "sv_state (stamp_opened now sv) = sv_state sv" "sv_created (stamp_opened now sv) = sv_created sv"
  "close_at (stamp_opened now sv) = close_at sv"
  by (simp_all add: stamp_opened_def)

lemma saveSurvey_cases:
  assumes "saveSurvey now d sv = Inr (sv', d')"
  shows "sv' = stamp_opened now sv \<and>
    (length (options sv) \<le> maxOptions \<or> length (options sv) \<le> length (owned d (sv_id sv))) \<and>
    d' = d\<lparr>surveys := upsert_survey (survey_row.truncate (stamp_opened now sv)) (surveys d),
           opts := upsert_options (sv_id sv) 0 (options sv) (opts d)\<rparr>"
  using assms by (auto simp: saveSurvey_def Let_def split: if_splits)

lemma loadOptions_saved:
  assumes "keys_ok d" and "savable d sv" and "saveSurvey now d sv = Inr (sv', d')"
  shows "loadOptions d' (sv_id sv) = options sv"
  using saved_options [OF assms(1,2)] saveSurvey_cases [OF assms(3)]
  by (simp add: loadOptions_def owned_def)

lemma save_then_load:
  assumes k: "keys_ok d" and s: "savable d sv" and r: "saveSurvey now d sv = Inr (sv', d')"
  shows "loadSurvey d' (sv_id sv) = Some sv'"
proof -
  have row: "lookup_by sv_id (sv_id sv) (surveys d') = Some (survey_row.truncate (stamp_opened now sv))"
  proof (cases "lookup_by sv_id (sv_id sv) (surveys d)")
    case None
    then show ?thesis using saveSurvey_cases [OF r] by (simp add: lookup_upsert_survey)
  next
    case (Some old)
    then have "sv_created old = sv_created (stamp_opened now sv)"
      using s by (auto simp: savable_def list_all_iff)
    then have "(survey_row.truncate (stamp_opened now sv))\<lparr>sv_created := sv_created old\<rparr> =
        survey_row.truncate (stamp_opened now sv)"
      by (simp add: survey_row.defs)
    with Some show ?thesis using saveSurvey_cases [OF r] by (simp add: lookup_upsert_survey)
  qed
  show ?thesis
    using loadOptions_saved [OF assms] saveSurvey_cases [OF r]
    unfolding loadSurvey_def row option.case by (simp add: stamp_opened_def)
qed

lemma save_frame:
  assumes r: "saveSurvey now d sv = Inr (sv', d')" and "j \<noteq> sv_id sv"
  shows "loadSurvey d' j = loadSurvey d j"
proof -
  have "loadOptions d' j = loadOptions d j"
    using saveSurvey_cases [OF r] assms(2)
    by (simp add: loadOptions_def owned_def others_upsert_options)
  moreover have "lookup_by sv_id j (surveys d') = lookup_by sv_id j (surveys d)"
    using saveSurvey_cases [OF r] assms(2) by (simp add: lookup_upsert_survey)
  ultimately show ?thesis by (simp add: loadSurvey_def split: option.split)
qed

section \<open>The repository interface\<close>

text \<open>
  What the store's operations rely on from \<open>loadSurvey\<close> and \<open>saveSurvey\<close>: a saved thing is
  read back as saved under its own key, and reads under other keys do not change. The client's
  \<open>change\<close> is the load, edit, save of \<open>UpdateSurvey\<close>.
\<close>

locale repository =
  fixes load :: "'d \<Rightarrow> 'k \<Rightarrow> 's option"
    and save :: "'d \<Rightarrow> 's \<Rightarrow> 'e + ('s \<times> 'd)"
    and ident :: "'s \<Rightarrow> 'k"
    and good :: "'d \<Rightarrow> 's \<Rightarrow> bool"
  assumes load_ident: "load d i = Some s \<Longrightarrow> ident s = i"
    and read_back: "good d s \<Longrightarrow> save d s = Inr (s', d') \<Longrightarrow> load d' (ident s) = Some s'"
    and frame: "save d s = Inr (s', d') \<Longrightarrow> j \<noteq> ident s \<Longrightarrow> load d' j = load d j"
begin

definition change :: "'e \<Rightarrow> 'k \<Rightarrow> ('s \<Rightarrow> 'e + 's) \<Rightarrow> 'd \<Rightarrow> 'e + ('s \<times> 'd)" where
  "change missing i fn d =
     (case load d i of None \<Rightarrow> Inl missing | Some s \<Rightarrow> bindE (fn s) (save d))"

lemma change_missing: "load d i = None \<Longrightarrow> change missing i fn d = Inl missing"
  by (simp add: change_def)

lemma change_reads_back:
  assumes "change missing i fn d = Inr (s', d')"
    and "\<And>s s1. load d i = Some s \<Longrightarrow> fn s = Inr s1 \<Longrightarrow> good d s1 \<and> ident s1 = ident s"
  shows "load d' i = Some s'"
proof -
  from assms(1) obtain s s1 where s: "load d i = Some s" "fn s = Inr s1" "save d s1 = Inr (s', d')"
    by (auto simp: change_def split: option.splits)
  with assms(2) load_ident have "good d s1" "ident s1 = i" by auto
  with read_back [OF _ s(3)] show ?thesis by simp
qed

lemma change_frame:
  assumes "change missing i fn d = Inr (s', d')" and "j \<noteq> i"
    and "\<And>s s1. load d i = Some s \<Longrightarrow> fn s = Inr s1 \<Longrightarrow> ident s1 = ident s"
  shows "load d' j = load d j"
proof -
  from assms(1) obtain s s1 where s: "load d i = Some s" "fn s = Inr s1" "save d s1 = Inr (s', d')"
    by (auto simp: change_def split: option.splits)
  with assms(3) load_ident have "ident s1 = i" by auto
  with frame [OF s(3)] assms(2) show ?thesis by simp
qed

lemma change_refused: "load d i = Some s \<Longrightarrow> fn s = Inl e \<Longrightarrow> change missing i fn d = Inl e"
  by (simp add: change_def)

end

interpretation survey_repo: repository loadSurvey "saveSurvey now" sv_id "\<lambda>d sv. keys_ok d \<and> savable d sv"
  for now
  by unfold_locales (auto dest: loadSurvey_id save_then_load save_frame)

lemma UpdateSurvey_is_change:
  "UpdateSurvey now i fn d =
     survey_repo.change now (ErrNotFound ''survey'' i) i
       (\<lambda>sv. bindE (fn sv) (\<lambda>sv. Inr (sv\<lparr>sv_updated := now\<rparr>))) d"
  unfolding UpdateSurvey_def survey_repo.change_def bindE_def
  by (simp split: option.split sum.split)

end
