(* ===== verification/Integrity.thy ===== *)
theory Integrity
  imports Database
begin

text \<open>
  The invariant of the whole database and its preservation by the writes of a survey: keys are
  unique, every foreign key refers to a row that exists, a vote is only ever for something its
  respondent was shown, a shown option belongs to the survey that was answered, an open survey
  knows when it was first opened, and every stored survey satisfies the moderation invariant
  \<open>survey_ok\<close>.
\<close>

section \<open>The invariant\<close>

definition refs_ok :: "db \<Rightarrow> bool" where
  "refs_ok d =
     (list_all (\<lambda>o'. o_survey o' \<in> sv_id ` set (surveys d)) (opts d) \<and>
      list_all (\<lambda>r. r_survey r \<in> sv_id ` set (surveys d)) (responses d))"

definition votes_ok :: "db \<Rightarrow> bool" where
  "votes_ok d =
     (list_all (\<lambda>c. c \<in> set (seen d)) (choices d) \<and>
      list_all (\<lambda>c. list_ex (\<lambda>r. r_id r = fst c \<and>
          (snd c, r_survey r) \<in> (\<lambda>o'. (o_id o', o_survey o')) ` set (opts d)) (responses d)) (seen d))"

definition opened_ok :: "db \<Rightarrow> bool" where
  "opened_ok d = list_all (\<lambda>s. sv_state s = StateOpen \<longrightarrow> first_opened_at s \<noteq> 0) (surveys d)"

definition surveys_ok :: "db \<Rightarrow> bool" where
  "surveys_ok d =
     list_all (\<lambda>r. case loadSurvey d (sv_id r) of None \<Rightarrow> False | Some sv \<Rightarrow> survey_ok sv) (surveys d)"

definition db_ok :: "db \<Rightarrow> bool" where
  "db_ok d = (keys_ok d \<and> refs_ok d \<and> votes_ok d \<and> opened_ok d \<and> surveys_ok d)"

lemma db_okD:
  assumes "db_ok d"
  shows "keys_ok d" "refs_ok d" "votes_ok d" "opened_ok d" "surveys_ok d"
  using assms by (simp_all add: db_ok_def)

lemma keys_okD:
  assumes "keys_ok d"
  shows "distinct (map sv_id (surveys d))" "distinct (map o_id (opts d))"
    "distinct (map r_id (responses d))" "distinct (map (\<lambda>r. (r_survey r, r_voter r)) (responses d))"
    "distinct (choices d)" "distinct (seen d)"
  using assms by (simp_all add: keys_ok_def)

lemma loadSurvey_mem: "loadSurvey d i = Some sv \<Longrightarrow> i \<in> sv_id ` set (surveys d)"
  by (metis loadSurvey_None_iff option.distinct(1))

lemma surveys_ok_load: "surveys_ok d \<Longrightarrow> loadSurvey d i = Some sv \<Longrightarrow> survey_ok sv"
  using loadSurvey_mem by (fastforce simp: surveys_ok_def list_all_iff)

lemma surveys_okI:
  assumes "\<And>i sv. loadSurvey d i = Some sv \<Longrightarrow> survey_ok sv"
  shows "surveys_ok d"
  unfolding surveys_ok_def list_all_iff
proof
  fix r assume "r \<in> set (surveys d)"
  then have "loadSurvey d (sv_id r) \<noteq> None" by (auto simp: loadSurvey_None_iff)
  with assms show "case loadSurvey d (sv_id r) of None \<Rightarrow> False | Some sv \<Rightarrow> survey_ok sv"
    by (auto split: option.splits)
qed

lemma opened_ok_load:
  assumes "opened_ok d" and "loadSurvey d i = Some sv" and "sv_state sv = StateOpen"
  shows "first_opened_at sv \<noteq> 0"
  using assms by (auto simp: opened_ok_def loadSurvey_def list_all_iff split: option.splits)

lemma load_row:
  assumes "loadSurvey d i = Some sv" and "keys_ok d"
  shows "lookup_by sv_id i (surveys d) = Some (survey_row.truncate sv)" "options sv = loadOptions d i"
  using assms by (auto simp: loadSurvey_def survey_row.defs survey.defs split: option.splits)

section \<open>Edits that only grow a survey\<close>

text \<open>
  Every edit of the program keeps a survey's creation time and the identifiers, order and creation
  times of its options, and appends options whose identifiers are new to the whole table. Such
  a survey can be saved faithfully.
\<close>

definition ident :: "opt \<Rightarrow> string \<times> time" where
  "ident o' = (o_id o', o_created o')"

definition grows :: "db \<Rightarrow> survey \<Rightarrow> bool" where
  "grows d sv =
     (let old = loadOptions d (sv_id sv) in
      ids_unique sv \<and>
      list_all (\<lambda>r. sv_id r = sv_id sv \<longrightarrow> sv_created r = sv_created sv) (surveys d) \<and>
      map ident (take (length old) (options sv)) = map ident old \<and>
      list_all (\<lambda>o'. o_id o' \<notin> o_id ` set (opts d)) (drop (length old) (options sv)))"

lemma ident_truncate: "ident (opt.truncate r) = (o_id r, o_created r)"
  by (simp add: ident_def)

lemma grows_savable:
  assumes k: "keys_ok d" and g: "grows d sv"
  shows "savable d sv"
proof -
  let ?old = "loadOptions d (sv_id sv)" and ?n = "length (loadOptions d (sv_id sv))"
  have pre: "map ident (take ?n (options sv)) = map ident ?old"
    and new: "\<And>o'. o' \<in> set (drop ?n (options sv)) \<Longrightarrow> o_id o' \<notin> o_id ` set (opts d)"
    and u: "ids_unique sv"
    and c: "list_all (\<lambda>r. sv_id r = sv_id sv \<longrightarrow> sv_created r = sv_created sv) (surveys d)"
    using g by (auto simp: grows_def Let_def list_all_iff)
  have kept: "\<exists>o'\<in>set (options sv). o_id o' = o_id r \<and> o_created o' = o_created r"
    if "r \<in> set (opts d)" "o_survey r = sv_id sv" for r
  proof -
    from that have "opt.truncate r \<in> set ?old"
      by (auto simp: set_loadOptions owned_def)
    then have "ident (opt.truncate r) \<in> set (map ident ?old)" by (metis image_eqI list.set_map)
    with pre have "ident (opt.truncate r) \<in> set (map ident (take ?n (options sv)))" by metis
    then obtain o' where "o' \<in> set (take ?n (options sv))" "ident o' = ident (opt.truncate r)"
      by (auto simp: image_iff)
    then show ?thesis by (auto simp: ident_def dest!: in_set_takeD intro!: bexI [of _ o'])
  qed
  have own: "o_survey r = sv_id sv" if r: "r \<in> set (opts d)" and i: "o_id r \<in> o_id ` set (options sv)" for r
  proof -
    from i obtain o' where o': "o' \<in> set (options sv)" "o_id o' = o_id r" by auto
    with r new have "o' \<notin> set (drop ?n (options sv))" by (metis imageI)
    with o' have "o' \<in> set (take ?n (options sv))"
      by (metis append_take_drop_id Un_iff set_append)
    then have "ident o' \<in> set (map ident (take ?n (options sv)))" by simp
    with pre have "ident o' \<in> ident ` set ?old" by (metis list.set_map)
    then obtain r2 where "r2 \<in> set (opts d)" "o_survey r2 = sv_id sv" "o_id r2 = o_id o'"
      by (auto simp: set_loadOptions owned_def ident_def)
    with o' r k show ?thesis by (metis keys_okD(2) lookup_by_mem option.inject)
  qed
  from u c kept own show ?thesis
    by (auto simp: savable_def list_all_iff list_ex_iff)
qed

lemma upsert_option_owners:
  assumes "distinct (map o_id t)"
  shows "(\<lambda>r. (o_id r, o_survey r)) ` set t \<subseteq> (\<lambda>r. (o_id r, o_survey r)) ` set (upsert_option i pos o' t)"
    and "r \<in> set (upsert_option i pos o' t) \<Longrightarrow> o_survey r \<in> insert i (o_survey ` set t)"
proof -
  show "(\<lambda>r. (o_id r, o_survey r)) ` set t \<subseteq> (\<lambda>r. (o_id r, o_survey r)) ` set (upsert_option i pos o' t)"
  proof (cases "lookup_by o_id (o_id o') t")
    case None
    then show ?thesis by (auto simp: upsert_option_def)
  next
    case (Some old)
    have "(\<lambda>r. (o_id r, o_survey r)) ` set (upsert_option i pos o' t) = (\<lambda>r. (o_id r, o_survey r)) ` set t"
      unfolding upsert_option_def Some option.case set_modify_by image_image
      by (intro image_cong) auto
    then show ?thesis by simp
  qed
  show "o_survey r \<in> insert i (o_survey ` set t)" if "r \<in> set (upsert_option i pos o' t)"
    using that by (cases "lookup_by o_id (o_id o') t")
      (auto simp: upsert_option_def set_modify_by split: if_splits)
qed

lemma upsert_options_owners:
  assumes "distinct (map o_id t)"
  shows "(\<lambda>r. (o_id r, o_survey r)) ` set t \<subseteq> (\<lambda>r. (o_id r, o_survey r)) ` set (upsert_options i pos os t)"
    and "r \<in> set (upsert_options i pos os t) \<Longrightarrow> o_survey r \<in> insert i (o_survey ` set t)"
proof -
  show "(\<lambda>r. (o_id r, o_survey r)) ` set t \<subseteq> (\<lambda>r. (o_id r, o_survey r)) ` set (upsert_options i pos os t)"
    using assms
  proof (induction os arbitrary: pos t)
    case (Cons o' os)
    have d: "distinct (map o_id (upsert_option i pos o' t))" using ids_upsert_option [OF Cons.prems] by blast
    from Cons.IH [OF d, of "Suc pos"] upsert_option_owners(1) [OF Cons.prems, of i pos o']
    show ?case unfolding upsert_options.simps by (rule subset_trans [rotated])
  qed simp
  show "o_survey r \<in> insert i (o_survey ` set t)" if "r \<in> set (upsert_options i pos os t)"
    using assms that
  proof (induction os arbitrary: pos t)
    case (Cons o' os)
    have d: "distinct (map o_id (upsert_option i pos o' t))" using ids_upsert_option [OF Cons.prems(1)] by blast
    from Cons.IH [OF d, of "Suc pos"] Cons.prems(2)
    have "o_survey r = i \<or> (\<exists>q\<in>set (upsert_option i pos o' t). o_survey r = o_survey q)" by auto
    then show ?case using upsert_option_owners(2) [OF Cons.prems(1), of _ i pos o'] by (metis insertI1)
  qed auto
qed

section \<open>Saving a survey keeps the invariant\<close>

lemma saveSurvey_rest:
  assumes "saveSurvey now d sv = Inr (sv', d')"
  shows "meta d' = meta d" "users d' = users d" "invites d' = invites d" "resets d' = resets d"
    "responses d' = responses d" "choices d' = choices d" "seen d' = seen d"
  using saveSurvey_cases [OF assms] by simp_all

lemma saveSurvey_keys:
  assumes k: "keys_ok d" and r: "saveSurvey now d sv = Inr (sv', d')"
  shows "keys_ok d'" and "sv_id ` set (surveys d') = insert (sv_id sv) (sv_id ` set (surveys d))"
proof -
  from saveSurvey_cases [OF r] have
    s: "surveys d' = upsert_survey (survey_row.truncate (stamp_opened now sv)) (surveys d)"
    and o': "opts d' = upsert_options (sv_id sv) 0 (options sv) (opts d)" by simp_all
  show "keys_ok d'"
    using k ids_upsert_survey [OF keys_okD(1) [OF k]] ids_upsert_options [OF keys_okD(2) [OF k]]
    by (simp add: keys_ok_def s o' saveSurvey_rest [OF r])
  show "sv_id ` set (surveys d') = insert (sv_id sv) (sv_id ` set (surveys d))"
    unfolding s using ids_upsert_survey [OF keys_okD(1) [OF k]] by simp
qed

lemma saveSurvey_owners:
  assumes k: "keys_ok d" and r: "saveSurvey now d sv = Inr (sv', d')"
  shows "(\<lambda>r. (o_id r, o_survey r)) ` set (opts d) \<subseteq> (\<lambda>r. (o_id r, o_survey r)) ` set (opts d')"
  using upsert_options_owners(1) [OF keys_okD(2) [OF k], of "sv_id sv" 0 "options sv"]
    saveSurvey_cases [OF r] by simp

lemma saveSurvey_refs:
  assumes k: "keys_ok d" and f: "refs_ok d" and r: "saveSurvey now d sv = Inr (sv', d')"
  shows "refs_ok d'"
proof -
  note ids = saveSurvey_keys(2) [OF k r]
  have "o_survey o' \<in> sv_id ` set (surveys d')" if "o' \<in> set (opts d')" for o'
  proof -
    from that have "o' \<in> set (upsert_options (sv_id sv) 0 (options sv) (opts d))"
      using saveSurvey_cases [OF r] by simp
    then have "o_survey o' \<in> insert (sv_id sv) (o_survey ` set (opts d))"
      by (rule upsert_options_owners(2) [OF keys_okD(2) [OF k]])
    with f show ?thesis unfolding ids by (auto simp: refs_ok_def list_all_iff)
  qed
  moreover have "r_survey q \<in> sv_id ` set (surveys d')" if "q \<in> set (responses d')" for q
    using that f unfolding ids saveSurvey_rest [OF r] by (auto simp: refs_ok_def list_all_iff)
  ultimately show ?thesis by (simp add: refs_ok_def list_all_iff)
qed

lemma votes_ok_mono:
  assumes v: "votes_ok d" and "responses d' = responses d" "choices d' = choices d" "seen d' = seen d"
    and "(\<lambda>r. (o_id r, o_survey r)) ` set (opts d) \<subseteq> (\<lambda>r. (o_id r, o_survey r)) ` set (opts d')"
  shows "votes_ok d'"
proof -
  let ?own = "(\<lambda>r. (o_id r, o_survey r)) :: option_row \<Rightarrow> _"
  have "list_ex (\<lambda>r. r_id r = fst c \<and> (snd c, r_survey r) \<in> ?own ` set (opts d')) (responses d)"
    if "c \<in> set (seen d)" for c
  proof -
    from v that obtain r where "r \<in> set (responses d)" "r_id r = fst c"
      "(snd c, r_survey r) \<in> ?own ` set (opts d)"
      by (auto simp: votes_ok_def list_all_iff list_ex_iff)
    with assms(5) have "r \<in> set (responses d) \<and> r_id r = fst c \<and> (snd c, r_survey r) \<in> ?own ` set (opts d')"
      by (meson subsetD)
    then show ?thesis unfolding list_ex_iff by blast
  qed
  with v show ?thesis unfolding votes_ok_def assms(2-4) list_all_iff by blast
qed

lemma saveSurvey_opened:
  assumes op: "opened_ok d" and r: "saveSurvey now d sv = Inr (sv', d')" and now: "now \<noteq> 0"
  shows "opened_ok d'"
  unfolding opened_ok_def list_all_iff
proof
  fix s assume "s \<in> set (surveys d')"
  then have "s \<in> set (surveys d) \<or> (\<exists>c. s = (survey_row.truncate (stamp_opened now sv))\<lparr>sv_created := c\<rparr>)"
    using saveSurvey_cases [OF r] upsert_survey_mem by fastforce
  with op now show "sv_state s = StateOpen \<longrightarrow> first_opened_at s \<noteq> 0"
    by (cases "sv_state sv = StateOpen \<and> first_opened_at sv = 0")
      (auto simp: opened_ok_def list_all_iff stamp_opened_def IsZero_def)
qed

lemma survey_ok_parts: "options s' = options s \<Longrightarrow> survey_ok s' = survey_ok s"
proof -
  assume o': "options s' = options s"
  then have "OptionOf s' i = OptionOf s i" for i by (simp add: OptionOf_def)
  with o' have "ends s' i = ends s i" for i by (intro Resolve_shape) simp_all
  with o' show ?thesis by (simp add: survey_ok_def ids_unique_def)
qed

lemma saveSurvey_surveys_ok:
  assumes k: "keys_ok d" and s: "surveys_ok d" and g: "grows d sv" and ok: "survey_ok sv"
    and r: "saveSurvey now d sv = Inr (sv', d')"
  shows "surveys_ok d'"
proof (rule surveys_okI)
  fix i sv2 assume l: "loadSurvey d' i = Some sv2"
  show "survey_ok sv2"
  proof (cases "i = sv_id sv")
    case True
    then have "sv2 = stamp_opened now sv"
      using l save_then_load [OF k grows_savable [OF k g] r] saveSurvey_cases [OF r] by simp
    with ok show ?thesis by (simp add: survey_ok_parts [of "stamp_opened now sv" sv])
  next
    case False
    with l save_frame [OF r] have "loadSurvey d i = Some sv2" by simp
    with s show ?thesis by (rule surveys_ok_load)
  qed
qed

lemma saveSurvey_db_ok [preserves]:
  assumes ok: "db_ok d" and g: "grows d sv" and sv: "survey_ok sv" and now: "now \<noteq> 0"
    and r: "saveSurvey now d sv = Inr (sv', d')"
  shows "db_ok d'"
proof -
  note d = db_okD [OF ok]
  show ?thesis
    unfolding db_ok_def
    using saveSurvey_keys(1) [OF d(1) r] saveSurvey_refs [OF d(1,2) r]
      votes_ok_mono [OF d(3) saveSurvey_rest(5-7) [OF r] saveSurvey_owners [OF d(1) r]]
      saveSurvey_opened [OF d(4) r now] saveSurvey_surveys_ok [OF d(1,5) g sv r]
    by blast
qed

text \<open>An edit of a loaded survey grows it when it keeps the old options in place.\<close>

definition edit_of :: "db \<Rightarrow> survey \<Rightarrow> survey \<Rightarrow> bool" where
  "edit_of d sv sv1 =
     (sv_id sv1 = sv_id sv \<and> sv_created sv1 = sv_created sv \<and> ids_unique sv1 \<and>
      map ident (take (length (options sv)) (options sv1)) = map ident (options sv) \<and>
      list_all (\<lambda>o'. o_id o' \<notin> o_id ` set (opts d)) (drop (length (options sv)) (options sv1)))"

lemma edit_grows:
  assumes k: "keys_ok d" and l: "loadSurvey d i = Some sv" and e: "edit_of d sv sv1"
  shows "grows d sv1"
proof -
  have i: "sv_id sv = i" using l by (rule loadSurvey_id)
  have o': "loadOptions d i = options sv" using load_row(2) [OF l k] by simp
  have "lookup_by sv_id i (surveys d) = Some (survey_row.truncate sv)" by (rule load_row [OF l k])
  then have "sv_created r = sv_created sv" if "r \<in> set (surveys d)" "sv_id r = i" for r
    using that keys_okD(1) [OF k] by (metis lookup_by_mem option.inject row_fields(4))
  with e i o' show ?thesis by (auto simp: grows_def edit_of_def list_all_iff Let_def)
qed

lemma edit_of_fields:
  assumes "edit_of d sv sv1" and "sv_id sv2 = sv_id sv1" "sv_created sv2 = sv_created sv1" "options sv2 = options sv1"
  shows "edit_of d sv sv2"
  using assms by (simp add: edit_of_def ids_unique_def)

lemma UpdateSurvey_cases:
  assumes "UpdateSurvey now i fn d = Inr (sv', d')"
  obtains sv sv1 where "loadSurvey d i = Some sv" "fn sv = Inr sv1"
    "saveSurvey now d (sv1\<lparr>sv_updated := now\<rparr>) = Inr (sv', d')"
  using assms by (auto simp: UpdateSurvey_def split: option.splits)

lemma UpdateSurvey_db_ok [preserves]:
  assumes ok: "db_ok d" and r: "UpdateSurvey now i fn d = Inr (sv', d')" and now: "now \<noteq> 0"
    and fn: "\<And>sv sv1. loadSurvey d i = Some sv \<Longrightarrow> survey_ok sv \<Longrightarrow> fn sv = Inr sv1 \<Longrightarrow>
       edit_of d sv sv1 \<and> survey_ok sv1"
  shows "db_ok d'"
  using r
proof (cases rule: UpdateSurvey_cases)
  case (1 sv sv1)
  note d = db_okD [OF ok]
  have "survey_ok sv" using d(5) 1(1) by (rule surveys_ok_load)
  with fn 1 have e: "edit_of d sv sv1" "survey_ok sv1" by blast+
  then have "edit_of d sv (sv1\<lparr>sv_updated := now\<rparr>)" by (auto intro: edit_of_fields)
  then have "grows d (sv1\<lparr>sv_updated := now\<rparr>)" by (rule edit_grows [OF d(1) 1(1)])
  moreover have "survey_ok (sv1\<lparr>sv_updated := now\<rparr>)" using e(2) by (simp add: survey_ok_parts [of "sv1\<lparr>sv_updated := now\<rparr>" sv1])
  ultimately show ?thesis using saveSurvey_db_ok [OF ok _ _ now 1(3)] by blast
qed

section \<open>The program's edits\<close>

lemma edit_of_modify:
  assumes "ids_unique sv" and "\<And>o'. ident (f o') = ident o'"
  shows "edit_of d sv (sv\<lparr>options := modify_by o_id k f (options sv)\<rparr>)"
proof -
  have m: "map ident (modify_by o_id k f (options sv)) = map ident (options sv)"
    using assms(2) by (intro map_key_modify_by)
  have "map o_id xs = map fst (map ident xs)" for xs by (simp add: ident_def)
  with m have "map o_id (modify_by o_id k f (options sv)) = map o_id (options sv)" by metis
  with m assms(1) show ?thesis by (simp add: edit_of_def ids_unique_def)
qed

lemma edit_of_SetOptionText:
  assumes "ids_unique sv" and "SetOptionText sv i txt = Inr sv1"
  shows "edit_of d sv sv1"
  using SetOptionText_cases [OF assms(2,1)] edit_of_modify [OF assms(1)] by (simp add: ident_def)

lemma edit_of_SetOptionStatus:
  assumes "ids_unique sv" and "SetOptionStatus sv i status into = Inr sv1"
  shows "edit_of d sv sv1"
  using SetOptionStatus_cases [OF assms(2,1)] edit_of_modify [OF assms(1)] by (auto simp: ident_def)

lemma options_in_table:
  assumes "loadSurvey d i = Some sv" and "keys_ok d"
  shows "o_id ` set (options sv) \<subseteq> o_id ` set (opts d)"
  using load_row(2) [OF assms] ids_loadOptions [of d i] by (auto simp: owned_def)

lemma edit_of_AddOption:
  assumes "ids_unique sv" and "AddOption nid now sv txt status source = Inr (x, sv1)"
    and "nid \<notin> o_id ` set (opts d)" and "o_id ` set (options sv) \<subseteq> o_id ` set (opts d)"
  shows "edit_of d sv sv1"
  using AddOption_cases [OF assms(2)] assms(1,3,4) by (auto simp: edit_of_def ids_unique_def)

text \<open>A loaded option is owned by the survey it was loaded for.\<close>

lemma option_owner:
  assumes "loadSurvey d i = Some sv" and "keys_ok d" and "o' \<in> set (options sv)"
  shows "(o_id o', i) \<in> (\<lambda>o'. (o_id o', o_survey o')) ` set (opts d)"
  using load_row(2) [OF assms(1,2)] assms(3) by (auto simp: set_loadOptions owned_def)

lemma owner_option:
  assumes "loadSurvey d i = Some sv" and "keys_ok d"
    and "(j, i) \<in> (\<lambda>o'. (o_id o', o_survey o')) ` set (opts d)"
  shows "j \<in> o_id ` set (options sv)"
  using load_row(2) [OF assms(1,2)] assms(3) ids_loadOptions [of d i] by (auto simp: owned_def)

section \<open>Creating and deleting surveys\<close>

definition fresh_ids :: "db \<Rightarrow> string \<Rightarrow> (nat \<Rightarrow> string) \<Rightarrow> bool" where
  "fresh_ids d nid ids = (nid \<notin> sv_id ` set (surveys d) \<and> inj ids \<and> range ids \<inter> o_id ` set (opts d) = {})"

lemma mk_options_ids:
  "o' \<in> set (mk_options ids k now ts) \<Longrightarrow> \<exists>j\<ge>k. o_id o' = ids j \<and> o_status o' = OptApproved \<and> o_merged o' = []
     \<and> o_text o' \<noteq> [] \<and> TrimSpace (o_text o') = o_text o'"
proof (induction ts arbitrary: k)
  case (Cons t ts)
  then have "(o_id o' = ids k \<and> o_status o' = OptApproved \<and> o_merged o' = [] \<and> o_text o' \<noteq> []
      \<and> TrimSpace (o_text o') = o_text o') \<or>
    o' \<in> set (mk_options ids (Suc k) now ts) \<or> o' \<in> set (mk_options ids k now ts)"
    by (auto simp: Let_def split: if_splits)
  with Cons.IH show ?case by (metis Suc_leD le_refl)
qed simp

lemma mk_options_distinct: "inj ids \<Longrightarrow> distinct (map o_id (mk_options ids k now ts))"
proof (induction ts arbitrary: k)
  case (Cons t ts)
  have "ids k \<notin> o_id ` set (mk_options ids (Suc k) now ts)"
  proof
    assume "ids k \<in> o_id ` set (mk_options ids (Suc k) now ts)"
    then obtain j where "j \<ge> Suc k" "ids k = ids j" using mk_options_ids by (smt (verit) imageE)
    with Cons.prems show False by (auto dest: injD)
  qed
  with Cons show ?case by (simp add: Let_def)
qed simp

lemma survey_ok_plain:
  assumes "ids_unique s" and "\<And>o'. o' \<in> set (options s) \<Longrightarrow> o_status o' = OptApproved \<and> o_merged o' = []"
  shows "survey_ok s"
proof -
  have "ends s (o_id o')" if "o' \<in> set (options s)" for o'
  proof -
    have "OptionOf s (o_id o') = Some o'"
      using that assms(1) by (simp add: OptionOf_def ids_unique_def lookup_by_mem)
    moreover have "\<not> forwards o'" using assms(2) [OF that] by (simp add: forwards_def)
    ultimately have "leads s 0 (o_id o') o'" by (rule leads.here)
    then show ?thesis by (auto simp: ends_iff)
  qed
  with assms show ?thesis by (auto simp: survey_ok_def list_all_iff opt_ok_def validOptionStatus_def)
qed

lemma CreateSurvey_cases:
  assumes "CreateSurvey nid ids now title desc texts d = Inr (sv', d')"
  obtains sv where "saveSurvey now d sv = Inr (sv', d')" "sv_id sv = nid" "sv_state sv = StateDraft"
    "sv_title sv = TrimSpace title" "TrimSpace title \<noteq> []" "first_opened_at sv = 0"
    "options sv = mk_options ids 0 now texts" "sv' = sv"
proof -
  let ?sv = "\<lparr>sv_id = nid, sv_type = TypeThumbsUp, sv_title = TrimSpace title, sv_desc = TrimSpace desc,
         sv_state = StateDraft, show_results = False, allow_write_in = True, allow_comment = True,
         no_randomize = False, close_at = 0, first_opened_at = 0, sv_created = now, sv_updated = now,
         options = mk_options ids 0 now texts\<rparr>"
  from assms have t: "TrimSpace title \<noteq> []" and s: "saveSurvey now d ?sv = Inr (sv', d')"
    by (auto simp: CreateSurvey_def Let_def split: if_splits)
  from saveSurvey_cases [OF s] have "sv' = ?sv" by (simp add: stamp_opened_def)
  with that [OF s] t show thesis by simp
qed

lemma new_survey_grows:
  assumes k: "keys_ok d" and f: "refs_ok d" and fr: "fresh_ids d (sv_id sv) ids"
    and o': "options sv = mk_options ids 0 now texts"
  shows "grows d sv"
proof -
  have "owned d (sv_id sv) = []"
    using f fr unfolding refs_ok_def list_all_iff fresh_ids_def owned_def filter_empty_conv by metis
  then have old: "loadOptions d (sv_id sv) = []" by (simp add: loadOptions_def)
  have "o_id x \<notin> o_id ` set (opts d)" if x: "x \<in> set (mk_options ids 0 now texts)" for x
  proof -
    from mk_options_ids [OF x] obtain j where "o_id x = ids j" by blast
    with fr show ?thesis unfolding fresh_ids_def by (metis disjoint_iff rangeI)
  qed
  moreover have "distinct (map o_id (mk_options ids 0 now texts))"
    using fr by (intro mk_options_distinct) (simp add: fresh_ids_def)
  moreover have "list_all (\<lambda>r. sv_id r = sv_id sv \<longrightarrow> sv_created r = sv_created sv) (surveys d)"
    using fr by (force simp: fresh_ids_def list_all_iff)
  ultimately show ?thesis by (simp add: grows_def old o' ids_unique_def list_all_iff)
qed

lemma CreateSurvey_db_ok [preserves]:
  assumes ok: "db_ok d" and fr: "fresh_ids d nid ids" and now: "now \<noteq> 0"
    and r: "CreateSurvey nid ids now title desc texts d = Inr (sv', d')"
  shows "db_ok d' \<and> loadSurvey d' nid = Some sv'"
  using r
proof (cases rule: CreateSurvey_cases)
  case (1 sv)
  note d = db_okD [OF ok]
  have g: "grows d sv" using fr 1 by (intro new_survey_grows [OF d(1,2)]) simp_all
  have "ids_unique sv" using g by (simp add: grows_def Let_def)
  moreover have "o_status x = OptApproved \<and> o_merged x = []" if "x \<in> set (options sv)" for x
    using mk_options_ids that 1(7) by fastforce
  ultimately have "survey_ok sv" by (rule survey_ok_plain)
  then have "db_ok d'" by (rule saveSurvey_db_ok [OF ok g _ now 1(1)])
  moreover have "loadSurvey d' nid = Some sv'"
    using save_then_load [OF d(1) grows_savable [OF d(1) g] 1(1)] 1(2) by simp
  ultimately show ?thesis by blast
qed

lemma delete_responses_rest [simp]:
  "surveys (delete_responses p d) = surveys d" "opts (delete_responses p d) = opts d"
  "meta (delete_responses p d) = meta d" "users (delete_responses p d) = users d"
  "invites (delete_responses p d) = invites d" "resets (delete_responses p d) = resets d"
  "responses (delete_responses p d) = filter (\<lambda>r. \<not> p r) (responses d)"
  by (simp_all add: delete_responses_def Let_def)

lemma delete_responses_keys: "keys_ok d \<Longrightarrow> keys_ok (delete_responses p d)"
  by (simp add: keys_ok_def delete_responses_def Let_def map_distinct_filter)

lemma delete_responses_votes:
  assumes "votes_ok d" and "list_all (\<lambda>r. \<not> p r \<longrightarrow> q (r_survey r)) (responses d)"
    and "\<And>o'. o' \<in> set (opts d) \<Longrightarrow> q (o_survey o') \<Longrightarrow> o' \<in> set os"
  shows "votes_ok ((delete_responses p d)\<lparr>opts := os\<rparr>)"
proof -
  let ?dead = "map r_id (filter p (responses d))"
  have "list_ex (\<lambda>r. r_id r = fst c \<and> (snd c, r_survey r) \<in> (\<lambda>o'. (o_id o', o_survey o')) ` set os)
      (filter (\<lambda>r. \<not> p r) (responses d))"
    if c: "c \<in> set (seen d)" "fst c \<notin> set ?dead" for c
  proof -
    from assms(1) c(1) obtain r where r: "r \<in> set (responses d)" "r_id r = fst c"
      "(snd c, r_survey r) \<in> (\<lambda>o'. (o_id o', o_survey o')) ` set (opts d)"
      by (auto simp: votes_ok_def list_all_iff list_ex_iff)
    with c(2) have "\<not> p r" by auto (metis (mono_tags, lifting) image_eqI mem_Collect_eq)
    moreover from this r(1) assms(2) have "q (r_survey r)" by (simp add: list_all_iff)
    with r(3) assms(3) have "(snd c, r_survey r) \<in> (\<lambda>o'. (o_id o', o_survey o')) ` set os" by auto
    ultimately show ?thesis using r(1,2) by (auto simp: list_ex_iff)
  qed
  then show ?thesis
    using assms(1) by (auto simp: votes_ok_def delete_responses_def Let_def list_all_iff)
qed

lemma DeleteSurvey_load:
  assumes "DeleteSurvey i d = Inr ((), d')"
  shows "loadSurvey d' j = (if j = i then None else loadSurvey d j)"
proof -
  from assms have d': "surveys d' = filter (\<lambda>s. sv_id s \<noteq> i) (surveys d)"
    "opts d' = filter (\<lambda>o'. o_survey o' \<noteq> i) (opts d)"
    by (auto simp: DeleteSurvey_def split: if_splits)
  show ?thesis
  proof (cases "j = i")
    case True
    have "i \<notin> sv_id ` set (surveys d')" unfolding d' by auto
    with True show ?thesis by (simp add: loadSurvey_None_iff)
  next
    case False
    then have "filter (\<lambda>o'. o_survey o' = j) (opts d') = filter (\<lambda>o'. o_survey o' = j) (opts d)"
      unfolding d' by (induction "opts d" arbitrary: d) (auto simp: filter_filter intro!: filter_cong)
    moreover have "lookup_by sv_id j (surveys d') = lookup_by sv_id j (surveys d)"
      unfolding d' using False by (intro lookup_filter_other) auto
    moreover from calculation have "loadOptions d' j = loadOptions d j"
      by (simp add: loadOptions_def owned_def)
    ultimately show ?thesis using False by (simp add: loadSurvey_def split: option.split)
  qed
qed

lemma DeleteSurvey_db_ok [preserves]:
  assumes ok: "db_ok d" and r: "DeleteSurvey i d = Inr ((), d')"
  shows "db_ok d'"
proof -
  note d = db_okD [OF ok]
  from r have d': "d' = (delete_responses (\<lambda>r. r_survey r = i) d)
     \<lparr>surveys := filter (\<lambda>s. sv_id s \<noteq> i) (surveys d), opts := filter (\<lambda>o'. o_survey o' \<noteq> i) (opts d)\<rparr>"
    by (auto simp: DeleteSurvey_def split: if_splits)
  have "keys_ok d'"
    using delete_responses_keys [OF d(1)] by (simp add: d' keys_ok_def map_distinct_filter)
  moreover have "refs_ok d'" using d(2) by (auto simp: d' refs_ok_def list_all_iff)
  moreover have "votes_ok ((delete_responses (\<lambda>r. r_survey r = i) d)\<lparr>opts := filter (\<lambda>o'. o_survey o' \<noteq> i) (opts d)\<rparr>)"
    using d(3) by (rule delete_responses_votes [where q = "\<lambda>s. s \<noteq> i"]) (simp_all add: list_all_iff)
  then have "votes_ok d'" by (simp add: votes_ok_def d')
  moreover have "opened_ok d'" using d(4) by (simp add: d' opened_ok_def list_all_iff)
  moreover have "surveys_ok d'"
  proof (rule surveys_okI)
    fix j sv assume "loadSurvey d' j = Some sv"
    then have "loadSurvey d j = Some sv" using DeleteSurvey_load [OF r] by (auto split: if_splits)
    with d(5) show "survey_ok sv" by (rule surveys_ok_load)
  qed
  ultimately show ?thesis by (simp add: db_ok_def)
qed

text \<open>Nothing of a deleted survey is left in any table.\<close>

lemma DeleteSurvey_traces:
  assumes ok: "db_ok d" and r: "DeleteSurvey i d = Inr ((), d')"
  shows "i \<notin> sv_id ` set (surveys d')" "i \<notin> o_survey ` set (opts d')" "i \<notin> r_survey ` set (responses d')"
    "set (choices d') \<subseteq> set (seen d')" "fst ` set (seen d') \<subseteq> r_id ` set (responses d')"
proof -
  note d' = db_okD [OF DeleteSurvey_db_ok [OF ok r]]
  show s: "i \<notin> sv_id ` set (surveys d')"
    using DeleteSurvey_load [OF r, of i] loadSurvey_None_iff by metis
  show "i \<notin> o_survey ` set (opts d')" "i \<notin> r_survey ` set (responses d')"
    using d'(2) s by (auto simp: refs_ok_def list_all_iff)
  show "set (choices d') \<subseteq> set (seen d')" "fst ` set (seen d') \<subseteq> r_id ` set (responses d')"
    using d'(3) by (fastforce simp: votes_ok_def list_all_iff list_ex_iff)+
qed

section \<open>The effect of an update\<close>

lemma survey_ok_stamped [simp]: "survey_ok (stamp_opened now (sv\<lparr>sv_updated := t\<rparr>)) = survey_ok sv"
  by (rule survey_ok_parts) simp

text \<open>What \<open>UpdateSurvey\<close> does with an edit that keeps the survey well-formed.\<close>

lemma UpdateSurvey_effect:
  assumes ok: "db_ok d" and now: "now \<noteq> 0" and r: "UpdateSurvey now i fn d = Inr (sv', d')"
    and fn: "\<And>sv sv1. loadSurvey d i = Some sv \<Longrightarrow> survey_ok sv \<Longrightarrow> fn sv = Inr sv1 \<Longrightarrow>
       edit_of d sv sv1 \<and> survey_ok sv1"
  obtains sv sv1 where "loadSurvey d i = Some sv" "survey_ok sv" "fn sv = Inr sv1" "survey_ok sv1"
    "sv' = stamp_opened now (sv1\<lparr>sv_updated := now\<rparr>)" "loadSurvey d' i = Some sv'"
    "\<And>j. j \<noteq> i \<Longrightarrow> loadSurvey d' j = loadSurvey d j"
    "responses d' = responses d" "choices d' = choices d" "seen d' = seen d" "db_ok d'"
proof -
  note d = db_okD [OF ok]
  from r obtain sv sv1 where s: "loadSurvey d i = Some sv" "fn sv = Inr sv1"
    "saveSurvey now d (sv1\<lparr>sv_updated := now\<rparr>) = Inr (sv', d')" by (rule UpdateSurvey_cases)
  have sv: "survey_ok sv" using d(5) s(1) by (rule surveys_ok_load)
  with fn s have e: "edit_of d sv sv1" "survey_ok sv1" by blast+
  then have g: "grows d (sv1\<lparr>sv_updated := now\<rparr>)"
    by (intro edit_grows [OF d(1) s(1)] edit_of_fields [OF e(1)]) simp_all
  have id1: "sv_id sv1 = i" using e(1) loadSurvey_id [OF s(1)] by (simp add: edit_of_def)
  show thesis
  proof (rule that [OF s(1) sv s(2) e(2)])
    show "sv' = stamp_opened now (sv1\<lparr>sv_updated := now\<rparr>)" using saveSurvey_cases [OF s(3)] by blast
    show "loadSurvey d' i = Some sv'" using save_then_load [OF d(1) grows_savable [OF d(1) g] s(3)] id1 by simp
    show "loadSurvey d' j = loadSurvey d j" if "j \<noteq> i" for j using save_frame [OF s(3)] id1 that by simp
    show "responses d' = responses d" "choices d' = choices d" "seen d' = seen d"
      by (simp_all add: saveSurvey_rest [OF s(3)])
    show "db_ok d'" using fn by (intro UpdateSurvey_db_ok [OF ok r now])
  qed
qed

lemma moderation_edit:
  assumes "survey_ok sv" and "SetOptionStatus sv oid status into = Inr sv1"
  shows "edit_of d sv sv1 \<and> survey_ok sv1"
  using edit_of_SetOptionStatus [OF survey_okD(1) [OF assms(1)] assms(2)] SetOptionStatus_ok [OF assms] by blast

lemma moderation_effect:
  assumes ok: "db_ok d" and now: "now \<noteq> 0" and l: "loadSurvey d i = Some sv"
    and r: "UpdateSurvey now i (\<lambda>sv. SetOptionStatus sv oid status into) d = Inr (sv', d')"
  obtains sv1 where "survey_ok sv" "SetOptionStatus sv oid status into = Inr sv1" "survey_ok sv1"
    "sv' = stamp_opened now (sv1\<lparr>sv_updated := now\<rparr>)" "loadSurvey d' i = Some sv'"
    "\<And>j. j \<noteq> i \<Longrightarrow> loadSurvey d' j = loadSurvey d j"
    "responses d' = responses d" "choices d' = choices d" "seen d' = seen d" "db_ok d'"
  using moderation_edit
proof (rule UpdateSurvey_effect [OF ok now r])
  fix sv0 sv1
  assume a: "loadSurvey d i = Some sv0" "survey_ok sv0" "SetOptionStatus sv0 oid status into = Inr sv1" "survey_ok sv1"
    "sv' = stamp_opened now (sv1\<lparr>sv_updated := now\<rparr>)" "loadSurvey d' i = Some sv'"
    "\<And>j. j \<noteq> i \<Longrightarrow> loadSurvey d' j = loadSurvey d j"
    "responses d' = responses d" "choices d' = choices d" "seen d' = seen d" "db_ok d'"
  from a(1) l have "sv0 = sv" by simp
  with a that show thesis by blast
qed

section \<open>A sample database\<close>

definition demo_db :: db where
  "demo_db =
     \<lparr>meta = [], users = [], invites = [], resets = [],
      surveys = [survey_row.truncate demo_survey,
        (survey_row.truncate demo_survey)\<lparr>sv_id := ''s2'', sv_state := StateDraft, first_opened_at := 0\<rparr>],
      opts = upsert_options ''s2'' 0 [demo_opt ''x'' ''Soup'' OptApproved []]
        (upsert_options ''s1'' 0 (options demo_survey) []),
      responses =
        [\<lparr>r_id = ''r1'', r_survey = ''s1'', r_voter = ''v1'', r_comment = ''ok'', r_created = 11, r_updated = 11\<rparr>,
         \<lparr>r_id = ''r2'', r_survey = ''s1'', r_voter = ''v2'', r_comment = [], r_created = 12, r_updated = 12\<rparr>,
         \<lparr>r_id = ''r3'', r_survey = ''s2'', r_voter = ''v1'', r_comment = [], r_created = 13, r_updated = 13\<rparr>],
      choices = [(''r1'', ''a''), (''r1'', ''b''), (''r2'', ''d''), (''r3'', ''x'')],
      seen = [(''r1'', ''a''), (''r1'', ''b''), (''r2'', ''a''), (''r2'', ''d''), (''r3'', ''x'')]\<rparr>"

lemma demo_db_ok: "db_ok demo_db"
  by code_simp

lemma demo_db_loads: "loadSurvey demo_db ''s1'' = Some demo_survey"
  by code_simp

section \<open>Properties\<close>

text \<open>
  Moderating an option end to end: when \<open>UpdateSurvey\<close> succeeds with \<open>SetOptionStatus\<close>,
  the survey is read back exactly as the operation returned it and still satisfies the
  moderation invariant, every other survey reads as before, no response, vote or exposure row
  is touched, and the invariant of the whole database is kept.
\<close>

theorem moderation_is_stored:
  assumes ok: "db_ok d" and now: "now \<noteq> 0"
    and r: "UpdateSurvey now i (\<lambda>sv. SetOptionStatus sv oid status into) d = Inr (sv', d')"
  shows "loadSurvey d' i = Some sv' \<and> survey_ok sv' \<and> (\<forall>j. j \<noteq> i \<longrightarrow> loadSurvey d' j = loadSurvey d j)
    \<and> responses d' = responses d \<and> choices d' = choices d \<and> seen d' = seen d \<and> db_ok d'"
  using moderation_edit
proof (rule UpdateSurvey_effect [OF ok now r])
  fix sv sv1
  assume "survey_ok sv1" "sv' = stamp_opened now (sv1\<lparr>sv_updated := now\<rparr>)" "loadSurvey d' i = Some sv'"
    "\<And>j. j \<noteq> i \<Longrightarrow> loadSurvey d' j = loadSurvey d j"
    "responses d' = responses d" "choices d' = choices d" "seen d' = seen d" "db_ok d'"
  moreover from this have "survey_ok sv'" by simp
  ultimately show ?thesis by blast
qed

theorem moderation_is_stored_witness:
  "\<exists>sv' d'. UpdateSurvey 99 ''s1'' (\<lambda>sv. SetOptionStatus sv ''c'' OptMerged ''a'') demo_db = Inr (sv', d')
     \<and> loadSurvey d' ''s1'' = Some sv' \<and> survey_ok sv' \<and> db_ok d'"
proof -
  let ?u = "UpdateSurvey 99 ''s1'' (\<lambda>sv. SetOptionStatus sv ''c'' OptMerged ''a'') demo_db"
  have "\<not> isl ?u" by code_simp
  then obtain sv' d' where r: "?u = Inr (sv', d')" by (cases ?u) auto
  from moderation_is_stored [OF demo_db_ok _ r] show ?thesis using r by auto
qed

text \<open>
  Creating a survey stores exactly what is returned: under the fresh identifier there is a
  draft with the trimmed, non-empty title, one approved option per non-blank line in order,
  never opened; other surveys read as before, and the invariant of the database is kept. A
  blank title is refused.
\<close>

theorem CreateSurvey_contract:
  assumes ok: "db_ok d" and fr: "fresh_ids d nid ids" and now: "now \<noteq> 0"
  shows "case CreateSurvey nid ids now title desc texts d of
     Inl e \<Rightarrow> (e = ErrEmptyTitle \<and> TrimSpace title = []) \<or>
              (e = ErrTooManyOptions (length (mk_options ids 0 now texts)) \<and>
               maxOptions < length (mk_options ids 0 now texts))
   | Inr (sv, d') \<Rightarrow> TrimSpace title \<noteq> [] \<and> loadSurvey d' nid = Some sv \<and> sv_title sv = TrimSpace title \<and>
       sv_state sv = StateDraft \<and> first_opened_at sv = 0 \<and> (\<forall>now. \<not> Accepting sv now) \<and>
       map o_text (options sv) = filter (\<lambda>t. t \<noteq> []) (map TrimSpace texts) \<and>
       (\<forall>j. j \<noteq> nid \<longrightarrow> loadSurvey d' j = loadSurvey d j) \<and> responses d' = responses d \<and> db_ok d'"
proof (cases "CreateSurvey nid ids now title desc texts d")
  case (Inl e)
  then show ?thesis
    by (auto simp: CreateSurvey_def saveSurvey_def stamp_opened_def Let_def split: if_splits)
next
  case (Inr x)
  then obtain sv d' where r: "CreateSurvey nid ids now title desc texts d = Inr (sv, d')" by (cases x) auto
  have texts: "map o_text (mk_options ids k now ts) = filter (\<lambda>t. t \<noteq> []) (map TrimSpace ts)" for k ts
    by (induction ts arbitrary: k) (simp_all add: Let_def)
  from r obtain sv0 where s: "saveSurvey now d sv0 = Inr (sv, d')" "sv_id sv0 = nid" "sv_state sv0 = StateDraft"
    "sv_title sv0 = TrimSpace title" "TrimSpace title \<noteq> []" "first_opened_at sv0 = 0"
    "options sv0 = mk_options ids 0 now texts" "sv = sv0" by (rule CreateSurvey_cases)
  show ?thesis
    using CreateSurvey_db_ok [OF ok fr now r] saveSurvey_rest [OF s(1)] save_frame [OF s(1)] s(2-) texts
    by (simp add: r Accepting_def)
qed

theorem CreateSurvey_contract_witness:
  "case CreateSurvey ''s9'' (\<lambda>k. replicate (Suc k) CHR 0x7A) 99 '' Dinner '' [] [''Rice'', '' '', ''Beans''] demo_db of
     Inl e \<Rightarrow> False
   | Inr (sv, d') \<Rightarrow> loadSurvey d' ''s9'' = Some sv \<and> sv_title sv = ''Dinner'' \<and>
       map o_text (options sv) = [''Rice'', ''Beans''] \<and> db_ok d'"
proof -
  let ?ids = "\<lambda>k. replicate (Suc k) CHR 0x7A"
  have hd: "\<forall>i \<in> o_id ` set (opts demo_db). hd i \<noteq> CHR 0x7A" by code_simp
  have "?ids k \<notin> o_id ` set (opts demo_db)" for k
    using hd by (metis hd_replicate nat.distinct(1))
  then have "range ?ids \<inter> o_id ` set (opts demo_db) = {}" by blast
  moreover have "inj ?ids" by (rule injI) (metis length_replicate Suc_inject)
  moreover have "''s9'' \<notin> sv_id ` set (surveys demo_db)" by code_simp
  ultimately have fr: "fresh_ids demo_db ''s9'' ?ids" unfolding fresh_ids_def by blast
  have ok: "\<not> isl (CreateSurvey ''s9'' ?ids 99 '' Dinner '' [] [''Rice'', '' '', ''Beans''] demo_db)"
    by code_simp
  have t: "TrimSpace '' Dinner '' = ''Dinner''"
    "filter (\<lambda>t. t \<noteq> []) (map TrimSpace [''Rice'', '' '', ''Beans'']) = [''Rice'', ''Beans'']"
    by code_simp+
  show ?thesis
    using CreateSurvey_contract [OF demo_db_ok fr, where now = 99 and title = "'' Dinner ''" and desc = "[]"
        and texts = "[''Rice'', '' '', ''Beans'']"] ok t
    by (cases "CreateSurvey ''s9'' ?ids 99 '' Dinner '' [] [''Rice'', '' '', ''Beans''] demo_db") auto
qed

text \<open>
  Deleting a survey leaves nothing of it behind and nothing of any other survey is lost: no
  row of any table refers to it afterwards, every other survey reads as before and keeps
  exactly its responses, and the invariant of the database (no orphaned vote) is kept.
\<close>

theorem DeleteSurvey_leaves_no_trace:
  assumes ok: "db_ok d" and r: "DeleteSurvey i d = Inr ((), d')"
  shows "loadSurvey d' i = None \<and> i \<notin> o_survey ` set (opts d') \<and> i \<notin> r_survey ` set (responses d') \<and>
    fst ` (set (choices d') \<union> set (seen d')) \<subseteq> r_id ` set (responses d') \<and>
    (\<forall>j. j \<noteq> i \<longrightarrow> loadSurvey d' j = loadSurvey d j \<and>
       filter (\<lambda>q. r_survey q = j) (responses d') = filter (\<lambda>q. r_survey q = j) (responses d)) \<and> db_ok d'"
proof -
  have d': "responses d' = filter (\<lambda>q. r_survey q \<noteq> i) (responses d)"
    using r by (auto simp: DeleteSurvey_def split: if_splits)
  have "filter (\<lambda>q. r_survey q = j) (responses d') = filter (\<lambda>q. r_survey q = j) (responses d)"
    if "j \<noteq> i" for j
    using that unfolding d' by (auto intro: filter_cong)
  moreover have "fst ` (set (choices d') \<union> set (seen d')) \<subseteq> r_id ` set (responses d')"
    using DeleteSurvey_traces(4,5) [OF ok r] by blast
  ultimately show ?thesis
    using DeleteSurvey_load [OF r] DeleteSurvey_traces [OF ok r] DeleteSurvey_db_ok [OF ok r] by auto
qed

theorem DeleteSurvey_leaves_no_trace_witness:
  "\<exists>d'. DeleteSurvey ''s1'' demo_db = Inr ((), d') \<and> ''s1'' \<notin> r_survey ` set (responses d') \<and>
     loadSurvey d' ''s2'' = loadSurvey demo_db ''s2'' \<and> db_ok d'"
proof -
  have "\<not> isl (DeleteSurvey ''s1'' demo_db)" by code_simp
  then obtain d' where r: "DeleteSurvey ''s1'' demo_db = Inr ((), d')"
    by (cases "DeleteSurvey ''s1'' demo_db") auto
  from DeleteSurvey_leaves_no_trace [OF demo_db_ok r] show ?thesis using r by auto
qed

end
