(* ===== verification/Responses.thy ===== *)
theory Responses
  imports Integrity
begin

text \<open>
  Respondents' answers (\<open>internal/store/response.go\<close> without the tally): loading and saving
  one answer per voter and survey, write-ins, the lists of answers and comments, clearing, and
  publishing. An operation that runs in a transaction is given as its body over the database;
  the exported methods wrap it in \<open>tx\<close>.
\<close>

section \<open>Loading answers\<close>

record response =
  q_id :: string
  q_voter :: string
  q_choices :: "string list"
  q_seen :: "string list"
  q_comment :: string
  q_created :: time
  q_updated :: time

definition Chose :: "response \<Rightarrow> string \<Rightarrow> bool" where
  "Chose r i = list_ex (\<lambda>c. c = i) (q_choices r)"

definition row_key :: "response_row \<Rightarrow> string \<times> string" where
  "row_key r = (r_survey r, r_voter r)"

text \<open>\<open>SELECT option_id FROM t WHERE response_id = ?\<close>\<close>

definition loadIDs :: "(string \<times> string) list \<Rightarrow> string \<Rightarrow> string list" where
  "loadIDs t rid = map snd (filter (\<lambda>c. fst c = rid) t)"

definition bare_response :: "response_row \<Rightarrow> response" where
  "bare_response r =
     \<lparr>q_id = r_id r, q_voter = r_voter r, q_choices = [], q_seen = [], q_comment = r_comment r,
      q_created = r_created r, q_updated = r_updated r\<rparr>"

definition loadResponse :: "db \<Rightarrow> string \<Rightarrow> string \<Rightarrow> bool \<Rightarrow> response option" where
  "loadResponse d sid voter withSeen =
     (case lookup_by row_key (sid, voter) (responses d) of
        None \<Rightarrow> None
      | Some r \<Rightarrow> Some ((bare_response r)
          \<lparr>q_choices := loadIDs (choices d) (r_id r),
           q_seen := (if withSeen then loadIDs (seen d) (r_id r) else [])\<rparr>))"

definition ResponseFor :: "db \<Rightarrow> string \<Rightarrow> string \<Rightarrow> response option" where
  "ResponseFor d sid voter = loadResponse d sid voter True"

definition PriorAnswer :: "db \<Rightarrow> string \<Rightarrow> string \<Rightarrow> (string list \<times> string) option" where
  "PriorAnswer d sid voter =
     (case loadResponse d sid voter False of
        None \<Rightarrow> None
      | Some r \<Rightarrow> Some (q_choices r, q_comment r))"

text \<open>
  \<open>Responses\<close> reads the rows, then each child table once, appending every pair to the
  response it belongs to (\<open>attach\<close>).
\<close>

primrec attach_pairs ::
  "(response \<Rightarrow> string \<Rightarrow> response) \<Rightarrow> (string \<times> string) list \<Rightarrow> response list \<Rightarrow> response list" where
  "attach_pairs add [] out = out"
| "attach_pairs add (c # cs) out =
     attach_pairs add cs (modify_by q_id (fst c) (\<lambda>r. add r (snd c)) out)"

definition attach ::
  "db \<Rightarrow> string \<Rightarrow> (string \<times> string) list \<Rightarrow> (response \<Rightarrow> string \<Rightarrow> response) \<Rightarrow> response list \<Rightarrow> response list" where
  "attach d sid t add out =
     attach_pairs add (filter (\<lambda>c. list_ex (\<lambda>r. r_id r = fst c \<and> r_survey r = sid) (responses d)) t) out"

definition rows_of :: "db \<Rightarrow> string \<Rightarrow> response_row list" where
  "rows_of d sid =
     sort_key (\<lambda>r. (dbTime (r_created r), r_id r)) (filter (\<lambda>r. r_survey r = sid) (responses d))"

definition Responses :: "db \<Rightarrow> string \<Rightarrow> response list" where
  "Responses d sid =
     (let out = map bare_response (rows_of d sid);
          out = attach d sid (choices d) (\<lambda>r i. r\<lparr>q_choices := q_choices r @ [i]\<rparr>) out
      in attach d sid (seen d) (\<lambda>r i. r\<lparr>q_seen := q_seen r @ [i]\<rparr>) out)"

definition Comments :: "db \<Rightarrow> string \<Rightarrow> response list" where
  "Comments d sid = map bare_response (filter (\<lambda>r. r_comment r \<noteq> []) (rows_of d sid))"

definition Count :: "db \<Rightarrow> string \<Rightarrow> nat" where
  "Count d sid = length (filter (\<lambda>r. r_survey r = sid) (responses d))"

section \<open>Saving an answer\<close>

definition MaxComment :: nat where "MaxComment = 2000"
definition seenInsertBatch :: nat where "seenInsertBatch = 1000"
definition maxWriteInsPerVoter :: nat where "maxWriteInsPerVoter = 5"
definition maxPendingPerSurvey :: nat where "maxPendingPerSurvey = 50"

definition visibleTo :: "opt \<Rightarrow> response option \<Rightarrow> string \<Rightarrow> bool" where
  "visibleTo o' prev allowPending =
     (if o_status o' = OptApproved then True
      else if o_status o' = OptPending
      then o_id o' = allowPending \<or> (case prev of None \<Rightarrow> False | Some p \<Rightarrow> Chose p (o_id o'))
      else False)"

text \<open>The loop over the submitted choices; \<open>picked\<close> holds what was kept so far, in order.\<close>

primrec pick_choices ::
  "survey \<Rightarrow> response option \<Rightarrow> string \<Rightarrow> string list \<Rightarrow> string list \<Rightarrow> string list" where
  "pick_choices sv prev allow picked [] = picked"
| "pick_choices sv prev allow picked (i # is) =
     (case OptionOf sv i of
        None \<Rightarrow> pick_choices sv prev allow picked is
      | Some o' \<Rightarrow>
          if i \<in> set picked \<or> \<not> visibleTo o' prev allow then pick_choices sv prev allow picked is
          else pick_choices sv prev allow (picked @ [i]) is)"

text \<open>The loop that carries forward what the respondent could not see.\<close>

primrec carry_forward ::
  "survey \<Rightarrow> response option \<Rightarrow> string \<Rightarrow> string list \<Rightarrow> string list \<Rightarrow> string list" where
  "carry_forward sv prev allow picked [] = picked"
| "carry_forward sv prev allow picked (i # is) =
     (if i \<in> set picked then carry_forward sv prev allow picked is
      else case OptionOf sv i of
        None \<Rightarrow> carry_forward sv prev allow picked is
      | Some o' \<Rightarrow>
          if \<not> visibleTo o' prev allow then carry_forward sv prev allow (picked @ [i]) is
          else carry_forward sv prev allow picked is)"

definition seen_now :: "survey \<Rightarrow> response option \<Rightarrow> string \<Rightarrow> string list" where
  "seen_now sv prev allow =
     (let shown = map o_id (filter (\<lambda>o'. visibleTo o' prev allow) (options sv)) @
                  (case prev of None \<Rightarrow> [] | Some p \<Rightarrow> q_seen p)
      in map o_id (filter (\<lambda>o'. o_id o' \<in> set shown) (options sv)))"

definition answer ::
  "string \<Rightarrow> time \<Rightarrow> survey \<Rightarrow> response option \<Rightarrow> string \<Rightarrow> string list \<Rightarrow> string \<Rightarrow> string \<Rightarrow> response" where
  "answer rid now sv prev voter chs comment allow =
     \<lparr>q_id = (case prev of None \<Rightarrow> rid | Some p \<Rightarrow> q_id p), q_voter = voter,
      q_choices = (let picked = pick_choices sv prev allow [] chs
                   in case prev of None \<Rightarrow> picked
                      | Some p \<Rightarrow> carry_forward sv prev allow picked (q_choices p)),
      q_seen = seen_now sv prev allow,
      q_comment = (if allow_comment sv then take MaxComment (TrimSpace comment) else []),
      q_created = (case prev of None \<Rightarrow> now | Some p \<Rightarrow> q_created p), q_updated = now\<rparr>"

definition insert_response :: "response_row \<Rightarrow> response_row list \<Rightarrow> err + response_row list" where
  "insert_response r t =
     (case lookup_by row_key (row_key r) t of
        Some _ \<Rightarrow> Inr (modify_by row_key (row_key r)
          (\<lambda>old. old\<lparr>r_comment := r_comment r, r_updated := r_updated r\<rparr>) t)
      | None \<Rightarrow> if r_id r \<in> r_id ` set t then Inl (ErrUnique ''responses'') else Inr (t @ [r]))"

primrec insert_choices ::
  "string \<Rightarrow> string list \<Rightarrow> (string \<times> string) list \<Rightarrow> err + (string \<times> string) list" where
  "insert_choices rid [] t = Inr t"
| "insert_choices rid (i # is) t =
     (if (rid, i) \<in> set t then Inl (ErrUnique ''choices'') else insert_choices rid is (t @ [(rid, i)]))"

text \<open>One \<open>INSERT OR IGNORE\<close> statement, and the batches of it.\<close>

primrec insert_ignore :: "string \<Rightarrow> string list \<Rightarrow> (string \<times> string) list \<Rightarrow> (string \<times> string) list" where
  "insert_ignore rid [] t = t"
| "insert_ignore rid (i # is) t =
     insert_ignore rid is (if (rid, i) \<in> set t then t else t @ [(rid, i)])"

function insertSeen :: "string \<Rightarrow> string list \<Rightarrow> (string \<times> string) list \<Rightarrow> (string \<times> string) list" where
  "insertSeen rid ids t =
     (if length ids > 0 then
        let n = min (length ids) seenInsertBatch
        in insertSeen rid (drop n ids) (insert_ignore rid (take n ids) t)
      else t)"
  by pat_completeness auto
termination
  by (relation "measure (\<lambda>(rid, ids, t). length ids)") (auto simp: seenInsertBatch_def)

declare insertSeen.simps [simp del]

definition put_response :: "string \<Rightarrow> response option \<Rightarrow> response \<Rightarrow> db \<Rightarrow> err + (response \<times> db)" where
  "put_response sid prev r d =
     bindE (insert_response
         \<lparr>r_id = q_id r, r_survey = sid, r_voter = q_voter r, r_comment = q_comment r,
          r_created = q_created r, r_updated = q_updated r\<rparr> (responses d)) (\<lambda>rs.
     bindE (insert_choices (q_id r) (q_choices r) (filter (\<lambda>c. fst c \<noteq> q_id r) (choices d))) (\<lambda>cs.
     Inr (r, d\<lparr>responses := rs, choices := cs,
       seen := (case prev of
                  None \<Rightarrow> insertSeen (q_id r) (q_seen r) (seen d)
                | Some p \<Rightarrow>
                    if length (q_seen r) \<noteq> length (q_seen p)
                    then insertSeen (q_id r) (q_seen r) (seen d) else seen d)\<rparr>)))"

definition saveResponseTx ::
  "string \<Rightarrow> time \<Rightarrow> string \<Rightarrow> string \<Rightarrow> string list \<Rightarrow> string \<Rightarrow> string \<Rightarrow> bool \<Rightarrow> db \<Rightarrow> err + (response \<times> db)" where
  "saveResponseTx rid now sid voter chs comment allowPending preview d =
     (case loadSurvey d sid of
        None \<Rightarrow> Inl (ErrNotFound ''survey'' sid)
      | Some sv \<Rightarrow>
          if \<not> AcceptingFrom sv now preview then Inl ErrNotAccepting
          else
            let prev = loadResponse d sid voter True
            in put_response sid prev (answer rid now sv prev voter chs comment allowPending) d)"

definition SaveResponse ::
  "string \<Rightarrow> time \<Rightarrow> string \<Rightarrow> string \<Rightarrow> string list \<Rightarrow> string \<Rightarrow> store \<Rightarrow> (err + response) \<times> store" where
  "SaveResponse rid now sid voter chs comment = tx (saveResponseTx rid now sid voter chs comment [] False)"

definition PreviewResponse ::
  "string \<Rightarrow> time \<Rightarrow> string \<Rightarrow> string \<Rightarrow> string list \<Rightarrow> string \<Rightarrow> store \<Rightarrow> (err + response) \<times> store" where
  "PreviewResponse rid now sid voter chs comment = tx (saveResponseTx rid now sid voter chs comment [] True)"

section \<open>Write-ins\<close>

definition countPending :: "survey \<Rightarrow> response option \<Rightarrow> nat" where
  "countPending sv r =
     (case r of
        None \<Rightarrow> 0
      | Some r \<Rightarrow> length (filter (\<lambda>i. case OptionOf sv i of None \<Rightarrow> False
                                        | Some o' \<Rightarrow> o_status o' = OptPending) (q_choices r)))"

definition addWriteIn ::
  "string \<Rightarrow> string \<Rightarrow> time \<Rightarrow> string \<Rightarrow> string \<Rightarrow> string \<Rightarrow> bool \<Rightarrow> db \<Rightarrow> err + (string \<times> db)" where
  "addWriteIn nid rid now sid voter txt preview d =
     (case loadSurvey d sid of
        None \<Rightarrow> Inl (ErrNotFound ''survey'' sid)
      | Some sv \<Rightarrow>
          if \<not> allow_write_in sv then Inl ErrNoWriteIns
          else if \<not> AcceptingFrom sv now preview then Inl ErrNotAccepting
          else
            let prev = loadResponse d sid voter False in
            if countPending sv prev \<ge> maxWriteInsPerVoter then Inl (ErrTooManyPending (countPending sv prev))
            else if length (PendingOptions sv) \<ge> maxPendingPerSurvey
            then Inl (ErrQueueFull (length (PendingOptions sv)))
            else
              bindE (AddOption nid now sv txt OptPending ''writein'') (\<lambda>(newOpt, sv).
              bindE (saveSurvey now d (sv\<lparr>sv_updated := now\<rparr>)) (\<lambda>(_, d).
              let (chs, comment) = (case prev of None \<Rightarrow> ([], []) | Some p \<Rightarrow> (q_choices p, q_comment p)) in
              bindE (saveResponseTx rid now sid voter (chs @ [newOpt]) comment newOpt preview d) (\<lambda>(_, d).
              Inr (newOpt, d)))))"

definition AddWriteIn ::
  "string \<Rightarrow> string \<Rightarrow> time \<Rightarrow> string \<Rightarrow> string \<Rightarrow> string \<Rightarrow> store \<Rightarrow> (err + string) \<times> store" where
  "AddWriteIn nid rid now sid voter txt = tx (addWriteIn nid rid now sid voter txt False)"

definition PreviewWriteIn ::
  "string \<Rightarrow> string \<Rightarrow> time \<Rightarrow> string \<Rightarrow> string \<Rightarrow> string \<Rightarrow> store \<Rightarrow> (err + string) \<times> store" where
  "PreviewWriteIn nid rid now sid voter txt = tx (addWriteIn nid rid now sid voter txt True)"

section \<open>Clearing and publishing\<close>

definition clearResponsesTx :: "string \<Rightarrow> db \<Rightarrow> err + (nat \<times> db)" where
  "clearResponsesTx sid d =
     (if length (filter (\<lambda>s. sv_id s = sid) (surveys d)) = 0 then Inl (ErrNotFound ''survey'' sid)
      else Inr (Count d sid, delete_responses (\<lambda>r. r_survey r = sid) d))"

definition ClearResponses :: "string \<Rightarrow> store \<Rightarrow> (err + nat) \<times> store" where
  "ClearResponses sid = tx (clearResponsesTx sid)"

definition publish_edit :: "time \<Rightarrow> survey \<Rightarrow> survey" where
  "publish_edit now sv =
     (let sv = (if IsZero (first_opened_at sv) then sv\<lparr>first_opened_at := now\<rparr> else sv);
          sv = sv\<lparr>sv_state := StateOpen\<rparr>;
          sv = (if \<not> IsZero (close_at sv) \<and> \<not> Before now (close_at sv) then sv\<lparr>close_at := 0\<rparr> else sv)
      in sv\<lparr>sv_updated := now\<rparr>)"

definition publishTx :: "time \<Rightarrow> string \<Rightarrow> db \<Rightarrow> err + (nat \<times> db)" where
  "publishTx now sid d =
     (case loadSurvey d sid of
        None \<Rightarrow> Inl (ErrNotFound ''survey'' sid)
      | Some sv \<Rightarrow>
          bindE (saveSurvey now d (publish_edit now sv)) (\<lambda>(_, d).
          if IsZero (first_opened_at sv) then clearResponsesTx sid d else Inr (0, d)))"

definition Publish :: "time \<Rightarrow> string \<Rightarrow> store \<Rightarrow> (err + nat) \<times> store" where
  "Publish now sid = tx (publishTx now sid)"

section \<open>What a submission records\<close>

lemma Chose_iff [simp]: "Chose r i \<longleftrightarrow> i \<in> set (q_choices r)"
  by (auto simp: Chose_def list_ex_iff)

lemma set_pick_choices:
  "set (pick_choices sv prev allow picked is) =
     set picked \<union> {i \<in> set is. \<exists>o'. OptionOf sv i = Some o' \<and> visibleTo o' prev allow}"
  by (induction "is" arbitrary: picked) (auto split: option.splits)

lemma distinct_pick_choices: "distinct picked \<Longrightarrow> distinct (pick_choices sv prev allow picked is)"
  by (induction "is" arbitrary: picked) (auto split: option.splits)

lemma set_carry_forward:
  "set (carry_forward sv prev allow picked is) =
     set picked \<union> {i \<in> set is. \<exists>o'. OptionOf sv i = Some o' \<and> \<not> visibleTo o' prev allow}"
  by (induction "is" arbitrary: picked) (auto split: option.splits)

lemma distinct_carry_forward: "distinct picked \<Longrightarrow> distinct (carry_forward sv prev allow picked is)"
  by (induction "is" arbitrary: picked) (auto split: option.splits)

definition before :: "response option \<Rightarrow> (response \<Rightarrow> string list) \<Rightarrow> string list" where
  "before prev f = (case prev of None \<Rightarrow> [] | Some p \<Rightarrow> f p)"

lemma before_simps [simp]: "before None f = []" "before (Some p) f = f p"
  by (simp_all add: before_def)

lemma set_answer_choices:
  "set (q_choices (answer rid now sv prev voter chs comment allow)) =
     {i. \<exists>o'. OptionOf sv i = Some o' \<and>
          (if visibleTo o' prev allow then i \<in> set chs else i \<in> set (before prev q_choices))}"
  by (cases prev) (auto simp: answer_def set_pick_choices set_carry_forward Let_def)

lemma distinct_answer_choices [simp]:
  "distinct (q_choices (answer rid now sv prev voter chs comment allow))"
  by (auto simp: answer_def Let_def intro!: distinct_pick_choices distinct_carry_forward split: option.split)

lemma ids_OptionOf: "i \<in> o_id ` set (options sv) \<longleftrightarrow> (\<exists>o'. OptionOf sv i = Some o')"
  unfolding OptionOf_def by (metis lookup_by_None_iff not_None_eq)

lemma set_seen_now:
  assumes "ids_unique sv"
  shows "set (seen_now sv prev allow) =
     {i. \<exists>o'. OptionOf sv i = Some o' \<and> (visibleTo o' prev allow \<or> i \<in> set (before prev q_seen))}"
proof -
  have o1: "OptionOf sv (o_id o') = Some o'" if "o' \<in> set (options sv)" for o'
    using that assms by (simp add: OptionOf_def ids_unique_def lookup_by_mem)
  have "set (seen_now sv prev allow) = {i \<in> o_id ` set (options sv).
      i \<in> o_id ` {o' \<in> set (options sv). visibleTo o' prev allow} \<or> i \<in> set (before prev q_seen)}"
    by (auto simp: seen_now_def Let_def before_def split: option.splits)
  also have "\<dots> = {i. \<exists>o'. OptionOf sv i = Some o' \<and> (visibleTo o' prev allow \<or> i \<in> set (before prev q_seen))}"
    using o1 OptionOf_SomeD by fastforce
  finally show ?thesis .
qed

lemma distinct_seen_now: "ids_unique sv \<Longrightarrow> distinct (seen_now sv prev allow)"
  by (simp add: seen_now_def Let_def ids_unique_def map_distinct_filter)

lemma answer_simps [simp]:
  "q_seen (answer rid now sv prev voter chs comment allow) = seen_now sv prev allow"
  "q_voter (answer rid now sv prev voter chs comment allow) = voter"
  "q_updated (answer rid now sv prev voter chs comment allow) = now"
  "q_id (answer rid now sv None voter chs comment allow) = rid"
  "q_id (answer rid now sv (Some p) voter chs comment allow) = q_id p"
  "q_created (answer rid now sv (Some p) voter chs comment allow) = q_created p"
  by (simp_all add: answer_def)

section \<open>The inserts\<close>

lemma insertSeen_unbatched: "insertSeen rid ids t = insert_ignore rid ids t"
proof (induction rid ids t rule: insertSeen.induct)
  case (1 rid ids t)
  have app: "insert_ignore rid (xs @ ys) u = insert_ignore rid ys (insert_ignore rid xs u)" for xs ys u
    by (induction xs arbitrary: u) auto
  show ?case
  proof (cases "length ids > 0")
    case True
    let ?n = "min (length ids) seenInsertBatch"
    have "insertSeen rid ids t = insertSeen rid (drop ?n ids) (insert_ignore rid (take ?n ids) t)"
      using True by (subst insertSeen.simps) (simp add: Let_def)
    also have "\<dots> = insert_ignore rid (drop ?n ids) (insert_ignore rid (take ?n ids) t)"
      using "1.IH" True by blast
    also have "\<dots> = insert_ignore rid ids t" using app by (metis append_take_drop_id)
    finally show ?thesis .
  qed (simp add: insertSeen.simps)
qed

lemma set_insert_ignore: "set (insert_ignore rid ids t) = set t \<union> Pair rid ` set ids"
  by (induction ids arbitrary: t) auto

lemma distinct_insert_ignore: "distinct t \<Longrightarrow> distinct (insert_ignore rid ids t)"
  by (induction ids arbitrary: t) auto

lemma insert_ignore_noop: "Pair rid ` set ids \<subseteq> set t \<Longrightarrow> insert_ignore rid ids t = t"
  by (induction ids) auto

lemma insert_ignore_others: "filter (\<lambda>c. fst c \<noteq> rid) (insert_ignore rid ids t) = filter (\<lambda>c. fst c \<noteq> rid) t"
  by (induction ids arbitrary: t) auto

lemma insert_choices_ok:
  "distinct ids \<Longrightarrow> Pair rid ` set ids \<inter> set t = {} \<Longrightarrow> insert_choices rid ids t = Inr (t @ map (Pair rid) ids)"
proof (induction ids arbitrary: t)
  case (Cons i ids)
  then have "Pair rid ` set ids \<inter> set (t @ [(rid, i)]) = {}" by auto
  with Cons show ?case by auto
qed simp

lemma set_loadIDs: "set (loadIDs t rid) = {i. (rid, i) \<in> set t}"
  by (force simp: loadIDs_def)

lemma distinct_loadIDs: "distinct t \<Longrightarrow> distinct (loadIDs t rid)"
  by (auto simp: loadIDs_def distinct_map intro: inj_onI)

lemma loadIDs_append [simp]: "loadIDs (s @ t) rid = loadIDs s rid @ loadIDs t rid"
  by (simp add: loadIDs_def)

lemma loadIDs_pairs [simp]: "loadIDs (map (Pair rid) ids) q = (if q = rid then ids else [])"
  by (simp add: loadIDs_def filter_map comp_def)

lemma loadIDs_others: "loadIDs (filter (\<lambda>c. fst c \<noteq> rid) t) q = (if q = rid then [] else loadIDs t q)"
  by (auto simp: loadIDs_def filter_empty_conv intro: arg_cong [where f = "map snd"] filter_cong)

section \<open>A stored answer\<close>

lemma loadResponse_row:
  "loadResponse d sid voter w = Some p \<Longrightarrow>
   \<exists>r. lookup_by row_key (sid, voter) (responses d) = Some r \<and> r \<in> set (responses d) \<and> row_key r = (sid, voter)
     \<and> q_id p = r_id r \<and> q_voter p = voter \<and> q_comment p = r_comment r \<and> q_created p = r_created r
     \<and> q_updated p = r_updated r \<and> q_choices p = loadIDs (choices d) (r_id r)
     \<and> q_seen p = (if w then loadIDs (seen d) (r_id r) else [])"
proof -
  assume l: "loadResponse d sid voter w = Some p"
  then obtain r where r: "lookup_by row_key (sid, voter) (responses d) = Some r"
    by (auto simp: loadResponse_def split: option.splits)
  with l show ?thesis
    by (intro exI [of _ r]) (auto simp: loadResponse_def bare_response_def row_key_def)
qed

lemma loadResponse_None: "loadResponse d sid voter w = None \<longleftrightarrow> lookup_by row_key (sid, voter) (responses d) = None"
  by (auto simp: loadResponse_def split: option.splits)

lemma loadResponse_cong:
  "responses d' = responses d \<Longrightarrow> choices d' = choices d \<Longrightarrow> seen d' = seen d \<Longrightarrow>
   loadResponse d' sid voter w = loadResponse d sid voter w"
  by (simp add: loadResponse_def split: option.split)

lemma distinct_row_keys: "keys_ok d \<Longrightarrow> distinct (map row_key (responses d))"
  using keys_okD(4) by (simp add: row_key_def [abs_def])

text \<open>Two rows with one identifier are one row, so a response belongs to one survey and voter.\<close>

lemma same_row: "keys_ok d \<Longrightarrow> r1 \<in> set (responses d) \<Longrightarrow> r2 \<in> set (responses d) \<Longrightarrow> r_id r1 = r_id r2 \<Longrightarrow> r1 = r2"
  using keys_okD(3) by (metis lookup_by_mem option.inject)

lemma seen_in_survey:
  assumes "db_ok d" and "loadSurvey d sid = Some sv"
    and "r \<in> set (responses d)" "r_survey r = sid" and "(r_id r, i) \<in> set (seen d)"
  shows "i \<in> o_id ` set (options sv)"
proof -
  note d = db_okD [OF assms(1)]
  from d(3) assms(5) obtain r2 where r2: "r2 \<in> set (responses d)" "r_id r2 = r_id r"
    "(i, r_survey r2) \<in> (\<lambda>o'. (o_id o', o_survey o')) ` set (opts d)"
    unfolding votes_ok_def list_all_iff list_ex_iff by fastforce
  with same_row [OF d(1) r2(1) assms(3)] have "(i, sid) \<in> (\<lambda>o'. (o_id o', o_survey o')) ` set (opts d)"
    using assms(4) by metis
  with owner_option [OF assms(2) d(1)] show ?thesis by blast
qed

lemma prev_facts:
  assumes ok: "db_ok d" and sv: "loadSurvey d sid = Some sv" and p: "loadResponse d sid voter w = Some p"
  shows "distinct (q_choices p)" "distinct (q_seen p)"
    "set (q_choices p) \<subseteq> o_id ` set (options sv)" "set (q_seen p) \<subseteq> o_id ` set (options sv)"
    "w \<Longrightarrow> set (q_choices p) \<subseteq> set (q_seen p)"
proof -
  note d = db_okD [OF ok]
  from loadResponse_row [OF p] obtain r where r: "r \<in> set (responses d)" "r_survey r = sid"
    "q_choices p = loadIDs (choices d) (r_id r)" "q_seen p = (if w then loadIDs (seen d) (r_id r) else [])"
    by (auto simp: row_key_def)
  show "distinct (q_choices p)" "distinct (q_seen p)"
    using d(1) by (simp_all add: r distinct_loadIDs keys_okD)
  have cs: "set (choices d) \<subseteq> set (seen d)" using d(3) by (auto simp: votes_ok_def list_all_iff)
  show "set (q_choices p) \<subseteq> o_id ` set (options sv)" "set (q_seen p) \<subseteq> o_id ` set (options sv)"
    using seen_in_survey [OF ok sv r(1,2)] cs by (auto simp: r set_loadIDs)
  show "w \<Longrightarrow> set (q_choices p) \<subseteq> set (q_seen p)" using cs by (auto simp: r set_loadIDs)
qed

text \<open>The new seen set contains the old one, so equal lengths mean equal sets.\<close>

lemma seen_grows:
  assumes "db_ok d" and "loadSurvey d sid = Some sv" and "loadResponse d sid voter True = Some p"
  shows "set (q_seen p) \<subseteq> set (seen_now sv (Some p) allow)"
proof -
  have "ids_unique sv" using db_okD(5) [OF assms(1)] assms(2) by (metis surveys_ok_load survey_okD(1))
  then show ?thesis
    using prev_facts(4) [OF assms] by (auto simp: set_seen_now ids_OptionOf [symmetric])
qed

lemma skipped_insert_is_noop:
  assumes "db_ok d" and "loadSurvey d sid = Some sv" and p: "loadResponse d sid voter True = Some p"
    and len: "length (seen_now sv (Some p) allow) = length (q_seen p)"
  shows "insert_ignore (q_id p) (seen_now sv (Some p) allow) (seen d) = seen d"
proof -
  have u: "ids_unique sv" using db_okD(5) [OF assms(1)] assms(2) by (metis surveys_ok_load survey_okD(1))
  have "card (set (seen_now sv (Some p) allow)) = card (set (q_seen p))"
    using len distinct_seen_now [OF u] prev_facts(2) [OF assms(1-3)] by (simp add: distinct_card)
  with seen_grows [OF assms(1-3)] have "set (seen_now sv (Some p) allow) = set (q_seen p)"
    by (metis List.finite_set card_subset_eq)
  then have "Pair (q_id p) ` set (seen_now sv (Some p) allow) \<subseteq> set (seen d)"
    using loadResponse_row [OF p] by (auto simp: set_loadIDs)
  then show ?thesis by (rule insert_ignore_noop)
qed

section \<open>The effect of a submission\<close>

text \<open>What a successful submission leaves: the answer's row, its choices and its seen rows.\<close>

definition saved_db :: "string \<Rightarrow> response \<Rightarrow> db \<Rightarrow> db" where
  "saved_db sid r d =
     d\<lparr>responses := (if lookup_by row_key (sid, q_voter r) (responses d) = None
         then responses d @ [\<lparr>r_id = q_id r, r_survey = sid, r_voter = q_voter r, r_comment = q_comment r,
                              r_created = q_created r, r_updated = q_updated r\<rparr>]
         else modify_by row_key (sid, q_voter r)
           (\<lambda>old. old\<lparr>r_comment := q_comment r, r_updated := q_updated r\<rparr>) (responses d)),
       choices := filter (\<lambda>c. fst c \<noteq> q_id r) (choices d) @ map (Pair (q_id r)) (q_choices r),
       seen := insert_ignore (q_id r) (q_seen r) (seen d)\<rparr>"

lemma put_response_eq:
  assumes ok: "db_ok d" and sv: "loadSurvey d sid = Some sv"
    and prev: "prev = loadResponse d sid voter True"
    and r: "r = answer rid now sv prev voter chs comment allow"
  shows "put_response sid prev r d =
     (if prev = None \<and> rid \<in> r_id ` set (responses d) then Inl (ErrUnique ''responses'')
      else Inr (r, saved_db sid r d))"
proof -
  have ch: "insert_choices (q_id r) (q_choices r) (filter (\<lambda>c. fst c \<noteq> q_id r) (choices d)) =
      Inr (filter (\<lambda>c. fst c \<noteq> q_id r) (choices d) @ map (Pair (q_id r)) (q_choices r))"
    by (rule insert_choices_ok) (auto simp: r)
  have v: "q_voter r = voter" by (simp add: r)
  show ?thesis
  proof (cases prev)
    case None
    then have l: "lookup_by row_key (sid, voter) (responses d) = None"
      using prev by (simp add: loadResponse_None)
    have i: "q_id r = rid" by (simp add: r None)
    show ?thesis
      unfolding put_response_def insert_response_def ch
      by (simp add: None l i v row_key_def saved_db_def insertSeen_unbatched)
  next
    case (Some p)
    with prev have p: "loadResponse d sid voter True = Some p" by simp
    from loadResponse_row [OF p] obtain r0 where l: "lookup_by row_key (sid, voter) (responses d) = Some r0"
      by blast
    have i: "q_id r = q_id p" and sn: "q_seen r = seen_now sv (Some p) allow" by (simp_all add: r Some)
    have "(if length (q_seen r) \<noteq> length (q_seen p) then insertSeen (q_id r) (q_seen r) (seen d) else seen d) =
        insert_ignore (q_id r) (q_seen r) (seen d)"
      using skipped_insert_is_noop [OF ok sv p, of allow] by (simp add: i sn insertSeen_unbatched)
    then show ?thesis
      unfolding put_response_def insert_response_def ch
      by (simp add: Some l v row_key_def saved_db_def)
  qed
qed

lemma saveResponseTx_eq:
  assumes ok: "db_ok d"
  shows "saveResponseTx rid now sid voter chs comment allow preview d =
    (case loadSurvey d sid of
       None \<Rightarrow> Inl (ErrNotFound ''survey'' sid)
     | Some sv \<Rightarrow>
         if \<not> AcceptingFrom sv now preview then Inl ErrNotAccepting
         else if loadResponse d sid voter True = None \<and> rid \<in> r_id ` set (responses d)
         then Inl (ErrUnique ''responses'')
         else let r = answer rid now sv (loadResponse d sid voter True) voter chs comment allow
              in Inr (r, saved_db sid r d))"
proof (cases "loadSurvey d sid")
  case (Some sv)
  then show ?thesis
    unfolding saveResponseTx_def using put_response_eq [OF ok Some refl refl] by (simp add: Let_def)
qed (simp add: saveResponseTx_def)

lemma saveResponseTx_cases:
  assumes ok: "db_ok d" and r: "saveResponseTx rid now sid voter chs comment allow preview d = Inr (q, d')"
  obtains sv where "loadSurvey d sid = Some sv" "AcceptingFrom sv now preview"
    "q = answer rid now sv (loadResponse d sid voter True) voter chs comment allow"
    "loadResponse d sid voter True = None \<Longrightarrow> rid \<notin> r_id ` set (responses d)"
    "d' = saved_db sid q d"
  using r unfolding saveResponseTx_eq [OF ok] by (auto simp: Let_def split: option.splits if_splits)

lemma saved_db_rest [simp]:
  "surveys (saved_db sid r d) = surveys d" "opts (saved_db sid r d) = opts d"
  "users (saved_db sid r d) = users d" "invites (saved_db sid r d) = invites d"
  "resets (saved_db sid r d) = resets d" "meta (saved_db sid r d) = meta d"
  by (simp_all add: saved_db_def)

text \<open>The identifier under which the answer is stored is its own.\<close>

definition placed :: "db \<Rightarrow> string \<Rightarrow> response \<Rightarrow> bool" where
  "placed d sid r =
     (case lookup_by row_key (sid, q_voter r) (responses d) of
        None \<Rightarrow> q_id r \<notin> r_id ` set (responses d)
      | Some r0 \<Rightarrow> q_id r = r_id r0 \<and> q_created r = r_created r0)"

lemma saveResponseTx_placed:
  assumes ok: "db_ok d" and r: "saveResponseTx rid now sid voter chs comment allow preview d = Inr (q, d')"
  shows "placed d sid q"
  using ok r
proof (cases rule: saveResponseTx_cases)
  case (1 sv)
  show ?thesis
  proof (cases "loadResponse d sid voter True")
    case None
    with 1 show ?thesis using loadResponse_None [of d sid voter True] by (simp add: placed_def)
  next
    case (Some p)
    with 1 loadResponse_row [OF Some] show ?thesis by (auto simp: placed_def)
  qed
qed

lemma saved_row:
  assumes "placed d sid r"
  shows "\<exists>r1. lookup_by row_key (sid, q_voter r) (responses (saved_db sid r d)) = Some r1 \<and>
     r_id r1 = q_id r \<and> r_voter r1 = q_voter r \<and> r_comment r1 = q_comment r \<and>
     r_created r1 = q_created r \<and> r_updated r1 = q_updated r"
proof (cases "lookup_by row_key (sid, q_voter r) (responses d)")
  case None
  then show ?thesis by (simp add: saved_db_def row_key_def)
next
  case (Some r0)
  then have "lookup_by row_key (sid, q_voter r) (responses (saved_db sid r d)) =
      Some (r0\<lparr>r_comment := q_comment r, r_updated := q_updated r\<rparr>)"
    by (simp add: saved_db_def lookup_modify_by row_key_def)
  moreover have "r_voter r0 = q_voter r" using Some by (auto simp: row_key_def)
  ultimately show ?thesis using assms Some by (simp add: placed_def)
qed

lemma saved_row_other:
  assumes "k \<noteq> (sid, q_voter r)"
  shows "lookup_by row_key k (responses (saved_db sid r d)) = lookup_by row_key k (responses d)"
  using assms by (auto simp: saved_db_def lookup_modify_by row_key_def split: option.split)

lemma other_row_id:
  assumes "keys_ok d" and "placed d sid r" and "r0 \<in> set (responses d)" and "row_key r0 \<noteq> (sid, q_voter r)"
  shows "r_id r0 \<noteq> q_id r"
proof (cases "lookup_by row_key (sid, q_voter r) (responses d)")
  case None
  with assms(2) have "q_id r \<notin> r_id ` set (responses d)" by (simp add: placed_def)
  with assms(3) show ?thesis by (metis imageI)
next
  case (Some r1)
  then have "r1 \<in> set (responses d)" "row_key r1 = (sid, q_voter r)" by auto
  with assms same_row [OF assms(1) assms(3)] Some show ?thesis by (auto simp: placed_def)
qed

lemma loadIDs_insert_ignore_other: "q \<noteq> rid \<Longrightarrow> loadIDs (insert_ignore rid ids t) q = loadIDs t q"
  using insert_ignore_others [of rid ids t] by (metis loadIDs_others)

lemma load_saved:
  assumes "placed d sid r" and d: "distinct (q_seen r)"
  shows "\<exists>r'. loadResponse (saved_db sid r d) sid (q_voter r) True = Some r' \<and>
     q_id r' = q_id r \<and> q_voter r' = q_voter r \<and> q_choices r' = q_choices r \<and> q_comment r' = q_comment r \<and>
     q_created r' = q_created r \<and> q_updated r' = q_updated r \<and>
     set (q_seen r') = set (loadIDs (seen d) (q_id r)) \<union> set (q_seen r)"
proof -
  from saved_row [OF assms(1)] obtain r1 where
    l: "lookup_by row_key (sid, q_voter r) (responses (saved_db sid r d)) = Some r1"
    and r1: "r_id r1 = q_id r" "r_voter r1 = q_voter r" "r_comment r1 = q_comment r"
      "r_created r1 = q_created r" "r_updated r1 = q_updated r" by blast
  have c: "loadIDs (choices (saved_db sid r d)) (q_id r) = q_choices r"
    by (simp add: saved_db_def loadIDs_others)
  have s: "set (loadIDs (seen (saved_db sid r d)) (q_id r)) = set (loadIDs (seen d) (q_id r)) \<union> set (q_seen r)"
    by (auto simp: saved_db_def set_loadIDs set_insert_ignore)
  from l r1 c s show ?thesis by (simp add: loadResponse_def bare_response_def)
qed

lemma load_saved_other:
  assumes k: "keys_ok d" and p: "placed d sid r" and o': "(sid', voter') \<noteq> (sid, q_voter r)"
  shows "loadResponse (saved_db sid r d) sid' voter' w = loadResponse d sid' voter' w"
proof (cases "lookup_by row_key (sid', voter') (responses d)")
  case None
  with saved_row_other [OF o'] show ?thesis by (simp add: loadResponse_def)
next
  case (Some r0)
  then have "r_id r0 \<noteq> q_id r" using other_row_id [OF k p] o' by auto
  then have "loadIDs (choices (saved_db sid r d)) (r_id r0) = loadIDs (choices d) (r_id r0)"
    "loadIDs (seen (saved_db sid r d)) (r_id r0) = loadIDs (seen d) (r_id r0)"
    by (simp_all add: saved_db_def loadIDs_others loadIDs_insert_ignore_other)
  with Some saved_row_other [OF o'] show ?thesis by (simp add: loadResponse_def)
qed

section \<open>Submissions keep the invariant\<close>

lemma answer_votes_seen:
  assumes ok: "db_ok d" and sv: "loadSurvey d sid = Some sv"
  shows "set (q_choices (answer rid now sv (loadResponse d sid voter True) voter chs comment allow))
    \<subseteq> set (seen_now sv (loadResponse d sid voter True) allow)"
proof -
  have u: "ids_unique sv" using db_okD(5) [OF ok] sv by (metis surveys_ok_load survey_okD(1))
  have "set (before (loadResponse d sid voter True) q_choices) \<subseteq> set (before (loadResponse d sid voter True) q_seen)"
    using prev_facts(5) [OF ok sv] by (cases "loadResponse d sid voter True") simp_all
  then show ?thesis
    by (auto simp: set_answer_choices set_seen_now [OF u] split: if_splits)
qed

lemma saved_db_keys:
  assumes k: "keys_ok d" and p: "placed d sid r" and c: "distinct (q_choices r)"
  shows "keys_ok (saved_db sid r d)"
proof -
  let ?row = "\<lparr>r_id = q_id r, r_survey = sid, r_voter = q_voter r, r_comment = q_comment r,
                r_created = q_created r, r_updated = q_updated r\<rparr>"
  let ?f = "\<lambda>old. old\<lparr>r_comment := q_comment r, r_updated := q_updated r\<rparr>"
  have m: "map r_id (modify_by row_key x ?f t) = map r_id t" "map row_key (modify_by row_key x ?f t) = map row_key t"
    for x t by (intro map_key_modify_by; simp add: row_key_def)+
  have rk: "(\<lambda>r. (r_survey r, r_voter r)) = row_key" by (simp add: row_key_def [abs_def])
  have "distinct (map r_id (responses (saved_db sid r d)))"
  proof (cases "lookup_by row_key (sid, q_voter r) (responses d)")
    case None
    with p have "q_id r \<notin> r_id ` set (responses d)" by (simp add: placed_def)
    with None keys_okD(3) [OF k] show ?thesis by (simp add: saved_db_def)
  qed (use keys_okD(3) [OF k] in \<open>simp add: saved_db_def m\<close>)
  moreover have "distinct (map row_key (responses (saved_db sid r d)))"
  proof (cases "lookup_by row_key (sid, q_voter r) (responses d)")
    case None
    then have "(sid, q_voter r) \<notin> row_key ` set (responses d)" by (simp add: lookup_by_None_iff)
    with None distinct_row_keys [OF k] show ?thesis by (simp add: saved_db_def row_key_def [of ?row])
  qed (use distinct_row_keys [OF k] in \<open>simp add: saved_db_def m\<close>)
  moreover have "distinct (choices (saved_db sid r d))"
    using keys_okD(5) [OF k] c by (auto simp: saved_db_def distinct_map intro: inj_onI)
  moreover have "distinct (seen (saved_db sid r d))"
    using keys_okD(6) [OF k] by (simp add: saved_db_def distinct_insert_ignore)
  ultimately show ?thesis using k by (simp add: keys_ok_def rk)
qed

text \<open>Every response row is kept under its identifier and survey, and the answer has one.\<close>

lemma saved_db_rows:
  "(\<lambda>r0. (r_id r0, r_survey r0)) ` set (responses (saved_db sid r d)) =
   (\<lambda>r0. (r_id r0, r_survey r0)) ` set (responses d) \<union>
   (if lookup_by row_key (sid, q_voter r) (responses d) = None then {(q_id r, sid)} else {})"
proof (cases "lookup_by row_key (sid, q_voter r) (responses d)")
  case (Some r0)
  let ?f = "\<lambda>old. old\<lparr>r_comment := q_comment r, r_updated := q_updated r\<rparr>"
  have "(\<lambda>r0. (r_id r0, r_survey r0)) ` set (modify_by row_key (sid, q_voter r) ?f (responses d)) =
      (\<lambda>r0. (r_id r0, r_survey r0)) ` set (responses d)"
    by (intro image_key_modify_by) simp
  with Some show ?thesis by (simp add: saved_db_def)
qed (simp add: saved_db_def)

lemma placed_row:
  assumes "placed d sid r"
  shows "(q_id r, sid) \<in> (\<lambda>r0. (r_id r0, r_survey r0)) ` set (responses (saved_db sid r d))"
proof (cases "lookup_by row_key (sid, q_voter r) (responses d)")
  case (Some r0)
  then have "r0 \<in> set (responses d)" "r_survey r0 = sid" "r_id r0 = q_id r"
    using assms by (auto simp: placed_def row_key_def)
  then show ?thesis unfolding saved_db_rows by force
qed (simp add: saved_db_rows)

definition exposures_ok :: "db \<Rightarrow> bool" where
  "exposures_ok d = (\<forall>c\<in>set (seen d). \<exists>s. (fst c, s) \<in> (\<lambda>r0. (r_id r0, r_survey r0)) ` set (responses d) \<and>
      (snd c, s) \<in> (\<lambda>o'. (o_id o', o_survey o')) ` set (opts d))"

lemma votes_ok_alt: "votes_ok d \<longleftrightarrow> set (choices d) \<subseteq> set (seen d) \<and> exposures_ok d"
proof -
  have eq: "list_ex (\<lambda>r. r_id r = fst c \<and> (snd c, r_survey r) \<in> O') R \<longleftrightarrow>
     (\<exists>s. (fst c, s) \<in> (\<lambda>r0. (r_id r0, r_survey r0)) ` set R \<and> (snd c, s) \<in> O')" for R O' and c :: "string \<times> string"
    unfolding list_ex_iff image_iff by (metis (no_types, lifting) Pair_inject)
  show ?thesis unfolding votes_ok_def exposures_ok_def list_all_iff eq subset_eq by (rule refl)
qed

lemma saved_db_votes:
  assumes v: "votes_ok d" and p: "placed d sid r" and cs: "set (q_choices r) \<subseteq> set (q_seen r)"
    and sn: "\<And>i. i \<in> set (q_seen r) \<Longrightarrow> (i, sid) \<in> (\<lambda>o'. (o_id o', o_survey o')) ` set (opts d)"
  shows "votes_ok (saved_db sid r d)"
proof -
  let ?d' = "saved_db sid r d"
  have seen': "set (seen ?d') = set (seen d) \<union> Pair (q_id r) ` set (q_seen r)"
    by (simp add: saved_db_def set_insert_ignore)
  have "set (choices ?d') \<subseteq> set (choices d) \<union> Pair (q_id r) ` set (q_choices r)"
    by (auto simp: saved_db_def)
  with v cs have "set (choices ?d') \<subseteq> set (seen ?d')" unfolding seen' votes_ok_alt by blast
  moreover have "exposures_ok ?d'"
    unfolding exposures_ok_def
  proof
    fix c assume "c \<in> set (seen ?d')"
    then consider "c \<in> set (seen d)" | i where "i \<in> set (q_seen r)" "c = (q_id r, i)"
      unfolding seen' by blast
    then show "\<exists>s. (fst c, s) \<in> (\<lambda>r0. (r_id r0, r_survey r0)) ` set (responses ?d') \<and>
      (snd c, s) \<in> (\<lambda>o'. (o_id o', o_survey o')) ` set (opts ?d')"
    proof cases
      case 1
      with v obtain s where "(fst c, s) \<in> (\<lambda>r0. (r_id r0, r_survey r0)) ` set (responses d)"
        "(snd c, s) \<in> (\<lambda>o'. (o_id o', o_survey o')) ` set (opts d)"
        unfolding votes_ok_alt exposures_ok_def by blast
      then show ?thesis unfolding saved_db_rows by auto
    next
      case 2
      with placed_row [OF p] sn show ?thesis by (intro exI [of _ sid]) simp
    qed
  qed
  ultimately show ?thesis by (simp add: votes_ok_alt)
qed

lemma saved_db_refs:
  assumes f: "refs_ok d" and sid: "sid \<in> sv_id ` set (surveys d)"
  shows "refs_ok (saved_db sid r d)"
proof -
  have "snd ` (\<lambda>r0. (r_id r0, r_survey r0)) ` set (responses (saved_db sid r d)) \<subseteq>
      insert sid (snd ` (\<lambda>r0. (r_id r0, r_survey r0)) ` set (responses d))"
    unfolding saved_db_rows by auto
  then have "r_survey ` set (responses (saved_db sid r d)) \<subseteq> insert sid (r_survey ` set (responses d))"
    by (simp add: image_image)
  moreover have "r_survey ` set (responses d) \<subseteq> sv_id ` set (surveys d)"
    using f by (auto simp: refs_ok_def list_all_iff)
  ultimately have "r_survey ` set (responses (saved_db sid r d)) \<subseteq> sv_id ` set (surveys d)"
    using sid by (meson insert_subsetI subset_trans)
  then have "\<forall>r1\<in>set (responses (saved_db sid r d)). r_survey r1 \<in> sv_id ` set (surveys d)"
    by (simp add: image_subset_iff)
  with f show ?thesis by (simp add: refs_ok_def list_all_iff)
qed

lemma surveys_ok_cong: "surveys d' = surveys d \<Longrightarrow> opts d' = opts d \<Longrightarrow> surveys_ok d' = surveys_ok d"
  using loadSurvey_cong [of d' d] by (simp add: surveys_ok_def)

lemma saved_db_ok:
  assumes ok: "db_ok d" and p: "placed d sid r" and sv: "loadSurvey d sid = Some sv"
    and c: "distinct (q_choices r)" "set (q_choices r) \<subseteq> set (q_seen r)"
    and s: "set (q_seen r) \<subseteq> o_id ` set (options sv)"
  shows "db_ok (saved_db sid r d)"
proof -
  note d = db_okD [OF ok]
  have "(i, sid) \<in> (\<lambda>o'. (o_id o', o_survey o')) ` set (opts d)" if "i \<in> set (q_seen r)" for i
    using that s option_owner [OF sv d(1)] by auto
  with d p c saved_db_keys saved_db_votes saved_db_refs loadSurvey_mem [OF sv] surveys_ok_cong [of "saved_db sid r d" d]
  show ?thesis by (simp add: db_ok_def opened_ok_def)
qed

lemma seen_now_options: "set (seen_now sv prev allow) \<subseteq> o_id ` set (options sv)"
  by (auto simp: seen_now_def Let_def)

lemma saveResponseTx_db_ok [preserves]:
  assumes ok: "db_ok d" and r: "saveResponseTx rid now sid voter chs comment allow preview d = Inr (q, d')"
  shows "db_ok d'"
  using ok r
proof (cases rule: saveResponseTx_cases)
  case (1 sv)
  show ?thesis
    unfolding 1(5) using answer_votes_seen [OF ok 1(1)] seen_now_options
    by (intro saved_db_ok [OF ok saveResponseTx_placed [OF ok r] 1(1)]) (simp_all add: 1(3))
qed

section \<open>The list of answers\<close>

lemma attach_choices:
  "attach_pairs (\<lambda>r i. r\<lparr>q_choices := q_choices r @ [i]\<rparr>) cs out =
     map (\<lambda>r. r\<lparr>q_choices := q_choices r @ loadIDs cs (q_id r)\<rparr>) out"
  by (induction cs arbitrary: out) (auto simp: loadIDs_def modify_by_def)

lemma attach_seen:
  "attach_pairs (\<lambda>r i. r\<lparr>q_seen := q_seen r @ [i]\<rparr>) cs out =
     map (\<lambda>r. r\<lparr>q_seen := q_seen r @ loadIDs cs (q_id r)\<rparr>) out"
  by (induction cs arbitrary: out) (auto simp: loadIDs_def modify_by_def)

lemma loadIDs_joined:
  assumes "r \<in> set (responses d)" and "r_survey r = sid"
  shows "loadIDs (filter (\<lambda>c. list_ex (\<lambda>r. r_id r = fst c \<and> r_survey r = sid) (responses d)) t) (r_id r) =
     loadIDs t (r_id r)"
proof -
  have "fst c = r_id r \<Longrightarrow> list_ex (\<lambda>r. r_id r = fst c \<and> r_survey r = sid) (responses d)" for c :: "string \<times> string"
    using assms by (auto simp: list_ex_iff)
  then have "filter (\<lambda>c. fst c = r_id r) (filter (\<lambda>c. list_ex (\<lambda>r. r_id r = fst c \<and> r_survey r = sid) (responses d)) t)
      = filter (\<lambda>c. fst c = r_id r) t"
    by (induction t) auto
  then show ?thesis unfolding loadIDs_def by (rule arg_cong)
qed

lemma set_rows_of: "set (rows_of d sid) = {r \<in> set (responses d). r_survey r = sid}"
  by (auto simp: rows_of_def)

lemma Responses_eq:
  "Responses d sid = map (\<lambda>r. (bare_response r)
      \<lparr>q_choices := loadIDs (choices d) (r_id r), q_seen := loadIDs (seen d) (r_id r)\<rparr>) (rows_of d sid)"
  unfolding Responses_def attach_def Let_def attach_choices attach_seen map_map
  by (intro map_cong refl) (auto simp: bare_response_def set_rows_of loadIDs_joined)

lemma row_by_key:
  assumes "keys_ok d" and "r \<in> set (responses d)" and "r_survey r = sid"
  shows "lookup_by row_key (sid, r_voter r) (responses d) = Some r"
  using lookup_by_mem [OF distinct_row_keys [OF assms(1)] assms(2)] assms(3) by (simp add: row_key_def)

lemma Responses_loaded:
  assumes "keys_ok d"
  shows "map Some (Responses d sid) = map (\<lambda>r. loadResponse d sid (r_voter r) True) (rows_of d sid)"
  unfolding Responses_eq map_map comp_def
  by (intro map_cong refl) (use assms row_by_key in \<open>auto simp: loadResponse_def set_rows_of\<close>)

lemma length_Responses: "length (Responses d sid) = Count d sid"
  by (simp add: Responses_eq rows_of_def Count_def)

lemma distinct_voters: "keys_ok d \<Longrightarrow> distinct (map r_voter (rows_of d sid))"
proof -
  assume "keys_ok d"
  then have "distinct (map row_key (filter (\<lambda>r. r_survey r = sid) (responses d)))"
    by (intro map_distinct_filter distinct_row_keys)
  then have inj: "inj_on row_key {r \<in> set (responses d). r_survey r = sid}" and
    dd: "distinct (filter (\<lambda>r. r_survey r = sid) (responses d))"
    by (simp_all add: distinct_map)
  from inj have "inj_on r_voter {r \<in> set (responses d). r_survey r = sid}"
    by (auto simp: inj_on_def row_key_def)
  with dd show ?thesis by (simp add: distinct_map set_rows_of) (simp add: rows_of_def)
qed

lemma Responses_voter_iff: "q \<in> set (Responses d sid) \<and> keys_ok d \<Longrightarrow> loadResponse d sid (q_voter q) True = Some q"
proof -
  assume q: "q \<in> set (Responses d sid) \<and> keys_ok d"
  then have "Some q \<in> set (map Some (Responses d sid))" by simp
  with q Responses_loaded [of d sid]
  have "Some q \<in> set (map (\<lambda>r. loadResponse d sid (r_voter r) True) (rows_of d sid))" by simp
  then have "\<exists>r\<in>set (rows_of d sid). Some q = loadResponse d sid (r_voter r) True"
    by (simp only: set_map image_iff)
  then obtain r :: response_row where r: "Some q = loadResponse d sid (r_voter r) True" by blast
  from loadResponse_row [OF r [symmetric]] have "q_voter q = r_voter r" by blast
  then show ?thesis by (simp only: r [symmetric])
qed

section \<open>Write-ins\<close>

lemma addWriteIn_cases:
  assumes ok: "db_ok d" and r: "addWriteIn nid rid now sid voter txt preview d = Inr (i, d')"
    and fresh: "nid \<notin> o_id ` set (opts d)" and now: "now \<noteq> 0"
  obtains sv sv1 d1 q where "loadSurvey d sid = Some sv" "allow_write_in sv" "AcceptingFrom sv now preview"
    "countPending sv (loadResponse d sid voter False) < maxWriteInsPerVoter"
    "length (PendingOptions sv) < maxPendingPerSurvey" "length (options sv) < maxOptions"
    "TrimSpace txt \<noteq> []" "length (TrimSpace txt) \<le> MaxOptionText" "i = nid"
    "options sv1 = options sv @ [\<lparr>o_id = nid, o_text = TrimSpace txt, o_status = OptPending,
       o_source = ''writein'', o_merged = [], o_created = now\<rparr>]"
    "saveSurvey now d (sv1\<lparr>sv_updated := now\<rparr>) = Inr (stamp_opened now (sv1\<lparr>sv_updated := now\<rparr>), d1)"
    "db_ok d1" "loadSurvey d1 sid = Some (stamp_opened now (sv1\<lparr>sv_updated := now\<rparr>))"
    "saveResponseTx rid now sid voter (before (loadResponse d sid voter False) q_choices @ [nid])
       (case loadResponse d sid voter False of None \<Rightarrow> [] | Some p \<Rightarrow> q_comment p) nid preview d1 = Inr (q, d')"
    "allow_comment sv1 = allow_comment sv" "sv_id sv1 = sid"
proof -
  note d = db_okD [OF ok]
  from r obtain sv sv1 sv2 d1 q where
    a: "loadSurvey d sid = Some sv" "allow_write_in sv" "AcceptingFrom sv now preview"
    "countPending sv (loadResponse d sid voter False) < maxWriteInsPerVoter"
    "length (PendingOptions sv) < maxPendingPerSurvey"
    and add: "AddOption nid now sv txt OptPending ''writein'' = Inr (i, sv1)"
    and s: "saveSurvey now d (sv1\<lparr>sv_updated := now\<rparr>) = Inr (sv2, d1)"
    and q: "saveResponseTx rid now sid voter (before (loadResponse d sid voter False) q_choices @ [i])
       (case loadResponse d sid voter False of None \<Rightarrow> [] | Some p \<Rightarrow> q_comment p) i preview d1 = Inr (q, d')"
    by (auto simp: addWriteIn_def Let_def before_def not_le split: option.splits if_splits prod.splits)
  have sv: "survey_ok sv" using d(5) a(1) by (rule surveys_ok_load)
  note c = AddOption_cases [OF add]
  have sub: "o_id ` set (options sv) \<subseteq> o_id ` set (opts d)" by (rule options_in_table [OF a(1) d(1)])
  have ok1: "survey_ok sv1"
    using fresh sub by (intro AddOption_ok [OF sv add]) (auto simp: validOptionStatus_def)
  have e: "edit_of d sv sv1" by (rule edit_of_AddOption [OF survey_okD(1) [OF sv] add fresh sub])
  then have e': "edit_of d sv (sv1\<lparr>sv_updated := now\<rparr>)" by (rule edit_of_fields) simp_all
  have g: "grows d (sv1\<lparr>sv_updated := now\<rparr>)" by (rule edit_grows [OF d(1) a(1) e'])
  have sok: "survey_ok (sv1\<lparr>sv_updated := now\<rparr>)" using ok1 by (simp add: survey_ok_parts [of "sv1\<lparr>sv_updated := now\<rparr>" sv1])
  have d1: "db_ok d1" by (rule saveSurvey_db_ok [OF ok g sok now s])
  have id1: "sv_id sv1 = sid" using e loadSurvey_id [OF a(1)] by (simp add: edit_of_def)
  have sv2: "sv2 = stamp_opened now (sv1\<lparr>sv_updated := now\<rparr>)" using saveSurvey_cases [OF s] by simp
  have l1: "loadSurvey d1 sid = Some sv2"
    using save_then_load [OF d(1) grows_savable [OF d(1) g] s] id1 by simp
  show thesis
    by (rule that [of sv sv1 d1 q]) (use a c s q l1 sv2 id1 d1 in simp_all)
qed

section \<open>Clearing and publishing\<close>

lemma delete_responses_db_ok [preserves]:
  assumes "db_ok d"
  shows "db_ok (delete_responses p d)"
proof -
  note d = db_okD [OF assms]
  have "votes_ok ((delete_responses p d)\<lparr>opts := opts d\<rparr>)"
    using d(3) by (rule delete_responses_votes [where q = "\<lambda>s. True"]) (simp_all add: list_all_iff)
  then have "votes_ok (delete_responses p d)" by (simp add: votes_ok_def)
  with d delete_responses_keys surveys_ok_cong [of "delete_responses p d" d] show ?thesis
    by (auto simp: db_ok_def refs_ok_def opened_ok_def list_all_iff)
qed

lemma clearResponsesTx_cases:
  assumes "clearResponsesTx sid d = Inr (n, d')"
  shows "n = Count d sid" "d' = delete_responses (\<lambda>r. r_survey r = sid) d" "sid \<in> sv_id ` set (surveys d)"
  using assms by (auto simp: clearResponsesTx_def filter_empty_conv split: if_splits)

lemma clearResponsesTx_finds: "sid \<in> sv_id ` set (surveys d) \<Longrightarrow>
  clearResponsesTx sid d = Inr (Count d sid, delete_responses (\<lambda>r. r_survey r = sid) d)"
  by (auto simp: clearResponsesTx_def filter_empty_conv)

lemma Count_cleared: "Count (delete_responses (\<lambda>r. r_survey r = sid) d) sid = 0"
  by (simp add: Count_def filter_empty_conv)

text \<open>Clearing one survey leaves the answers to every other one.\<close>

lemma cleared_other:
  assumes k: "keys_ok d" and "sid' \<noteq> sid"
  shows "loadResponse (delete_responses (\<lambda>r. r_survey r = sid) d) sid' voter w = loadResponse d sid' voter w"
proof (cases "lookup_by row_key (sid', voter) (responses d)")
  case None
  then have "(sid', voter) \<notin> row_key ` set (responses d)" by (simp add: lookup_by_None_iff)
  then have "lookup_by row_key (sid', voter) (filter (\<lambda>r. r_survey r \<noteq> sid) (responses d)) = None"
    unfolding lookup_by_None_iff by auto
  with None show ?thesis by (simp add: loadResponse_def)
next
  case (Some r0)
  then have r0: "r0 \<in> set (responses d)" "r_survey r0 = sid'" by (auto simp: row_key_def)
  have "lookup_by row_key (sid', voter) (filter (\<lambda>r. r_survey r \<noteq> sid) (responses d)) = Some r0"
    using Some assms(2) by (subst lookup_filter_other) (auto simp: row_key_def)
  moreover have "r_id r0 \<notin> r_id ` {r \<in> set (responses d). r_survey r = sid}"
    using r0 assms(2) same_row [OF k r0(1)] by auto
  then have "loadIDs (filter (\<lambda>c. fst c \<notin> r_id ` {r \<in> set (responses d). r_survey r = sid}) t) (r_id r0) =
      loadIDs t (r_id r0)" for t
    by (auto simp: loadIDs_def intro!: arg_cong [where f = "map snd"] filter_cong)
  ultimately show ?thesis using Some by (simp add: loadResponse_def delete_responses_def Let_def)
qed

lemma publish_edit_fields:
  "sv_id (publish_edit now sv) = sv_id sv" "options (publish_edit now sv) = options sv"
  "sv_created (publish_edit now sv) = sv_created sv" "sv_state (publish_edit now sv) = StateOpen"
  "first_opened_at (publish_edit now sv) = (if first_opened_at sv = 0 then now else first_opened_at sv)"
  "Accepting (publish_edit now sv) now"
  by (auto simp: publish_edit_def Let_def Accepting_def IsZero_def)

lemma publishTx_cases:
  assumes ok: "db_ok d" and now: "now \<noteq> 0" and r: "publishTx now sid d = Inr (n, d')"
  obtains sv d1 where "loadSurvey d sid = Some sv" "saveSurvey now d (publish_edit now sv) = Inr (publish_edit now sv, d1)"
    "db_ok d1" "loadSurvey d1 sid = Some (publish_edit now sv)"
    "n = (if first_opened_at sv = 0 then Count d sid else 0)"
    "d' = (if first_opened_at sv = 0 then delete_responses (\<lambda>r. r_survey r = sid) d1 else d1)"
proof -
  note d = db_okD [OF ok]
  from r obtain sv sv1 d1 where l: "loadSurvey d sid = Some sv"
    and s: "saveSurvey now d (publish_edit now sv) = Inr (sv1, d1)"
    and b: "(if IsZero (first_opened_at sv) then clearResponsesTx sid d1 else Inr (0, d1)) = Inr (n, d')"
    by (auto simp: publishTx_def split: option.splits)
  have sv1: "sv1 = publish_edit now sv"
    using saveSurvey_cases [OF s] now by (auto simp: stamp_opened_def publish_edit_fields IsZero_def)
  have u: "ids_unique sv" using d(5) l by (metis surveys_ok_load survey_okD(1))
  then have "edit_of d sv (publish_edit now sv)"
    by (simp add: edit_of_def publish_edit_fields ids_unique_def)
  then have g: "grows d (publish_edit now sv)" by (rule edit_grows [OF d(1) l])
  have ok1: "survey_ok (publish_edit now sv)"
    using surveys_ok_load [OF d(5) l] by (simp add: survey_ok_parts [of "publish_edit now sv" sv] publish_edit_fields)
  have d1: "db_ok d1" by (rule saveSurvey_db_ok [OF ok g ok1 now s])
  have l1: "loadSurvey d1 sid = Some (publish_edit now sv)"
    using save_then_load [OF d(1) grows_savable [OF d(1) g] s] loadSurvey_id [OF l] sv1
    by (simp add: publish_edit_fields)
  have c: "clearResponsesTx sid d1 = Inr (Count d sid, delete_responses (\<lambda>r. r_survey r = sid) d1)"
    using clearResponsesTx_finds [OF loadSurvey_mem [OF l1]] saveSurvey_rest [OF s] by (simp add: Count_def)
  show thesis
    by (rule that [OF l _ d1 l1]) (use s sv1 b c in \<open>simp_all add: IsZero_def split: if_splits\<close>)
qed

lemma publishTx_db_ok [preserves]:
  assumes "db_ok d" and "now \<noteq> 0" and "publishTx now sid d = Inr (n, d')"
  shows "db_ok d'"
  using assms by (cases rule: publishTx_cases) (simp_all add: delete_responses_db_ok split: if_splits)

lemma addWriteIn_db_ok [preserves]:
  assumes "db_ok d" and "addWriteIn nid rid now sid voter txt preview d = Inr (i, d')"
    and "nid \<notin> o_id ` set (opts d)" and "now \<noteq> 0"
  shows "db_ok d'"
  using assms by (cases rule: addWriteIn_cases) (blast intro: saveResponseTx_db_ok)

lemma clearResponsesTx_db_ok [preserves]:
  "db_ok d \<Longrightarrow> clearResponsesTx sid d = Inr (n, d') \<Longrightarrow> db_ok d'"
  by (metis clearResponsesTx_cases(2) delete_responses_db_ok)

section \<open>Reading back a submission\<close>

lemma save_reads_back:
  assumes ok: "db_ok d" and r: "saveResponseTx rid now sid voter chs comment allow preview d = Inr (q, d')"
  shows "\<exists>q'. loadResponse d' sid voter True = Some q' \<and> q_id q' = q_id q \<and> q_choices q' = q_choices q \<and>
        q_comment q' = q_comment q \<and> q_created q' = q_created q \<and> q_updated q' = now \<and>
        set (q_seen q') = set (q_seen q) \<and> set (q_choices q') \<subseteq> set (q_seen q') \<and> distinct (q_choices q') \<and>
        (\<forall>p. loadResponse d sid voter True = Some p \<longrightarrow>
           q_id q' = q_id p \<and> q_created q' = q_created p \<and> set (q_seen p) \<subseteq> set (q_seen q'))"
  using ok r
proof (cases rule: saveResponseTx_cases)
  case (1 sv)
  note d = db_okD [OF ok] and pl = saveResponseTx_placed [OF ok r]
  have v: "q_voter q = voter" "q_updated q = now" by (simp_all add: 1(3))
  have u: "ids_unique sv" using d(5) 1(1) by (metis surveys_ok_load survey_okD(1))
  have sn: "distinct (q_seen q)" by (simp add: 1(3) distinct_seen_now [OF u])
  have cs: "set (q_choices q) \<subseteq> set (q_seen q)" "distinct (q_choices q)"
    using answer_votes_seen [OF ok 1(1)] by (simp_all add: 1(3))
  have old: "set (loadIDs (seen d) (q_id q)) \<subseteq> set (q_seen q)"
  proof (cases "loadResponse d sid voter True")
    case None
    with pl loadResponse_None [of d sid voter True] v have "q_id q \<notin> r_id ` set (responses d)"
      by (simp add: placed_def)
    then show ?thesis using d(3) by (force simp: votes_ok_def list_all_iff list_ex_iff set_loadIDs)
  next
    case (Some p)
    then show ?thesis
      using seen_grows [OF ok 1(1) Some, of allow] loadResponse_row [OF Some] by (auto simp: 1(3))
  qed
  from load_saved [OF pl sn] obtain q' where q': "loadResponse d' sid voter True = Some q'"
    "q_id q' = q_id q" "q_choices q' = q_choices q" "q_comment q' = q_comment q" "q_created q' = q_created q"
    "q_updated q' = now" "set (q_seen q') = set (q_seen q)"
    using old v 1(5) by auto
  have "q_id q' = q_id p \<and> q_created q' = q_created p \<and> set (q_seen p) \<subseteq> set (q_seen q')"
    if "loadResponse d sid voter True = Some p" for p
    using that q' seen_grows [OF ok 1(1) that, of allow] by (simp add: 1(3))
  with q' cs show ?thesis by auto
qed

lemma save_frame_responses:
  assumes ok: "db_ok d" and r: "saveResponseTx rid now sid voter chs comment allow preview d = Inr (q, d')"
  shows "(s, v) \<noteq> (sid, voter) \<Longrightarrow> loadResponse d' s v w = loadResponse d s v w"
    and "surveys d' = surveys d" "opts d' = opts d" "users d' = users d" "invites d' = invites d"
    "resets d' = resets d" "meta d' = meta d"
proof -
  from ok r obtain sv where 1: "q = answer rid now sv (loadResponse d sid voter True) voter chs comment allow"
    "d' = saved_db sid q d" by (rule saveResponseTx_cases)
  have "q_voter q = voter" by (simp add: 1(1))
  with load_saved_other [OF db_okD(1) [OF ok] saveResponseTx_placed [OF ok r]]
  show "(s, v) \<noteq> (sid, voter) \<Longrightarrow> loadResponse d' s v w = loadResponse d s v w"
    unfolding 1(2) by blast
qed (use ok r in \<open>cases rule: saveResponseTx_cases, simp\<close>)+

lemma save_count:
  assumes ok: "db_ok d" and r: "saveResponseTx rid now sid voter chs comment allow preview d = Inr (q, d')"
  shows "Count d' sid = (if loadResponse d sid voter True = None then Count d sid + 1 else Count d sid)"
  using ok r
proof (cases rule: saveResponseTx_cases)
  case (1 sv)
  have "map r_survey (modify_by row_key x (\<lambda>old. old\<lparr>r_comment := a, r_updated := b\<rparr>) t) = map r_survey t"
    for x a b t by (intro map_key_modify_by) simp
  then have m: "length (filter (\<lambda>r. r_survey r = sid)
      (modify_by row_key x (\<lambda>old. old\<lparr>r_comment := a, r_updated := b\<rparr>) t)) =
      length (filter (\<lambda>r. r_survey r = sid) t)" for x a b t
    by (induction t) auto
  have "q_voter q = voter" by (simp add: 1(3))
  then show ?thesis
    unfolding 1(5) loadResponse_None by (simp add: Count_def saved_db_def m)
qed

section \<open>Counting a respondent's pending suggestions\<close>

definition pending_in :: "survey \<Rightarrow> string \<Rightarrow> bool" where
  "pending_in sv i = (case OptionOf sv i of None \<Rightarrow> False | Some o' \<Rightarrow> o_status o' = OptPending)"

lemma countPending_card:
  "distinct (before r q_choices) \<Longrightarrow> countPending sv r = card {i \<in> set (before r q_choices). pending_in sv i}"
  unfolding countPending_def pending_in_def [symmetric]
  by (cases r) (simp_all add: distinct_card [symmetric])

lemma length_PendingOptions: "length (PendingOptions sv) = length (filter (\<lambda>o'. o_status o' = OptPending) (options sv))"
  by (simp add: PendingOptions_def)

lemma pending_in_append:
  assumes "nid \<notin> o_id ` set (options sv)" and "options sv' = options sv @ [new]" and "o_id new = nid"
  shows "pending_in sv' j = (if j = nid then o_status new = OptPending else pending_in sv j)"
  using OptionOf_append [OF assms(1,3), of j] assms(2) by (simp add: pending_in_def OptionOf_def)

lemma card_with_one_more:
  "card {i \<in> insert n (set xs). if i = n then True else p i} \<le> Suc (card {i \<in> set xs. p i})"
proof -
  have "card {i \<in> insert n (set xs). if i = n then True else p i} \<le> card (insert n {i \<in> set xs. p i})"
    by (intro card_mono) auto
  also have "\<dots> \<le> Suc (card {i \<in> set xs. p i})" by (simp add: card_insert_if)
  finally show ?thesis .
qed

text \<open>Submitting one's earlier choices and a write-in of one's own records exactly those.\<close>

lemma write_in_choices:
  assumes ok: "db_ok d" and sv: "loadSurvey d sid = Some sv"
    and r: "saveResponseTx rid now sid voter (before (loadResponse d sid voter w) q_choices @ [nid]) comment nid preview d
      = Inr (q, d')"
    and new: "\<exists>o'\<in>set (options sv). o_id o' = nid \<and> o_status o' = OptPending"
  shows "set (before (loadResponse d' sid voter True) q_choices) = insert nid (set (before (loadResponse d sid voter w) q_choices))"
    and "distinct (before (loadResponse d' sid voter True) q_choices)"
proof -
  have u: "ids_unique sv" using db_okD(5) [OF ok] sv by (metis surveys_ok_load survey_okD(1))
  from new u obtain o' where o': "OptionOf sv nid = Some o'" "o_status o' = OptPending" "o_id o' = nid"
    by (auto simp: OptionOf_def ids_unique_def dest: lookup_by_mem)
  have eqw: "before (loadResponse d sid voter True) q_choices = before (loadResponse d sid voter w) q_choices"
    by (simp add: loadResponse_def split: option.split)
  have old: "set (before (loadResponse d sid voter w) q_choices) \<subseteq> o_id ` set (options sv)"
    using prev_facts(3) [OF ok sv] by (cases "loadResponse d sid voter w") simp_all
  from ok r sv have q: "q = answer rid now sv (loadResponse d sid voter True) voter
      (before (loadResponse d sid voter w) q_choices @ [nid]) comment nid"
    by (cases rule: saveResponseTx_cases) simp_all
  have "set (q_choices q) = insert nid (set (before (loadResponse d sid voter w) q_choices))"
    (is "_ = insert nid (set ?b)")
  proof (rule set_eqI)
    fix x
    have vis: "visibleTo o' (loadResponse d sid voter True) nid" using o' by (simp add: visibleTo_def)
    have "x \<in> set ?b \<Longrightarrow> \<exists>ox. OptionOf sv x = Some ox" using old ids_OptionOf [of x sv] by blast
    then show "x \<in> set (q_choices q) \<longleftrightarrow> x \<in> insert nid (set ?b)"
      unfolding q set_answer_choices eqw using o' vis by (cases "x = nid") auto
  qed
  with save_reads_back [OF ok r]
  show "set (before (loadResponse d' sid voter True) q_choices) = insert nid (set (before (loadResponse d sid voter w) q_choices))"
    "distinct (before (loadResponse d' sid voter True) q_choices)"
    by auto
qed

section \<open>Properties\<close>

text \<open>
  C1. What a submission records is decided option by option: an option that was on the
  respondent's ballot is recorded exactly if they submitted it, and an option that was not
  (removed, rejected, merged away, someone else's write-in) keeps whatever they had said
  before; nothing outside the survey is ever recorded, and nothing twice.
\<close>

theorem submission_decides_the_visible:
  assumes ok: "db_ok d" and sv: "loadSurvey d sid = Some sv"
    and r: "saveResponseTx rid now sid voter chs comment allow preview d = Inr (q, d')"
  shows "distinct (q_choices q) \<and>
    (i \<in> set (q_choices q) \<longleftrightarrow>
      (\<exists>o'. OptionOf sv i = Some o' \<and>
        (if visibleTo o' (loadResponse d sid voter True) allow then i \<in> set chs
         else \<exists>p. loadResponse d sid voter True = Some p \<and> i \<in> set (q_choices p))))"
  using ok r
proof (cases rule: saveResponseTx_cases)
  case (1 sv')
  with sv show ?thesis
    by (cases "loadResponse d sid voter True") (simp_all add: 1(3) set_answer_choices)
qed

theorem submission_decides_the_visible_witness:
  "\<exists>q d'. saveResponseTx ''r9'' 99 ''s1'' ''v2'' [''b'', ''b'', ''c'', ''zz''] ''hi'' [] False demo_db = Inr (q, d')
     \<and> ''d'' \<in> set (q_choices q) \<and> ''b'' \<in> set (q_choices q) \<and> ''c'' \<notin> set (q_choices q) \<and> distinct (q_choices q)"
proof -
  let ?s = "saveResponseTx ''r9'' 99 ''s1'' ''v2'' [''b'', ''b'', ''c'', ''zz''] ''hi'' [] False demo_db"
  have "\<not> isl ?s" by code_simp
  then obtain q d' where r: "?s = Inr (q, d')" by (cases ?s) auto
  let ?want = "\<lambda>i. case OptionOf demo_survey i of None \<Rightarrow> False
     | Some o' \<Rightarrow> if visibleTo o' (loadResponse demo_db ''s1'' ''v2'' True) [] then i \<in> set [''b'', ''b'', ''c'', ''zz'']
         else (case loadResponse demo_db ''s1'' ''v2'' True of None \<Rightarrow> False | Some p \<Rightarrow> i \<in> set (q_choices p))"
  have w: "?want ''d'' \<and> ?want ''b'' \<and> \<not> ?want ''c''" by code_simp
  note th = submission_decides_the_visible [OF demo_db_ok demo_db_loads r]
  from w have "''d'' \<in> set (q_choices q)" "''b'' \<in> set (q_choices q)" "''c'' \<notin> set (q_choices q)"
    unfolding th [THEN conjunct2] by (auto split: option.splits if_splits)
  with r th show ?thesis by blast
qed

text \<open>
  C2. One answer per respondent and survey, replaced in place: after a submission, reading the
  respondent's answer gives exactly what was recorded, with the identifier and creation time of
  the answer it replaces; the number of respondents grows only if they had not answered;
  everyone else's answers, here and on every other survey, are as they were; what they have been
  shown only grows and covers every vote; and the invariant of the database is kept.
\<close>

theorem one_answer_per_voter:
  assumes ok: "db_ok d" and r: "saveResponseTx rid now sid voter chs comment allow preview d = Inr (q, d')"
  shows "(\<exists>q'. ResponseFor d' sid voter = Some q' \<and> q_id q' = q_id q \<and> q_choices q' = q_choices q \<and>
        q_comment q' = q_comment q \<and> q_created q' = q_created q \<and> q_updated q' = now \<and>
        set (q_seen q') = set (q_seen q) \<and> set (q_choices q') \<subseteq> set (q_seen q') \<and>
        (\<forall>p. ResponseFor d sid voter = Some p \<longrightarrow>
           q_id q' = q_id p \<and> q_created q' = q_created p \<and> set (q_seen p) \<subseteq> set (q_seen q'))) \<and>
    Count d' sid = (if ResponseFor d sid voter = None then Count d sid + 1 else Count d sid) \<and>
    (\<forall>s v. (s, v) \<noteq> (sid, voter) \<longrightarrow> ResponseFor d' s v = ResponseFor d s v) \<and>
    surveys d' = surveys d \<and> opts d' = opts d \<and> db_ok d'"
  using save_reads_back [OF ok r] save_count [OF ok r] save_frame_responses [OF ok r] saveResponseTx_db_ok [OF ok r]
  unfolding ResponseFor_def by blast

theorem one_answer_per_voter_witness:
  "\<exists>q d'. saveResponseTx ''r9'' 99 ''s1'' ''v2'' [''b''] ''hi'' [] False demo_db = Inr (q, d') \<and>
     Count d' ''s1'' = Count demo_db ''s1'' \<and> ResponseFor d' ''s1'' ''v1'' = ResponseFor demo_db ''s1'' ''v1'' \<and> db_ok d'"
proof -
  let ?s = "saveResponseTx ''r9'' 99 ''s1'' ''v2'' [''b''] ''hi'' [] False demo_db"
  have "\<not> isl ?s" by code_simp
  then obtain q d' where r: "?s = Inr (q, d')" by (cases ?s) auto
  have "ResponseFor demo_db ''s1'' ''v2'' \<noteq> None" by code_simp
  with one_answer_per_voter [OF demo_db_ok r] r show ?thesis by auto
qed

text \<open>
  C36. Exactly when a submission is refused: the survey is missing, it is not accepting, or the
  identifier drawn for a first answer is taken. Every other submission, whatever choices it
  names, is recorded; a stale form never loses the ballot.
\<close>

theorem submission_refused_only_if:
  assumes ok: "db_ok d"
  shows "isl (saveResponseTx rid now sid voter chs comment allow preview d) \<longleftrightarrow>
    (case loadSurvey d sid of
       None \<Rightarrow> True
     | Some sv \<Rightarrow> \<not> AcceptingFrom sv now preview \<or>
         (ResponseFor d sid voter = None \<and> rid \<in> r_id ` set (responses d)))"
  unfolding saveResponseTx_eq [OF ok] ResponseFor_def by (auto simp: Let_def split: option.split)

theorem submission_refused_only_if_witness:
  "isl (saveResponseTx ''r1'' 99 ''s1'' ''v9'' [''b''] [] [] False demo_db) \<and>
   \<not> isl (saveResponseTx ''r9'' 99 ''s1'' ''v9'' [''nonsense''] [] [] False demo_db)"
proof -
  have "case loadSurvey demo_db ''s1'' of None \<Rightarrow> False | Some sv \<Rightarrow> AcceptingFrom sv 99 False \<and>
     ResponseFor demo_db ''s1'' ''v9'' = None \<and> ''r1'' \<in> r_id ` set (responses demo_db) \<and>
     ''r9'' \<notin> r_id ` set (responses demo_db)" by code_simp
  then show ?thesis unfolding submission_refused_only_if [OF demo_db_ok] by (simp split: option.splits)
qed

text \<open>
  Skipping the insert of an unchanged seen set is sound: the write with the length test
  has the same result on every branch as the write that always re-issues one
  \<open>INSERT OR IGNORE\<close> per option.
\<close>

definition put_response_always :: "string \<Rightarrow> response \<Rightarrow> db \<Rightarrow> err + (response \<times> db)" where
  "put_response_always sid r d =
     bindE (insert_response
         \<lparr>r_id = q_id r, r_survey = sid, r_voter = q_voter r, r_comment = q_comment r,
          r_created = q_created r, r_updated = q_updated r\<rparr> (responses d)) (\<lambda>rs.
     bindE (insert_choices (q_id r) (q_choices r) (filter (\<lambda>c. fst c \<noteq> q_id r) (choices d))) (\<lambda>cs.
     Inr (r, d\<lparr>responses := rs, choices := cs, seen := insert_ignore (q_id r) (q_seen r) (seen d)\<rparr>)))"

theorem skipping_seen_is_sound:
  assumes ok: "db_ok d" and sv: "loadSurvey d sid = Some sv" and prev: "prev = loadResponse d sid voter True"
    and r: "r = answer rid now sv prev voter chs comment allow"
  shows "put_response sid prev r d = put_response_always sid r d"
proof (cases prev)
  case None
  then show ?thesis by (simp add: put_response_def put_response_always_def insertSeen_unbatched)
next
  case (Some p)
  have "length (q_seen r) = length (q_seen p) \<Longrightarrow> insert_ignore (q_id r) (q_seen r) (seen d) = seen d"
    using skipped_insert_is_noop [OF ok sv, of voter p allow] prev [symmetric] Some by (simp add: r)
  with Some show ?thesis
    by (auto simp: put_response_def put_response_always_def insertSeen_unbatched bindE_def split: sum.split)
qed

theorem skipping_seen_is_sound_witness:
  "let prev = loadResponse demo_db ''s1'' ''v1'' True;
       r = answer ''r9'' 99 demo_survey prev ''v1'' [''b''] [] []
   in length (q_seen r) = 2 \<and> put_response ''s1'' prev r demo_db = put_response_always ''s1'' r demo_db"
proof -
  have "length (q_seen (answer ''r9'' 99 demo_survey (loadResponse demo_db ''s1'' ''v1'' True) ''v1'' [''b''] [] [])) = 2"
    by code_simp
  with skipping_seen_is_sound [OF demo_db_ok demo_db_loads refl refl] show ?thesis by (simp add: Let_def)
qed





text \<open>
  An answer given by the public is never discarded by publishing: once a respondent's
  submission has been accepted, a later \<open>Publish\<close> of that survey discards nothing and leaves
  the answer as it was recorded.
\<close>

theorem publish_keeps_public_answers:
  assumes ok: "db_ok d" and r: "saveResponseTx rid t sid voter chs comment allow False d = Inr (q, d1)"
    and p: "publishTx now sid d1 = Inr (n, d2)" and now: "now \<noteq> 0"
  shows "n = 0 \<and> ResponseFor d2 sid voter = ResponseFor d1 sid voter \<and> ResponseFor d2 sid voter \<noteq> None"
proof -
  have ok1: "db_ok d1" by (rule saveResponseTx_db_ok [OF ok r])
  from ok r obtain sv where sv: "loadSurvey d sid = Some sv" "Accepting sv t"
    by (cases rule: saveResponseTx_cases) auto
  then have "sv_state sv = StateOpen" by (auto simp: Accepting_def split: if_splits)
  with opened_ok_load [OF db_okD(4) [OF ok] sv(1)] have o': "first_opened_at sv \<noteq> 0" by simp
  have l: "loadSurvey d1 sid = Some sv"
    using loadSurvey_cong save_frame_responses(2,3) [OF ok r] sv(1) by metis
  from ok1 now p obtain sv1 d3 where c: "loadSurvey d1 sid = Some sv1"
    "saveSurvey now d1 (publish_edit now sv1) = Inr (publish_edit now sv1, d3)"
    "n = (if first_opened_at sv1 = 0 then Count d1 sid else 0)"
    "d2 = (if first_opened_at sv1 = 0 then delete_responses (\<lambda>r. r_survey r = sid) d3 else d3)"
    by (rule publishTx_cases)
  with l o' have "n = 0" "d2 = d3" by simp_all
  moreover have "loadResponse d3 sid voter True = loadResponse d1 sid voter True"
    using saveSurvey_rest [OF c(2)] by (intro loadResponse_cong)
  ultimately show ?thesis using save_reads_back [OF ok r] by (auto simp: ResponseFor_def)
qed

theorem publish_keeps_public_answers_witness:
  "\<exists>q d1 n d2. saveResponseTx ''r9'' 50 ''s1'' ''v7'' [''a''] [] [] False demo_db = Inr (q, d1) \<and>
     publishTx 99 ''s1'' d1 = Inr (n, d2) \<and> n = 0 \<and> ResponseFor d2 ''s1'' ''v7'' \<noteq> None"
proof -
  let ?s = "saveResponseTx ''r9'' 50 ''s1'' ''v7'' [''a''] [] [] False demo_db"
  have "case ?s of Inl e \<Rightarrow> False | Inr (q, d1) \<Rightarrow> \<not> isl (publishTx 99 ''s1'' d1)" by code_simp
  then obtain q d1 where r: "?s = Inr (q, d1)" and "\<not> isl (publishTx 99 ''s1'' d1)"
    by (auto split: sum.splits)
  then obtain n d2 where p: "publishTx 99 ''s1'' d1 = Inr (n, d2)"
    by (cases "publishTx 99 ''s1'' d1") auto
  have "(99 :: time) \<noteq> 0" by simp
  from publish_keeps_public_answers [OF demo_db_ok r p this]
  have "n = 0 \<and> ResponseFor d2 ''s1'' ''v7'' \<noteq> None" by blast
  with r p show ?thesis by blast
qed

text \<open>
  The list of answers holds every respondent's current answer exactly once: joining the
  child tables in one pass over each gives the same answers as reading them one respondent at a
  time, no voter appears twice, and there are as many as \<open>Count\<close> reports.
\<close>

theorem Responses_is_every_answer_once:
  assumes "keys_ok d"
  shows "(\<forall>q\<in>set (Responses d sid). ResponseFor d sid (q_voter q) = Some q) \<and>
    (\<forall>v q. ResponseFor d sid v = Some q \<longrightarrow> q \<in> set (Responses d sid)) \<and>
    distinct (map q_voter (Responses d sid)) \<and> length (Responses d sid) = Count d sid"
proof -
  have "q \<in> set (Responses d sid)" if q: "loadResponse d sid v True = Some q" for v q
  proof -
    from loadResponse_row [OF q] obtain r where r: "r \<in> set (responses d)" "r_survey r = sid" "r_voter r = v"
      by (auto simp: row_key_def)
    then have "loadResponse d sid (r_voter r) True \<in> (\<lambda>r. loadResponse d sid (r_voter r) True) ` set (rows_of d sid)"
      by (intro imageI) (simp add: set_rows_of)
    then have "Some q \<in> (\<lambda>r. loadResponse d sid (r_voter r) True) ` set (rows_of d sid)"
      using q r(3) by simp
    then have "Some q \<in> set (map Some (Responses d sid))" unfolding Responses_loaded [OF assms] by simp
    then show ?thesis by auto
  qed
  moreover have "map q_voter (Responses d sid) = map r_voter (rows_of d sid)"
    by (simp add: Responses_eq bare_response_def)
  then have "distinct (map q_voter (Responses d sid))" using distinct_voters [OF assms] by simp
  ultimately show ?thesis
    using Responses_voter_iff assms length_Responses unfolding ResponseFor_def by blast
qed

theorem Responses_is_every_answer_once_witness:
  "length (Responses demo_db ''s1'') = 2 \<and> distinct (map q_voter (Responses demo_db ''s1''))"
proof -
  have "Count demo_db ''s1'' = 2" by code_simp
  with Responses_is_every_answer_once [OF db_okD(1) [OF demo_db_ok], of "''s1''"] show ?thesis by simp
qed

text \<open>
  When comments are switched off after some were given, any later submission of the same
  respondent, a write-in included, erases the comment they had left.
\<close>

lemma resubmitting_erases_comment:
  assumes ok: "db_ok d" and sv: "loadSurvey d sid = Some sv" "\<not> allow_comment sv"
    and r: "saveResponseTx rid now sid voter chs comment allow preview d = Inr (q, d')"
  shows "\<exists>q'. ResponseFor d' sid voter = Some q' \<and> q_comment q' = []"
proof -
  from ok r sv have "q_comment q = []" by (cases rule: saveResponseTx_cases) (simp_all add: answer_def)
  with save_reads_back [OF ok r] show ?thesis by (auto simp: ResponseFor_def)
qed

end
