(* ===== verification/Tallies.thy ===== *)
theory Tallies
  imports Complex_Main Responses
begin

text \<open>
  Counting (\<open>internal/store/response.go\<close>: \<open>Result\<close>, \<open>computeTally\<close>, \<open>countOnce\<close>,
  \<open>sortResultsByVotes\<close>). The two percentages are the exact rational numbers of which the
  code computes the nearest \<open>float64\<close>. The lemmas give what the counters mean: the number of
  people with an answer that resolves to the option, each counted once.
\<close>

section \<open>The tally\<close>

record result =
  t_option :: opt
  t_votes :: nat
  t_percent :: rat
  t_shown :: nat
  t_shown_percent :: rat

primrec count_loop ::
  "survey \<Rightarrow> string list \<Rightarrow> string list \<Rightarrow> (string \<rightharpoonup> nat) \<Rightarrow> (string \<rightharpoonup> nat)" where
  "count_loop sv don [] into = into"
| "count_loop sv don (i # is) into =
     (let (target, ok) = Resolve sv i in
      if ok \<and> target \<notin> set don
      then count_loop sv (target # don) is (into(target \<mapsto> get0 into target + 1))
      else count_loop sv don is into)"

definition countOnce :: "survey \<Rightarrow> string list \<Rightarrow> (string \<rightharpoonup> nat) \<Rightarrow> (string \<rightharpoonup> nat)" where
  "countOnce sv ids into = count_loop sv [] ids into"

definition result_row :: "(string \<rightharpoonup> nat) \<Rightarrow> (string \<rightharpoonup> nat) \<Rightarrow> nat \<Rightarrow> opt \<Rightarrow> result" where
  "result_row counts shown respondents o' =
     (let v = get0 counts (o_id o'); s = get0 shown (o_id o') in
      \<lparr>t_option = o', t_votes = v,
       t_percent = (if respondents > 0 then 100 * of_nat v / of_nat respondents else 0),
       t_shown = s,
       t_shown_percent = (if s > 0 then 100 * of_nat v / of_nat s else 0)\<rparr>)"

definition sortResultsByVotes :: "result list \<Rightarrow> result list" where
  "sortResultsByVotes rs = sort_key (\<lambda>r. - int (t_votes r)) rs"

definition tally_step ::
  "survey \<Rightarrow> nat \<times> (string \<rightharpoonup> nat) \<times> (string \<rightharpoonup> nat) \<Rightarrow> response \<Rightarrow>
   nat \<times> (string \<rightharpoonup> nat) \<times> (string \<rightharpoonup> nat)" where
  "tally_step sv acc r =
     (case acc of (n, counts, shown) \<Rightarrow>
        (n + 1, countOnce sv (q_choices r) counts, countOnce sv (q_seen r) shown))"

definition computeTally :: "db \<Rightarrow> string \<Rightarrow> result list \<times> nat" where
  "computeTally d sid =
     (case loadSurvey d sid of
        None \<Rightarrow> ([], 0)
      | Some sv \<Rightarrow>
          (case foldl (tally_step sv) (0, Map.empty, Map.empty) (Responses d sid) of
             (n, counts, shown) \<Rightarrow>
               (sortResultsByVotes (map (result_row counts shown n)
                  (filter (\<lambda>o'. o_status o' = OptApproved) (options sv))), n)))"

section \<open>Counting people\<close>

text \<open>
  What the tally needs of a counter: it adds one to each entry its list hits, and a longer list
  hits no less. Folding it over everybody then counts people.
\<close>

locale vote_counter =
  fixes count :: "'a list \<Rightarrow> ('k \<rightharpoonup> nat) \<Rightarrow> ('k \<rightharpoonup> nat)"
    and hits :: "'a list \<Rightarrow> 'k \<Rightarrow> bool"
  assumes count_one: "get0 (count ids m) t = get0 m t + (if hits ids t then 1 else 0)"
    and hits_mono: "set ids \<subseteq> set ids' \<Longrightarrow> hits ids t \<Longrightarrow> hits ids' t"
begin

lemma count_people:
  "get0 (foldl (\<lambda>m p. count (f p) m) m people) t = get0 m t + length (filter (\<lambda>p. hits (f p) t) people)"
  by (induction people arbitrary: m) (simp_all add: count_one)

lemma count_bounded: "get0 (foldl (\<lambda>m p. count (f p) m) Map.empty people) t \<le> length people"
  by (simp add: count_people)

lemma hits_set: "set ids = set ids' \<Longrightarrow> hits ids t = hits ids' t"
  using hits_mono [of ids ids'] hits_mono [of ids' ids] by blast

lemma count_mono:
  assumes "\<And>p. p \<in> set people \<Longrightarrow> set (f p) \<subseteq> set (g p)"
  shows "get0 (foldl (\<lambda>m p. count (f p) m) Map.empty people) t
       \<le> get0 (foldl (\<lambda>m p. count (g p) m) Map.empty people) t"
proof -
  have "length (filter (\<lambda>p. hits (f p) t) people) \<le> length (filter (\<lambda>p. hits (g p) t) people)"
    using assms
  proof (induction people)
    case (Cons p people)
    then have "hits (f p) t \<Longrightarrow> hits (g p) t" by (meson hits_mono list.set_intros(1))
    with Cons show ?case by (auto simp: le_SucI)
  qed simp
  then show ?thesis by (simp add: count_people)
qed

end

definition hits :: "survey \<Rightarrow> string list \<Rightarrow> string \<Rightarrow> bool" where
  "hits sv ids t = list_ex (\<lambda>i. Resolve sv i = (t, True)) ids"

lemma get0_count_loop:
  "get0 (count_loop sv don ids m) t = get0 m t + (if t \<notin> set don \<and> hits sv ids t then 1 else 0)"
proof (induction ids arbitrary: don m)
  case Nil
  then show ?case by (simp add: hits_def)
next
  case (Cons i ids)
  obtain target ok where r: "Resolve sv i = (target, ok)" by (cases "Resolve sv i")
  have h: "hits sv (i # ids) t \<longleftrightarrow> ok \<and> target = t \<or> hits sv ids t"
    using r by (auto simp: hits_def)
  show ?case
  proof (cases "ok \<and> target \<notin> set don")
    case True
    then have "count_loop sv don (i # ids) m = count_loop sv (target # don) ids (m(target \<mapsto> get0 m target + 1))"
      using r by (simp add: Let_def)
    then have e: "get0 (count_loop sv don (i # ids) m) t = get0 (m(target \<mapsto> get0 m target + 1)) t +
        (if t \<notin> set (target # don) \<and> hits sv ids t then 1 else 0)" by (simp only: Cons.IH)
    show ?thesis unfolding e using True h by (auto simp only: get0_upd list.set insert_iff split: if_splits)
  next
    case False
    then have "count_loop sv don (i # ids) m = count_loop sv don ids m"
      using r by (auto simp: Let_def)
    then have e: "get0 (count_loop sv don (i # ids) m) t = get0 m t +
        (if t \<notin> set don \<and> hits sv ids t then 1 else 0)" by (simp only: Cons.IH)
    show ?thesis unfolding e using False h by auto
  qed
qed

interpretation votes: vote_counter "countOnce sv" "hits sv" for sv
  by unfold_locales (auto simp: countOnce_def get0_count_loop hits_def list_ex_iff)

lemma tally_fold:
  "foldl (tally_step sv) (n, c, s) rs =
     (n + length rs, foldl (\<lambda>m r. countOnce sv (q_choices r) m) c rs, foldl (\<lambda>m r. countOnce sv (q_seen r) m) s rs)"
  by (induction rs arbitrary: n c s) (simp_all add: tally_step_def)

definition voters_for :: "survey \<Rightarrow> response list \<Rightarrow> string \<Rightarrow> nat" where
  "voters_for sv rs t = length (filter (\<lambda>r. hits sv (q_choices r) t) rs)"

definition shown_to :: "survey \<Rightarrow> response list \<Rightarrow> string \<Rightarrow> nat" where
  "shown_to sv rs t = length (filter (\<lambda>r. hits sv (q_seen r) t) rs)"

lemma computeTally_eq:
  assumes "loadSurvey d sid = Some sv"
  shows "\<exists>counts shown.
     computeTally d sid = (sortResultsByVotes (map (result_row counts shown (Count d sid))
        (filter (\<lambda>o'. o_status o' = OptApproved) (options sv))), Count d sid) \<and>
     (\<forall>t. get0 counts t = voters_for sv (Responses d sid) t) \<and>
     (\<forall>t. get0 shown t = shown_to sv (Responses d sid) t)"
proof (intro exI conjI allI)
  let ?n = "foldl (\<lambda>m r. countOnce sv (q_choices r) m) Map.empty (Responses d sid)"
  let ?s = "foldl (\<lambda>m r. countOnce sv (q_seen r) m) Map.empty (Responses d sid)"
  show "computeTally d sid = (sortResultsByVotes (map (result_row ?n ?s (Count d sid))
        (filter (\<lambda>o'. o_status o' = OptApproved) (options sv))), Count d sid)"
    using assms by (simp add: computeTally_def tally_fold length_Responses)
  show "get0 ?n t = voters_for sv (Responses d sid) t" "get0 ?s t = shown_to sv (Responses d sid) t" for t
    by (simp_all add: votes.count_people voters_for_def shown_to_def)
qed

lemma set_sortResultsByVotes [simp]: "set (sortResultsByVotes rs) = set rs"
  by (simp add: sortResultsByVotes_def)

lemma sorted_sortResultsByVotes: "sorted_wrt (\<lambda>a b. t_votes a \<ge> t_votes b) (sortResultsByVotes rs)"
proof -
  have "sorted (map (\<lambda>r. - int (t_votes r)) (sortResultsByVotes rs))"
    unfolding sortResultsByVotes_def by (rule sorted_sort_key)
  then show ?thesis by (simp add: sorted_map)
qed

lemma computeTally_result:
  assumes l: "loadSurvey d sid = Some sv" and t: "t \<in> set (fst (computeTally d sid))"
  shows "t_option t \<in> set (options sv)" "o_status (t_option t) = OptApproved"
    "t_votes t = voters_for sv (Responses d sid) (o_id (t_option t))"
    "t_shown t = shown_to sv (Responses d sid) (o_id (t_option t))"
    "t_percent t = (if Count d sid > 0 then 100 * of_nat (t_votes t) / of_nat (Count d sid) else 0)"
    "t_shown_percent t = (if t_shown t > 0 then 100 * of_nat (t_votes t) / of_nat (t_shown t) else 0)"
proof -
  from computeTally_eq [OF l] obtain counts shown where
    c: "fst (computeTally d sid) = sortResultsByVotes (map (result_row counts shown (Count d sid))
        (filter (\<lambda>o'. o_status o' = OptApproved) (options sv)))"
    and g: "\<And>t. get0 counts t = voters_for sv (Responses d sid) t" "\<And>t. get0 shown t = shown_to sv (Responses d sid) t"
    by auto
  from t obtain o' where "o' \<in> set (options sv)" "o_status o' = OptApproved"
    "t = result_row counts shown (Count d sid) o'" unfolding c by auto
  then show "t_option t \<in> set (options sv)" "o_status (t_option t) = OptApproved"
    "t_votes t = voters_for sv (Responses d sid) (o_id (t_option t))"
    "t_shown t = shown_to sv (Responses d sid) (o_id (t_option t))"
    "t_percent t = (if Count d sid > 0 then 100 * of_nat (t_votes t) / of_nat (Count d sid) else 0)"
    "t_shown_percent t = (if t_shown t > 0 then 100 * of_nat (t_votes t) / of_nat (t_shown t) else 0)"
    by (simp_all add: result_row_def Let_def g)
qed

lemma answers_seen:
  assumes "db_ok d" and "q \<in> set (Responses d sid)" and "loadSurvey d sid = Some sv"
  shows "set (q_choices q) \<subseteq> set (q_seen q)" "set (q_seen q) \<subseteq> o_id ` set (options sv)"
proof -
  have l: "loadResponse d sid (q_voter q) True = Some q"
    using assms(2) db_okD(1) [OF assms(1)] by (intro Responses_voter_iff) blast
  show "set (q_choices q) \<subseteq> set (q_seen q)" "set (q_seen q) \<subseteq> o_id ` set (options sv)"
    using prev_facts(4,5) [OF assms(1,3) l] by simp_all
qed

lemma voters_le_shown:
  assumes "db_ok d" and "loadSurvey d sid = Some sv"
  shows "voters_for sv (Responses d sid) t \<le> shown_to sv (Responses d sid) t"
  using votes.count_mono [of "Responses d sid" q_choices q_seen sv t] answers_seen [OF assms(1) _ assms(2)]
  by (simp add: votes.count_people voters_for_def shown_to_def)

lemma distinct_results:
  assumes "loadSurvey d sid = Some sv" and "ids_unique sv"
  shows "distinct (map t_option (fst (computeTally d sid)))"
    and "t_option ` set (fst (computeTally d sid)) = {o' \<in> set (options sv). o_status o' = OptApproved}"
proof -
  from computeTally_eq [OF assms(1)] obtain c s where
    c: "fst (computeTally d sid) = sortResultsByVotes (map (result_row c s (Count d sid))
        (filter (\<lambda>o'. o_status o' = OptApproved) (options sv)))"
    by auto
  have opt: "t_option (result_row c s n o') = o'" for n o' by (simp add: result_row_def Let_def)
  have "distinct (options sv)" using assms(2) by (simp add: ids_unique_def distinct_map)
  then have m: "distinct (map t_option (map (result_row c s (Count d sid))
      (filter (\<lambda>o'. o_status o' = OptApproved) (options sv))))"
    by (simp add: opt comp_def)
  have "mset (map t_option (fst (computeTally d sid))) =
      mset (map t_option (map (result_row c s (Count d sid)) (filter (\<lambda>o'. o_status o' = OptApproved) (options sv))))"
    unfolding c sortResultsByVotes_def mset_map mset_sort by (rule refl)
  with m show "distinct (map t_option (fst (computeTally d sid)))" by (metis mset_eq_imp_distinct_iff)
  show "t_option ` set (fst (computeTally d sid)) = {o' \<in> set (options sv). o_status o' = OptApproved}"
    unfolding c by (force simp: opt)
qed

section \<open>Votes after a moderation decision\<close>

text \<open>The votes of an option depend on the answers only through what they resolve to.\<close>

lemma voters_for_cong:
  assumes "\<And>q i. q \<in> set rs \<Longrightarrow> i \<in> set (q_choices q) \<Longrightarrow> Resolve sv' i = Resolve sv i"
  shows "voters_for sv' rs t = voters_for sv rs t"
proof -
  have "hits sv' (q_choices q) t = hits sv (q_choices q) t" if "q \<in> set rs" for q
    using assms [OF that] by (auto simp: hits_def list_ex_iff)
  then show ?thesis unfolding voters_for_def by (metis (mono_tags, lifting) filter_cong)
qed

lemma Responses_cong:
  assumes "responses d' = responses d" "choices d' = choices d" "seen d' = seen d"
  shows "Responses d' sid = Responses d sid"
  using assms by (simp add: Responses_eq rows_of_def)

text \<open>Votes as a set of voters, and how one voter's change moves it.\<close>

definition supporters :: "db \<Rightarrow> string \<Rightarrow> survey \<Rightarrow> string \<Rightarrow> string set" where
  "supporters d sid sv t = {v. hits sv (before (loadResponse d sid v True) q_choices) t}"

lemma voters_are_supporters:
  assumes k: "keys_ok d"
  shows "voters_for sv (Responses d sid) t = card (supporters d sid sv t)" "finite (supporters d sid sv t)"
proof -
  let ?qs = "filter (\<lambda>q. hits sv (q_choices q) t) (Responses d sid)"
  have v: "map q_voter (Responses d sid) = map r_voter (rows_of d sid)"
    by (simp add: Responses_eq bare_response_def)
  have "distinct (map q_voter ?qs)"
    using distinct_voters [OF k, of sid] v by (metis map_distinct_filter)
  then have "length ?qs = card (q_voter ` set ?qs)"
    by (metis distinct_card length_map list.set_map)
  moreover have s: "q_voter ` set ?qs = supporters d sid sv t"
  proof (rule set_eqI)
    fix x
    have a: "loadResponse d sid (q_voter q) True = Some q" if "q \<in> set (Responses d sid)" for q
      using Responses_voter_iff that k by blast
    have b: "q \<in> set (Responses d sid)" "q_voter q = x" if q: "loadResponse d sid x True = Some q" for q
    proof -
      from loadResponse_row [OF q] obtain r where r: "r \<in> set (rows_of d sid)" "r_voter r = x" "q_voter q = x"
        by (auto simp: row_key_def set_rows_of)
      from r(1) have "loadResponse d sid (r_voter r) True \<in> (\<lambda>r. loadResponse d sid (r_voter r) True) ` set (rows_of d sid)"
        by (rule imageI)
      then have "Some q \<in> set (map (\<lambda>r. loadResponse d sid (r_voter r) True) (rows_of d sid))"
        using q r(2) by simp
      then show "q \<in> set (Responses d sid)" unfolding Responses_loaded [OF k, symmetric] by auto
      show "q_voter q = x" by (rule r(3))
    qed
    show "x \<in> q_voter ` set ?qs \<longleftrightarrow> x \<in> supporters d sid sv t"
    proof
      assume "x \<in> q_voter ` set ?qs"
      then obtain q where "q \<in> set (Responses d sid)" "hits sv (q_choices q) t" "x = q_voter q" by auto
      with a show "x \<in> supporters d sid sv t" by (simp add: supporters_def)
    next
      assume "x \<in> supporters d sid sv t"
      then obtain q where q: "loadResponse d sid x True = Some q" "hits sv (q_choices q) t"
        by (cases "loadResponse d sid x True") (simp_all add: supporters_def hits_def)
      with b [OF q(1)] show "x \<in> q_voter ` set ?qs" by force
    qed
  qed
  ultimately show "voters_for sv (Responses d sid) t = card (supporters d sid sv t)"
    by (simp add: voters_for_def)
  show "finite (supporters d sid sv t)" unfolding s [symmetric] by simp
qed

lemma voters_for_hits:
  "voters_for sv rs t = length (filter (\<lambda>q. \<exists>c\<in>set (q_choices q). Resolve sv c = (t, True)) rs)"
  by (simp add: voters_for_def hits_def list_ex_iff)

lemma card_one_apart:
  assumes "finite A" "finite B" "A - {x} = B - {x}"
  shows "card A \<le> card B + 1" "card B \<le> card A + 1"
proof -
  have "card A \<le> card (insert x B)" "card B \<le> card (insert x A)"
    using assms by (auto intro!: card_mono)
  then show "card A \<le> card B + 1" "card B \<le> card A + 1"
    using assms(1,2) by (auto simp: card_insert_if split: if_splits)
qed

lemma hits_same_set: "set a = set b \<Longrightarrow> hits sv a t = hits sv b t"
  by (rule votes.hits_set)

lemma saved_choices:
  assumes ok: "db_ok d" and sv: "loadSurvey d sid = Some sv"
    and r: "saveResponseTx rid now sid voter chs comment allow preview d = Inr (q, d')"
  shows "set (before (loadResponse d' sid voter True) q_choices) =
     {i. \<exists>o'. OptionOf sv i = Some o' \<and>
        (if visibleTo o' (loadResponse d sid voter True) allow then i \<in> set chs
         else i \<in> set (before (loadResponse d sid voter True) q_choices))}"
proof -
  from ok r sv have "q = answer rid now sv (loadResponse d sid voter True) voter chs comment allow"
    by (cases rule: saveResponseTx_cases) simp_all
  moreover from save_reads_back [OF ok r] obtain q' where "loadResponse d' sid voter True = Some q'"
    "q_choices q' = q_choices q" by blast
  ultimately show ?thesis by (simp only: before_simps set_answer_choices)
qed

text \<open>Submitting the same form a second time records the same choices.\<close>

lemma visibleTo_before:
  "visibleTo o' prev allow \<longleftrightarrow> o_status o' = OptApproved \<or>
     (o_status o' = OptPending \<and> (o_id o' = allow \<or> o_id o' \<in> set (before prev q_choices)))"
  by (auto simp: visibleTo_def split: option.split)

lemma resubmit_same:
  assumes ok: "db_ok d" and sv: "loadSurvey d sid = Some sv"
    and r: "saveResponseTx rid now sid voter chs comment allow preview d = Inr (q, d')"
    and r2: "saveResponseTx rid2 now2 sid voter chs comment allow preview d' = Inr (q2, d2)"
  shows "set (before (loadResponse d2 sid voter True) q_choices) = set (before (loadResponse d' sid voter True) q_choices)"
proof -
  have ok': "db_ok d'" by (rule saveResponseTx_db_ok [OF ok r])
  have l: "loadSurvey d' sid = Some sv"
    using loadSurvey_cong save_frame_responses(2,3) [OF ok r] sv by metis
  have id: "o_id o' = i" if "OptionOf sv i = Some o'" for i o' using OptionOf_SomeD [OF that] by blast
  show ?thesis
    unfolding saved_choices [OF ok' l r2] saved_choices [OF ok sv r] visibleTo_before
    by (rule set_eqI) (auto dest: id)
qed

lemma supporters_after:
  assumes "set (before (loadResponse d' sid v True) q_choices) = set (before (loadResponse d sid v True) q_choices)"
  shows "v \<in> supporters d' sid sv t \<longleftrightarrow> v \<in> supporters d sid sv t"
  using hits_same_set [OF assms] by (simp add: supporters_def)

text \<open>A pending option appended to a survey takes no votes, and no choice resolves differently.\<close>

lemma appended_resolution:
  assumes so: "survey_ok sv" and os: "options sv' = options sv @ [p]"
    and p: "o_id p \<notin> o_id ` set (options sv)" "o_status p = OptPending" "o_merged p = []"
  shows "j \<in> o_id ` set (options sv) \<Longrightarrow> Resolve sv' j = Resolve sv j" and "Resolve sv' (o_id p) = (o_id p, False)"
proof -
  have new: "OptionOf sv' j = (if j = o_id p then Some p else OptionOf sv j)" for j
    using OptionOf_append [OF p(1), of p j] os by (simp add: OptionOf_def)
  show "j \<in> o_id ` set (options sv) \<Longrightarrow> Resolve sv' j = Resolve sv j"
    by (rule Resolve_after_append [OF so p(1)]) (use new in simp_all)
  show "Resolve sv' (o_id p) = (o_id p, False)"
    using new [of "o_id p"] Resolve_leads [OF leads.here [of sv' "o_id p" p]] p(2,3) by (simp add: forwards_def)
qed

lemma appended_not_tallied:
  assumes sv': "loadSurvey d' sid = Some sv'" and os: "options sv' = options sv @ [p]"
    and p: "o_id p \<notin> o_id ` set (options sv)" "o_status p = OptPending"
    and t: "t \<in> set (fst (computeTally d' sid))"
  shows "o_id (t_option t) \<noteq> o_id p"
proof -
  from computeTally_result(1,2) [OF sv' t] os p(2) have "t_option t \<in> set (options sv)" by auto
  with p(1) show ?thesis by (metis imageI)
qed

section \<open>Properties\<close>

text \<open>
  C3. What every row of a tally says: it is an approved option of the survey; its votes are
  the number of respondents with at least one choice that resolves to it, each counted once
  however many merged options they picked; its exposure is the number of respondents who were
  shown something that resolves to it; votes never exceed exposure, nor exposure the number of
  respondents, and both percentages lie between 0 and 100.
\<close>

theorem tally_counts_people_once:
  assumes ok: "db_ok d" and l: "loadSurvey d sid = Some sv" and t: "t \<in> set (fst (computeTally d sid))"
  shows "t_option t \<in> set (options sv) \<and> o_status (t_option t) = OptApproved \<and>
    t_votes t = length (filter (\<lambda>q. \<exists>i\<in>set (q_choices q). Resolve sv i = (o_id (t_option t), True)) (Responses d sid)) \<and>
    t_shown t = length (filter (\<lambda>q. \<exists>i\<in>set (q_seen q). Resolve sv i = (o_id (t_option t), True)) (Responses d sid)) \<and>
    t_votes t \<le> t_shown t \<and> t_shown t \<le> Count d sid \<and> snd (computeTally d sid) = Count d sid \<and>
    0 \<le> t_percent t \<and> t_percent t \<le> 100 \<and> 0 \<le> t_shown_percent t \<and> t_shown_percent t \<le> 100"
proof -
  note r = computeTally_result [OF l t]
  have vs: "t_votes t \<le> t_shown t" using voters_le_shown [OF ok l] r(3,4) by simp
  have sc: "t_shown t \<le> Count d sid"
    unfolding r(4) shown_to_def by (metis length_Responses length_filter_le)
  have bound: "0 \<le> 100 * of_nat a / (of_nat b :: rat) \<and> 100 * of_nat a / (of_nat b :: rat) \<le> 100"
    if "a \<le> b" "0 < b" for a b :: nat
    using that by (simp add: field_simps)
  have "0 \<le> t_percent t \<and> t_percent t \<le> 100 \<and> 0 \<le> t_shown_percent t \<and> t_shown_percent t \<le> 100"
    unfolding r(5,6) using bound vs sc by auto
  moreover have "snd (computeTally d sid) = Count d sid" using computeTally_eq [OF l] by auto
  ultimately show ?thesis
    using r(1-4) vs sc by (simp add: voters_for_def shown_to_def hits_def list_ex_iff)
qed

theorem tally_counts_people_once_witness:
  "\<exists>t\<in>set (fst (computeTally demo_db ''s1'')). t_votes t \<le> t_shown t \<and> t_shown t \<le> 2 \<and> t_percent t \<le> 100"
proof -
  have u: "ids_unique demo_survey" by code_simp
  have "demo_opt ''a'' ''Pizza'' OptApproved [] \<in> {o' \<in> set (options demo_survey). o_status o' = OptApproved}"
    by (simp add: demo_survey_def demo_opt_def)
  with distinct_results(2) [OF demo_db_loads u] obtain t where t: "t \<in> set (fst (computeTally demo_db ''s1''))"
    by blast
  have "Count demo_db ''s1'' = 2" by code_simp
  with tally_counts_people_once [OF demo_db_ok demo_db_loads t] t show ?thesis by auto
qed

text \<open>
  A tally lists every approved option exactly once and nothing else, most votes first; an
  unknown survey has an empty tally.
\<close>

theorem tally_lists_approved_options:
  assumes ok: "db_ok d"
  shows "case loadSurvey d sid of
      None \<Rightarrow> computeTally d sid = ([], 0)
    | Some sv \<Rightarrow> distinct (map t_option (fst (computeTally d sid))) \<and>
        t_option ` set (fst (computeTally d sid)) = {o' \<in> set (options sv). o_status o' = OptApproved} \<and>
        sorted_wrt (\<lambda>a b. t_votes a \<ge> t_votes b) (fst (computeTally d sid))"
proof (cases "loadSurvey d sid")
  case None
  then show ?thesis by (simp add: computeTally_def)
next
  case (Some sv)
  have u: "ids_unique sv" using db_okD(5) [OF ok] Some by (metis surveys_ok_load survey_okD(1))
  from computeTally_eq [OF Some] obtain c s where "fst (computeTally d sid) = sortResultsByVotes
      (map (result_row c s (Count d sid)) (filter (\<lambda>o'. o_status o' = OptApproved) (options sv)))" by auto
  then have "sorted_wrt (\<lambda>a b. t_votes a \<ge> t_votes b) (fst (computeTally d sid))"
    using sorted_sortResultsByVotes by metis
  with distinct_results [OF Some u] Some show ?thesis by simp
qed

theorem tally_lists_approved_options_witness:
  "distinct (map t_option (fst (computeTally demo_db ''s1'')))"
  using tally_lists_approved_options [OF demo_db_ok, of "''s1''"] by (simp add: demo_db_loads)

text \<open>
  C33. Approving a merge never loses or doubles a vote: when an unmerged option is merged into
  an approved one, the target's votes become the number of respondents who had chosen, directly
  or through merges, either of the two, and every other approved option keeps its votes.
\<close>

theorem merge_unions_voters:
  assumes ok: "db_ok d" and now: "now \<noteq> 0" and l: "loadSurvey d sid = Some sv"
    and src: "OptionOf sv i = Some o0" "\<not> forwards o0"
    and tgt: "OptionOf sv into = Some o1" "o_status o1 = OptApproved"
    and r: "UpdateSurvey now sid (\<lambda>sv. SetOptionStatus sv i OptMerged into) d = Inr (sv', d')"
  shows "loadSurvey d' sid = Some sv' \<and>
    voters_for sv' (Responses d' sid) into =
      length (filter (\<lambda>q. \<exists>c\<in>set (q_choices q). fst (Resolve sv c) \<in> {i, into}) (Responses d sid)) \<and>
    (\<forall>t. t \<noteq> i \<longrightarrow> t \<noteq> into \<longrightarrow> voters_for sv' (Responses d' sid) t = voters_for sv (Responses d sid) t)"
proof -
  obtain sv1 where sv: "survey_ok sv" and s: "SetOptionStatus sv i OptMerged into = Inr sv1" "survey_ok sv1"
    and sv': "sv' = stamp_opened now (sv1\<lparr>sv_updated := now\<rparr>)" and l': "loadSurvey d' sid = Some sv'"
    and same: "responses d' = responses d" "choices d' = choices d" "seen d' = seen d"
    by (rule moderation_effect [OF ok now l r])
  have shape: "Resolve sv' j = Resolve sv1 j" for j
    by (intro Resolve_shape) (simp_all add: sv' OptionOf_def)
  note rs = Responses_cong [OF same, of sid] and res = merged_resolution [OF sv s(1) src tgt]
  have opts: "c \<in> o_id ` set (options sv)" if "q \<in> set (Responses d sid)" "c \<in> set (q_choices q)" for q c
    using answers_seen [OF ok that(1) l] that(2) by blast
  have "voters_for sv' (Responses d sid) into =
      length (filter (\<lambda>q. \<exists>c\<in>set (q_choices q). fst (Resolve sv c) \<in> {i, into}) (Responses d sid))"
    unfolding voters_for_hits by (intro arg_cong [where f = length] filter_cong refl bex_cong)
      (use res(1) opts shape in simp)
  moreover have "voters_for sv' (Responses d sid) t = voters_for sv (Responses d sid) t" if "t \<noteq> i" "t \<noteq> into" for t
    unfolding voters_for_hits by (intro arg_cong [where f = length] filter_cong refl bex_cong)
      (use res(2) [OF _ that] opts shape in simp)
  ultimately show ?thesis using l' rs by simp
qed

theorem merge_unions_voters_witness:
  "\<exists>sv' d'. UpdateSurvey 99 ''s1'' (\<lambda>sv. SetOptionStatus sv ''c'' OptMerged ''a'') demo_db = Inr (sv', d') \<and>
     voters_for sv' (Responses d' ''s1'') ''b'' = voters_for demo_survey (Responses demo_db ''s1'') ''b''"
proof -
  let ?u = "UpdateSurvey 99 ''s1'' (\<lambda>sv. SetOptionStatus sv ''c'' OptMerged ''a'') demo_db"
  have "\<not> isl ?u" by code_simp
  then obtain sv' d' where r: "?u = Inr (sv', d')" by (cases ?u) auto
  have o': "OptionOf demo_survey ''c'' = Some (demo_opt ''c'' ''pizza!!'' OptPending [])"
    "OptionOf demo_survey ''a'' = Some (demo_opt ''a'' ''Pizza'' OptApproved [])"
    by (simp_all add: demo_survey_def demo_opt_def OptionOf_def)
  have "(99 :: time) \<noteq> 0" by simp
  from merge_unions_voters [OF demo_db_ok this demo_db_loads o'(1) _ o'(2) _ r] r show ?thesis
    by (simp add: forwards_def demo_opt_def)
qed

text \<open>
  Nobody can inflate a count by submitting again: one submission, whatever it contains,
  changes the votes of any option by at most one, and the same submission a second time changes
  nothing.
\<close>

theorem submission_moves_one_vote:
  assumes ok: "db_ok d" and sv: "loadSurvey d sid = Some sv"
    and r: "saveResponseTx rid now sid voter chs comment allow preview d = Inr (q, d')"
  shows "loadSurvey d' sid = Some sv \<and>
    voters_for sv (Responses d' sid) t \<le> voters_for sv (Responses d sid) t + 1 \<and>
    voters_for sv (Responses d sid) t \<le> voters_for sv (Responses d' sid) t + 1 \<and>
    (\<forall>rid2 now2 q2 d2. saveResponseTx rid2 now2 sid voter chs comment allow preview d' = Inr (q2, d2) \<longrightarrow>
       voters_for sv (Responses d2 sid) t = voters_for sv (Responses d' sid) t)"
proof -
  have ok': "db_ok d'" by (rule saveResponseTx_db_ok [OF ok r])
  have l: "loadSurvey d' sid = Some sv"
    using loadSurvey_cong save_frame_responses(2,3) [OF ok r] sv by metis
  have apart: "supporters d' sid sv t - {voter} = supporters d sid sv t - {voter}"
    using save_frame_responses(1) [OF ok r] by (auto simp: supporters_def)
  note c = voters_are_supporters [OF db_okD(1) [OF ok]] voters_are_supporters [OF db_okD(1) [OF ok']]
  have again: "voters_for sv (Responses d2 sid) t = voters_for sv (Responses d' sid) t"
    if r2: "saveResponseTx rid2 now2 sid voter chs comment allow preview d' = Inr (q2, d2)" for rid2 now2 q2 d2
  proof -
    note s = resubmit_same [OF ok sv r r2]
    have "supporters d2 sid sv t = supporters d' sid sv t"
    proof (rule set_eqI)
      fix v show "v \<in> supporters d2 sid sv t \<longleftrightarrow> v \<in> supporters d' sid sv t"
        using s save_frame_responses(1) [OF ok' r2, of sid v True]
        by (intro supporters_after) (cases "v = voter"; simp)
    qed
    then show ?thesis
      using voters_are_supporters [OF db_okD(1) [OF saveResponseTx_db_ok [OF ok' r2]]] c by simp
  qed
  show ?thesis using card_one_apart [OF c(4,2) apart] c l again by simp
qed

theorem submission_moves_one_vote_witness:
  "\<exists>q d'. saveResponseTx ''r9'' 99 ''s1'' ''v8'' [''a'', ''a''] [] [] False demo_db = Inr (q, d') \<and>
     voters_for demo_survey (Responses d' ''s1'') ''a'' \<le> voters_for demo_survey (Responses demo_db ''s1'') ''a'' + 1"
proof -
  let ?s = "saveResponseTx ''r9'' 99 ''s1'' ''v8'' [''a'', ''a''] [] [] False demo_db"
  have "\<not> isl ?s" by code_simp
  then obtain q d' where r: "?s = Inr (q, d')" by (cases ?s) auto
  from submission_moves_one_vote [OF demo_db_ok demo_db_loads r] r show ?thesis by blast
qed

text \<open>
  A suggestion does not count until a moderator approves it: after a write-in, every
  option, the new one included, has exactly the votes it had before.
\<close>

theorem write_in_gains_no_votes:
  assumes ok: "db_ok d" and r: "addWriteIn nid rid now sid voter txt preview d = Inr (i, d')"
    and fresh: "nid \<notin> o_id ` set (opts d)" and now: "now \<noteq> 0" and sv: "loadSurvey d sid = Some sv"
    and sv': "loadSurvey d' sid = Some sv'"
  shows "voters_for sv' (Responses d' sid) t = voters_for sv (Responses d sid) t \<and>
    (\<forall>t\<in>set (fst (computeTally d' sid)). o_id (t_option t) \<noteq> nid)"
  using ok r fresh now
proof (cases rule: addWriteIn_cases)
  case (1 sv0 sv1 d1 q)
  define p where "p = \<lparr>o_id = nid, o_text = TrimSpace txt, o_status = OptPending,
       o_source = ''writein'', o_merged = [], o_created = now\<rparr>"
  note d = db_okD [OF ok] and frame = save_frame_responses [OF 1(12) 1(14)]
  have ok': "db_ok d'" by (rule saveResponseTx_db_ok [OF 1(12) 1(14)])
  have l1: "loadSurvey d1 sid = Some sv'" using sv' loadSurvey_cong frame(2,3) by metis
  then have "sv' = stamp_opened now (sv1\<lparr>sv_updated := now\<rparr>)" using 1(13) by simp
  moreover have "options sv1 = options sv @ [p]" using 1(1,10) sv by (simp add: p_def)
  ultimately have os: "options sv' = options sv @ [p]" by simp
  have p: "o_id p \<notin> o_id ` set (options sv)" "o_status p = OptPending" "o_merged p = []" and id: "o_id p = nid"
    using fresh options_in_table [OF sv d(1)] by (auto simp: p_def)
  note res = appended_resolution [OF surveys_ok_load [OF d(5) sv] os p]
  have same: "loadResponse d1 s v w = loadResponse d s v w" for s v w
    using saveSurvey_rest [OF 1(11)] by (intro loadResponse_cong)
  let ?old = "\<lambda>v. set (before (loadResponse d sid v True) q_choices)"
  have own: "?old v \<subseteq> o_id ` set (options sv)" for v
    using prev_facts(3) [OF ok sv] by (cases "loadResponse d sid v True") simp_all
  have ch: "set (before (loadResponse d' sid v True) q_choices) = (if v = voter then insert nid (?old v) else ?old v)" for v
  proof (cases "v = voter")
    case True
    have "before (loadResponse d sid voter False) q_choices = before (loadResponse d sid voter True) q_choices"
      by (simp add: loadResponse_def split: option.split)
    with write_in_choices(1) [OF 1(12) l1, where w = False] 1(14) os True show ?thesis by (simp add: same p_def)
  next
    case False
    then show ?thesis using frame(1) [of sid v True] same by simp
  qed
  have "hits sv' (before (loadResponse d' sid v True) q_choices) t = hits sv (before (loadResponse d sid v True) q_choices) t" for v
  proof -
    have old: "Resolve sv' j = Resolve sv j" if "j \<in> ?old v" for j using own [of v] that res(1) by blast
    show ?thesis unfolding hits_def list_ex_iff ch using old res(2) id by (cases "v = voter") auto
  qed
  then have "supporters d' sid sv' t = supporters d sid sv t" by (simp add: supporters_def)
  then show ?thesis
    using voters_are_supporters(1) [OF db_okD(1) [OF ok']] voters_are_supporters(1) [OF d(1)]
      appended_not_tallied [OF sv' os p(1,2)] id by simp
qed

theorem write_in_gains_no_votes_witness:
  "\<exists>d' sv'. addWriteIn ''e'' ''r9'' 99 ''s1'' ''v2'' '' Ramen '' False demo_db = Inr (''e'', d') \<and>
     loadSurvey d' ''s1'' = Some sv' \<and>
     voters_for sv' (Responses d' ''s1'') ''a'' = voters_for demo_survey (Responses demo_db ''s1'') ''a''"
proof -
  let ?s = "addWriteIn ''e'' ''r9'' 99 ''s1'' ''v2'' '' Ramen '' False demo_db"
  have c: "case ?s of Inl e \<Rightarrow> False | Inr (i, d') \<Rightarrow> i = ''e'' \<and> loadSurvey d' ''s1'' \<noteq> None" by code_simp
  then obtain d' where r: "?s = Inr (''e'', d')" and "loadSurvey d' ''s1'' \<noteq> None"
    by (auto split: sum.splits prod.splits)
  then obtain sv' where l: "loadSurvey d' ''s1'' = Some sv'" by auto
  have f: "''e'' \<notin> o_id ` set (opts demo_db)" by code_simp
  have "(99 :: time) \<noteq> 0" by simp
  from write_in_gains_no_votes [OF demo_db_ok r f this demo_db_loads l] r l show ?thesis by blast
qed

end
