(* ===== verification/TallyCache.thy ===== *)
theory TallyCache
  imports Tallies
begin

text \<open>
  The tally cache (\<open>Store.Tally\<close> with \<open>s.gen\<close>, \<open>tallyMu\<close>, \<open>tallyGen\<close> and
  \<open>tallyCache\<close>, and the bump at the end of \<open>tx\<close>), as a transition system: any number of
  readers, each at one of the program points of \<open>Tally\<close>, interleaved with writers whose commit
  and whose bump of the counter are two separate steps. A reader takes its five queries one at
  a time, so a tally may be computed from a mixture of database states. The counter is a 64-bit
  word.
\<close>

section \<open>The shared state and the readers\<close>

text \<open>The tables a tally reads.\<close>

definition tally_part :: "db \<Rightarrow> survey_row list \<times> option_row list \<times> response_row list \<times>
    (string \<times> string) list \<times> (string \<times> string) list" where
  "tally_part d = (surveys d, opts d, responses d, choices d, seen d)"

text \<open>
  The tally computed from the survey row, the options, the response rows, the choices and the
  seen rows as five queries found them.
\<close>

definition mixed_db :: "db list \<Rightarrow> db" where
  "mixed_db ds =
     \<lparr>meta = [], users = [], invites = [], resets = [],
      surveys = surveys (ds ! 0), opts = opts (ds ! 1), responses = responses (ds ! 2),
      choices = choices (ds ! 3), seen = seen (ds ! 4)\<rparr>"

definition queries :: nat where "queries = 5"

datatype reader =
    Loaded string "64 word"                            \<comment> \<open>\<open>gen\<close> loaded, about to take the lock\<close>
  | Computing string "64 word" "db list"               \<comment> \<open>cache missed, results of the queries so far\<close>
  | Computed string "64 word" "result list \<times> nat"     \<comment> \<open>about to take the lock again\<close>

record cache_state =
  cdb :: db
  cgen :: "64 word"
  tallyGen :: "64 word"
  tallyCache :: "string \<rightharpoonup> (result list \<times> nat)"
  unbumped :: nat                 \<comment> \<open>transactions committed whose \<open>gen.Add(1)\<close> has not run\<close>
  bumps :: nat                    \<comment> \<open>how often \<open>gen.Add(1)\<close> has run, a number that cannot wrap\<close>
  readers :: "reader list"

definition init_cache :: "db \<Rightarrow> cache_state" where
  "init_cache d = \<lparr>cdb = d, cgen = 0, tallyGen = 0, tallyCache = Map.empty, unbumped = 0, bumps = 0, readers = []\<rparr>"

text \<open>The first critical section: what a reader that had loaded \<open>g\<close> returns without computing.\<close>

definition tally_lookup :: "cache_state \<Rightarrow> string \<Rightarrow> 64 word \<Rightarrow> (result list \<times> nat) option" where
  "tally_lookup s sid g = (if tallyGen s = g then tallyCache s sid else None)"

text \<open>The second critical section, for a reader that had loaded \<open>g\<close> and computed \<open>res\<close>.\<close>

definition tally_store :: "cache_state \<Rightarrow> string \<Rightarrow> 64 word \<Rightarrow> result list \<times> nat \<Rightarrow> cache_state" where
  "tally_store s sid g res =
     (let s = (if tallyGen s \<noteq> g then s\<lparr>tallyCache := Map.empty, tallyGen := g\<rparr> else s)
      in if cgen s = g then s\<lparr>tallyGen := g, tallyCache := (tallyCache s)(sid \<mapsto> res)\<rparr> else s)"

section \<open>The steps\<close>

inductive cache_step :: "cache_state \<Rightarrow> cache_state \<Rightarrow> bool" where
  commit: "cache_step s (s\<lparr>cdb := d', unbumped := Suc (unbumped s)\<rparr>)"
    \<comment> \<open>a transaction commits, whatever it wrote\<close>
| bump: "0 < unbumped s \<Longrightarrow>
    cache_step s (s\<lparr>cgen := cgen s + 1, bumps := Suc (bumps s), unbumped := unbumped s - 1\<rparr>)"
| write_outside_tx: "tally_part d' = tally_part (cdb s) \<Longrightarrow> cache_step s (s\<lparr>cdb := d'\<rparr>)"
    \<comment> \<open>the writes made without \<open>tx\<close> touch accounts, invitations and sessions only\<close>
| load_gen: "cache_step s (s\<lparr>readers := Loaded sid (cgen s) # readers s\<rparr>)"
| serve: "readers s = xs @ Loaded sid g # ys \<Longrightarrow> tally_lookup s sid g = Some res \<Longrightarrow>
    cache_step s (s\<lparr>readers := xs @ ys\<rparr>)"
| miss: "readers s = xs @ Loaded sid g # ys \<Longrightarrow> tally_lookup s sid g = None \<Longrightarrow>
    cache_step s (s\<lparr>readers := xs @ Computing sid g [] # ys\<rparr>)"
| query: "readers s = xs @ Computing sid g ds # ys \<Longrightarrow> length ds < queries \<Longrightarrow>
    cache_step s (s\<lparr>readers := xs @ Computing sid g (ds @ [cdb s]) # ys\<rparr>)"
| compute: "readers s = xs @ Computing sid g ds # ys \<Longrightarrow> length ds = queries \<Longrightarrow>
    cache_step s (s\<lparr>readers := xs @ Computed sid g (computeTally (mixed_db ds) sid) # ys\<rparr>)"
| finish: "readers s = xs @ Computed sid g res # ys \<Longrightarrow>
    cache_step s ((tally_store s sid g res)\<lparr>readers := xs @ ys\<rparr>)"

inductive cache_reachable :: "db \<Rightarrow> cache_state \<Rightarrow> bool" for d0 where
  start: "cache_reachable d0 (init_cache d0)"
| step: "cache_reachable d0 s \<Longrightarrow> cache_step s s' \<Longrightarrow> cache_reachable d0 s'"

inductive_cases cache_stepE: "cache_step s s'"

section \<open>Coherence\<close>

text \<open>
  A result tagged with the counter value that was current after \<open>c\<close> bumps is as good as the
  present whenever no bump has happened since and no commit is waiting for its bump.
\<close>

definition current :: "cache_state \<Rightarrow> 64 word \<Rightarrow> bool \<Rightarrow> bool" where
  "current s g fresh = (\<exists>c \<le> bumps s. g = of_nat c \<and> (c = bumps s \<longrightarrow> unbumped s = 0 \<longrightarrow> fresh))"

definition reader_ok :: "cache_state \<Rightarrow> reader \<Rightarrow> bool" where
  "reader_ok s r =
     (case r of
        Loaded sid g \<Rightarrow> current s g True
      | Computing sid g ds \<Rightarrow> current s g (\<forall>d\<in>set ds. tally_part d = tally_part (cdb s))
      | Computed sid g res \<Rightarrow> current s g (res = computeTally (cdb s) sid))"

definition cache_ok :: "cache_state \<Rightarrow> bool" where
  "cache_ok s =
     (cgen s = of_nat (bumps s) \<and>
      (\<forall>r\<in>set (readers s). reader_ok s r) \<and>
      (\<forall>sid res. tallyCache s sid = Some res \<longrightarrow> current s (tallyGen s) (res = computeTally (cdb s) sid)))"

lemma computeTally_cong: "tally_part d' = tally_part d \<Longrightarrow> computeTally d' sid = computeTally d sid"
proof -
  assume t: "tally_part d' = tally_part d"
  then have "loadSurvey d' sid = loadSurvey d sid" "Responses d' sid = Responses d sid"
    by (auto simp: tally_part_def intro!: loadSurvey_cong Responses_cong)
  then show ?thesis by (simp add: computeTally_def split: option.split)
qed

lemma mixed_of_same:
  assumes "length ds = queries" and "\<forall>d\<in>set ds. tally_part d = tally_part d1"
  shows "tally_part (mixed_db ds) = tally_part d1"
proof -
  have "tally_part (ds ! k) = tally_part d1" if "k < 5" for k
    using assms that by (simp add: queries_def)
  then show ?thesis by (simp add: tally_part_def mixed_db_def)
qed

lemma current_weaken: "current s g a \<Longrightarrow> (a \<Longrightarrow> b) \<Longrightarrow> current s g b"
  by (auto simp: current_def)

lemma current_gen [simp]: "current s (of_nat (bumps s)) True"
  by (auto simp: current_def)

lemma current_unique:
  assumes "current s g a" and "g = cgen s" "cgen s = of_nat (bumps s)" "unbumped s = 0" "bumps s < 2 ^ 64"
  shows a
proof -
  from assms(1) obtain c where c: "c \<le> bumps s" "g = of_nat c" "c = bumps s \<longrightarrow> unbumped s = 0 \<longrightarrow> a"
    by (auto simp: current_def)
  have "unat (of_nat c :: 64 word) = c" "unat (of_nat (bumps s) :: 64 word) = bumps s"
    using c(1) assms(5) by (simp_all add: unsigned_of_nat take_bit_nat_eq_self)
  with c assms(2,3) have "c = bumps s" by metis
  with c(3) assms(4) show a by blast
qed

text \<open>Steps that leave the readers and the cache alone.\<close>

lemma current_commit: "current s g a \<Longrightarrow> current (s\<lparr>cdb := d', unbumped := Suc (unbumped s)\<rparr>) g b"
  by (auto simp: current_def)

lemma current_bump:
  "current s g a \<Longrightarrow> current (s\<lparr>cgen := x, bumps := Suc (bumps s), unbumped := y\<rparr>) g b"
  unfolding current_def by (metis (no_types, lifting) cache_state.select_convs(6) cache_state.surjective
    cache_state.update_convs(2,5,6) le_Suc_eq not_less_eq_eq)

lemma current_frame:
  "bumps s' = bumps s \<Longrightarrow> unbumped s' = unbumped s \<Longrightarrow> current s' g a = current s g a"
  by (simp add: current_def)

lemma reader_ok_frame:
  assumes "bumps s' = bumps s" "unbumped s' = unbumped s" "tally_part (cdb s') = tally_part (cdb s)"
  shows "reader_ok s' r = reader_ok s r"
  using assms current_frame [OF assms(1,2)] computeTally_cong [OF assms(3)]
  by (simp add: reader_ok_def split: reader.split)

lemma cache_ok_frame:
  assumes ok: "cache_ok s" and f: "bumps s' = bumps s" "unbumped s' = unbumped s"
    "tally_part (cdb s') = tally_part (cdb s)" "cgen s' = cgen s" "tallyGen s' = tallyGen s" "tallyCache s' = tallyCache s"
    and r: "\<And>r. r \<in> set (readers s') \<Longrightarrow> r \<in> set (readers s) \<or> reader_ok s r"
  shows "cache_ok s'"
  using ok r by (auto simp: cache_ok_def f reader_ok_frame [OF f(1-3)] current_frame [OF f(1,2)] computeTally_cong [OF f(3)])

lemma reader_ok_weaken:
  assumes "reader_ok s r" and "\<And>g a b. current s g a \<Longrightarrow> current s' g b"
  shows "reader_ok s' r"
  using assms by (auto simp: reader_ok_def split: reader.splits)

text \<open>A commit and a bump change neither tags nor entries, and spoil nothing that is current.\<close>

lemma cache_ok_tagged:
  assumes ok: "cache_ok s" and "readers s' = readers s" "tallyGen s' = tallyGen s" "tallyCache s' = tallyCache s"
    and g: "cgen s' = of_nat (bumps s')" and c: "\<And>g a b. current s g a \<Longrightarrow> current s' g b"
  shows "cache_ok s'"
proof -
  have "reader_ok s' r" if "r \<in> set (readers s)" for r
    using ok that reader_ok_weaken [of s r s'] c by (simp add: cache_ok_def)
  moreover have "current s' (tallyGen s) b" if "tallyCache s sid = Some res" for sid res b
    using ok that c unfolding cache_ok_def by blast
  ultimately show ?thesis using assms(2-4) g unfolding cache_ok_def by metis
qed

lemma tally_store_ok:
  assumes ok: "cache_ok s" and r: "reader_ok s (Computed sid g res)" and rs: "set rs \<subseteq> set (readers s)"
  shows "cache_ok ((tally_store s sid g res)\<lparr>readers := rs\<rparr>)"
proof -
  let ?s' = "(tally_store s sid g res)\<lparr>readers := rs\<rparr>"
  have f: "bumps ?s' = bumps s" "unbumped ?s' = unbumped s" "cdb ?s' = cdb s" "cgen ?s' = cgen s"
    by (simp_all add: tally_store_def Let_def)
  have "current s (tallyGen ?s') (x = computeTally (cdb s) i)" if "tallyCache ?s' i = Some x" for i x
    using that ok r
    by (auto simp: tally_store_def Let_def cache_ok_def reader_ok_def simp del: split_paired_All split: if_splits)
  then show ?thesis
    using ok rs by (auto simp: cache_ok_def f current_frame [OF f(1,2)] reader_ok_frame [of ?s' s])
qed

lemma reader_added:
  assumes "cache_ok s" and "\<And>r. r \<in> set rs \<Longrightarrow> r \<in> set (readers s) \<or> reader_ok s r"
  shows "cache_ok (s\<lparr>readers := rs\<rparr>)"
  using assms(1) by (rule cache_ok_frame) (use assms(2) in simp_all)

lemma cache_ok_step: "cache_step s s' \<Longrightarrow> cache_ok s \<Longrightarrow> cache_ok s'"
proof (induction rule: cache_step.induct)
  case (commit s d')
  have g: "cgen s = of_nat (bumps s)" using commit.prems by (simp add: cache_ok_def)
  show ?case by (rule cache_ok_tagged [OF commit.prems _ _ _ _ current_commit]) (simp_all add: g)
next
  case (bump s)
  let ?s' = "s\<lparr>cgen := cgen s + 1, bumps := Suc (bumps s), unbumped := unbumped s - 1\<rparr>"
  have "cgen s = of_nat (bumps s)" using bump.prems by (simp add: cache_ok_def)
  then have "cgen s + 1 = of_nat (Suc (bumps s))" unfolding of_nat_Suc by (simp only: add.commute)
  then have g: "cgen ?s' = of_nat (bumps ?s')" by simp
  show ?case
  proof (rule cache_ok_tagged [OF bump.prems _ _ _ g])
    show "\<And>g a b. current s g a \<Longrightarrow> current ?s' g b" by (rule current_bump)
  qed simp_all
next
  case (write_outside_tx d' s)
  show ?case by (rule cache_ok_frame [OF write_outside_tx.prems]) (use write_outside_tx in \<open>auto\<close>)
next
  case (load_gen s sid)
  then have "reader_ok s (Loaded sid (cgen s))" by (simp add: reader_ok_def cache_ok_def)
  then show ?case by (intro reader_added [OF load_gen.prems]) auto
next
  case (serve s xs sid g ys res)
  with serve.hyps show ?case by (intro reader_added [OF serve.prems]) auto
next
  case (miss s xs sid g ys)
  then have "reader_ok s (Loaded sid g)" by (simp add: cache_ok_def)
  then have "reader_ok s (Computing sid g [])" by (simp add: reader_ok_def)
  with miss.hyps show ?case by (intro reader_added [OF miss.prems]) auto
next
  case (query s xs sid g ds ys)
  then have "reader_ok s (Computing sid g ds)" by (simp add: cache_ok_def)
  then have "reader_ok s (Computing sid g (ds @ [cdb s]))" by (auto simp: reader_ok_def intro: current_weaken)
  with query.hyps show ?case by (intro reader_added [OF query.prems]) auto
next
  case (compute s xs sid g ds ys)
  then have "reader_ok s (Computing sid g ds)" by (simp add: cache_ok_def)
  then have "reader_ok s (Computed sid g (computeTally (mixed_db ds) sid))"
    using compute.hyps(2) by (auto simp: reader_ok_def intro!: computeTally_cong mixed_of_same elim!: current_weaken)
  with compute.hyps show ?case by (intro reader_added [OF compute.prems]) auto
next
  case (finish s xs sid g res ys)
  then show ?case by (intro tally_store_ok finish.prems) (auto simp: cache_ok_def)
qed

lemma cache_ok_reachable: "cache_reachable d0 s \<Longrightarrow> cache_ok s"
proof (induction rule: cache_reachable.induct)
  case start
  then show ?case by (simp add: cache_ok_def init_cache_def)
next
  case (step s s')
  then show ?case using cache_ok_step by blast
qed

section \<open>Properties\<close>

text \<open>
  C15. The tally cache is coherent under any interleaving: whenever no committed transaction is
  still waiting to bump the counter, a call that loaded the counter's present value and finds a
  cached entry returns exactly the tally of the present database, and so does a call that
  computed its result from five separate queries; at most 2^64 transactions can run before the
  counter wraps.
\<close>

theorem tally_cache_coherent:
  assumes "cache_reachable d0 s" and "unbumped s = 0" and "bumps s < 2 ^ 64"
  shows "(Loaded sid (cgen s) \<in> set (readers s) \<longrightarrow>
      (\<forall>res. tally_lookup s sid (cgen s) = Some res \<longrightarrow> res = computeTally (cdb s) sid)) \<and>
    (\<forall>res. Computed sid (cgen s) res \<in> set (readers s) \<longrightarrow> res = computeTally (cdb s) sid)"
proof -
  have ok: "cache_ok s" by (rule cache_ok_reachable [OF assms(1)])
  then have g: "cgen s = of_nat (bumps s)" by (simp add: cache_ok_def)
  have "res = computeTally (cdb s) sid" if "tally_lookup s sid (cgen s) = Some res" for res
  proof -
    from that have "tallyCache s sid = Some res" "tallyGen s = cgen s"
      by (auto simp: tally_lookup_def split: if_splits)
    with ok have "current s (cgen s) (res = computeTally (cdb s) sid)" unfolding cache_ok_def by metis
    then show ?thesis by (rule current_unique [OF _ refl g assms(2,3)])
  qed
  moreover have "res = computeTally (cdb s) sid" if "Computed sid (cgen s) res \<in> set (readers s)" for res
  proof -
    from that ok have "reader_ok s (Computed sid (cgen s) res)" by (auto simp: cache_ok_def)
    then have "current s (cgen s) (res = computeTally (cdb s) sid)" by (simp add: reader_ok_def)
    then show ?thesis by (rule current_unique [OF _ refl g assms(2,3)])
  qed
  ultimately show ?thesis by blast
qed

text \<open>A reader alone, from the load of the counter to the end of its five queries and its tally.\<close>

lemma alone:
  assumes r: "cache_reachable d0 s" and m: "tally_lookup s sid (cgen s) = None" and e: "readers s = []"
  shows "cache_reachable d0 (s\<lparr>readers := [Computed sid (cgen s) (computeTally (cdb s) sid)]\<rparr>)"
proof -
  have q: "cache_reachable d0 (s\<lparr>readers := [Computing sid (cgen s) (replicate n (cdb s))]\<rparr>)" if "n \<le> queries" for n
    using that
  proof (induction n)
    case 0
    have "cache_reachable d0 (s\<lparr>readers := [Loaded sid (cgen s)]\<rparr>)"
      using cache_reachable.step [OF r cache_step.load_gen [of s sid]] e by simp
    moreover have "cache_step (s\<lparr>readers := [Loaded sid (cgen s)]\<rparr>)
        ((s\<lparr>readers := [Loaded sid (cgen s)]\<rparr>)\<lparr>readers := [] @ Computing sid (cgen s) [] # []\<rparr>)"
      using m by (intro cache_step.miss) (auto simp: tally_lookup_def split: if_splits)
    ultimately show ?case using cache_reachable.step by fastforce
  next
    case (Suc n)
    let ?s = "s\<lparr>readers := [Computing sid (cgen s) (replicate n (cdb s))]\<rparr>"
    have "cache_step ?s (?s\<lparr>readers := [] @ Computing sid (cgen s) (replicate n (cdb s) @ [cdb ?s]) # []\<rparr>)"
      using Suc.prems by (intro cache_step.query) simp_all
    with Suc cache_reachable.step show ?case by (fastforce simp: replicate_append_same)
  qed
  let ?ds = "replicate queries (cdb s)"
  let ?s = "s\<lparr>readers := [Computing sid (cgen s) ?ds]\<rparr>"
  have "cache_step ?s (?s\<lparr>readers := [] @ Computed sid (cgen s) (computeTally (mixed_db ?ds) sid) # []\<rparr>)"
    by (intro cache_step.compute) simp_all
  moreover have "computeTally (mixed_db ?ds) sid = computeTally (cdb s) sid"
    by (intro computeTally_cong mixed_of_same) simp_all
  ultimately show ?thesis using cache_reachable.step [OF q [OF order_refl]] by simp
qed

theorem tally_cache_coherent_witness:
  "\<exists>s res. cache_reachable demo_db s \<and> Computed ''s1'' (cgen s) res \<in> set (readers s) \<and>
     res = computeTally (cdb s) ''s1''"
proof -
  have r: "cache_reachable demo_db ((init_cache demo_db)\<lparr>readers := [Computed ''s1'' 0 (computeTally demo_db ''s1'')]\<rparr>)"
    using alone [OF cache_reachable.start, of demo_db "''s1''"] by (simp add: init_cache_def tally_lookup_def)
  from tally_cache_coherent [OF r] show ?thesis
    by (intro exI [of _ "(init_cache demo_db)\<lparr>readers := [Computed ''s1'' 0 (computeTally demo_db ''s1'')]\<rparr>"]
        exI [of _ "computeTally demo_db ''s1''"]) (use r in \<open>simp add: init_cache_def\<close>)
qed

text \<open>
  The proviso is needed: between a commit and its bump a cached tally of the database before
  the commit is still served.
\<close>

lemma stale_between_commit_and_bump:
  "\<exists>s res. cache_reachable demo_db s \<and> unbumped s = 1 \<and> Loaded ''s1'' (cgen s) \<in> set (readers s) \<and>
     tally_lookup s ''s1'' (cgen s) = Some res \<and> res \<noteq> computeTally (cdb s) ''s1''"
proof -
  let ?t = "computeTally demo_db ''s1''" and ?s0 = "init_cache demo_db"
  let ?s1 = "?s0\<lparr>readers := [Computed ''s1'' 0 ?t]\<rparr>"
  let ?s2 = "?s0\<lparr>tallyCache := [''s1'' \<mapsto> ?t]\<rparr>"
  let ?s3 = "?s2\<lparr>cdb := empty_db, unbumped := 1\<rparr>"
  have r1: "cache_reachable demo_db ?s1"
    using alone [OF cache_reachable.start, of demo_db "''s1''"] by (simp add: init_cache_def tally_lookup_def)
  have "cache_step ?s1 ((tally_store ?s1 ''s1'' 0 ?t)\<lparr>readers := [] @ []\<rparr>)"
    by (intro cache_step.finish) simp
  moreover have "(tally_store ?s1 ''s1'' 0 ?t)\<lparr>readers := [] @ []\<rparr> = ?s2"
    by (simp add: tally_store_def init_cache_def)
  ultimately have r2: "cache_reachable demo_db ?s2" using cache_reachable.step [OF r1] by metis
  have "cache_step ?s2 (?s2\<lparr>cdb := empty_db, unbumped := Suc (unbumped ?s2)\<rparr>)" by (rule cache_step.commit)
  then have r3: "cache_reachable demo_db ?s3" using cache_reachable.step [OF r2] by (simp add: init_cache_def)
  have "cache_step ?s3 (?s3\<lparr>readers := Loaded ''s1'' (cgen ?s3) # readers ?s3\<rparr>)" by (rule cache_step.load_gen)
  then have r4: "cache_reachable demo_db (?s3\<lparr>readers := [Loaded ''s1'' 0]\<rparr>)"
    using cache_reachable.step [OF r3] by (simp add: init_cache_def)
  have "Count demo_db ''s1'' = 2" by code_simp
  then have "snd ?t = 2" using computeTally_eq [OF demo_db_loads] by auto
  moreover have "snd (computeTally empty_db ''s1'') = 0" by (simp add: computeTally_def loadSurvey_def empty_db_def)
  ultimately have "?t \<noteq> computeTally empty_db ''s1''" by auto
  then show ?thesis
    by (intro exI [of _ "?s3\<lparr>readers := [Loaded ''s1'' 0]\<rparr>"] exI [of _ ?t])
      (use r4 in \<open>simp add: init_cache_def tally_lookup_def\<close>)
qed

end
