(* ===== verification/Codec.thy ===== *)
theory Codec
  imports Prelude
begin

text \<open>
  Identifiers, digests and password verifiers (\<open>newID\<close>, \<open>Store.MAC\<close> in
  \<open>internal/store/store.go\<close>; \<open>hashPassword\<close>, \<open>verifyPassword\<close> in
  \<open>internal/store/users.go\<close>), with the parts of \<open>encoding/base64\<close>, \<open>strings\<close> and
  \<open>strconv\<close> they use. HMAC-SHA256 and PBKDF2 are parameters: functions from byte strings to
  byte strings.
\<close>

text \<open>\<open>strconv.FormatInt\<close> in base ten.\<close>

definition FormatInt :: "int \<Rightarrow> string" where
  "FormatInt n = (if n < 0 then CHR ''-'' # decimal (nat (- n)) else decimal (nat n))"

section \<open>Base64 without padding\<close>

definition std_alphabet :: string where
  "std_alphabet = ''ABCDEFGHIJKLMNOPQRSTUVWXYZabcdefghijklmnopqrstuvwxyz0123456789+/''"

definition url_alphabet :: string where
  "url_alphabet = ''ABCDEFGHIJKLMNOPQRSTUVWXYZabcdefghijklmnopqrstuvwxyz0123456789-_''"

definition byte :: "char \<Rightarrow> nat" where "byte c = of_char c"

fun b64_digits :: "nat list \<Rightarrow> nat list" where
  "b64_digits (a # b # c # bs) =
     [a div 4, (a mod 4) * 16 + b div 16, (b mod 16) * 4 + c div 64, c mod 64] @ b64_digits bs"
| "b64_digits [a, b] = [a div 4, (a mod 4) * 16 + b div 16, (b mod 16) * 4]"
| "b64_digits [a] = [a div 4, (a mod 4) * 16]"
| "b64_digits [] = []"

definition EncodeToString :: "string \<Rightarrow> string \<Rightarrow> string" where
  "EncodeToString alphabet s = map (\<lambda>d. alphabet ! d) (b64_digits (map byte s))"

fun b64_bytes :: "nat list \<Rightarrow> nat list option" where
  "b64_bytes (p # q # r # s # ds) =
     map_option (\<lambda>bs. [p * 4 + q div 16, (q mod 16) * 16 + r div 4, (r mod 4) * 64 + s] @ bs) (b64_bytes ds)"
| "b64_bytes [p, q, r] = Some [p * 4 + q div 16, (q mod 16) * 16 + r div 4]"
| "b64_bytes [p, q] = Some [p * 4 + q div 16]"
| "b64_bytes [p] = None"
| "b64_bytes [] = Some []"

primrec index_of :: "char \<Rightarrow> string \<Rightarrow> nat option" where
  "index_of c [] = None"
| "index_of c (x # xs) = (if x = c then Some 0 else map_option Suc (index_of c xs))"

text \<open>The decoder skips carriage returns and line feeds, and rejects any other foreign byte.\<close>

definition DecodeString :: "string \<Rightarrow> string \<Rightarrow> string option" where
  "DecodeString alphabet s =
     (let ds = map (\<lambda>c. index_of c alphabet) (filter (\<lambda>c. c \<noteq> CHR 0x0A \<and> c \<noteq> CHR 0x0D) s) in
      if list_all (\<lambda>d. d \<noteq> None) ds
      then map_option (map char_of) (b64_bytes (map the ds)) else None)"

lemma byte_bound [simp]: "byte c < 256"
  using range_nat_of_char by (metis atLeastLessThan_iff byte_def rangeI)

lemma char_of_byte [simp]: "char_of (byte c) = c"
  by (simp add: byte_def)

lemma b64_digits_bound: "\<forall>b\<in>set bs. b < 256 \<Longrightarrow> \<forall>d\<in>set (b64_digits bs). d < 64"
  by (induction bs rule: b64_digits.induct) auto

lemma b64_bytes_digits: "\<forall>b\<in>set bs. b < 256 \<Longrightarrow> b64_bytes (b64_digits bs) = Some bs"
proof (induction bs rule: b64_digits.induct)
  case (1 a b c bs)
  have "(a div 4) * 4 + ((a mod 4) * 16 + b div 16) div 16 = a"
    "(((a mod 4) * 16 + b div 16) mod 16) * 16 + ((b mod 16) * 4 + c div 64) div 4 = b"
    "(((b mod 16) * 4 + c div 64) mod 4) * 64 + c mod 64 = c"
    using 1 by auto
  with 1 show ?case by simp
next
  case (2 a b)
  have "(a div 4) * 4 + ((a mod 4) * 16 + b div 16) div 16 = a"
    "(((a mod 4) * 16 + b div 16) mod 16) * 16 + ((b mod 16) * 4) div 4 = b"
    using 2 by auto
  then show ?case by simp
next
  case (3 a)
  then show ?case by auto
qed simp_all

lemma index_of_nth: "distinct alphabet \<Longrightarrow> d < length alphabet \<Longrightarrow> index_of (alphabet ! d) alphabet = Some d"
proof (induction alphabet arbitrary: d)
  case (Cons x xs)
  then show ?case by (cases d) auto
qed simp

definition good_alphabet :: "string \<Rightarrow> bool" where
  "good_alphabet a = (distinct a \<and> length a = 64 \<and> CHR 0x0A \<notin> set a \<and> CHR 0x0D \<notin> set a)"

lemma alphabets_good: "good_alphabet std_alphabet" "good_alphabet url_alphabet"
  by code_simp+

lemma Encode_chars: "good_alphabet a \<Longrightarrow> set (EncodeToString a s) \<subseteq> set a"
  using b64_digits_bound [of "map byte s"] by (auto simp: EncodeToString_def good_alphabet_def)

lemma Decode_Encode:
  assumes "good_alphabet a"
  shows "DecodeString a (EncodeToString a s) = Some s"
proof -
  let ?ds = "b64_digits (map byte s)"
  have b: "\<forall>d\<in>set ?ds. d < 64" by (rule b64_digits_bound) simp
  have "c \<noteq> CHR 0x0A \<and> c \<noteq> CHR 0x0D" if "c \<in> set (EncodeToString a s)" for c
    using that Encode_chars [OF assms] assms by (auto simp: good_alphabet_def)
  then have "filter (\<lambda>c. c \<noteq> CHR 0x0A \<and> c \<noteq> CHR 0x0D) (EncodeToString a s) = EncodeToString a s"
    by (simp add: filter_id_conv)
  moreover have "map (\<lambda>c. index_of c a) (EncodeToString a s) = map Some ?ds"
    using assms b by (auto simp: EncodeToString_def good_alphabet_def index_of_nth)
  ultimately show ?thesis
    using b64_bytes_digits [of "map byte s"]
    by (simp add: DecodeString_def Let_def list_all_iff comp_def)
qed

lemma Encode_inject: "good_alphabet a \<Longrightarrow> EncodeToString a s = EncodeToString a t \<longleftrightarrow> s = t"
  by (metis Decode_Encode option.inject)

section \<open>Digests\<close>

text \<open>What \<open>MAC\<close> feeds to the hash: every part with its length in front.\<close>

definition mac_part :: "string \<Rightarrow> string" where
  "mac_part p = decimal (length p) @ '':'' @ p"

definition mac_input :: "string list \<Rightarrow> string" where
  "mac_input parts = concat (map mac_part parts)"

definition MAC :: "(string \<Rightarrow> string \<Rightarrow> string) \<Rightarrow> string \<Rightarrow> string list \<Rightarrow> string" where
  "MAC hmac secret parts = EncodeToString url_alphabet (hmac secret (mac_input parts))"

definition VoterID :: "(string \<Rightarrow> string \<Rightarrow> string) \<Rightarrow> string \<Rightarrow> string \<Rightarrow> string \<Rightarrow> string" where
  "VoterID hmac secret surveyID token = take 22 (MAC hmac secret [''voter'', surveyID, token])"

lemma digit_not_colon: "n < 10 \<Longrightarrow> digit n \<noteq> CHR 0x3A"
proof
  assume n: "n < 10" and e: "digit n = CHR 0x3A"
  have "(of_char (digit n) :: nat) = 48 + n" using n by simp
  then show False unfolding e using n by simp
qed

lemma decimal_no_colon: "CHR 0x3A \<notin> set (decimal n)"
  using decimal_chars digit_not_colon by metis

text \<open>A part can be read back off the front of the input, so the input determines the parts.\<close>

lemma mac_part_prefix:
  assumes "mac_part p @ x = mac_part q @ y"
  shows "p = q \<and> x = y"
proof -
  have split: "takeWhile (\<lambda>c. c \<noteq> CHR 0x3A) (mac_part r @ z) = decimal (length r)"
    "dropWhile (\<lambda>c. c \<noteq> CHR 0x3A) (mac_part r @ z) = CHR 0x3A # r @ z" for r z
  proof -
    have "\<forall>c\<in>set (decimal (length r)). c \<noteq> CHR 0x3A" using decimal_no_colon by metis
    then show "takeWhile (\<lambda>c. c \<noteq> CHR 0x3A) (mac_part r @ z) = decimal (length r)"
      "dropWhile (\<lambda>c. c \<noteq> CHR 0x3A) (mac_part r @ z) = CHR 0x3A # r @ z"
      by (simp_all add: mac_part_def takeWhile_append2 dropWhile_append2)
  qed
  from assms split have "decimal (length p) = decimal (length q)" by metis
  then have "length p = length q" by simp
  moreover from assms split have "p @ x = q @ y" by (metis list.inject)
  ultimately show ?thesis by simp
qed

lemma mac_part_nonempty: "mac_part p \<noteq> []"
  by (simp add: mac_part_def)

lemma mac_input_inject: "mac_input ps = mac_input qs \<longleftrightarrow> ps = qs"
proof
  show "mac_input ps = mac_input qs \<Longrightarrow> ps = qs"
  proof (induction ps arbitrary: qs)
    case Nil
    then show ?case by (cases qs) (simp_all add: mac_input_def mac_part_nonempty)
  next
    case (Cons p ps)
    then obtain q qs' where qs: "qs = q # qs'" by (cases qs) (simp_all add: mac_input_def mac_part_nonempty)
    from Cons.prems have "mac_part p @ mac_input ps = mac_part q @ mac_input qs'"
      by (simp add: qs mac_input_def)
    then have "p = q" "mac_input ps = mac_input qs'" using mac_part_prefix by blast+
    with Cons.IH show ?case by (simp add: qs)
  qed
qed simp

section \<open>Fresh identifiers\<close>

definition idAlphabet :: string where
  "idAlphabet = ''abcdefghijkmnpqrstuvwxyz23456789''"

definition newID :: "nat list \<Rightarrow> string" where
  "newID b = map (\<lambda>x. idAlphabet ! (x mod length idAlphabet)) b"

lemma residues_evenly_spread:
  assumes "k < 32"
  shows "length (filter (\<lambda>x. x mod 32 = k) [0..<256]) = 8"
proof -
  have "length (filter (\<lambda>x. x mod 32 = k) [0..<256]) = card {x. x < 256 \<and> x mod 32 = k}"
    by (subst distinct_card [symmetric]) (simp_all add: Collect_conj_eq lessThan_def [symmetric] inf_commute atLeast0LessThan)
  also have "{x. x < 256 \<and> x mod 32 = k} = (\<lambda>j. k + 32 * j) ` {..<8}"
  proof (intro equalityI subsetI)
    fix x assume "x \<in> {x. x < 256 \<and> x mod 32 = k}"
    then have "x = k + 32 * (x div 32)" "x div 32 < 8" by auto
    then show "x \<in> (\<lambda>j. k + 32 * j) ` {..<8}" by blast
  qed (use assms in auto)
  also have "card \<dots> = 8" by (subst card_image) (auto intro: inj_onI)
  finally show ?thesis .
qed

lemma length_idAlphabet: "length idAlphabet = 32" by code_simp

section \<open>Password verifiers\<close>

text \<open>\<open>kdf password salt iterations keylength\<close> is \<open>pbkdf2.Key\<close>.\<close>

type_synonym kdf = "string \<Rightarrow> string \<Rightarrow> int \<Rightarrow> nat \<Rightarrow> string"

definition pbkdf2Iterations :: int where "pbkdf2Iterations = 600000"

definition hashPassword :: "kdf \<Rightarrow> string \<Rightarrow> string \<Rightarrow> string" where
  "hashPassword kdf salt password =
     ''pbkdf2-sha256$'' @ decimal (nat pbkdf2Iterations) @ ''$'' @ EncodeToString std_alphabet salt @ ''$''
       @ EncodeToString std_alphabet (kdf password salt pbkdf2Iterations 32)"

text \<open>\<open>strings.Split\<close> with a one-byte separator.\<close>

primrec split_at :: "char \<Rightarrow> string \<Rightarrow> string list" where
  "split_at sep [] = [[]]"
| "split_at sep (c # cs) =
     (if c = sep then [] # split_at sep cs
      else (case split_at sep cs of [] \<Rightarrow> [[c]] | p # ps \<Rightarrow> (c # p) # ps))"

text \<open>\<open>strconv.Atoi\<close>: an optional sign, at least one digit, and a value that fits 64 bits.\<close>

definition is_digit :: "char \<Rightarrow> bool" where
  "is_digit c = (48 \<le> byte c \<and> byte c \<le> 57)"

definition Atoi :: "string \<Rightarrow> int option" where
  "Atoi s =
     (let (neg, ds) = (case s of [] \<Rightarrow> (False, []) | c # cs \<Rightarrow>
            if c = CHR ''-'' then (True, cs) else if c = CHR ''+'' then (False, cs) else (False, s));
          n = int (undecimal ds); v = (if neg then - n else n) in
      if ds \<noteq> [] \<and> list_all is_digit ds \<and> - (2 ^ 63) \<le> v \<and> v < 2 ^ 63 then Some v else None)"

definition verifyPassword :: "kdf \<Rightarrow> string \<Rightarrow> string \<Rightarrow> bool" where
  "verifyPassword kdf encoded password =
     (case split_at (CHR ''$'') encoded of
        [p0, p1, p2, p3] \<Rightarrow>
          if p0 \<noteq> ''pbkdf2-sha256'' then False
          else (case Atoi p1 of
             None \<Rightarrow> False
           | Some iter \<Rightarrow>
               if iter \<le> 0 then False
               else (case DecodeString std_alphabet p2 of
                  None \<Rightarrow> False
                | Some salt \<Rightarrow> (case DecodeString std_alphabet p3 of
                     None \<Rightarrow> False
                   | Some want \<Rightarrow> kdf password salt iter (length want) = want)))
      | _ \<Rightarrow> False)"

lemma split_at_nonempty: "split_at sep s \<noteq> []"
  by (induction s) (auto split: list.split)

lemma split_at_none: "sep \<notin> set s \<Longrightarrow> split_at sep s = [s]"
  by (induction s) auto

lemma split_at_append: "sep \<notin> set s \<Longrightarrow> split_at sep (s @ sep # t) = s # split_at sep t"
  by (induction s) auto

lemma digit_is_digit: "n < 10 \<Longrightarrow> is_digit (digit n)"
  by (simp add: is_digit_def byte_def)

lemma decimal_digits: "list_all is_digit (decimal n)"
  using decimal_chars digit_is_digit by (metis list_all_iff)

lemma sign_not_digit: "\<not> is_digit (CHR ''-'')" "\<not> is_digit (CHR ''+'')" "\<not> is_digit (CHR ''$'')"
  by code_simp+

lemma Atoi_decimal: "n < 2 ^ 63 \<Longrightarrow> Atoi (decimal n) = Some (int n)"
proof -
  assume n: "n < 2 ^ 63"
  obtain c cs where d: "decimal n = c # cs" by (meson decimal_nonempty neq_Nil_conv)
  with decimal_digits [of n] have "c \<noteq> CHR ''-''" "c \<noteq> CHR ''+''" using sign_not_digit by auto
  moreover have "int n < 2 ^ 63" using n by (metis of_nat_less_iff of_nat_numeral of_nat_power)
  ultimately show ?thesis
    using d decimal_digits [of n] undecimal_decimal [of n] by (simp add: Atoi_def)
qed

lemma decimal_no_dollar: "CHR ''$'' \<notin> set (decimal n)"
  using decimal_digits [of n] sign_not_digit(3) by (auto simp: list_all_iff)

lemma encoded_no_dollar: "CHR ''$'' \<notin> set (EncodeToString std_alphabet s)"
proof -
  have "CHR ''$'' \<notin> set std_alphabet" by code_simp
  with Encode_chars [OF alphabets_good(1)] show ?thesis by blast
qed

lemma split_hash:
  "split_at (CHR ''$'') (hashPassword kdf salt password) =
     [''pbkdf2-sha256'', decimal (nat pbkdf2Iterations), EncodeToString std_alphabet salt,
      EncodeToString std_alphabet (kdf password salt pbkdf2Iterations 32)]"
proof -
  have h: "hashPassword kdf salt password = ''pbkdf2-sha256'' @ CHR ''$'' # decimal (nat pbkdf2Iterations) @ CHR ''$'' #
      EncodeToString std_alphabet salt @ CHR ''$'' # EncodeToString std_alphabet (kdf password salt pbkdf2Iterations 32)"
    by (simp add: hashPassword_def)
  have "CHR ''$'' \<notin> set ''pbkdf2-sha256''" by code_simp
  then show ?thesis
    unfolding h by (simp only: split_at_append split_at_none decimal_no_dollar encoded_no_dollar not_False_eq_True)
qed

lemma accepts_derived:
  assumes "\<And>pw s n. length (kdf pw s n 32) = 32"
  shows "verifyPassword kdf (hashPassword kdf salt password) attempt \<longleftrightarrow>
    kdf attempt salt pbkdf2Iterations 32 = kdf password salt pbkdf2Iterations 32"
  unfolding verifyPassword_def split_hash
  using assms by (simp add: Atoi_decimal pbkdf2Iterations_def Decode_Encode alphabets_good)

section \<open>Properties\<close>

text \<open>
  A stored verifier accepts exactly the passwords that derive the same key: for every
  password and salt, verifying against the encoded hash compares the derived keys and nothing
  else, so the right password always passes, whatever the salt bytes are.
\<close>

theorem verify_hash:
  assumes "\<And>pw s n. length (kdf pw s n 32) = 32"
  shows "verifyPassword kdf (hashPassword kdf salt password) attempt \<longleftrightarrow>
    kdf attempt salt pbkdf2Iterations 32 = kdf password salt pbkdf2Iterations 32"
  using assms by (rule accepts_derived)

theorem verify_hash_witness:
  "let kdf = (\<lambda>pw s n k. take k (pw @ s @ replicate k CHR 0x00)) in
     verifyPassword kdf (hashPassword kdf ''salt'' ''hunter22'') ''hunter22'' \<and>
     \<not> verifyPassword kdf (hashPassword kdf ''salt'' ''hunter22'') ''hunter23''"
proof -
  let ?kdf = "\<lambda>pw s (n :: int) k. take k (pw @ s @ replicate k CHR 0x00)"
  have "length (?kdf pw s n 32) = 32" for pw s n by simp
  note v = verify_hash [of ?kdf, OF this]
  show ?thesis unfolding Let_def v by simp
qed

text \<open>
  Digests are separated by purpose and by argument: two digests under one secret agree
  only if their argument lists are the same, part by part, or the keyed hash itself collides;
  no choice of a survey, token or name makes one list of parts read as another.
\<close>

theorem MAC_separates:
  "MAC hmac secret ps = MAC hmac secret qs \<longleftrightarrow>
     ps = qs \<or> (mac_input ps \<noteq> mac_input qs \<and> hmac secret (mac_input ps) = hmac secret (mac_input qs))"
  unfolding MAC_def Encode_inject [OF alphabets_good(2)] mac_input_inject by auto

text \<open>
  Identifiers are drawn without bias: reducing a random byte modulo the alphabet hits each
  of its 32 characters for exactly 8 of the 256 bytes, and an identifier has the length asked for.
\<close>

theorem newID_unbiased:
  "length (newID b) = length b \<and> set (newID b) \<subseteq> set idAlphabet \<and>
   (\<forall>c\<in>set idAlphabet. length (filter (\<lambda>x. newID [x] = [c]) [0..<256]) = 8)"
proof (intro conjI ballI)
  show "set (newID b) \<subseteq> set idAlphabet"
    by (auto simp: newID_def length_idAlphabet)
  fix c assume "c \<in> set idAlphabet"
  then obtain k where k: "k < 32" "c = idAlphabet ! k"
    by (auto simp: in_set_conv_nth length_idAlphabet)
  have "distinct idAlphabet" by code_simp
  then have eq: "newID [x] = [c] \<longleftrightarrow> x mod 32 = k" for x
    using k by (simp add: newID_def nth_eq_iff_index_eq length_idAlphabet)
  show "length (filter (\<lambda>x. newID [x] = [c]) [0..<256]) = 8"
    unfolding eq by (rule residues_evenly_spread [OF k(1)])
qed (simp add: newID_def)

theorem newID_unbiased_witness:
  "length (filter (\<lambda>x. newID [x] = ''q'') [0..<256]) = 8"
  using newID_unbiased [of "[]"] by (simp add: idAlphabet_def)

end
