(* ===== verification/Accounts.thy ===== *)
theory Accounts
  imports Integrity Codec
begin

text \<open>
  Administrative accounts (\<open>internal/store/users.go\<close>): roles, creation, password changes,
  session revocation, role changes, approval, deletion and sign-in. The main invariant is that
  an instance that has an approved administrator never loses its last one.
\<close>

section \<open>Roles and names\<close>

definition RoleViewer :: string where "RoleViewer = ''viewer''"
definition RoleEditor :: string where "RoleEditor = ''editor''"
definition RoleAdmin :: string where "RoleAdmin = ''admin''"

definition roleRank :: "string \<rightharpoonup> nat" where
  "roleRank = [RoleViewer \<mapsto> 1, RoleEditor \<mapsto> 2, RoleAdmin \<mapsto> 3]"

definition ValidRole :: "string \<Rightarrow> bool" where
  "ValidRole r = (roleRank r \<noteq> None)"

definition AtLeast :: "string \<Rightarrow> string \<Rightarrow> bool" where
  "AtLeast r want = (get0 roleRank r \<ge> get0 roleRank want)"

definition alnum :: "char \<Rightarrow> bool" where
  "alnum c = ((CHR ''A'' \<le> c \<and> c \<le> CHR ''Z'') \<or> (CHR ''a'' \<le> c \<and> c \<le> CHR ''z'') \<or> (CHR ''0'' \<le> c \<and> c \<le> CHR ''9''))"

text \<open>The expression \<open>^[A-Za-z0-9][A-Za-z0-9._-]{0,63}$\<close>.\<close>

definition ValidUsername :: "string \<Rightarrow> bool" where
  "ValidUsername name =
     (case name of
        [] \<Rightarrow> False
      | c # cs \<Rightarrow> alnum c \<and> length cs \<le> 63 \<and>
          list_all (\<lambda>c. alnum c \<or> c = CHR ''.'' \<or> c = CHR ''_'' \<or> c = CHR ''-'') cs)"

definition SessionKey :: "user \<Rightarrow> string" where
  "SessionKey u = u_name u @ [CHR 0x00] @ u_hash u @ [CHR 0x00] @ dbTime (u_sessions_from u)"

section \<open>Reading accounts\<close>

definition UserOf :: "db \<Rightarrow> string \<Rightarrow> user option" where
  "UserOf d name = lookup_by u_name name (users d)"

definition Users :: "db \<Rightarrow> user list" where
  "Users d = sort_key u_name (users d)"

definition PendingUsers :: "db \<Rightarrow> user list" where
  "PendingUsers d = sort_key (\<lambda>u. dbTime (u_created u)) (filter u_pending (users d))"

definition UserCount :: "db \<Rightarrow> nat" where
  "UserCount d = length (users d)"

definition Authenticate :: "kdf \<Rightarrow> db \<Rightarrow> string \<Rightarrow> string \<Rightarrow> user option" where
  "Authenticate kdf d name password =
     (case UserOf d name of
        None \<Rightarrow> None
      | Some u \<Rightarrow> if \<not> verifyPassword kdf (u_hash u) password then None else Some u)"

section \<open>Changing accounts\<close>

text \<open>The role's existence check and the insert, with \<open>salt\<close> the random bytes drawn.\<close>

definition addUser ::
  "kdf \<Rightarrow> string \<Rightarrow> time \<Rightarrow> string \<Rightarrow> string \<Rightarrow> string \<Rightarrow> bool \<Rightarrow> bool \<Rightarrow> string \<Rightarrow> db \<Rightarrow> err + (user \<times> db)" where
  "addUser kdf salt now name role password mustChange pending invitedBy d =
     (let name = TrimSpace name in
      if \<not> ValidUsername name then Inl ErrBadUsername
      else if \<not> ValidRole role then Inl (ErrUnknownRole role)
      else if length password < 8 then Inl ErrShortPassword
      else
        let u = \<lparr>u_name = name, u_role = role, u_hash = hashPassword kdf salt password, u_created = now,
                 u_must_change = mustChange, u_pending = pending, u_invited_by = invitedBy, u_sessions_from = 0\<rparr>
        in if lookup_by u_name name (users d) \<noteq> None then Inl (ErrExists name)
           else Inr (u, d\<lparr>users := users d @ [u]\<rparr>))"

definition AddUser :: "kdf \<Rightarrow> string \<Rightarrow> time \<Rightarrow> string \<Rightarrow> string \<Rightarrow> string \<Rightarrow> db \<Rightarrow> err + (user \<times> db)" where
  "AddUser kdf salt now name role password = addUser kdf salt now name role password False False []"

text \<open>An UPDATE of the row with this name; \<open>affectedOne\<close> makes it an error when there is none.\<close>

definition update_user :: "string \<Rightarrow> (user \<Rightarrow> user) \<Rightarrow> db \<Rightarrow> err + db" where
  "update_user name f d =
     (if lookup_by u_name name (users d) = None then Inl (ErrNotFound ''user'' name)
      else Inr (d\<lparr>users := modify_by u_name name f (users d)\<rparr>))"

text \<open>\<open>UPDATE resets SET used = ? WHERE user_name = ? AND used IS NULL\<close>\<close>

definition retire_resets :: "string \<Rightarrow> time \<Rightarrow> reset list \<Rightarrow> reset list" where
  "retire_resets name now t = map (\<lambda>p. if p_user p = name \<and> p_used p = 0 then p\<lparr>p_used := now\<rparr> else p) t"

definition SetPassword :: "kdf \<Rightarrow> string \<Rightarrow> time \<Rightarrow> string \<Rightarrow> string \<Rightarrow> db \<Rightarrow> err + (unit \<times> db)" where
  "SetPassword kdf salt now name password d =
     (if length password < 8 then Inl ErrShortPassword
      else
        bindE (update_user name (\<lambda>u. u\<lparr>u_hash := hashPassword kdf salt password, u_must_change := False\<rparr>) d) (\<lambda>d.
        Inr ((), d\<lparr>resets := retire_resets name now (resets d)\<rparr>)))"

definition RevokeSessions :: "time \<Rightarrow> string \<Rightarrow> db \<Rightarrow> err + (unit \<times> db)" where
  "RevokeSessions now name d =
     bindE (update_user name (\<lambda>u. u\<lparr>u_sessions_from := now\<rparr>) d) (\<lambda>d. Inr ((), d))"

definition other_admins :: "db \<Rightarrow> string \<Rightarrow> nat" where
  "other_admins d name = length (filter (\<lambda>u. u_role u = RoleAdmin \<and> \<not> u_pending u \<and> u_name u \<noteq> name) (users d))"

definition SetRole :: "string \<Rightarrow> string \<Rightarrow> db \<Rightarrow> err + (unit \<times> db)" where
  "SetRole name role d =
     (if \<not> ValidRole role then Inl (ErrUnknownRole role)
      else case lookup_by u_name name (users d) of
        None \<Rightarrow> Inl (ErrNotFound ''user'' name)
      | Some u \<Rightarrow>
          if u_role u = RoleAdmin \<and> \<not> u_pending u \<and> role \<noteq> RoleAdmin \<and> other_admins d name = 0
          then Inl ErrLastAdmin
          else Inr ((), d\<lparr>users := modify_by u_name name (\<lambda>u. u\<lparr>u_role := role\<rparr>) (users d)\<rparr>))"

definition DeleteUser :: "string \<Rightarrow> db \<Rightarrow> err + (unit \<times> db)" where
  "DeleteUser name d =
     (case lookup_by u_name name (users d) of
        None \<Rightarrow> Inl (ErrNotFound ''user'' name)
      | Some u \<Rightarrow>
          if u_role u = RoleAdmin \<and> \<not> u_pending u \<and> other_admins d name = 0 then Inl ErrLastAdmin
          else Inr ((), d\<lparr>users := filter (\<lambda>u. u_name u \<noteq> name) (users d)\<rparr>))"

definition ApproveUser :: "string \<Rightarrow> string \<Rightarrow> db \<Rightarrow> err + (unit \<times> db)" where
  "ApproveUser name role d =
     (if \<not> ValidRole role then Inl (ErrUnknownRole role)
      else case lookup_by u_name name (users d) of
        None \<Rightarrow> Inl (ErrNotFound ''user'' name)
      | Some u \<Rightarrow>
          if \<not> u_pending u then Inl (ErrAlreadyApproved name)
          else Inr ((), d\<lparr>users := modify_by u_name name (\<lambda>u. u\<lparr>u_pending := False, u_role := role\<rparr>) (users d)\<rparr>))"

section \<open>Well-formed accounts\<close>

definition approved_admin :: "user \<Rightarrow> bool" where
  "approved_admin u = (u_role u = RoleAdmin \<and> \<not> u_pending u)"

definition administrable :: "db \<Rightarrow> bool" where
  "administrable d = list_ex approved_admin (users d)"

definition users_ok :: "db \<Rightarrow> bool" where
  "users_ok d = (distinct (map u_name (users d)) \<and>
     list_all (\<lambda>u. ValidUsername (u_name u) \<and> ValidRole (u_role u)) (users d))"

lemma roles_valid [simp]: "ValidRole RoleViewer" "ValidRole RoleEditor" "ValidRole RoleAdmin"
  by (simp_all add: ValidRole_def roleRank_def)

lemma update_user_Inr [simp]:
  "update_user name f d = Inr d' \<longleftrightarrow>
     name \<in> u_name ` set (users d) \<and> d' = d\<lparr>users := modify_by u_name name f (users d)\<rparr>"
  by (auto simp: update_user_def lookup_by_None_iff)

lemma users_ok_modify:
  assumes ok: "users_ok d" and u: "users d' = modify_by u_name name f (users d)"
    and f: "\<And>u. u_name (f u) = u_name u" "\<And>u. ValidRole (u_role u) \<Longrightarrow> ValidRole (u_role (f u))"
  shows "users_ok d'"
proof -
  have "map u_name (users d') = map u_name (users d)" unfolding u using f(1) by (intro map_key_modify_by)
  moreover have "\<forall>x\<in>set (users d'). ValidUsername (u_name x) \<and> ValidRole (u_role x)"
    using ok f unfolding u set_modify_by users_ok_def list_all_iff by auto
  ultimately show ?thesis using ok by (simp add: users_ok_def list_all_iff)
qed

lemma administrable_modify:
  assumes a: "administrable d" and u: "users d' = modify_by u_name name f (users d)"
    and f: "\<And>u. u_name u = name \<Longrightarrow> approved_admin u \<Longrightarrow> approved_admin (f u) \<or> other_admins d name > 0"
  shows "administrable d'"
proof -
  from a obtain x where x: "x \<in> set (users d)" "approved_admin x" by (auto simp: administrable_def list_ex_iff)
  have keep: "administrable d'" if "y \<in> set (users d)" "approved_admin y" "u_name y \<noteq> name" for y
    using that unfolding administrable_def list_ex_iff u set_modify_by by force
  show ?thesis
  proof (cases "u_name x = name")
    case False
    with x keep show ?thesis by blast
  next
    case True
    from f [OF True x(2)] show ?thesis
    proof
      assume "approved_admin (f x)"
      with x True show ?thesis unfolding administrable_def list_ex_iff u set_modify_by by force
    next
      assume "other_admins d name > 0"
      then obtain y where "y \<in> set (users d)" "approved_admin y" "u_name y \<noteq> name"
        by (auto simp: other_admins_def approved_admin_def filter_empty_conv)
      then show ?thesis by (rule keep)
    qed
  qed
qed

lemma addUser_cases:
  assumes "addUser kdf salt now name role password mustChange pending invitedBy d = Inr (u, d')"
  shows "d' = d\<lparr>users := users d @ [u]\<rparr>" "u_name u = TrimSpace name" "ValidUsername (u_name u)"
    "ValidRole role" "u_role u = role" "u_hash u = hashPassword kdf salt password" "u_pending u = pending"
    "u_name u \<notin> u_name ` set (users d)" "8 \<le> length password" "u_sessions_from u = 0"
  using assms by (auto simp: addUser_def Let_def lookup_by_None_iff split: if_splits)

lemma addUser_ok [preserves]:
  assumes "users_ok d" and "addUser kdf salt now name role password mustChange pending invitedBy d = Inr (u, d')"
  shows "users_ok d'"
  using assms(1) addUser_cases [OF assms(2)] by (auto simp: users_ok_def)

lemma SetPassword_cases:
  assumes "SetPassword kdf salt now name password d = Inr ((), d')"
  shows "users d' = modify_by u_name name (\<lambda>u. u\<lparr>u_hash := hashPassword kdf salt password, u_must_change := False\<rparr>) (users d)"
    "resets d' = retire_resets name now (resets d)" "invites d' = invites d" "name \<in> u_name ` set (users d)"
  using assms by (auto simp: SetPassword_def split: if_splits)

lemma RevokeSessions_cases:
  assumes "RevokeSessions now name d = Inr ((), d')"
  shows "d' = d\<lparr>users := modify_by u_name name (\<lambda>u. u\<lparr>u_sessions_from := now\<rparr>) (users d)\<rparr>"
    "name \<in> u_name ` set (users d)"
  using assms by (auto simp: RevokeSessions_def)

lemma SetRole_cases:
  assumes "SetRole name role d = Inr ((), d')"
  obtains u where "ValidRole role" "lookup_by u_name name (users d) = Some u"
    "approved_admin u \<Longrightarrow> role \<noteq> RoleAdmin \<Longrightarrow> other_admins d name > 0"
    "d' = d\<lparr>users := modify_by u_name name (\<lambda>u. u\<lparr>u_role := role\<rparr>) (users d)\<rparr>"
  using assms by (auto simp: SetRole_def approved_admin_def split: option.splits if_splits)

lemma DeleteUser_cases:
  assumes "DeleteUser name d = Inr ((), d')"
  obtains u where "lookup_by u_name name (users d) = Some u"
    "approved_admin u \<Longrightarrow> other_admins d name > 0"
    "d' = d\<lparr>users := filter (\<lambda>u. u_name u \<noteq> name) (users d)\<rparr>"
  using assms by (auto simp: DeleteUser_def approved_admin_def split: option.splits if_splits)

lemma ApproveUser_cases:
  assumes "ApproveUser name role d = Inr ((), d')"
  obtains u where "ValidRole role" "lookup_by u_name name (users d) = Some u" "u_pending u"
    "d' = d\<lparr>users := modify_by u_name name (\<lambda>u. u\<lparr>u_pending := False, u_role := role\<rparr>) (users d)\<rparr>"
  using assms by (auto simp: ApproveUser_def split: option.splits if_splits)

lemma the_user: "users_ok d \<Longrightarrow> lookup_by u_name name (users d) = Some u \<Longrightarrow> x \<in> set (users d) \<Longrightarrow>
  u_name x = name \<Longrightarrow> x = u"
  unfolding users_ok_def by (metis lookup_by_mem option.inject)

text \<open>The account invariant: well-formed accounts, one of them an approved administrator.\<close>

definition accounts_ok :: "db \<Rightarrow> bool" where
  "accounts_ok d = (users_ok d \<and> administrable d)"

lemma accounts_ok_users: "users d' = users d \<Longrightarrow> accounts_ok d' = accounts_ok d"
  by (simp add: accounts_ok_def users_ok_def administrable_def)

lemma addUser_accounts_ok [preserves]:
  assumes "accounts_ok d" and "addUser kdf salt now name role password mustChange pending invitedBy d = Inr (u, d')"
  shows "accounts_ok d'"
  using assms(1) addUser_ok [OF _ assms(2)] addUser_cases(1) [OF assms(2)]
  by (simp add: accounts_ok_def administrable_def)

lemma SetPassword_accounts_ok [preserves]:
  assumes "accounts_ok d" and "SetPassword kdf salt now name password d = Inr ((), d')"
  shows "accounts_ok d'"
proof -
  note c = SetPassword_cases [OF assms(2)]
  have "users_ok d'" using assms(1) by (intro users_ok_modify [OF _ c(1)]) (simp_all add: accounts_ok_def)
  moreover have "administrable d'"
    using assms(1) by (intro administrable_modify [OF _ c(1)]) (simp_all add: accounts_ok_def approved_admin_def)
  ultimately show ?thesis by (simp add: accounts_ok_def)
qed

lemma RevokeSessions_accounts_ok [preserves]:
  assumes "accounts_ok d" and "RevokeSessions now name d = Inr ((), d')"
  shows "accounts_ok d'"
proof -
  have c: "users d' = modify_by u_name name (\<lambda>u. u\<lparr>u_sessions_from := now\<rparr>) (users d)"
    using RevokeSessions_cases [OF assms(2)] by simp
  have "users_ok d'" using assms(1) by (intro users_ok_modify [OF _ c]) (simp_all add: accounts_ok_def)
  moreover have "administrable d'"
    using assms(1) by (intro administrable_modify [OF _ c]) (simp_all add: accounts_ok_def approved_admin_def)
  ultimately show ?thesis by (simp add: accounts_ok_def)
qed

lemma SetRole_accounts_ok [preserves]:
  assumes ok: "accounts_ok d" and r: "SetRole name role d = Inr ((), d')"
  shows "accounts_ok d'"
  using r
proof (cases rule: SetRole_cases)
  case (1 u)
  have u: "users d' = modify_by u_name name (\<lambda>u. u\<lparr>u_role := role\<rparr>) (users d)" using 1(4) by simp
  have "users_ok d'" using ok 1(1) by (intro users_ok_modify [OF _ u]) (simp_all add: accounts_ok_def)
  moreover have "administrable d'"
  proof (cases "role = RoleAdmin")
    case True
    then show ?thesis
      using ok by (intro administrable_modify [OF _ u]) (simp_all add: accounts_ok_def approved_admin_def)
  next
    case False
    show ?thesis
    proof (cases "approved_admin u")
      case True
      with 1(3) False have "other_admins d name > 0" by blast
      then show ?thesis using ok by (intro administrable_modify [OF _ u]) (simp_all add: accounts_ok_def)
    next
      case False
      from ok obtain x where x: "x \<in> set (users d)" "approved_admin x"
        by (auto simp: accounts_ok_def administrable_def list_ex_iff)
      with False ok the_user [OF _ 1(2) x(1)] have "u_name x \<noteq> name" by (auto simp: accounts_ok_def)
      with x show ?thesis unfolding administrable_def list_ex_iff u set_modify_by by force
    qed
  qed
  ultimately show ?thesis by (simp add: accounts_ok_def)
qed

lemma DeleteUser_accounts_ok [preserves]:
  assumes ok: "accounts_ok d" and r: "DeleteUser name d = Inr ((), d')"
  shows "accounts_ok d'"
  using r
proof (cases rule: DeleteUser_cases)
  case (1 u)
  have "users_ok d'"
    using ok 1(3) by (simp add: accounts_ok_def users_ok_def map_distinct_filter list_all_iff)
  moreover have "\<exists>y\<in>set (users d). approved_admin y \<and> u_name y \<noteq> name"
  proof (cases "approved_admin u")
    case True
    with 1(2) show ?thesis by (auto simp: other_admins_def approved_admin_def filter_empty_conv)
  next
    case False
    from ok obtain x where x: "x \<in> set (users d)" "approved_admin x"
      by (auto simp: accounts_ok_def administrable_def list_ex_iff)
    with False ok the_user [OF _ 1(1) x(1)] show ?thesis by (auto simp: accounts_ok_def)
  qed
  then have "administrable d'" by (auto simp: 1(3) administrable_def list_ex_iff)
  ultimately show ?thesis by (simp add: accounts_ok_def)
qed

lemma ApproveUser_accounts_ok [preserves]:
  assumes ok: "accounts_ok d" and r: "ApproveUser name role d = Inr ((), d')"
  shows "accounts_ok d'"
  using r
proof (cases rule: ApproveUser_cases)
  case (1 u)
  have m: "users d' = modify_by u_name name (\<lambda>u. u\<lparr>u_pending := False, u_role := role\<rparr>) (users d)" using 1(4) by simp
  have "users_ok d'" using ok 1(1) by (intro users_ok_modify [OF _ m]) (simp_all add: accounts_ok_def)
  moreover have "administrable d'"
  proof -
    from ok obtain x where x: "x \<in> set (users d)" "approved_admin x"
      by (auto simp: accounts_ok_def administrable_def list_ex_iff)
    with 1(3) ok the_user [OF _ 1(2) x(1)] have "u_name x \<noteq> name"
      by (auto simp: accounts_ok_def approved_admin_def)
    with x show ?thesis unfolding administrable_def list_ex_iff m set_modify_by by force
  qed
  ultimately show ?thesis by (simp add: accounts_ok_def)
qed

end
