(* ===== verification/Links.thy ===== *)
theory Links
  imports Accounts
begin

text \<open>
  Single-use links: invitations (\<open>internal/store/invite.go\<close>) and password resets
  (\<open>internal/store/reset.go\<close>). Both are found by the digest of the secret in the URL and spent
  in the transaction that acts on them; \<open>single_use\<close> states what that needs, and both tables
  interpret it. \<open>mac\<close> is the instance's keyed digest.
\<close>

section \<open>Invitations\<close>

definition Invite_Open :: "invite \<Rightarrow> time \<Rightarrow> bool" where
  "Invite_Open i now = (\<not> i_revoked i \<and> i_claimed_by i = [] \<and> Before now (i_expires i))"

definition Invite_Status :: "invite \<Rightarrow> time \<Rightarrow> string" where
  "Invite_Status i now =
     (if i_revoked i then ''revoked''
      else if i_claimed_by i \<noteq> [] then ''claimed by '' @ i_claimed_by i
      else if \<not> Before now (i_expires i) then ''expired''
      else ''open'')"

definition InviteTTL :: time where "InviteTTL = 7 * 24 * hour"

definition CreateInvite ::
  "(string list \<Rightarrow> string) \<Rightarrow> string \<Rightarrow> string \<Rightarrow> time \<Rightarrow> string \<Rightarrow> string \<Rightarrow> string \<Rightarrow> time \<Rightarrow> db \<Rightarrow>
   err + ((invite \<times> string) \<times> db)" where
  "CreateInvite mac nid b now createdBy role note ttl d =
     (if \<not> ValidRole role then Inl (ErrUnknownRole role)
      else
        let ttl = (if ttl \<le> 0 then InviteTTL else ttl);
            token = EncodeToString url_alphabet b;
            iv = \<lparr>i_id = nid, i_digest = mac [''invite'', token], i_role = role, i_note = TrimSpace note,
                  i_created_by = createdBy, i_created = now, i_expires = now + ttl, i_claimed_by = [],
                  i_claimed = 0, i_revoked = False\<rparr>
        in if nid \<in> i_id ` set (invites d) \<or> i_digest iv \<in> i_digest ` set (invites d)
           then Inl (ErrUnique ''invites'')
           else Inr ((iv, token), d\<lparr>invites := invites d @ [iv]\<rparr>))"

text \<open>The scan that keeps the last row with the wanted digest.\<close>

primrec scan_invites :: "string \<Rightarrow> invite list \<Rightarrow> invite option \<Rightarrow> invite option" where
  "scan_invites want [] found = found"
| "scan_invites want (iv # ivs) found =
     scan_invites want ivs (if i_digest iv = want then Some iv else found)"

definition findInviteByToken :: "db \<Rightarrow> string \<Rightarrow> invite option" where
  "findInviteByToken d want = scan_invites want (invites d) None"

definition InviteByToken :: "(string list \<Rightarrow> string) \<Rightarrow> db \<Rightarrow> time \<Rightarrow> string \<Rightarrow> invite option" where
  "InviteByToken mac d now token =
     (if token = [] then None
      else case findInviteByToken d (mac [''invite'', token]) of
        None \<Rightarrow> None
      | Some iv \<Rightarrow> if \<not> Invite_Open iv now then None else Some iv)"

definition Invites :: "db \<Rightarrow> invite list" where
  "Invites d = rev (sort_key (\<lambda>i. dbTime (i_created i)) (rev (invites d)))"

definition RevokeInvite :: "string \<Rightarrow> db \<Rightarrow> err + (unit \<times> db)" where
  "RevokeInvite i d =
     (case lookup_by i_id i (invites d) of
        None \<Rightarrow> Inl (ErrNotFound ''invite'' i)
      | Some iv \<Rightarrow>
          if i_claimed_by iv \<noteq> [] then Inl ErrAlreadyClaimed
          else Inr ((), d\<lparr>invites := modify_by i_id i (\<lambda>iv. iv\<lparr>i_revoked := True\<rparr>) (invites d)\<rparr>))"

definition spend_invite :: "string \<Rightarrow> invite \<Rightarrow> time \<Rightarrow> invite list \<Rightarrow> invite list" where
  "spend_invite name iv now t = modify_by i_id (i_id iv) (\<lambda>iv. iv\<lparr>i_claimed_by := name, i_claimed := now\<rparr>) t"

definition ClaimInvite ::
  "kdf \<Rightarrow> (string list \<Rightarrow> string) \<Rightarrow> string \<Rightarrow> time \<Rightarrow> string \<Rightarrow> string \<Rightarrow> string \<Rightarrow> db \<Rightarrow> err + (user \<times> db)" where
  "ClaimInvite kdf mac salt now token name password d =
     (let name = TrimSpace name in
      if \<not> ValidUsername name then Inl ErrBadUsername
      else if length password < 8 then Inl ErrShortPassword
      else case findInviteByToken d (mac [''invite'', token]) of
        None \<Rightarrow> Inl ErrLinkInvalid
      | Some iv \<Rightarrow>
          if \<not> Invite_Open iv now then Inl ErrLinkInvalid
          else if length (filter (\<lambda>u. u_name u = name) (users d)) > 0 then Inl (ErrNameTaken name)
          else
            let u = \<lparr>u_name = name, u_role = i_role iv, u_hash = hashPassword kdf salt password, u_created = now,
                     u_must_change = False, u_pending = True, u_invited_by = i_created_by iv, u_sessions_from = 0\<rparr>
            in Inr (u, d\<lparr>users := users d @ [u], invites := spend_invite name iv now (invites d)\<rparr>))"

section \<open>Password resets\<close>

definition Reset_Open :: "reset \<Rightarrow> time \<Rightarrow> bool" where
  "Reset_Open p now = (IsZero (p_used p) \<and> Before now (p_expires p))"

definition ResetTTL :: time where "ResetTTL = 2 * hour"

definition CreateReset ::
  "(string list \<Rightarrow> string) \<Rightarrow> string \<Rightarrow> string \<Rightarrow> time \<Rightarrow> string \<Rightarrow> string \<Rightarrow> db \<Rightarrow>
   err + ((reset \<times> string) \<times> db)" where
  "CreateReset mac nid b now user createdBy d =
     (let token = EncodeToString url_alphabet b;
          rp = \<lparr>p_id = nid, p_digest = mac [''reset'', token], p_user = user, p_created_by = createdBy,
                p_created = now, p_expires = now + ResetTTL, p_used = 0\<rparr>
      in if length (filter (\<lambda>u. u_name u = user) (users d)) = 0 then Inl (ErrNotFound ''user'' user)
         else
           let t = retire_resets user now (resets d)
           in if nid \<in> p_id ` set t \<or> p_digest rp \<in> p_digest ` set t then Inl (ErrUnique ''resets'')
              else Inr ((rp, token), d\<lparr>resets := t @ [rp]\<rparr>))"

primrec scan_resets :: "string \<Rightarrow> reset list \<Rightarrow> reset option \<Rightarrow> reset option" where
  "scan_resets want [] found = found"
| "scan_resets want (p # ps) found = scan_resets want ps (if p_digest p = want then Some p else found)"

definition findResetByToken :: "db \<Rightarrow> string \<Rightarrow> reset option" where
  "findResetByToken d want = scan_resets want (filter (\<lambda>p. p_used p = 0) (resets d)) None"

definition ResetByToken :: "(string list \<Rightarrow> string) \<Rightarrow> db \<Rightarrow> time \<Rightarrow> string \<Rightarrow> reset option" where
  "ResetByToken mac d now token =
     (if token = [] then None
      else case findResetByToken d (mac [''reset'', token]) of
        None \<Rightarrow> None
      | Some rp \<Rightarrow> if \<not> Reset_Open rp now then None else Some rp)"

definition spend_reset :: "reset \<Rightarrow> time \<Rightarrow> reset list \<Rightarrow> reset list" where
  "spend_reset rp now t = modify_by p_id (p_id rp) (\<lambda>p. p\<lparr>p_used := now\<rparr>) t"

definition UseReset ::
  "kdf \<Rightarrow> (string list \<Rightarrow> string) \<Rightarrow> string \<Rightarrow> time \<Rightarrow> string \<Rightarrow> string \<Rightarrow> db \<Rightarrow> err + (string \<times> db)" where
  "UseReset kdf mac salt now token password d =
     (if length password < 8 then Inl ErrShortPassword
      else case findResetByToken d (mac [''reset'', token]) of
        None \<Rightarrow> Inl ErrLinkInvalid
      | Some rp \<Rightarrow>
          if \<not> Reset_Open rp now then Inl ErrLinkInvalid
          else
            bindE (update_user (p_user rp) (\<lambda>u. u\<lparr>u_hash := hashPassword kdf salt password,
                u_must_change := False, u_sessions_from := now\<rparr>) d) (\<lambda>d.
            Inr (p_user rp, d\<lparr>resets := spend_reset rp now (resets d)\<rparr>)))"

definition OutstandingReset :: "db \<Rightarrow> time \<Rightarrow> string \<Rightarrow> reset option" where
  "OutstandingReset d now user =
     (case List.find (\<lambda>p. p_user p = user \<and> p_used p = 0) (resets d) of
        None \<Rightarrow> None
      | Some rp \<Rightarrow> if \<not> Reset_Open rp now then None else Some rp)"

section \<open>The single-use contract\<close>

locale single_use =
  fixes key :: "'l \<Rightarrow> string"
    and opn :: "'l \<Rightarrow> time \<Rightarrow> bool"
    and find_link :: "'l list \<Rightarrow> string \<Rightarrow> 'l option"
    and spend :: "'l \<Rightarrow> time \<Rightarrow> 'l list \<Rightarrow> 'l list"
    and valid :: "'l list \<Rightarrow> bool"
  assumes find_in: "find_link t w = Some l \<Longrightarrow> l \<in> set t \<and> key l = w"
    and spend_keys: "map key (spend l now t) = map key t"
    and spent: "valid t \<Longrightarrow> now \<noteq> 0 \<Longrightarrow> l \<in> set t \<Longrightarrow> l' \<in> set (spend l now t) \<Longrightarrow> key l' = key l \<Longrightarrow>
       \<not> opn l' later"
begin

definition usable :: "'l list \<Rightarrow> string \<Rightarrow> time \<Rightarrow> bool" where
  "usable t w now = (case find_link t w of None \<Rightarrow> False | Some l \<Rightarrow> opn l now)"

text \<open>A digest is dead when it has been issued and no row with it will ever be open.\<close>

definition dead :: "'l list \<Rightarrow> string \<Rightarrow> bool" where
  "dead t w = (w \<in> key ` set t \<and> (\<forall>l\<in>set t. key l = w \<longrightarrow> (\<forall>now. \<not> opn l now)))"

lemma dead_not_usable: "dead t w \<Longrightarrow> \<not> usable t w now"
  using find_in by (auto simp: dead_def usable_def split: option.split)

lemma spend_kills: "valid t \<Longrightarrow> now \<noteq> 0 \<Longrightarrow> find_link t w = Some l \<Longrightarrow> dead (spend l now t) w"
proof -
  assume v: "valid t" and n: "now \<noteq> 0" and f: "find_link t w = Some l"
  from find_in [OF f] have l: "l \<in> set t" "key l = w" by blast+
  then have "w \<in> key ` set (spend l now t)" by (metis imageI list.set_map spend_keys)
  moreover have "\<not> opn l' later" if "l' \<in> set (spend l now t)" "key l' = w" for l' later
    using spent [OF v n l(1) that(1)] that(2) l(2) by simp
  ultimately show "dead (spend l now t) w" by (simp add: dead_def)
qed

lemma dead_append: "dead t w \<Longrightarrow> key l \<notin> key ` set t \<Longrightarrow> dead (t @ [l]) w"
  by (auto simp: dead_def)

lemma dead_map:
  assumes "dead t w" and "\<And>l. key (f l) = key l" and "\<And>l now. opn (f l) now \<Longrightarrow> opn l now"
  shows "dead (map f t) w"
proof -
  have "key ` set (map f t) = key ` set t" by (simp add: image_image assms(2))
  moreover have "\<not> opn l now" if "l \<in> set (map f t)" "key l = w" for l now
  proof -
    from that(1) obtain l0 where "l0 \<in> set t" "l = f l0" by auto
    with that(2) assms show ?thesis unfolding dead_def by metis
  qed
  ultimately show ?thesis using assms(1) by (simp add: dead_def)
qed

end

definition invites_valid :: "invite list \<Rightarrow> bool" where
  "invites_valid t = (distinct (map i_id t) \<and> distinct (map i_digest t))"

definition resets_valid :: "reset list \<Rightarrow> bool" where
  "resets_valid t = (distinct (map p_id t) \<and> distinct (map p_digest t))"

definition links_ok :: "db \<Rightarrow> bool" where
  "links_ok d = (invites_valid (invites d) \<and> resets_valid (resets d))"

lemma scan_invites_in:
  "scan_invites w t found = Some iv \<Longrightarrow> found = Some iv \<or> (iv \<in> set t \<and> i_digest iv = w)"
  by (induction t arbitrary: found) (auto split: if_splits)

lemma scan_resets_in:
  "scan_resets w t found = Some p \<Longrightarrow> found = Some p \<or> (p \<in> set t \<and> p_digest p = w)"
  by (induction t arbitrary: found) (auto split: if_splits)

lemma spend_invite_keys: "map i_digest (spend_invite name iv now t) = map i_digest t"
  "map i_id (spend_invite name iv now t) = map i_id t"
  unfolding spend_invite_def by (intro map_key_modify_by; simp)+

lemma spend_reset_keys: "map p_digest (spend_reset rp now t) = map p_digest t"
  "map p_id (spend_reset rp now t) = map p_id t"
  unfolding spend_reset_def by (intro map_key_modify_by; simp)+

interpretation invitation: single_use i_digest Invite_Open "\<lambda>t w. scan_invites w t None" "spend_invite (c # cs)" invites_valid
  for c cs
proof
  show "scan_invites w t None = Some l \<Longrightarrow> l \<in> set t \<and> i_digest l = w" for t w l
    using scan_invites_in by fastforce
  show "map i_digest (spend_invite (c # cs) l now t) = map i_digest t" for l now t
    by (rule spend_invite_keys)
  show "\<not> Invite_Open l' later"
    if "invites_valid t" "l \<in> set t" "l' \<in> set (spend_invite (c # cs) l now t)" "i_digest l' = i_digest l"
    for t now l l' later
  proof -
    from that(3) obtain l0 where l0: "l0 \<in> set t" "l' = (if i_id l0 = i_id l then l0\<lparr>i_claimed_by := c # cs, i_claimed := now\<rparr> else l0)"
      by (auto simp: spend_invite_def set_modify_by)
    then have "i_digest l0 = i_digest l" using that(4) by (auto split: if_splits)
    with that(1,2) l0(1) have "l0 = l" by (metis invites_valid_def lookup_by_mem option.inject)
    with l0(2) show ?thesis by (simp add: Invite_Open_def)
  qed
qed

interpretation resetting: single_use p_digest Reset_Open "\<lambda>t w. scan_resets w (filter (\<lambda>p. p_used p = 0) t) None" spend_reset resets_valid
proof
  show "scan_resets w (filter (\<lambda>p. p_used p = 0) t) None = Some l \<Longrightarrow> l \<in> set t \<and> p_digest l = w" for t w l
    using scan_resets_in by fastforce
  show "map p_digest (spend_reset l now t) = map p_digest t" for l now t
    by (rule spend_reset_keys)
  show "\<not> Reset_Open l' later"
    if "resets_valid t" "now \<noteq> 0" "l \<in> set t" "l' \<in> set (spend_reset l now t)" "p_digest l' = p_digest l"
    for t now l l' later
  proof -
    from that(4) obtain l0 where l0: "l0 \<in> set t" "l' = (if p_id l0 = p_id l then l0\<lparr>p_used := now\<rparr> else l0)"
      by (auto simp: spend_reset_def set_modify_by)
    then have "p_digest l0 = p_digest l" using that(5) by (auto split: if_splits)
    with that(1,3) l0(1) have "l0 = l" by (metis resets_valid_def lookup_by_mem option.inject)
    with l0(2) that(2) show ?thesis by (simp add: Reset_Open_def IsZero_def)
  qed
qed

section \<open>What each operation does\<close>

lemma CreateInvite_cases:
  assumes "CreateInvite mac nid b now createdBy role note ttl d = Inr ((iv, token), d')"
  shows "d' = d\<lparr>invites := invites d @ [iv]\<rparr>" "i_id iv \<notin> i_id ` set (invites d)"
    "i_digest iv \<notin> i_digest ` set (invites d)" "i_digest iv = mac [''invite'', token]" "ValidRole role"
    "i_role iv = role" "i_claimed_by iv = []" "\<not> i_revoked iv"
    "i_expires iv = now + (if ttl \<le> 0 then InviteTTL else ttl)" "token = EncodeToString url_alphabet b"
  using assms by (auto simp: CreateInvite_def Let_def split: if_splits)

lemma RevokeInvite_cases:
  assumes "RevokeInvite i d = Inr ((), d')"
  shows "d' = d\<lparr>invites := modify_by i_id i (\<lambda>iv. iv\<lparr>i_revoked := True\<rparr>) (invites d)\<rparr>"
  using assms by (auto simp: RevokeInvite_def split: option.splits if_splits)

lemma no_such_user: "filter (\<lambda>u. u_name u = n) us = [] \<longleftrightarrow> n \<notin> u_name ` set us"
  by (auto simp: filter_empty_conv)

lemma ClaimInvite_cases:
  assumes "ClaimInvite kdf mac salt now token name password d = Inr (u, d')"
  obtains iv where "findInviteByToken d (mac [''invite'', token]) = Some iv" "Invite_Open iv now"
    "ValidUsername (TrimSpace name)" "8 \<le> length password" "TrimSpace name \<notin> u_name ` set (users d)"
    "u_name u = TrimSpace name" "u_role u = i_role iv" "u_pending u" "u_hash u = hashPassword kdf salt password"
    "d' = d\<lparr>users := users d @ [u], invites := spend_invite (TrimSpace name) iv now (invites d)\<rparr>"
  using assms
  by (auto simp: ClaimInvite_def Let_def no_such_user split: option.splits if_splits)

lemma CreateReset_cases:
  assumes "CreateReset mac nid b now user createdBy d = Inr ((rp, token), d')"
  shows "d' = d\<lparr>resets := retire_resets user now (resets d) @ [rp]\<rparr>" "p_user rp = user" "p_used rp = 0"
    "p_id rp \<notin> p_id ` set (retire_resets user now (resets d))"
    "p_digest rp \<notin> p_digest ` set (retire_resets user now (resets d))"
    "p_digest rp = mac [''reset'', token]" "user \<in> u_name ` set (users d)" "p_expires rp = now + ResetTTL"
  using assms by (auto simp: CreateReset_def Let_def no_such_user split: if_splits)

lemma UseReset_cases:
  assumes "UseReset kdf mac salt now token password d = Inr (name, d')"
  obtains rp where "findResetByToken d (mac [''reset'', token]) = Some rp" "Reset_Open rp now" "p_user rp = name"
    "8 \<le> length password" "name \<in> u_name ` set (users d)"
    "d' = d\<lparr>users := modify_by u_name name (\<lambda>u. u\<lparr>u_hash := hashPassword kdf salt password,
                u_must_change := False, u_sessions_from := now\<rparr>) (users d),
           resets := spend_reset rp now (resets d)\<rparr>"
  using assms by (auto simp: UseReset_def split: option.splits if_splits)

lemma ValidUsername_nonempty: "ValidUsername s \<Longrightarrow> \<exists>c cs. s = c # cs"
  by (cases s) (simp_all add: ValidUsername_def)

lemma retire_keys [simp]: "map p_digest (retire_resets name now t) = map p_digest t"
  "map p_id (retire_resets name now t) = map p_id t"
  by (induction t) (simp_all add: retire_resets_def)

lemma retire_key_sets [simp]: "p_digest ` set (retire_resets name now t) = p_digest ` set t"
  "p_id ` set (retire_resets name now t) = p_id ` set t"
  by (metis list.set_map retire_keys(1), metis list.set_map retire_keys(2))

section \<open>Histories of account operations\<close>

inductive account_step :: "kdf \<Rightarrow> (string list \<Rightarrow> string) \<Rightarrow> db \<Rightarrow> db \<Rightarrow> bool" for kdf mac where
  add_user: "addUser kdf salt now name role password mustChange pending invitedBy d = Inr (u, d') \<Longrightarrow> account_step kdf mac d d'"
| set_password: "SetPassword kdf salt now name password d = Inr ((), d') \<Longrightarrow> now \<noteq> 0 \<Longrightarrow> account_step kdf mac d d'"
| revoke_sessions: "RevokeSessions now name d = Inr ((), d') \<Longrightarrow> account_step kdf mac d d'"
| set_role: "SetRole name role d = Inr ((), d') \<Longrightarrow> account_step kdf mac d d'"
| delete_user: "DeleteUser name d = Inr ((), d') \<Longrightarrow> account_step kdf mac d d'"
| approve_user: "ApproveUser name role d = Inr ((), d') \<Longrightarrow> account_step kdf mac d d'"
| create_invite: "CreateInvite mac nid b now createdBy role note ttl d = Inr ((iv, token), d') \<Longrightarrow> account_step kdf mac d d'"
| revoke_invite: "RevokeInvite i d = Inr ((), d') \<Longrightarrow> account_step kdf mac d d'"
| claim_invite: "ClaimInvite kdf mac salt now token name password d = Inr (u, d') \<Longrightarrow> account_step kdf mac d d'"
| create_reset: "CreateReset mac nid b now user createdBy d = Inr ((rp, token), d') \<Longrightarrow> now \<noteq> 0 \<Longrightarrow> account_step kdf mac d d'"
| use_reset: "UseReset kdf mac salt now token password d = Inr (name, d') \<Longrightarrow> now \<noteq> 0 \<Longrightarrow> account_step kdf mac d d'"

lemma ClaimInvite_accounts_ok [preserves]:
  assumes "accounts_ok d" and "ClaimInvite kdf mac salt now token name password d = Inr (u, d')"
    and "\<forall>iv\<in>set (invites d). ValidRole (i_role iv)"
  shows "accounts_ok d'"
  using assms(2)
proof (cases rule: ClaimInvite_cases)
  case (1 iv)
  have "iv \<in> set (invites d)" using 1(1) invitation.find_in by (simp add: findInviteByToken_def)
  with 1 assms(1,3) show ?thesis
    by (auto simp: accounts_ok_def users_ok_def administrable_def)
qed

lemma UseReset_accounts_ok [preserves]:
  assumes "accounts_ok d" and "UseReset kdf mac salt now token password d = Inr (name, d')"
  shows "accounts_ok d'"
  using assms(2)
proof (cases rule: UseReset_cases)
  case (1 rp)
  have u: "users d' = modify_by u_name name (\<lambda>u. u\<lparr>u_hash := hashPassword kdf salt password,
      u_must_change := False, u_sessions_from := now\<rparr>) (users d)" using 1(6) by simp
  have "users_ok d'" using assms(1) by (intro users_ok_modify [OF _ u]) (simp_all add: accounts_ok_def)
  moreover have "administrable d'"
    using assms(1) by (intro administrable_modify [OF _ u]) (simp_all add: accounts_ok_def approved_admin_def)
  ultimately show ?thesis by (simp add: accounts_ok_def)
qed

text \<open>How a step may change the two link tables.\<close>

definition invite_edit :: "(invite \<Rightarrow> invite) \<Rightarrow> bool" where
  "invite_edit f = (\<forall>iv. i_id (f iv) = i_id iv \<and> i_digest (f iv) = i_digest iv \<and> i_role (f iv) = i_role iv \<and>
     (\<forall>now. Invite_Open (f iv) now \<longrightarrow> Invite_Open iv now))"

definition reset_edit :: "(reset \<Rightarrow> reset) \<Rightarrow> bool" where
  "reset_edit f = (\<forall>p. p_id (f p) = p_id p \<and> p_digest (f p) = p_digest p \<and>
     (\<forall>now. Reset_Open (f p) now \<longrightarrow> Reset_Open p now))"

lemma invite_edit_id [simp]: "invite_edit (\<lambda>iv. iv)" by (simp add: invite_edit_def)
lemma reset_edit_id [simp]: "reset_edit (\<lambda>p. p)" by (simp add: reset_edit_def)

definition invites_step :: "invite list \<Rightarrow> invite list \<Rightarrow> bool" where
  "invites_step t t' = (\<exists>f new. invite_edit f \<and> t' = map f t @ new \<and>
     (new = [] \<or> (\<exists>iv. new = [iv] \<and> ValidRole (i_role iv) \<and> i_id iv \<notin> i_id ` set t \<and> i_digest iv \<notin> i_digest ` set t)))"

definition resets_step :: "reset list \<Rightarrow> reset list \<Rightarrow> bool" where
  "resets_step t t' = (\<exists>f new. reset_edit f \<and> t' = map f t @ new \<and>
     (new = [] \<or> (\<exists>p. new = [p] \<and> p_id p \<notin> p_id ` set t \<and> p_digest p \<notin> p_digest ` set t)))"

lemma invites_step_same: "t' = t \<Longrightarrow> invites_step t t'"
  unfolding invites_step_def by (intro exI [of _ "\<lambda>iv. iv"] exI [of _ "[]"]) simp

lemma resets_step_same: "t' = t \<Longrightarrow> resets_step t t'"
  unfolding resets_step_def by (intro exI [of _ "\<lambda>iv. iv"] exI [of _ "[]"]) simp

lemma invites_step_modify:
  "invite_edit (\<lambda>iv. if i_id iv = i then g iv else iv) \<Longrightarrow> invites_step t (modify_by i_id i g t)"
  unfolding invites_step_def modify_by_def
  by (intro exI [of _ "\<lambda>iv. if i_id iv = i then g iv else iv"] exI [of _ "[]"]) simp

lemma resets_step_modify:
  "reset_edit (\<lambda>p. if p_id p = i then g p else p) \<Longrightarrow> resets_step t (modify_by p_id i g t)"
  unfolding resets_step_def modify_by_def
  by (intro exI [of _ "\<lambda>iv. if p_id iv = i then g iv else iv"] exI [of _ "[]"]) simp

lemma retire_edit: "now \<noteq> 0 \<Longrightarrow> reset_edit (\<lambda>p. if p_user p = name \<and> p_used p = 0 then p\<lparr>p_used := now\<rparr> else p)"
  by (simp add: reset_edit_def Reset_Open_def IsZero_def)

lemma resets_step_retire: "now \<noteq> 0 \<Longrightarrow> resets_step t (retire_resets name now t)"
  unfolding resets_step_def retire_resets_def
  using retire_edit [of now name] by (intro exI exI [of _ "[]"]) auto

lemma account_step_links:
  "account_step kdf mac d d' \<Longrightarrow> invites_step (invites d) (invites d') \<and> resets_step (resets d) (resets d')"
proof (induction rule: account_step.induct)
  case (add_user salt now name role password mustChange pending invitedBy d u d')
  from addUser_cases(1) [OF this] show ?case by (simp add: invites_step_same resets_step_same)
next
  case (set_password salt now name password d d')
  from SetPassword_cases [OF this(1)] this(2) show ?case by (simp add: invites_step_same resets_step_retire)
next
  case (revoke_sessions now name d d')
  from RevokeSessions_cases(1) [OF this] show ?case by (simp add: invites_step_same resets_step_same)
next
  case (set_role name role d d')
  then show ?case by (cases rule: SetRole_cases) (simp add: invites_step_same resets_step_same)
next
  case (delete_user name d d')
  then show ?case by (cases rule: DeleteUser_cases) (simp add: invites_step_same resets_step_same)
next
  case (approve_user name role d d')
  then show ?case by (cases rule: ApproveUser_cases) (simp add: invites_step_same resets_step_same)
next
  case (create_invite nid b now createdBy role memo ttl d iv token d')
  note c = CreateInvite_cases [OF this]
  have "invites_step (invites d) (invites d')"
    unfolding invites_step_def using c(1-6) by (intro exI [of _ "\<lambda>iv. iv"] exI [of _ "[iv]"]) simp
  then show ?case using c(1) by (simp add: resets_step_same)
next
  case (revoke_invite i d d')
  have "invite_edit (\<lambda>iv. if i_id iv = i then iv\<lparr>i_revoked := True\<rparr> else iv)"
    by (simp add: invite_edit_def Invite_Open_def)
  with RevokeInvite_cases [OF revoke_invite] show ?case by (simp add: invites_step_modify resets_step_same)
next
  case (claim_invite salt now token name password d u d')
  then show ?case
  proof (cases rule: ClaimInvite_cases)
    case (1 iv)
    have "invite_edit (\<lambda>x. if i_id x = i_id iv then x\<lparr>i_claimed_by := TrimSpace name, i_claimed := now\<rparr> else x)"
      using ValidUsername_nonempty [OF 1(3)] by (auto simp: invite_edit_def Invite_Open_def)
    with 1(10) show ?thesis by (simp add: spend_invite_def invites_step_modify resets_step_same)
  qed
next
  case (create_reset nid b now user createdBy d rp token d')
  note c = CreateReset_cases [OF create_reset(1)]
  let ?f = "\<lambda>p. if p_user p = user \<and> p_used p = 0 then p\<lparr>p_used := now\<rparr> else p"
  have "resets d' = map ?f (resets d) @ [rp]" using c(1) by (simp add: retire_resets_def)
  moreover have "p_id rp \<notin> p_id ` set (resets d)" "p_digest rp \<notin> p_digest ` set (resets d)"
    using c(4,5) by (simp_all only: retire_key_sets not_False_eq_True)
  ultimately have "resets_step (resets d) (resets d')"
    using retire_edit [OF create_reset(2), of user] unfolding resets_step_def by blast
  then show ?case using c(1) by (simp add: invites_step_same)
next
  case (use_reset salt now token password d name d')
  from use_reset(1) show ?case
  proof (cases rule: UseReset_cases)
    case (1 rp)
    have "reset_edit (\<lambda>p. if p_id p = p_id rp then p\<lparr>p_used := now\<rparr> else p)"
      using use_reset(2) by (simp add: reset_edit_def Reset_Open_def IsZero_def)
    with 1(6) show ?thesis by (simp add: spend_reset_def invites_step_same resets_step_modify)
  qed
qed

lemma invites_step_valid: "invites_step t t' \<Longrightarrow> invites_valid t \<Longrightarrow> invites_valid t'"
proof -
  assume "invites_step t t'" and v: "invites_valid t"
  then obtain f new where f: "invite_edit f" "t' = map f t @ new"
    "new = [] \<or> (\<exists>iv. new = [iv] \<and> ValidRole (i_role iv) \<and> i_id iv \<notin> i_id ` set t \<and> i_digest iv \<notin> i_digest ` set t)"
    unfolding invites_step_def by blast
  from f(1) have "i_id \<circ> f = i_id" "i_digest \<circ> f = i_digest" by (auto simp: invite_edit_def)
  then have "map i_id (map f t) = map i_id t" "map i_digest (map f t) = map i_digest t" by simp_all
  then have "map i_id t' = map i_id t @ map i_id new" "map i_digest t' = map i_digest t @ map i_digest new"
    using f(2) by simp_all
  with f(3) v show "invites_valid t'" unfolding invites_valid_def by (elim disjE exE conjE) simp_all
qed

lemma resets_step_valid: "resets_step t t' \<Longrightarrow> resets_valid t \<Longrightarrow> resets_valid t'"
proof -
  assume "resets_step t t'" and v: "resets_valid t"
  then obtain f new where f: "reset_edit f" "t' = map f t @ new"
    "new = [] \<or> (\<exists>p. new = [p] \<and> p_id p \<notin> p_id ` set t \<and> p_digest p \<notin> p_digest ` set t)"
    unfolding resets_step_def by blast
  from f(1) have "p_id \<circ> f = p_id" "p_digest \<circ> f = p_digest" by (auto simp: reset_edit_def)
  then have "map p_id (map f t) = map p_id t" "map p_digest (map f t) = map p_digest t" by simp_all
  then have "map p_id t' = map p_id t @ map p_id new" "map p_digest t' = map p_digest t @ map p_digest new"
    using f(2) by simp_all
  with f(3) v show "resets_valid t'" unfolding resets_valid_def by (elim disjE exE conjE) simp_all
qed

lemma invites_step_dead: "invites_step t t' \<Longrightarrow> invitation.dead t w \<Longrightarrow> invitation.dead t' w"
proof -
  assume "invites_step t t'" and d: "invitation.dead t w"
  then obtain f new where f: "invite_edit f" "t' = map f t @ new"
    "new = [] \<or> (\<exists>iv. new = [iv] \<and> ValidRole (i_role iv) \<and> i_id iv \<notin> i_id ` set t \<and> i_digest iv \<notin> i_digest ` set t)"
    unfolding invites_step_def by blast
  have m: "invitation.dead (map f t) w"
    using f(1) by (intro invitation.dead_map [OF d]) (auto simp: invite_edit_def)
  have "i_digest ` set (map f t) = i_digest ` set t" using f(1) by (simp add: image_image invite_edit_def)
  with f(2,3) m invitation.dead_append [OF m] show "invitation.dead t' w" by auto
qed

lemma resets_step_dead: "resets_step t t' \<Longrightarrow> resetting.dead t w \<Longrightarrow> resetting.dead t' w"
proof -
  assume "resets_step t t'" and d: "resetting.dead t w"
  then obtain f new where f: "reset_edit f" "t' = map f t @ new"
    "new = [] \<or> (\<exists>p. new = [p] \<and> p_id p \<notin> p_id ` set t \<and> p_digest p \<notin> p_digest ` set t)"
    unfolding resets_step_def by blast
  have m: "resetting.dead (map f t) w"
    using f(1) by (intro resetting.dead_map [OF d]) (auto simp: reset_edit_def)
  have "p_digest ` set (map f t) = p_digest ` set t" using f(1) by (simp add: image_image reset_edit_def)
  with f(2,3) m resetting.dead_append [OF m] show "resetting.dead t' w" by auto
qed

definition roles_ok :: "invite list \<Rightarrow> bool" where
  "roles_ok t = list_all (\<lambda>iv. ValidRole (i_role iv)) t"

lemma invites_step_roles: "invites_step t t' \<Longrightarrow> roles_ok t \<Longrightarrow> roles_ok t'"
proof -
  assume "invites_step t t'" and v: "roles_ok t"
  then obtain f new where f: "\<And>iv. i_role (f iv) = i_role iv" "t' = map f t @ new"
    "new = [] \<or> (\<exists>iv. new = [iv] \<and> ValidRole (i_role iv))"
    unfolding invites_step_def invite_edit_def by blast
  with v show "roles_ok t'" by (auto simp: roles_ok_def list_all_iff)
qed

lemma accounts_ok_links [simp]:
  "accounts_ok (d\<lparr>invites := t\<rparr>) = accounts_ok d" "accounts_ok (d\<lparr>resets := q\<rparr>) = accounts_ok d"
  by (simp_all add: accounts_ok_def users_ok_def administrable_def)

definition account_inv :: "db \<Rightarrow> bool" where
  "account_inv d = (accounts_ok d \<and> links_ok d \<and> roles_ok (invites d))"

lemma account_step_inv: "account_step kdf mac d d' \<Longrightarrow> account_inv d \<Longrightarrow> account_inv d'"
proof -
  assume s: "account_step kdf mac d d'" and i: "account_inv d"
  have "accounts_ok d'"
    using s i
  proof (induction rule: account_step.induct)
    case (create_invite nid b now createdBy role memo ttl d iv token d')
    then show ?case using CreateInvite_cases(1) [OF create_invite(1)] by (simp add: account_inv_def)
  next
    case (revoke_invite i d d')
    then show ?case using RevokeInvite_cases [OF revoke_invite(1)] by (simp add: account_inv_def)
  next
    case (create_reset nid b now user createdBy d rp token d')
    then show ?case using CreateReset_cases(1) [OF create_reset(1)] by (simp add: account_inv_def)
  next
    case (claim_invite salt now token name password d u d')
    then show ?case
      by (intro ClaimInvite_accounts_ok [OF _ claim_invite(1)]) (simp_all add: account_inv_def roles_ok_def list_all_iff)
  qed (auto simp: account_inv_def intro: addUser_accounts_ok SetPassword_accounts_ok RevokeSessions_accounts_ok
      SetRole_accounts_ok DeleteUser_accounts_ok ApproveUser_accounts_ok UseReset_accounts_ok)
  then show "account_inv d'"
    using i account_step_links [OF s] invites_step_valid resets_step_valid invites_step_roles
    unfolding account_inv_def links_ok_def by blast
qed

lemma account_history_inv: "(account_step kdf mac)\<^sup>*\<^sup>* d d' \<Longrightarrow> account_inv d \<Longrightarrow> account_inv d'"
  by (induction rule: rtranclp_induct) (auto intro: account_step_inv)

lemma account_history_dead:
  assumes "(account_step kdf mac)\<^sup>*\<^sup>* d d'"
  shows "invitation.dead (invites d) w \<Longrightarrow> invitation.dead (invites d') w"
    and "resetting.dead (resets d) w \<Longrightarrow> resetting.dead (resets d') w"
  using assms by (induction rule: rtranclp_induct)
    (auto dest: account_step_links intro: invites_step_dead resets_step_dead)

lemma claim_needs_usable:
  "ClaimInvite kdf mac salt now token name password d = Inr (u, d') \<Longrightarrow>
   invitation.usable (invites d) (mac [''invite'', token]) now"
  by (erule ClaimInvite_cases) (simp add: invitation.usable_def findInviteByToken_def)

lemma use_needs_usable:
  "UseReset kdf mac salt now token password d = Inr (name, d') \<Longrightarrow>
   resetting.usable (resets d) (mac [''reset'', token]) now"
  by (erule UseReset_cases) (simp add: resetting.usable_def findResetByToken_def)

section \<open>A sample of accounts\<close>

definition demo_kdf :: kdf where
  "demo_kdf pw salt n k = take k (pw @ salt @ replicate k CHR 0x00)"

definition demo_mac :: "string list \<Rightarrow> string" where
  "demo_mac parts = mac_input parts"

definition demo_user :: "string \<Rightarrow> string \<Rightarrow> string \<Rightarrow> user" where
  "demo_user name role password =
     \<lparr>u_name = name, u_role = role, u_hash = hashPassword demo_kdf ''salt'' password, u_created = 5,
      u_must_change = False, u_pending = False, u_invited_by = [], u_sessions_from = 0\<rparr>"

definition demo_accounts :: db where
  "demo_accounts = empty_db
     \<lparr>users := [demo_user ''ann'' RoleAdmin ''hunter22'', demo_user ''bob'' RoleEditor ''correct-horse''],
      invites := [\<lparr>i_id = ''i1'', i_digest = demo_mac [''invite'', ''T''], i_role = RoleEditor, i_note = [],
        i_created_by = ''ann'', i_created = 5, i_expires = 1000, i_claimed_by = [], i_claimed = 0, i_revoked = False\<rparr>],
      resets := [\<lparr>p_id = ''p1'', p_digest = demo_mac [''reset'', ''R''], p_user = ''bob'', p_created_by = ''ann'',
        p_created = 5, p_expires = 1000, p_used = 0\<rparr>]\<rparr>"

lemma demo_names: "ValidUsername ''ann''" "ValidUsername ''bob''"
  by code_simp+

lemma demo_accounts_inv: "account_inv demo_accounts"
  by (simp add: account_inv_def accounts_ok_def users_ok_def administrable_def approved_admin_def links_ok_def
      invites_valid_def resets_valid_def roles_ok_def demo_accounts_def demo_user_def demo_names)

section \<open>Properties\<close>

text \<open>
  C17. No history of account operations can leave the instance without an administrator: from
  any state with an approved administrator, whatever sequence of creations, approvals, role
  changes, deletions, invitations and resets follows, an approved administrator remains, names
  stay unique and well-formed, and roles stay known ones.
\<close>

theorem never_without_administrator:
  assumes "account_inv d" and "(account_step kdf mac)\<^sup>*\<^sup>* d d'"
  shows "administrable d' \<and> distinct (map u_name (users d')) \<and>
    (\<forall>u\<in>set (users d'). ValidUsername (u_name u) \<and> ValidRole (u_role u))"
  using account_history_inv [OF assms(2,1)]
  by (simp add: account_inv_def accounts_ok_def users_ok_def list_all_iff)

theorem never_without_administrator_witness:
  "\<exists>d'. SetRole ''bob'' RoleAdmin demo_accounts = Inr ((), d') \<and> administrable d'"
proof -
  obtain d' where r: "SetRole ''bob'' RoleAdmin demo_accounts = Inr ((), d')"
    by (simp add: SetRole_def demo_accounts_def demo_user_def)
  have "(account_step demo_kdf demo_mac)\<^sup>*\<^sup>* demo_accounts d'"
    by (rule r_into_rtranclp) (rule account_step.set_role [OF r])
  from never_without_administrator [OF demo_accounts_inv this] r show ?thesis by blast
qed

text \<open>
  Deleting or demoting is refused exactly when it would remove the last approved
  administrator: an existing account is deleted, or given a known role, unless it is the only
  approved administrator (and, for a role change, the role is another one).
\<close>

theorem last_admin_guard:
  assumes "users_ok d" and "UserOf d name = Some u"
  shows "(isl (DeleteUser name d) \<longleftrightarrow> approved_admin u \<and> (\<forall>x\<in>set (users d). approved_admin x \<longrightarrow> x = u)) \<and>
    (ValidRole role \<longrightarrow> (isl (SetRole name role d) \<longleftrightarrow>
       role \<noteq> RoleAdmin \<and> approved_admin u \<and> (\<forall>x\<in>set (users d). approved_admin x \<longrightarrow> x = u)))"
proof -
  have l: "lookup_by u_name name (users d) = Some u" using assms(2) by (simp add: UserOf_def)
  have "other_admins d name = 0 \<longleftrightarrow> (\<forall>x\<in>set (users d). approved_admin x \<longrightarrow> u_name x = name)"
    by (auto simp: other_admins_def approved_admin_def filter_empty_conv)
  also have "\<dots> \<longleftrightarrow> (\<forall>x\<in>set (users d). approved_admin x \<longrightarrow> x = u)"
    using the_user [OF assms(1) l] lookup_by_SomeD [OF l] by blast
  finally show ?thesis
    using l by (auto simp: DeleteUser_def SetRole_def approved_admin_def)
qed

theorem last_admin_guard_witness:
  "isl (DeleteUser ''ann'' demo_accounts) \<and> \<not> isl (DeleteUser ''bob'' demo_accounts) \<and>
   isl (SetRole ''ann'' RoleViewer demo_accounts)"
proof -
  have u: "users_ok demo_accounts" using demo_accounts_inv by (simp add: account_inv_def accounts_ok_def)
  have a: "UserOf demo_accounts ''ann'' = Some (demo_user ''ann'' RoleAdmin ''hunter22'')"
    "UserOf demo_accounts ''bob'' = Some (demo_user ''bob'' RoleEditor ''correct-horse'')"
    by (simp_all add: UserOf_def demo_accounts_def demo_user_def)
  have r: "RoleEditor \<noteq> RoleAdmin" "RoleViewer \<noteq> RoleAdmin" by code_simp+
  from last_admin_guard [OF u a(1), of RoleViewer] last_admin_guard [OF u a(2)] r
  show ?thesis
    by (simp add: approved_admin_def demo_accounts_def) (simp add: demo_user_def r)
qed

text \<open>
  C32. An invitation is single-use for good: once someone has claimed a link, no later claim
  with the same secret succeeds and the link no longer opens the sign-up page, whatever account
  operations happened in between; the account it created has the invited role but stays pending.
\<close>

theorem invitation_claimed_once:
  assumes inv: "account_inv d" and c: "ClaimInvite kdf mac salt now token name password d = Inr (u, d1)" and now: "now \<noteq> 0"
    and h: "(account_step kdf mac)\<^sup>*\<^sup>* d1 d2"
  shows "isl (ClaimInvite kdf mac salt2 now2 token name2 password2 d2) \<and> InviteByToken mac d2 now2 token = None \<and>
    u_pending u \<and> UserOf d (u_name u) = None \<and> (\<exists>iv\<in>set (invites d). u_role u = i_role iv \<and> i_digest iv = mac [''invite'', token])"
  using c
proof (cases rule: ClaimInvite_cases)
  case (1 iv)
  obtain x xs where n: "TrimSpace name = x # xs" using ValidUsername_nonempty [OF 1(3)] by blast
  have f: "scan_invites (mac [''invite'', token]) (invites d) None = Some iv" using 1(1) by (simp add: findInviteByToken_def)
  have "invites_valid (invites d)" using inv by (simp add: account_inv_def links_ok_def)
  then have "invitation.dead (invites d1) (mac [''invite'', token])"
    using invitation.spend_kills [OF _ now f, of x xs] 1(10) n by simp
  then have dead: "\<not> invitation.usable (invites d2) (mac [''invite'', token]) t" for t
    using account_history_dead(1) [OF h] invitation.dead_not_usable by blast
  have "isl (ClaimInvite kdf mac salt2 now2 token name2 password2 d2)"
  proof (cases "ClaimInvite kdf mac salt2 now2 token name2 password2 d2")
    case (Inr y)
    with claim_needs_usable dead show ?thesis by (cases y) blast
  qed simp
  moreover have "InviteByToken mac d2 now2 token = None"
    using dead [of now2] by (auto simp: InviteByToken_def invitation.usable_def findInviteByToken_def split: option.splits)
  moreover have "UserOf d (u_name u) = None"
    using 1(5,6) by (simp add: UserOf_def lookup_by_None_iff)
  ultimately show ?thesis using 1 invitation.find_in [OF f] by auto
qed

theorem invitation_claimed_once_witness:
  "\<exists>u d1. ClaimInvite demo_kdf demo_mac ''salt'' 50 ''T'' ''cat'' ''tortoise'' demo_accounts = Inr (u, d1) \<and> u_pending u \<and>
     isl (ClaimInvite demo_kdf demo_mac ''salt'' 51 ''T'' ''dan'' ''tortoise'' d1)"
proof -
  let ?c = "ClaimInvite demo_kdf demo_mac ''salt'' 50 ''T'' ''cat'' ''tortoise'' demo_accounts"
  have "ValidUsername ''cat''" "TrimSpace ''cat'' = ''cat''" by code_simp+
  then have "\<not> isl ?c"
    by (simp add: ClaimInvite_def findInviteByToken_def demo_accounts_def demo_user_def Invite_Open_def Before_def Let_def)
  then obtain u d1 where c: "?c = Inr (u, d1)" by (cases ?c) auto
  have "(50 :: time) \<noteq> 0" by simp
  from invitation_claimed_once [OF demo_accounts_inv c this rtranclp.rtrancl_refl] c show ?thesis by blast
qed

text \<open>
  C31. A reset link sets one password, once: after it is used, signing in needs a password that
  derives the new key, the account must not change it again, every earlier session key of the
  account is void, and no later use of the same secret succeeds, whatever happened in between.
\<close>

theorem reset_used_once:
  assumes inv: "account_inv d" and c: "UseReset kdf mac salt now token password d = Inr (name, d1)" and now: "now \<noteq> 0"
    and len: "\<And>pw s n. length (kdf pw s n 32) = 32"
    and h: "(account_step kdf mac)\<^sup>*\<^sup>* d1 d2"
  shows "isl (UseReset kdf mac salt2 now2 token password2 d2) \<and> ResetByToken mac d2 now2 token = None \<and>
    (\<exists>u. UserOf d1 name = Some u \<and> \<not> u_must_change u \<and> u_sessions_from u = now \<and>
       (\<forall>attempt. Authenticate kdf d1 name attempt = Some u \<longleftrightarrow>
          kdf attempt salt pbkdf2Iterations 32 = kdf password salt pbkdf2Iterations 32))"
  using c
proof (cases rule: UseReset_cases)
  case (1 rp)
  have f: "scan_resets (mac [''reset'', token]) (filter (\<lambda>p. p_used p = 0) (resets d)) None = Some rp"
    using 1(1) by (simp add: findResetByToken_def)
  have "resets_valid (resets d)" using inv by (simp add: account_inv_def links_ok_def)
  then have "resetting.dead (resets d1) (mac [''reset'', token])"
    using resetting.spend_kills [OF _ now f] 1(6) by simp
  then have dead: "\<not> resetting.usable (resets d2) (mac [''reset'', token]) t" for t
    using account_history_dead(2) [OF h] resetting.dead_not_usable by blast
  have "isl (UseReset kdf mac salt2 now2 token password2 d2)"
  proof (cases "UseReset kdf mac salt2 now2 token password2 d2")
    case (Inr y)
    with use_needs_usable dead show ?thesis by (cases y) blast
  qed simp
  moreover have "ResetByToken mac d2 now2 token = None"
    using dead [of now2] by (auto simp: ResetByToken_def resetting.usable_def findResetByToken_def split: option.splits)
  moreover obtain u0 where u0: "lookup_by u_name name (users d) = Some u0"
    using 1(5) by (metis lookup_by_None_iff not_None_eq)
  moreover have "UserOf d1 name = Some (u0\<lparr>u_hash := hashPassword kdf salt password, u_must_change := False, u_sessions_from := now\<rparr>)"
    using u0 by (simp add: UserOf_def 1(6) lookup_modify_by)
  ultimately show ?thesis by (simp add: Authenticate_def accepts_derived [of kdf, OF len])
qed

theorem reset_used_once_witness:
  "\<exists>d1. UseReset demo_kdf demo_mac ''salt'' 50 ''R'' ''tortoise'' demo_accounts = Inr (''bob'', d1) \<and>
     isl (UseReset demo_kdf demo_mac ''salt'' 51 ''R'' ''gazelle!'' d1) \<and>
     Authenticate demo_kdf d1 ''bob'' ''tortoise'' \<noteq> None"
proof -
  have c: "\<exists>d1. UseReset demo_kdf demo_mac ''salt'' 50 ''R'' ''tortoise'' demo_accounts = Inr (''bob'', d1)"
    by (simp add: UseReset_def findResetByToken_def demo_accounts_def demo_user_def Reset_Open_def Before_def IsZero_def)
  then obtain d1 where c: "UseReset demo_kdf demo_mac ''salt'' 50 ''R'' ''tortoise'' demo_accounts = Inr (''bob'', d1)" by blast
  have len: "length (demo_kdf pw s n 32) = 32" for pw s n by (simp add: demo_kdf_def)
  have "(50 :: time) \<noteq> 0" by simp
  from reset_used_once [OF demo_accounts_inv c this len rtranclp.rtrancl_refl] c show ?thesis by (metis option.distinct(1))
qed

text \<open>
  At most one reset link of an account is live: minting a new one retires every earlier
  unused link of the same account and touches nobody else's, and so does setting the password by
  another route.
\<close>

theorem newer_reset_retires_older:
  assumes now: "now \<noteq> 0"
    and p: "p \<in> set (resets d')" "Reset_Open p t" "p_user p = user"
  shows "(CreateReset mac nid b now user createdBy d = Inr ((rp, token), d') \<longrightarrow> p = rp) \<and>
    SetPassword kdf salt now user password d \<noteq> Inr ((), d')"
proof -
  have dead: "\<not> Reset_Open q t" if "q \<in> set (retire_resets user now (resets d))" "p_user q = user" for q
  proof -
    from that(1) obtain p0 where q: "q = (if p_user p0 = user \<and> p_used p0 = 0 then p0\<lparr>p_used := now\<rparr> else p0)"
      unfolding retire_resets_def set_map by blast
    show ?thesis
    proof (cases "p_user p0 = user \<and> p_used p0 = 0")
      case True
      with q now show ?thesis by (simp add: Reset_Open_def IsZero_def)
    next
      case False
      then have "q = p0" unfolding q by (rule if_not_P)
      with False that(2) show ?thesis by (simp add: Reset_Open_def IsZero_def)
    qed
  qed
  have "p = rp" if c: "CreateReset mac nid b now user createdBy d = Inr ((rp, token), d')"
  proof -
    from p(1) CreateReset_cases(1) [OF c] have "p \<in> set (retire_resets user now (resets d)) \<or> p = rp" by auto
    with dead p(2,3) show ?thesis by blast
  qed
  moreover have "SetPassword kdf salt now user password d \<noteq> Inr ((), d')"
    using SetPassword_cases(2) p dead by metis
  ultimately show ?thesis by blast
qed

theorem newer_reset_retires_older_witness:
  "\<exists>rp token d'. CreateReset demo_mac ''p2'' ''xyz'' 50 ''bob'' ''ann'' demo_accounts = Inr ((rp, token), d') \<and>
     (\<forall>p. p \<in> set (resets d') \<and> Reset_Open p 60 \<and> p_user p = ''bob'' \<longrightarrow> p = rp) \<and> rp \<in> set (resets d') \<and> Reset_Open rp 60"
proof -
  let ?c = "CreateReset demo_mac ''p2'' ''xyz'' 50 ''bob'' ''ann'' demo_accounts"
  have "demo_mac [''reset'', EncodeToString url_alphabet ''xyz''] \<noteq> demo_mac [''reset'', ''R'']" by code_simp
  then have "\<not> isl ?c" by (simp add: CreateReset_def demo_accounts_def demo_user_def retire_resets_def Let_def)
  then obtain rp token d' where c: "?c = Inr ((rp, token), d')" by (cases ?c) auto
  have n: "(50 :: time) \<noteq> 0" by simp
  have "rp \<in> set (resets d')" "Reset_Open rp 60"
    using CreateReset_cases [OF c] by (simp_all add: Reset_Open_def IsZero_def Before_def ResetTTL_def hour_def second_def)
  with newer_reset_retires_older [OF n] c show ?thesis by blast
qed

section \<open>A deleted account's reset link\<close>

text \<open>
  Deleting an account leaves its reset links behind. If the name is given to someone else while
  such a link is still live, the link sets the password of the new account.
\<close>

lemma reset_survives_deletion:
  "\<exists>d1 u d2 d3. DeleteUser ''bob'' demo_accounts = Inr ((), d1) \<and>
     AddUser demo_kdf ''salt'' 40 ''bob'' RoleEditor ''tortoise'' d1 = Inr (u, d2) \<and>
     UseReset demo_kdf demo_mac ''salt'' 50 ''R'' ''gazelle!'' d2 = Inr (''bob'', d3)"
proof -
  have r: "RoleEditor \<noteq> RoleAdmin" "TrimSpace ''bob'' = ''bob''" by code_simp+
  show ?thesis
    by (simp add: DeleteUser_def AddUser_def addUser_def UseReset_def findResetByToken_def demo_accounts_def demo_user_def
        Reset_Open_def Before_def IsZero_def Let_def r demo_names)
qed

end
