(* ===== verification/Export.thy ===== *)
theory Export
  imports Tallies Codec
begin

text \<open>
  The tab-separated export (\<open>internal/export/tsv.go\<close>): cells made safe for a spreadsheet, the
  per-response table, the summary and the download name. The formatted instants
  (\<open>In(loc).Format(time.RFC3339)\<close>) and the one-decimal percentages (\<open>%.1f\<close>) are parameters.
  \<open>strings.Map\<close> works on runes, so UTF-8 decoding is written out: an invalid byte becomes the
  replacement rune U+FFFD.
\<close>

section \<open>Runes\<close>

definition in_range :: "nat \<Rightarrow> nat \<Rightarrow> char \<Rightarrow> bool" where
  "in_range a b c = (a \<le> byte c \<and> byte c \<le> b)"

definition ok2 :: "char \<Rightarrow> char \<Rightarrow> bool" where
  "ok2 b0 b1 = (in_range 0xC2 0xDF b0 \<and> in_range 0x80 0xBF b1)"

definition ok3 :: "char \<Rightarrow> char \<Rightarrow> char \<Rightarrow> bool" where
  "ok3 b0 b1 b2 =
     (((byte b0 = 0xE0 \<and> in_range 0xA0 0xBF b1) \<or> (byte b0 = 0xED \<and> in_range 0x80 0x9F b1) \<or>
       ((in_range 0xE1 0xEC b0 \<or> in_range 0xEE 0xEF b0) \<and> in_range 0x80 0xBF b1)) \<and> in_range 0x80 0xBF b2)"

definition ok4 :: "char \<Rightarrow> char \<Rightarrow> char \<Rightarrow> char \<Rightarrow> bool" where
  "ok4 b0 b1 b2 b3 =
     (((byte b0 = 0xF0 \<and> in_range 0x90 0xBF b1) \<or> (byte b0 = 0xF4 \<and> in_range 0x80 0x8F b1) \<or>
       (in_range 0xF1 0xF3 b0 \<and> in_range 0x80 0xBF b1)) \<and> in_range 0x80 0xBF b2 \<and> in_range 0x80 0xBF b3)"

text \<open>The number of bytes of the valid encoding a string begins with; 0 when there is none.\<close>

definition rune_len :: "string \<Rightarrow> nat" where
  "rune_len s =
     (case s of
        [] \<Rightarrow> 0
      | b0 # s1 \<Rightarrow> if byte b0 < 0x80 then 1 else
          (case s1 of
             [] \<Rightarrow> 0
           | b1 # s2 \<Rightarrow> if ok2 b0 b1 then 2 else
               (case s2 of
                  [] \<Rightarrow> 0
                | b2 # s3 \<Rightarrow> if ok3 b0 b1 b2 then 3 else
                    (case s3 of
                       [] \<Rightarrow> 0
                     | b3 # _ \<Rightarrow> if ok4 b0 b1 b2 b3 then 4 else 0))))"

definition RuneError :: string where
  "RuneError = [CHR 0xEF, CHR 0xBF, CHR 0xBD]"

text \<open>\<open>strings.Map\<close>: \<open>f\<close> gives the bytes that replace each rune, itself given as its bytes.\<close>

function map_runes :: "(string \<Rightarrow> string) \<Rightarrow> string \<Rightarrow> string" where
  "map_runes f s =
     (if s = [] then []
      else if rune_len s = 0 then f RuneError @ map_runes f (drop 1 s)
      else f (take (rune_len s) s) @ map_runes f (drop (rune_len s) s))"
  by pat_completeness auto
termination
  by (relation "measure (\<lambda>(f, s). length s)") auto

declare map_runes.simps [simp del]

section \<open>Cells and rows\<close>

definition cell_rune :: "string \<Rightarrow> string" where
  "cell_rune r =
     (case r of
        [c] \<Rightarrow> if c = CHR 0x09 \<or> c = CHR 0x0A \<or> c = CHR 0x0D then '' ''
               else if byte c < 0x20 \<or> byte c = 0x7F then [] else [c]
      | _ \<Rightarrow> r)"

definition cell :: "string \<Rightarrow> string" where
  "cell s = map_runes cell_rune s"

definition textCell :: "string \<Rightarrow> string" where
  "textCell s =
     (let s = cell s in
      case s of
        [] \<Rightarrow> s
      | c # _ \<Rightarrow> if c = CHR ''='' \<or> c = CHR ''+'' \<or> c = CHR ''-'' \<or> c = CHR ''@'' then CHR 0x27 # s else s)"

definition row :: "string list \<Rightarrow> string" where
  "row fs =
     (case map cell fs of
        [] \<Rightarrow> []
      | c # cs \<Rightarrow> c @ concat (map (\<lambda>f. CHR 0x09 # f) cs)) @ [CHR 0x0A]"

definition opt_header :: "opt \<Rightarrow> string" where
  "opt_header o' =
     (if o_status o' = OptApproved then textCell (o_text o')
      else textCell (o_text o' @ '' ['' @ o_status o' @ '']''))"

section \<open>The table of responses\<close>

definition resolveMap :: "survey \<Rightarrow> (string \<rightharpoonup> string)" where
  "resolveMap sv =
     foldl (\<lambda>m o'. if o_status o' \<noteq> OptMerged then m else m(o_id o' \<mapsto> fst (Resolve sv (o_id o'))))
       Map.empty (options sv)"

definition resolveVia :: "(string \<rightharpoonup> string) \<Rightarrow> string \<Rightarrow> string" where
  "resolveVia m i = (case m i of Some t \<Rightarrow> t | None \<Rightarrow> i)"

text \<open>The two sets, as the lists of their elements.\<close>

definition resolvedSets :: "(string \<rightharpoonup> string) \<Rightarrow> response \<Rightarrow> string list \<times> string list" where
  "resolvedSets m r = (map (resolveVia m) (q_choices r), map (resolveVia m) (q_seen r))"

definition columns :: "survey \<Rightarrow> opt list" where
  "columns sv = filter (\<lambda>o'. o_status o' \<noteq> OptMerged) (options sv)"

definition mark :: "string list \<Rightarrow> string list \<Rightarrow> opt \<Rightarrow> string" where
  "mark chosen shown o' =
     (if o_id o' \<in> set chosen then ''1'' else if o_id o' \<in> set shown then ''0'' else [])"

definition record_of :: "(time \<Rightarrow> string) \<Rightarrow> survey \<Rightarrow> (string \<rightharpoonup> string) \<Rightarrow> response \<Rightarrow> string list" where
  "record_of fmt sv m r =
     (case resolvedSets m r of (chosen, shown) \<Rightarrow>
        [q_id r, fmt (q_created r), fmt (q_updated r)] @ map (mark chosen shown) (columns sv) @
        [decimal (length (filter (\<lambda>o'. o_id o' \<in> set chosen) (columns sv))), textCell (q_comment r)])"

definition head_of :: "survey \<Rightarrow> string list" where
  "head_of sv =
     [''response_id'', ''submitted'', ''updated''] @ map opt_header (columns sv) @ [''selections'', ''comment'']"

definition Export_Responses :: "(time \<Rightarrow> string) \<Rightarrow> survey \<Rightarrow> response list \<Rightarrow> string" where
  "Export_Responses fmt sv rs =
     row (head_of sv) @ concat (map (\<lambda>r. row (record_of fmt sv (resolveMap sv) r)) rs)"

section \<open>The summary\<close>

definition summary_row :: "(rat \<Rightarrow> string) \<Rightarrow> nat \<Rightarrow> result \<Rightarrow> string list" where
  "summary_row fmt1 respondents res =
     [textCell (o_text (t_option res)), decimal (t_votes res), decimal respondents, fmt1 (t_percent res),
      decimal (t_shown res), (if t_shown res > 0 then fmt1 (t_shown_percent res) else [])]"

definition Summary :: "(rat \<Rightarrow> string) \<Rightarrow> result list \<Rightarrow> nat \<Rightarrow> string" where
  "Summary fmt1 results respondents =
     row [''option'', ''votes'', ''respondents'', ''percent_of_respondents'', ''shown_to'', ''percent_of_shown''] @
     concat (map (\<lambda>res. row (summary_row fmt1 respondents res)) results)"

section \<open>The download name\<close>

definition slug_rune :: "string \<Rightarrow> string" where
  "slug_rune r =
     (case r of
        [c] \<Rightarrow> if (CHR ''a'' \<le> c \<and> c \<le> CHR ''z'') \<or> (CHR ''0'' \<le> c \<and> c \<le> CHR ''9'') then [c]
               else if CHR ''A'' \<le> c \<and> c \<le> CHR ''Z'' then [char_of (byte c + 32)]
               else if c = CHR '' '' \<or> c = CHR ''-'' \<or> c = CHR ''_'' then ''-''
               else []
      | _ \<Rightarrow> [])"

text \<open>\<open>strings.ReplaceAll(slug, "--", "-")\<close>, and the loop around it.\<close>

fun replace_dashes :: "string \<Rightarrow> string" where
  "replace_dashes (c # d # s) =
     (if c = CHR ''-'' \<and> d = CHR ''-'' then CHR ''-'' # replace_dashes s else c # replace_dashes (d # s))"
| "replace_dashes s = s"

fun has_dashes :: "string \<Rightarrow> bool" where
  "has_dashes (c # d # s) = (c = CHR ''-'' \<and> d = CHR ''-'' \<or> has_dashes (d # s))"
| "has_dashes s = False"

lemma replace_shortens: "length (replace_dashes s) \<le> length s" "has_dashes s \<Longrightarrow> length (replace_dashes s) < length s"
  by (induction s rule: replace_dashes.induct) (auto simp: le_SucI less_SucI)

function collapse :: "string \<Rightarrow> string" where
  "collapse s = (if has_dashes s then collapse (replace_dashes s) else s)"
  by pat_completeness auto
termination
  by (relation "measure length") (auto simp: replace_shortens)

declare collapse.simps [simp del]

definition trim_dashes :: "string \<Rightarrow> string" where
  "trim_dashes s = rev (dropWhile (\<lambda>c. c = CHR ''-'') (rev (dropWhile (\<lambda>c. c = CHR ''-'') s)))"

definition slug_of :: "survey \<Rightarrow> string" where
  "slug_of sv =
     (let s = trim_dashes (collapse (map_runes slug_rune (sv_title sv)));
          s = (if s = [] then sv_id sv else s)
      in if length s > 60 then trim_dashes (take 60 s) else s)"

definition Filename :: "string \<Rightarrow> survey \<Rightarrow> string \<Rightarrow> string \<Rightarrow> string" where
  "Filename ymd sv kind ext = slug_of sv @ ''-'' @ kind @ ''-'' @ ymd @ ''.'' @ ext"

section \<open>Runes, put together and taken apart\<close>

function runes :: "string \<Rightarrow> string list" where
  "runes s =
     (if s = [] then []
      else if rune_len s = 0 then RuneError # runes (drop 1 s)
      else take (rune_len s) s # runes (drop (rune_len s) s))"
  by pat_completeness auto
termination
  by (relation "measure length") auto

declare runes.simps [simp del]

definition is_rune :: "string \<Rightarrow> bool" where
  "is_rune r = (r \<noteq> [] \<and> rune_len r = length r)"

lemma map_runes_concat: "map_runes f s = concat (map f (runes s))"
proof (induction f s rule: map_runes.induct)
  case (1 f s)
  then show ?case
    by (cases "s = []"; cases "rune_len s = 0")
      (simp_all add: map_runes.simps [of f s] runes.simps [of s] map_runes.simps [of f "[]"] runes.simps [of "[]"])
qed

lemma rune_len_bound: "rune_len s \<le> length s"
  by (auto simp: rune_len_def split: list.split)

text \<open>What the length is, by how the string begins.\<close>

lemma rune_len_cases:
  assumes "rune_len s \<noteq> 0"
  obtains b0 s1 where "s = b0 # s1" "byte b0 < 0x80" "rune_len s = 1"
    | b0 b1 s2 where "s = b0 # b1 # s2" "\<not> byte b0 < 0x80" "ok2 b0 b1" "rune_len s = 2"
    | b0 b1 b2 s3 where "s = b0 # b1 # b2 # s3" "\<not> byte b0 < 0x80" "\<not> ok2 b0 b1" "ok3 b0 b1 b2" "rune_len s = 3"
    | b0 b1 b2 b3 s4 where "s = b0 # b1 # b2 # b3 # s4" "\<not> byte b0 < 0x80" "\<not> ok2 b0 b1" "\<not> ok3 b0 b1 b2"
        "ok4 b0 b1 b2 b3" "rune_len s = 4"
  using assms that unfolding rune_len_def by (simp split: list.splits if_splits)

lemma rune_len_prefix: "rune_len s = n \<Longrightarrow> n \<noteq> 0 \<Longrightarrow> rune_len (take n s @ t) = n"
proof -
  assume n: "rune_len s = n" "n \<noteq> 0"
  then have "rune_len s \<noteq> 0" by simp
  then show ?thesis by (cases rule: rune_len_cases) (use n in \<open>auto simp: rune_len_def\<close>)
qed

lemma ok_bytes:
  "ok2 b0 b1 \<Longrightarrow> 0x80 \<le> byte b0 \<and> 0x80 \<le> byte b1"
  "ok3 b0 b1 b2 \<Longrightarrow> 0x80 \<le> byte b0 \<and> 0x80 \<le> byte b1 \<and> 0x80 \<le> byte b2"
  "ok4 b0 b1 b2 b3 \<Longrightarrow> 0x80 \<le> byte b0 \<and> 0x80 \<le> byte b1 \<and> 0x80 \<le> byte b2 \<and> 0x80 \<le> byte b3"
  by (auto simp: ok2_def ok3_def ok4_def in_range_def)

lemma rune_of_prefix: "rune_len s \<noteq> 0 \<Longrightarrow> is_rune (take (rune_len s) s)"
  using rune_len_prefix [of s "rune_len s" "[]"] rune_len_bound [of s] by (auto simp: is_rune_def)

lemma RuneError_is_rune: "is_rune RuneError"
  by code_simp

lemma runes_are_runes: "r \<in> set (runes s) \<Longrightarrow> is_rune r"
proof (induction s rule: runes.induct)
  case (1 s)
  then show ?case
    by (cases "s = []"; cases "rune_len s = 0")
      (auto simp: runes.simps [of s] runes.simps [of "[]"] RuneError_is_rune rune_of_prefix)
qed

lemma runes_concat: "(\<And>r. r \<in> set rs \<Longrightarrow> is_rune r) \<Longrightarrow> runes (concat rs) = rs"
proof (induction rs)
  case Nil
  then show ?case by (simp add: runes.simps)
next
  case (Cons r rs)
  then have r: "r \<noteq> []" "rune_len r = length r" by (simp_all add: is_rune_def)
  then have "rune_len (r @ concat rs) = length r" using rune_len_prefix [of r "length r"] by simp
  with r Cons show ?case by (simp add: runes.simps [of "r @ concat rs"])
qed

lemma long_rune_bytes: "is_rune r \<Longrightarrow> length r \<noteq> 1 \<Longrightarrow> c \<in> set r \<Longrightarrow> 0x80 \<le> byte c"
proof -
  assume r: "is_rune r" and l: "length r \<noteq> 1" and c: "c \<in> set r"
  then have "rune_len r \<noteq> 0" "rune_len r = length r" by (auto simp: is_rune_def)
  then show ?thesis
    by (cases rule: rune_len_cases) (use l c ok_bytes in \<open>auto dest: ok_bytes\<close>)
qed

lemma short_rune: "is_rune [c] \<longleftrightarrow> byte c < 0x80"
  by (simp add: is_rune_def rune_len_def)

text \<open>A clean string is made of runes none of which is a control character.\<close>

definition clean_rune :: "string \<Rightarrow> bool" where
  "clean_rune r = (is_rune r \<and> list_all (\<lambda>c. 0x20 \<le> byte c \<and> byte c \<noteq> 0x7F) r)"

definition clean :: "string \<Rightarrow> bool" where
  "clean s = (list_all clean_rune (runes s) \<and> concat (runes s) = s)"

lemma clean_concat: "list_all clean_rune rs \<Longrightarrow> clean (concat rs)"
  using runes_concat [of rs] by (simp add: clean_def list_all_iff clean_rune_def)

lemma cell_rune_clean: "is_rune r \<Longrightarrow> cell_rune r = [] \<or> clean_rune (cell_rune r)"
proof (cases "length r = 1")
  case True
  assume r: "is_rune r"
  from True obtain c where c: "r = [c]" by (cases r) auto
  have "clean_rune '' ''" by code_simp
  with r c show ?thesis by (auto simp: cell_rune_def clean_rune_def)
next
  case False
  assume r: "is_rune r"
  with False have "cell_rune r = r" by (auto simp: cell_rune_def is_rune_def split: list.split)
  moreover have "clean_rune r"
    using long_rune_bytes [OF r False] r by (fastforce simp: clean_rune_def list_all_iff)
  ultimately show ?thesis by simp
qed

lemma cell_rune_keeps: "clean_rune r \<Longrightarrow> cell_rune r = r"
proof -
  assume r: "clean_rune r"
  have "byte (CHR 0x09) < 0x20" "byte (CHR 0x0A) < 0x20" "byte (CHR 0x0D) < 0x20" by code_simp+
  with r show ?thesis by (auto simp: cell_rune_def clean_rune_def split: list.split)
qed

lemma concat_nonempty: "concat (filter (\<lambda>r. r \<noteq> []) rs) = concat rs"
  by (induction rs) auto

lemma cell_clean: "clean (cell s)"
proof -
  let ?rs = "filter (\<lambda>r. r \<noteq> []) (map cell_rune (runes s))"
  have "list_all clean_rune ?rs"
    using runes_are_runes cell_rune_clean by (fastforce simp: list_all_iff)
  moreover have "cell s = concat ?rs"
    by (simp add: cell_def map_runes_concat concat_nonempty)
  ultimately show ?thesis using clean_concat by metis
qed

lemma cell_of_clean: "clean s \<Longrightarrow> cell s = s"
proof -
  assume c: "clean s"
  then have "map cell_rune (runes s) = runes s"
    using cell_rune_keeps by (intro map_idI) (simp add: clean_def list_all_iff)
  with c show ?thesis by (simp add: cell_def map_runes_concat clean_def)
qed

lemma cell_idem [simp]: "cell (cell s) = cell s"
  by (rule cell_of_clean [OF cell_clean])

lemma clean_chars: "clean s \<Longrightarrow> c \<in> set s \<Longrightarrow> 0x20 \<le> byte c \<and> byte c \<noteq> 0x7F"
proof -
  assume c: "clean s" and m: "c \<in> set s"
  from c m have "c \<in> set (concat (runes s))" by (simp add: clean_def)
  then obtain r where "r \<in> set (runes s)" "c \<in> set r" by auto
  with c show ?thesis by (simp add: clean_def list_all_iff clean_rune_def)
qed

lemma cell_no_separators: "CHR 0x09 \<notin> set (cell s)" "CHR 0x0A \<notin> set (cell s)" "CHR 0x0D \<notin> set (cell s)"
proof -
  have "byte (CHR 0x09) < 0x20" "byte (CHR 0x0A) < 0x20" "byte (CHR 0x0D) < 0x20" by code_simp+
  then show "CHR 0x09 \<notin> set (cell s)" "CHR 0x0A \<notin> set (cell s)" "CHR 0x0D \<notin> set (cell s)"
    using clean_chars [OF cell_clean, of _ s] by (meson not_le)+
qed

lemma clean_Cons: "clean s \<Longrightarrow> clean_rune [c] \<Longrightarrow> clean (c # s)"
  using clean_concat [of "[c] # runes s"] by (simp add: clean_def)

lemma textCell_clean: "clean (textCell s)"
proof -
  have "clean_rune [CHR 0x27]" by code_simp
  then show ?thesis
    using cell_clean [of s] clean_Cons [OF cell_clean [of s]]
    by (auto simp: textCell_def Let_def split: list.split)
qed

lemma textCell_not_formula: "textCell s \<noteq> [] \<Longrightarrow> hd (textCell s) \<notin> set ''=+-@''"
  by (auto simp: textCell_def Let_def split: list.split)

section \<open>Rows read back\<close>

lemma split_joined:
  assumes "\<And>c. c \<in> set (x # xs) \<Longrightarrow> sep \<notin> set c"
  shows "split_at sep (x @ concat (map (\<lambda>f. sep # f) xs)) = x # xs"
  using assms
proof (induction xs arbitrary: x)
  case Nil
  then show ?case by (simp add: split_at_none)
next
  case (Cons y ys)
  then have "split_at sep (x @ sep # (y @ concat (map (\<lambda>f. sep # f) ys))) =
      x # split_at sep (y @ concat (map (\<lambda>f. sep # f) ys))"
    by (intro split_at_append) simp
  with Cons show ?case by simp
qed

definition line_of :: "string list \<Rightarrow> string" where
  "line_of fs = butlast (row fs)"

lemma row_line: "row fs = line_of fs @ [CHR 0x0A]"
  by (simp add: line_of_def row_def)

lemma line_cells: "fs \<noteq> [] \<Longrightarrow> split_at (CHR 0x09) (line_of fs) = map cell fs"
proof (cases fs)
  case (Cons f gs)
  then have "line_of fs = cell f @ concat (map (\<lambda>g. CHR 0x09 # g) (map cell gs))"
    by (simp add: line_of_def row_def butlast_append comp_def)
  moreover have "split_at (CHR 0x09) (cell f @ concat (map (\<lambda>g. CHR 0x09 # g) (map cell gs))) = cell f # map cell gs"
    using cell_no_separators(1) by (intro split_joined) auto
  ultimately show ?thesis by (simp only: Cons list.map)
qed simp

lemma line_no_newline: "CHR 0x0A \<notin> set (line_of fs)"
  using cell_no_separators(2) by (auto simp: line_of_def row_def butlast_append split: list.splits)

lemma split_lines:
  "split_at (CHR 0x0A) (concat (map row rs)) = map line_of rs @ [[]]"
  by (induction rs) (simp_all add: row_line split_at_append line_no_newline)

section \<open>The merge map and the tally\<close>

lemma resolveMap_eq:
  "resolveMap sv i =
     (if \<exists>o'\<in>set (options sv). o_id o' = i \<and> o_status o' = OptMerged then Some (fst (Resolve sv i)) else None)"
proof -
  have "foldl (\<lambda>m o'. if o_status o' \<noteq> OptMerged then m else m(o_id o' \<mapsto> fst (Resolve sv (o_id o')))) m os i =
      (if \<exists>o'\<in>set os. o_id o' = i \<and> o_status o' = OptMerged then Some (fst (Resolve sv i)) else m i)" for m os
    by (induction os arbitrary: m) auto
  from this [of Map.empty "options sv"] show ?thesis unfolding resolveMap_def by (simp only: empty_iff refl)
qed

lemma Resolve_absent: "OptionOf sv i = None \<Longrightarrow> Resolve sv i = (i, False)"
  by (simp add: Resolve_def)

lemma resolveVia_is_Resolve:
  assumes "ids_unique sv"
  shows "resolveVia (resolveMap sv) i = fst (Resolve sv i)"
proof (cases "\<exists>o'\<in>set (options sv). o_id o' = i \<and> o_status o' = OptMerged")
  case True
  then show ?thesis by (simp add: resolveVia_def resolveMap_eq)
next
  case False
  have "fst (Resolve sv i) = i"
  proof (cases "OptionOf sv i")
    case None
    then show ?thesis by (simp add: Resolve_absent)
  next
    case (Some o')
    with OptionOf_SomeD [OF Some] False have "\<not> forwards o'" by (auto simp: forwards_def)
    then have "leads sv 0 i o'" using Some by (rule leads.here [rotated])
    then show ?thesis using Resolve_leads OptionOf_SomeD [OF Some] by fastforce
  qed
  with False show ?thesis by (simp add: resolveVia_def resolveMap_eq)
qed

lemma mark_hits:
  assumes ok: "db_ok d" and sv: "loadSurvey d sid = Some sv" and q: "q \<in> set (Responses d sid)"
    and o': "o' \<in> set (options sv)" "o_status o' = OptApproved"
  shows "o_id o' \<in> set (map (resolveVia (resolveMap sv)) (q_choices q)) \<longleftrightarrow> hits sv (q_choices q) (o_id o')"
    and "o_id o' \<in> set (map (resolveVia (resolveMap sv)) (q_seen q)) \<longleftrightarrow> hits sv (q_seen q) (o_id o')"
proof -
  have sok: "survey_ok sv" using db_okD(5) [OF ok] sv by (rule surveys_ok_load)
  note via = resolveVia_is_Resolve [OF survey_okD(1) [OF sok]]
  have opt: "OptionOf sv (o_id o') = Some o'"
    using o'(1) survey_okD(1) [OF sok] by (simp add: OptionOf_def ids_unique_def lookup_by_mem)
  have key: "o_id o' \<in> set (map (resolveVia (resolveMap sv)) is) \<longleftrightarrow> hits sv is (o_id o')"
    if "set is \<subseteq> o_id ` set (options sv)" for "is"
  proof
    assume "o_id o' \<in> set (map (resolveVia (resolveMap sv)) is)"
    then obtain j where j: "j \<in> set is" "fst (Resolve sv j) = o_id o'" by (auto simp: via)
    with that have "Resolve sv j = (o_id o', True)" by (intro resolves_to_approved [OF sok _ opt o'(2)]) auto
    with j(1) show "hits sv is (o_id o')" by (auto simp: hits_def list_ex_iff)
  next
    assume "hits sv is (o_id o')"
    then obtain j where j: "j \<in> set is" "Resolve sv j = (o_id o', True)" by (auto simp: hits_def list_ex_iff)
    then have "resolveVia (resolveMap sv) j = o_id o'" by (simp add: via)
    with j(1) show "o_id o' \<in> set (map (resolveVia (resolveMap sv)) is)" by (force simp: image_iff)
  qed
  have seen: "set (q_choices q) \<subseteq> set (q_seen q)" "set (q_seen q) \<subseteq> o_id ` set (options sv)"
    using answers_seen [OF ok q sv] by blast+
  then have "set (q_choices q) \<subseteq> o_id ` set (options sv)" by blast
  then show "o_id o' \<in> set (map (resolveVia (resolveMap sv)) (q_choices q)) \<longleftrightarrow> hits sv (q_choices q) (o_id o')"
    by (rule key)
  show "o_id o' \<in> set (map (resolveVia (resolveMap sv)) (q_seen q)) \<longleftrightarrow> hits sv (q_seen q) (o_id o')"
    using seen(2) by (rule key)
qed

section \<open>The download name\<close>

definition slug_char :: "char \<Rightarrow> bool" where
  "slug_char c = ((CHR ''a'' \<le> c \<and> c \<le> CHR ''z'') \<or> (CHR ''0'' \<le> c \<and> c \<le> CHR ''9'') \<or> c = CHR ''-'')"

lemma slug_chars:
  "CHR ''a'' \<le> c \<Longrightarrow> c \<le> CHR ''z'' \<Longrightarrow> slug_char c"
  "CHR ''0'' \<le> c \<Longrightarrow> c \<le> CHR ''9'' \<Longrightarrow> slug_char c"
  "slug_char (CHR ''-'')"
  "CHR ''A'' \<le> c \<Longrightarrow> c \<le> CHR ''Z'' \<Longrightarrow> slug_char (char_of (byte c + 32))"
  by (simp_all add: slug_char_def less_eq_char_def byte_def)

lemma slug_rune_chars: "c \<in> set (slug_rune r) \<Longrightarrow> slug_char c"
  using slug_chars(1,2) [of c] slug_chars(3) slug_chars(4) [of "hd r"]
  by (cases r rule: remdups_adj.cases) (auto simp: slug_rune_def split: if_splits)

lemma map_runes_chars: "(\<And>r c. c \<in> set (f r) \<Longrightarrow> P c) \<Longrightarrow> c \<in> set (map_runes f s) \<Longrightarrow> P c"
  by (auto simp: map_runes_concat)

lemma replace_dashes_chars: "set (replace_dashes s) \<subseteq> set s"
  by (induction s rule: replace_dashes.induct) auto

lemma collapse_chars: "set (collapse s) \<subseteq> set s"
proof (induction s rule: collapse.induct)
  case (1 s)
  then show ?case using replace_dashes_chars [of s] by (subst collapse.simps) auto
qed

lemma collapse_done: "\<not> has_dashes (collapse s)"
proof (induction s rule: collapse.induct)
  case (1 s)
  then show ?case by (subst collapse.simps) auto
qed

lemma trim_dashes_chars: "set (trim_dashes s) \<subseteq> set s"
  by (auto simp: trim_dashes_def dest!: set_dropWhileD)

text \<open>The download name is safe inside a header: no quote, separator or control character.\<close>

lemma slug_is_safe:
  assumes "\<And>c. c \<in> set (sv_id sv) \<Longrightarrow> slug_char c" and c: "c \<in> set (slug_of sv)"
  shows "slug_char c"
proof -
  let ?s = "trim_dashes (collapse (map_runes slug_rune (sv_title sv)))"
  have "c \<in> set (if ?s = [] then sv_id sv else ?s)"
    using c trim_dashes_chars set_take_subset by (fastforce simp: slug_of_def Let_def split: if_splits)
  moreover have "slug_char c" if "c \<in> set ?s"
    using that trim_dashes_chars collapse_chars map_runes_chars [of slug_rune slug_char] slug_rune_chars by (meson subsetD)
  ultimately show ?thesis using assms(1) by (auto split: if_splits)
qed

lemma trim_dashes_length: "length (trim_dashes s) \<le> length s"
  unfolding trim_dashes_def length_rev by (metis length_dropWhile_le length_rev order_trans)

lemma slug_bound: "length (slug_of sv) \<le> 60"
  by (auto simp: slug_of_def Let_def intro: order_trans [OF trim_dashes_length])

section \<open>Properties\<close>

text \<open>
  C35. The exported table parses back: splitting the file at newlines and each line at tabs
  gives exactly the header and one record per response, every row with the same number of
  cells, whatever tabs, line breaks, control characters or broken UTF-8 titles, options and
  comments contain.
\<close>

theorem export_parses_back:
  "map (split_at (CHR 0x09)) (butlast (split_at (CHR 0x0A) (Export_Responses fmt sv rs))) =
     map cell (head_of sv) # map (\<lambda>r. map cell (record_of fmt sv (resolveMap sv) r)) rs \<and>
   last (split_at (CHR 0x0A) (Export_Responses fmt sv rs)) = [] \<and>
   length (head_of sv) = length (columns sv) + 5 \<and>
   (\<forall>r. length (record_of fmt sv (resolveMap sv) r) = length (columns sv) + 5)"
proof -
  have "Export_Responses fmt sv rs = concat (map row (head_of sv # map (record_of fmt sv (resolveMap sv)) rs))"
    by (simp add: Export_Responses_def comp_def)
  then have s: "split_at (CHR 0x0A) (Export_Responses fmt sv rs) =
      map line_of (head_of sv # map (record_of fmt sv (resolveMap sv)) rs) @ [[]]"
    by (simp only: split_lines)
  have len: "length (record_of fmt sv (resolveMap sv) r) = length (columns sv) + 5" for r
    by (simp add: record_of_def resolvedSets_def)
  then have ne: "record_of fmt sv (resolveMap sv) r \<noteq> []" for r by (metis add_eq_0_iff_both_eq_0 list.size(3) zero_neq_numeral)
  have "head_of sv \<noteq> []" by (simp add: head_of_def)
  then show ?thesis using len ne by (simp add: s line_cells) (simp add: head_of_def)
qed

text \<open>
  C40. No text a stranger wrote reaches a spreadsheet as a formula: an option's column header
  and a comment's cell arrive in the file exactly as \<open>textCell\<close> made them, never beginning
  with an equals, plus, minus or at sign, and free of control characters.
\<close>

theorem cells_are_not_formulas:
  "cell (textCell s) = textCell s \<and> (textCell s \<noteq> [] \<longrightarrow> hd (textCell s) \<notin> set ''=+-@'') \<and>
   (\<forall>c\<in>set (textCell s). 0x20 \<le> byte c \<and> byte c \<noteq> 0x7F) \<and>
   (\<forall>o'. opt_header o' \<in> range textCell) \<and> (\<forall>fmt sv m r. last (record_of fmt sv m r) = textCell (q_comment r))"
  using cell_of_clean [OF textCell_clean] textCell_not_formula clean_chars [OF textCell_clean]
  by (auto simp: opt_header_def record_of_def resolvedSets_def)

theorem cells_are_not_formulas_witness:
  "textCell ''=1+1'' = CHR 0x27 # ''=1+1'' \<and> hd (textCell ''=1+1'') \<notin> set ''=+-@''"
proof -
  have t: "textCell ''=1+1'' = CHR 0x27 # ''=1+1''" by code_simp
  with cells_are_not_formulas [of "''=1+1''"] show ?thesis by (metis list.distinct(1))
qed

text \<open>
  Following merges through the precomputed map is the same as following them through the
  survey: for every identifier, known to the survey or not, \<open>resolveVia\<close> over \<open>resolveMap\<close>
  gives what \<open>Resolve\<close> gives. The map itself holds the merged options and nothing else.
\<close>

theorem resolveVia_refines_Resolve:
  assumes "ids_unique sv"
  shows "resolveVia (resolveMap sv) i = fst (Resolve sv i) \<and>
    (i \<in> dom (resolveMap sv) \<longleftrightarrow> (\<exists>o'\<in>set (options sv). o_id o' = i \<and> o_status o' = OptMerged))"
  using assms by (auto simp: resolveVia_is_Resolve resolveMap_eq dom_def)

theorem resolveVia_refines_Resolve_witness:
  "resolveVia (resolveMap demo_survey) ''d'' = ''c''"
proof -
  have "ids_unique demo_survey" "fst (Resolve demo_survey ''d'') = ''c''" by code_simp+
  with resolveVia_refines_Resolve [of demo_survey "''d''"] show ?thesis by simp
qed

text \<open>
  C34. The exported table and the tally agree: for every approved option, the number of 1 cells
  in its column is the tally's votes, and the number of filled cells is the tally's exposure.
\<close>

theorem export_agrees_with_tally:
  assumes ok: "db_ok d" and sv: "loadSurvey d sid = Some sv" and t: "t \<in> set (fst (computeTally d sid))"
  shows "let marks = map (\<lambda>r. case resolvedSets (resolveMap sv) r of (chosen, shown) \<Rightarrow> mark chosen shown (t_option t))
             (Responses d sid)
    in t_option t \<in> set (columns sv) \<and>
       length (filter (\<lambda>c. c = ''1'') marks) = t_votes t \<and> length (filter (\<lambda>c. c \<noteq> []) marks) = t_shown t"
proof -
  note r = computeTally_result [OF sv t]
  let ?o = "t_option t"
  let ?m = "\<lambda>q. mark (fst (resolvedSets (resolveMap sv) q)) (snd (resolvedSets (resolveMap sv) q)) ?o"
  have c: "(?m q = ''1'') = hits sv (q_choices q) (o_id ?o)" "(?m q \<noteq> []) = hits sv (q_seen q) (o_id ?o)"
    if q: "q \<in> set (Responses d sid)" for q
  proof -
    have "hits sv (q_choices q) (o_id ?o) \<Longrightarrow> hits sv (q_seen q) (o_id ?o)"
      using votes.hits_mono answers_seen(1) [OF ok q sv] by blast
    with mark_hits [OF ok sv q r(1,2)] show
      "(?m q = ''1'') = hits sv (q_choices q) (o_id ?o)" "(?m q \<noteq> []) = hits sv (q_seen q) (o_id ?o)"
      by (auto simp: resolvedSets_def mark_def)
  qed
  have "length (filter (\<lambda>q. ?m q = ''1'') (Responses d sid)) = t_votes t"
    unfolding r(3) voters_for_def using c(1) by (intro arg_cong [where f = length] filter_cong refl) blast
  moreover have "length (filter (\<lambda>q. ?m q \<noteq> []) (Responses d sid)) = t_shown t"
    unfolding r(4) shown_to_def using c(2) by (intro arg_cong [where f = length] filter_cong refl) blast
  moreover have "?o \<in> set (columns sv)" using r(1,2) by (simp add: columns_def)
  ultimately show ?thesis by (simp add: Let_def filter_map comp_def split_def)
qed

theorem export_agrees_with_tally_witness:
  "\<exists>t\<in>set (fst (computeTally demo_db ''s1'')). t_option t \<in> set (columns demo_survey) \<and>
     length (filter (\<lambda>c. c = ''1'') (map (\<lambda>r. case resolvedSets (resolveMap demo_survey) r of
        (chosen, shown) \<Rightarrow> mark chosen shown (t_option t)) (Responses demo_db ''s1''))) = t_votes t"
proof -
  have u: "ids_unique demo_survey" by code_simp
  have "demo_opt ''a'' ''Pizza'' OptApproved [] \<in> {o' \<in> set (options demo_survey). o_status o' = OptApproved}"
    by (simp add: demo_survey_def demo_opt_def)
  with distinct_results(2) [OF demo_db_loads u] obtain t where t: "t \<in> set (fst (computeTally demo_db ''s1''))"
    by blast
  from export_agrees_with_tally [OF demo_db_ok demo_db_loads t] t show ?thesis unfolding Let_def by blast
qed

end
