(* ===== verification/Portable.thy ===== *)
theory Portable
  imports Tallies
begin

text \<open>
  Saved surveys (\<open>internal/store/portable.go\<close>): the document a survey is saved as, saving,
  restoring, and the inserts of a restore. A document is the value \<open>encoding/json\<close> decodes into
  the Go structures; the codec itself is a parameter. An absent \<open>responses\<close> array (Go \<open>nil\<close>) is
  \<open>None\<close>, which is not the same as an empty one. The identifiers a restore draws are arguments:
  one for the survey, the \<open>k\<close>-th of \<open>oids\<close> for the \<open>k\<close>-th option (drawn even when it is not
  used), the \<open>k\<close>-th of \<open>rids\<close> for the \<open>k\<close>-th response.
\<close>

section \<open>Documents\<close>

record doc_option =
  do_text :: string
  do_source :: string
  do_id :: string
  do_status :: string
  do_merged :: string
  do_created :: time

record doc_body =
  b_type :: string
  b_title :: string
  b_desc :: string
  b_show_results :: bool
  b_allow_write_in :: bool
  b_allow_comment :: bool
  b_no_randomize :: bool
  b_options :: "doc_option list"
  b_state :: string
  b_close_at :: time
  b_first_opened_at :: time
  b_created :: time
  b_updated :: time

record doc_response =
  dr_voter :: string
  dr_choices :: "string list"
  dr_seen :: "string list"
  dr_comment :: string
  dr_created :: time
  dr_updated :: time

record document =
  doc_format :: string
  doc_version :: int
  doc_exported :: time
  source_id :: string
  doc_survey :: doc_body
  doc_responses :: "doc_response list option"

definition docFormat :: string where "docFormat = ''quicksurvey.survey''"
definition docVersion :: int where "docVersion = 2"

definition Full :: "document \<Rightarrow> bool" where
  "Full doc = (doc_responses doc \<noteq> None \<or> b_state (doc_survey doc) \<noteq> [])"

definition checkDocHeader :: "string \<Rightarrow> int \<Rightarrow> err + unit" where
  "checkDocHeader format version =
     (if format \<noteq> docFormat then Inl (ErrBadDocument ''format'')
      else if version < 1 then Inl (ErrBadDocument ''no version'')
      else if version > docVersion then Inl (ErrBadDocument ''version'')
      else Inr ())"

section \<open>Saving\<close>

definition document_option :: "bool \<Rightarrow> opt \<Rightarrow> doc_option" where
  "document_option withResponses o' =
     (let e = \<lparr>do_text = o_text o', do_source = o_source o', do_id = [], do_status = [], do_merged = [], do_created = 0\<rparr>
      in if withResponses
         then e\<lparr>do_id := o_id o', do_status := o_status o', do_merged := o_merged o', do_created := o_created o'\<rparr>
         else e)"

definition document_response :: "response \<Rightarrow> doc_response" where
  "document_response r =
     \<lparr>dr_voter = q_voter r, dr_choices = q_choices r, dr_seen = q_seen r, dr_comment = q_comment r,
      dr_created = q_created r, dr_updated = q_updated r\<rparr>"

definition SurveyDocument :: "time \<Rightarrow> db \<Rightarrow> string \<Rightarrow> bool \<Rightarrow> err + document" where
  "SurveyDocument now d i withResponses =
     (case loadSurvey d i of
        None \<Rightarrow> Inl (ErrNotFound ''survey'' i)
      | Some sv \<Rightarrow>
          let body = \<lparr>b_type = sv_type sv, b_title = sv_title sv, b_desc = sv_desc sv,
                b_show_results = show_results sv, b_allow_write_in = allow_write_in sv,
                b_allow_comment = allow_comment sv, b_no_randomize = no_randomize sv,
                b_options = map (document_option withResponses)
                  (filter (\<lambda>o'. withResponses \<or> o_status o' = OptApproved) (options sv)),
                b_state = [], b_close_at = 0, b_first_opened_at = 0, b_created = 0, b_updated = 0\<rparr>;
              doc = \<lparr>doc_format = docFormat, doc_version = docVersion, doc_exported = now,
                source_id = sv_id sv, doc_survey = body, doc_responses = None\<rparr>
          in if \<not> withResponses then Inr doc
             else Inr (doc\<lparr>doc_survey := body\<lparr>b_state := sv_state sv, b_close_at := close_at sv,
                      b_first_opened_at := first_opened_at sv, b_created := sv_created sv, b_updated := sv_updated sv\<rparr>,
                    doc_responses := Some (map document_response (Responses d (sv_id sv)))\<rparr>))"

section \<open>Restoring\<close>

definition validState :: "string \<Rightarrow> bool" where
  "validState s = (s = StateDraft \<or> s = StateOpen \<or> s = StateClosed)"

text \<open>The new survey without its options, and the part of it only a full backup carries.\<close>

definition blank_survey :: "string \<Rightarrow> time \<Rightarrow> string \<Rightarrow> string \<Rightarrow> doc_body \<Rightarrow> survey" where
  "blank_survey i now typ title b =
     \<lparr>sv_id = i, sv_type = typ, sv_title = title, sv_desc = TrimSpace (b_desc b), sv_state = StateDraft,
      show_results = b_show_results b, allow_write_in = b_allow_write_in b, allow_comment = b_allow_comment b,
      no_randomize = b_no_randomize b, close_at = 0, first_opened_at = 0, sv_created = now, sv_updated = now,
      options = []\<rparr>"

definition full_header :: "document \<Rightarrow> survey \<Rightarrow> err + survey" where
  "full_header doc sv =
     (let b = doc_survey doc in
      if \<not> Full doc then Inr sv
      else if b_state b \<noteq> [] \<and> \<not> validState (b_state b) then Inl (ErrBadDocument ''state'')
      else
        let sv = (if b_state b \<noteq> [] then sv\<lparr>sv_state := b_state b\<rparr> else sv);
            sv = sv\<lparr>close_at := b_close_at b, first_opened_at := b_first_opened_at b\<rparr>;
            sv = (if \<not> IsZero (b_created b) then sv\<lparr>sv_created := b_created b\<rparr> else sv)
        in Inr (if \<not> IsZero (b_updated b) then sv\<lparr>sv_updated := b_updated b\<rparr> else sv))"

text \<open>The loop over the options: \<open>m\<close> is \<open>optionID\<close>, \<open>os\<close> the options built so far.\<close>

primrec restore_options ::
  "bool \<Rightarrow> (nat \<Rightarrow> string) \<Rightarrow> time \<Rightarrow> nat \<Rightarrow> doc_option list \<Rightarrow> (string \<rightharpoonup> string) \<Rightarrow> opt list \<Rightarrow>
   err + (opt list \<times> (string \<rightharpoonup> string))" where
  "restore_options keep oids now i [] m os = Inr (os, m)"
| "restore_options keep oids now i (e # es) m os =
     (let txt = TrimSpace (do_text e);
          source = (if do_source e \<noteq> ''writein'' then ''editor'' else do_source e);
          status = (if do_status e = [] then OptApproved else do_status e);
          created = (if IsZero (do_created e) then now else do_created e);
          nid = (if keep \<and> do_id e \<noteq> [] then do_id e else oids i)
      in if txt = [] then Inl (ErrDangling (i + 1) ''no text'')
         else if \<not> validOptionStatus status then Inl (ErrUnknownStatus status)
         else restore_options keep oids now (i + 1) es
           (if do_id e \<noteq> [] then m(do_id e \<mapsto> nid) else m)
           (os @ [\<lparr>o_id = nid, o_text = txt, o_status = status, o_source = source,
                   o_merged = do_merged e, o_created = created\<rparr>]))"

text \<open>The second pass over the built options.\<close>

primrec remap_merged :: "(string \<rightharpoonup> string) \<Rightarrow> opt list \<Rightarrow> err + opt list" where
  "remap_merged m [] = Inr []"
| "remap_merged m (o' # os) =
     (if o_merged o' \<noteq> [] then
        (case m (o_merged o') of
           None \<Rightarrow> Inl (ErrBadDocument ''merge target'')
         | Some to \<Rightarrow> bindE (remap_merged m os) (\<lambda>os. Inr (o'\<lparr>o_merged := to\<rparr> # os)))
      else bindE (remap_merged m os) (\<lambda>os. Inr (o' # os)))"

primrec map_choices :: "(string \<rightharpoonup> string) \<Rightarrow> nat \<Rightarrow> string list \<Rightarrow> err + string list" where
  "map_choices m i [] = Inr []"
| "map_choices m i (c # cs) =
     (case m c of
        None \<Rightarrow> Inl (ErrDangling (i + 1) c)
      | Some to \<Rightarrow> bindE (map_choices m i cs) (\<lambda>cs. Inr (to # cs)))"

text \<open>\<open>held\<close> has exactly the identifiers already in \<open>r.Seen\<close>, the accumulator.\<close>

primrec map_seen :: "(string \<rightharpoonup> string) \<Rightarrow> nat \<Rightarrow> string list \<Rightarrow> string list \<Rightarrow> err + string list" where
  "map_seen m i held [] = Inr held"
| "map_seen m i held (s # ss) =
     (case m s of
        None \<Rightarrow> Inl (ErrDangling (i + 1) s)
      | Some to \<Rightarrow> map_seen m i (if to \<in> set held then held else held @ [to]) ss)"

primrec hold_choices :: "string list \<Rightarrow> string list \<Rightarrow> string list" where
  "hold_choices held [] = held"
| "hold_choices held (c # cs) = hold_choices (if c \<in> set held then held else held @ [c]) cs"

primrec restorable_from ::
  "(nat \<Rightarrow> string) \<Rightarrow> (string \<rightharpoonup> string) \<Rightarrow> nat \<Rightarrow> doc_response list \<Rightarrow> err + response list" where
  "restorable_from rids m i [] = Inr []"
| "restorable_from rids m i (r # rs) =
     (if dr_voter r = [] then Inl (ErrDangling (i + 1) ''voter'')
      else
        bindE (map_choices m i (dr_choices r)) (\<lambda>cs.
        bindE (map_seen m i [] (dr_seen r)) (\<lambda>ss.
        bindE (restorable_from rids m (i + 1) rs) (\<lambda>out.
        Inr (\<lparr>q_id = rids i, q_voter = dr_voter r, q_choices = cs, q_seen = hold_choices ss cs,
              q_comment = dr_comment r, q_created = dr_created r, q_updated = dr_updated r\<rparr> # out)))))"

definition doc_answers :: "document \<Rightarrow> doc_response list" where
  "doc_answers doc = (case doc_responses doc of None \<Rightarrow> [] | Some rs \<Rightarrow> rs)"

definition restorableResponses ::
  "(nat \<Rightarrow> string) \<Rightarrow> document \<Rightarrow> (string \<rightharpoonup> string) \<Rightarrow> err + response list" where
  "restorableResponses rids doc m = restorable_from rids m 0 (doc_answers doc)"

text \<open>A plain INSERT INTO responses: either constraint makes it fail.\<close>

definition insert_new_response :: "response_row \<Rightarrow> response_row list \<Rightarrow> err + response_row list" where
  "insert_new_response r t =
     (if r_id r \<in> r_id ` set t \<or> row_key r \<in> row_key ` set t then Inl (ErrUnique ''responses'')
      else Inr (t @ [r]))"

primrec insertResponses :: "string \<Rightarrow> response list \<Rightarrow> db \<Rightarrow> err + (unit \<times> db)" where
  "insertResponses sid [] d = Inr ((), d)"
| "insertResponses sid (r # rs) d =
     bindE (insert_new_response
         \<lparr>r_id = q_id r, r_survey = sid, r_voter = q_voter r, r_comment = q_comment r,
          r_created = q_created r, r_updated = q_updated r\<rparr> (responses d)) (\<lambda>t.
     bindE (insert_choices (q_id r) (q_choices r) (choices d)) (\<lambda>cs.
     insertResponses sid rs (d\<lparr>responses := t, choices := cs, seen := insertSeen (q_id r) (q_seen r) (seen d)\<rparr>)))"

definition restoreTx ::
  "string \<Rightarrow> (nat \<Rightarrow> string) \<Rightarrow> (nat \<Rightarrow> string) \<Rightarrow> time \<Rightarrow> document \<Rightarrow> bool \<Rightarrow> db \<Rightarrow> err + (survey \<times> db)" where
  "restoreTx nid oids rids now doc keepID d =
     bindE (checkDocHeader (doc_format doc) (doc_version doc)) (\<lambda>_.
     let b = doc_survey doc; title = TrimSpace (b_title b);
         typ = (if b_type b = [] then TypeThumbsUp else b_type b)
     in if title = [] then Inl ErrEmptyTitle
        else if typ \<noteq> TypeThumbsUp then Inl (ErrBadDocument ''type'')
        else if length (doc_answers doc) > 0 \<and> \<not> keepID then Inl (ErrRefused ''responses under a new survey ID'')
        else if keepID \<and> source_id doc = [] then Inl (ErrBadDocument ''source_id'')
        else if keepID \<and> loadSurvey d (source_id doc) \<noteq> None then Inl (ErrExists (source_id doc))
        else
          bindE (full_header doc (blank_survey (if keepID then source_id doc else nid) now typ title b)) (\<lambda>sv.
          bindE (restore_options keepID oids now 0 (b_options b) Map.empty []) (\<lambda>(os, optionID).
          bindE (remap_merged optionID os) (\<lambda>os.
          bindE (restorableResponses rids doc optionID) (\<lambda>rs.
          bindE (saveSurvey now d (sv\<lparr>options := os\<rparr>)) (\<lambda>(sv, d).
          bindE (insertResponses (sv_id sv) rs d) (\<lambda>(_, d). Inr (sv, d))))))))"

definition RestoreSurvey ::
  "string \<Rightarrow> (nat \<Rightarrow> string) \<Rightarrow> (nat \<Rightarrow> string) \<Rightarrow> time \<Rightarrow> document option \<Rightarrow> bool \<Rightarrow> store \<Rightarrow> (err + survey) \<times> store" where
  "RestoreSurvey nid oids rids now doc keepID s =
     (case doc of
        None \<Rightarrow> (Inl (ErrBadDocument ''none''), s)
      | Some doc \<Rightarrow> tx (restoreTx nid oids rids now doc keepID) s)"

section \<open>Files\<close>

text \<open>
  \<open>encode\<close> is the indented JSON encoder, \<open>decode_head\<close> the lenient decoding of the two header
  fields and \<open>decode\<close> the strict decoding of a document.
\<close>

definition WriteSurveyDocument :: "(document \<Rightarrow> string) \<Rightarrow> time \<Rightarrow> db \<Rightarrow> string \<Rightarrow> bool \<Rightarrow> err + string" where
  "WriteSurveyDocument encode now d i withResponses =
     bindE (SurveyDocument now d i withResponses) (\<lambda>doc. Inr (encode doc))"

definition ReadSurveyDocument ::
  "(string \<rightharpoonup> string \<times> int) \<Rightarrow> (string \<rightharpoonup> document) \<Rightarrow>
   string \<Rightarrow> (nat \<Rightarrow> string) \<Rightarrow> (nat \<Rightarrow> string) \<Rightarrow> time \<Rightarrow> string \<Rightarrow> bool \<Rightarrow> store \<Rightarrow> (err + survey) \<times> store" where
  "ReadSurveyDocument decode_head decode nid oids rids now body keepID s =
     (case decode_head body of
        None \<Rightarrow> (Inl (ErrBadDocument ''json''), s)
      | Some (format, version) \<Rightarrow>
          (case checkDocHeader format version of
             Inl e \<Rightarrow> (Inl e, s)
           | Inr _ \<Rightarrow>
               (case decode body of
                  None \<Rightarrow> (Inl (ErrBadDocument ''json''), s)
                | Some doc \<Rightarrow> RestoreSurvey nid oids rids now (Some doc) keepID s)))"


section \<open>Inserting restored answers\<close>

text \<open>What a restored answer must be so that the rows it adds keep the invariant.\<close>

definition answer_fits :: "survey \<Rightarrow> response \<Rightarrow> bool" where
  "answer_fits sv r =
     (distinct (q_choices r) \<and> distinct (q_seen r) \<and> set (q_choices r) \<subseteq> set (q_seen r) \<and>
      set (q_seen r) \<subseteq> o_id ` set (options sv))"

definition same_answer :: "response \<Rightarrow> response \<Rightarrow> bool" where
  "same_answer a b =
     (q_voter a = q_voter b \<and> q_choices a = q_choices b \<and> q_comment a = q_comment b \<and>
      q_created a = q_created b \<and> q_updated a = q_updated b \<and> set (q_seen a) = set (q_seen b))"

lemma no_votes_of_fresh:
  assumes "votes_ok d" and "i \<notin> r_id ` set (responses d)"
  shows "i \<notin> fst ` set (choices d)" "i \<notin> fst ` set (seen d)"
proof -
  show s: "i \<notin> fst ` set (seen d)"
    using assms by (force simp: votes_ok_def list_all_iff list_ex_iff)
  have "set (choices d) \<subseteq> set (seen d)" using assms(1) by (auto simp: votes_ok_def list_all_iff)
  with s show "i \<notin> fst ` set (choices d)" by blast
qed

lemma insert_one:
  assumes f: "q_id r \<notin> fst ` set (choices d)" "q_id r \<notin> fst ` set (seen d)"
    and i: "q_id r \<notin> r_id ` set (responses d)"
    and k: "lookup_by row_key (sid, q_voter r) (responses d) = None" and c: "distinct (q_choices r)"
  shows "insertResponses sid (r # rs) d = insertResponses sid rs (saved_db sid r d)"
proof -
  have "Pair (q_id r) ` set (q_choices r) \<inter> set (choices d) = {}" using f(1) by (auto, metis fst_conv imageI)
  then have cs: "insert_choices (q_id r) (q_choices r) (choices d) = Inr (choices d @ map (Pair (q_id r)) (q_choices r))"
    by (rule insert_choices_ok [OF c])
  have "filter (\<lambda>c. fst c \<noteq> q_id r) (choices d) = choices d"
    using f(1) by (intro filter_True) (metis imageI)
  with i k cs show ?thesis
    by (auto simp: insert_new_response_def saved_db_def insertSeen_unbatched row_key_def lookup_by_None_iff)
qed

lemma insertResponses_ok:
  assumes "db_ok d" and "loadSurvey d sid = Some sv"
    and "distinct (map q_id rs)" and "distinct (map q_voter rs)"
    and "q_id ` set rs \<inter> r_id ` set (responses d) = {}"
    and "\<And>r. r \<in> set rs \<Longrightarrow> lookup_by row_key (sid, q_voter r) (responses d) = None"
    and "\<And>r. r \<in> set rs \<Longrightarrow> answer_fits sv r"
  shows "\<exists>d'. insertResponses sid rs d = Inr ((), d') \<and> db_ok d' \<and> surveys d' = surveys d \<and> opts d' = opts d \<and>
    (\<forall>r\<in>set rs. \<exists>r'. loadResponse d' sid (q_voter r) True = Some r' \<and> same_answer r' r) \<and>
    (\<forall>s v w. s \<noteq> sid \<or> v \<notin> q_voter ` set rs \<longrightarrow> loadResponse d' s v w = loadResponse d s v w)"
  using assms
proof (induction rs arbitrary: d)
  case Nil
  then show ?case by simp
next
  case (Cons r rs)
  let ?d = "saved_db sid r d"
  have fit: "answer_fits sv r" and k: "lookup_by row_key (sid, q_voter r) (responses d) = None"
    and i: "q_id r \<notin> r_id ` set (responses d)"
    using Cons.prems(5-7) by auto
  have p: "placed d sid r" using k i by (simp add: placed_def)
  note dk = db_okD [OF Cons.prems(1)]
  have ok: "db_ok ?d"
    using fit by (intro saved_db_ok [OF Cons.prems(1) p Cons.prems(2)]) (auto simp: answer_fits_def)
  have l: "loadSurvey ?d sid = Some sv" using Cons.prems(2) loadSurvey_cong [of ?d d sid] by simp
  have rows: "r_id ` set (responses ?d) = insert (q_id r) (r_id ` set (responses d))"
    using k by (simp add: saved_db_def)
  have keys: "lookup_by row_key (sid, q_voter x) (responses ?d) = None" if "x \<in> set rs" for x
  proof -
    have "q_voter x \<in> q_voter ` set rs" using that by (rule imageI)
    then have "(sid, q_voter x) \<noteq> (sid, q_voter r)" using Cons.prems(4) by auto
    from saved_row_other [OF this] Cons.prems(6) [of x] that show ?thesis by simp
  qed
  have "\<exists>d'. insertResponses sid rs ?d = Inr ((), d') \<and> db_ok d' \<and> surveys d' = surveys ?d \<and> opts d' = opts ?d \<and>
    (\<forall>r\<in>set rs. \<exists>r'. loadResponse d' sid (q_voter r) True = Some r' \<and> same_answer r' r) \<and>
    (\<forall>s v w. s \<noteq> sid \<or> v \<notin> q_voter ` set rs \<longrightarrow> loadResponse d' s v w = loadResponse ?d s v w)"
    using Cons.prems keys ok l by (intro Cons.IH) (auto simp: rows)
  then obtain d' where d': "insertResponses sid rs ?d = Inr ((), d')" "db_ok d'" "surveys d' = surveys ?d"
      "opts d' = opts ?d" "\<forall>r\<in>set rs. \<exists>r'. loadResponse d' sid (q_voter r) True = Some r' \<and> same_answer r' r"
      "\<forall>s v w. s \<noteq> sid \<or> v \<notin> q_voter ` set rs \<longrightarrow> loadResponse d' s v w = loadResponse ?d s v w"
    by blast
  have "\<exists>r'. loadResponse ?d sid (q_voter r) True = Some r' \<and> same_answer r' r"
  proof -
    have "loadIDs (seen d) (q_id r) = []"
      using no_votes_of_fresh(2) [OF dk(3) i] by (force simp: loadIDs_def filter_empty_conv)
    with load_saved [OF p] fit show ?thesis by (auto simp: answer_fits_def same_answer_def)
  qed
  moreover have "q_voter r \<notin> q_voter ` set rs" using Cons.prems(4) by simp
  ultimately have new: "\<exists>r'. loadResponse d' sid (q_voter r) True = Some r' \<and> same_answer r' r"
    using d'(6) by simp
  have other: "loadResponse d' s v w = loadResponse d s v w" if "s \<noteq> sid \<or> v \<notin> q_voter ` set (r # rs)" for s v w
  proof -
    from that have "(s, v) \<noteq> (sid, q_voter r)" by auto
    from load_saved_other [OF dk(1) p this] d'(6) that show ?thesis by simp
  qed
  have "insertResponses sid (r # rs) d = Inr ((), d')"
    using insert_one [OF no_votes_of_fresh [OF dk(3) i] i k] fit d'(1) by (simp add: answer_fits_def)
  with d' new other show ?case by auto
qed


section \<open>Reading a full backup\<close>

text \<open>
  A survey in the form every operation of the program leaves it in: what a restore would
  normalise or refuse is already normal.
\<close>

definition option_normal :: "opt \<Rightarrow> bool" where
  "option_normal o' =
     (o_id o' \<noteq> [] \<and> o_text o' \<noteq> [] \<and> TrimSpace (o_text o') = o_text o' \<and>
      (o_source o' = ''writein'' \<or> o_source o' = ''editor'') \<and> o_created o' \<noteq> 0)"

definition survey_normal :: "survey \<Rightarrow> bool" where
  "survey_normal sv =
     (sv_id sv \<noteq> [] \<and> sv_type sv = TypeThumbsUp \<and> sv_title sv \<noteq> [] \<and> TrimSpace (sv_title sv) = sv_title sv \<and>
      TrimSpace (sv_desc sv) = sv_desc sv \<and> validState (sv_state sv) \<and> sv_created sv \<noteq> 0 \<and> sv_updated sv \<noteq> 0 \<and>
      length (options sv) \<le> maxOptions \<and> list_all option_normal (options sv))"

lemma restore_saved_options:
  assumes "list_all option_normal os" and "list_all opt_ok os"
  shows "restore_options True oids now i (map (document_option True) os) m acc =
    Inr (acc @ os, \<lambda>j. if j \<in> o_id ` set os then Some j else m j)"
  using assms
proof (induction os arbitrary: i m acc)
  case (Cons o' os)
  then have n: "option_normal o'" "opt_ok o'" by simp_all
  then have "o_status o' \<noteq> []" using statuses_nonempty by (auto simp: opt_ok_def validOptionStatus_def)
  with n Cons show ?case
    by (auto simp: document_option_def option_normal_def opt_ok_def Let_def IsZero_def fun_eq_iff)
qed simp

lemma merge_targets:
  assumes ok: "survey_ok sv" and o': "o' \<in> set (options sv)" "o_merged o' \<noteq> []"
  shows "o_merged o' \<in> o_id ` set (options sv)"
proof -
  have opt: "OptionOf sv (o_id o') = Some o'"
    using o'(1) survey_okD(1) [OF ok] by (simp add: OptionOf_def ids_unique_def lookup_by_mem)
  have f: "forwards o'" using survey_okD(2) [OF ok o'(1)] o'(2) by (simp add: forwards_def opt_ok_def)
  from survey_okD(3) [OF ok o'(1)] obtain n e where "leads sv n (o_id o') e" unfolding ends_iff by blast
  then obtain m where "leads sv m (o_merged o') e" using opt f by (cases rule: leads.cases) auto
  then obtain e' where "OptionOf sv (o_merged o') = Some e'" by (cases rule: leads.cases) auto
  from OptionOf_SomeD [OF this] show ?thesis by (metis imageI)
qed

lemma remap_identity:
  assumes "\<And>o'. o' \<in> set os \<Longrightarrow> o_merged o' \<noteq> [] \<Longrightarrow> m (o_merged o') = Some (o_merged o')"
  shows "remap_merged m os = Inr os"
  using assms by (induction os) simp_all

lemma map_choices_identity: "(\<And>c. c \<in> set cs \<Longrightarrow> m c = Some c) \<Longrightarrow> map_choices m i cs = Inr cs"
  by (induction cs) simp_all

lemma map_seen_identity:
  "(\<And>s. s \<in> set ss \<Longrightarrow> m s = Some s) \<Longrightarrow> distinct (held @ ss) \<Longrightarrow> map_seen m i held ss = Inr (held @ ss)"
  by (induction ss arbitrary: held) auto

lemma hold_choices_held: "set cs \<subseteq> set held \<Longrightarrow> hold_choices held cs = held"
  by (induction cs) auto

lemma restorable_saved:
  assumes "\<And>q. q \<in> set qs \<Longrightarrow> answer_fits sv q \<and> q_voter q \<noteq> []"
    and "\<And>j. j \<in> o_id ` set (options sv) \<Longrightarrow> m j = Some j"
  shows "\<exists>rs. restorable_from rids m i (map document_response qs) = Inr rs \<and>
    map q_id rs = map rids [i..<i + length qs] \<and> list_all2 same_answer rs qs \<and> list_all (answer_fits sv) rs"
  using assms(1)
proof (induction qs arbitrary: i)
  case Nil
  then show ?case by simp
next
  case (Cons q qs)
  then have q: "answer_fits sv q" "q_voter q \<noteq> []" by simp_all
  then have m: "\<And>c. c \<in> set (q_choices q) \<Longrightarrow> m c = Some c" "\<And>c. c \<in> set (q_seen q) \<Longrightarrow> m c = Some c"
    using assms(2) by (auto simp: answer_fits_def)
  from Cons obtain rs where rs: "restorable_from rids m (i + 1) (map document_response qs) = Inr rs"
    "map q_id rs = map rids [i + 1..<i + 1 + length qs]" "list_all2 same_answer rs qs" "list_all (answer_fits sv) rs"
    by (metis list.set_intros(2))
  let ?r = "q\<lparr>q_id := rids i\<rparr>"
  have "map_choices m i (q_choices q) = Inr (q_choices q)" using m(1) by (rule map_choices_identity)
  moreover have "map_seen m i [] (q_seen q) = Inr (q_seen q)"
    using map_seen_identity [of "q_seen q" m "[]"] m(2) q(1) by (simp add: answer_fits_def)
  moreover have "hold_choices (q_seen q) (q_choices q) = q_seen q"
    using q(1) by (intro hold_choices_held) (simp add: answer_fits_def)
  ultimately have "restorable_from rids m i (map document_response (q # qs)) = Inr (?r # rs)"
    using q(2) rs(1) by (simp add: document_response_def)
  moreover have "map rids [i..<i + length (q # qs)] = rids i # map rids [i + 1..<i + 1 + length qs]"
    using upt_conv_Cons [of i "i + length (q # qs)"] by simp
  moreover have "same_answer ?r q" "answer_fits sv ?r" using q(1) by (simp_all add: same_answer_def answer_fits_def)
  ultimately show ?case using rs by (intro exI [of _ "?r # rs"]) simp
qed


section \<open>Counting restored answers\<close>

lemma loaded_answers:
  assumes k: "keys_ok d"
  shows "q \<in> set (Responses d sid) \<longleftrightarrow> loadResponse d sid (q_voter q) True = Some q"
proof
  show "q \<in> set (Responses d sid) \<Longrightarrow> loadResponse d sid (q_voter q) True = Some q"
    using Responses_voter_iff k by blast
  assume q: "loadResponse d sid (q_voter q) True = Some q"
  from loadResponse_row [OF q] obtain r :: response_row where
    "r \<in> set (responses d)" "row_key r = (sid, q_voter q)" by blast
  then have r: "r \<in> set (rows_of d sid)" "r_voter r = q_voter q" unfolding set_rows_of row_key_def by simp_all
  then have "loadResponse d sid (r_voter r) True \<in> set (map (\<lambda>r. loadResponse d sid (r_voter r) True) (rows_of d sid))"
    unfolding list.set_map by (intro imageI)
  then have "Some q \<in> set (map Some (Responses d sid))" using q r(2) by (simp add: Responses_loaded [OF k])
  then show "q \<in> set (Responses d sid)" by auto
qed

lemma answers_counted:
  assumes k: "keys_ok d"
  shows "length (filter P (Responses d sid)) = card {v. \<exists>q. loadResponse d sid v True = Some q \<and> P q}"
proof -
  have "map q_voter (Responses d sid) = map r_voter (rows_of d sid)"
    by (simp add: Responses_eq bare_response_def)
  then have "distinct (map q_voter (filter P (Responses d sid)))"
    using distinct_voters [OF k, of sid] by (metis map_distinct_filter)
  then have "length (filter P (Responses d sid)) = card (q_voter ` {q \<in> set (Responses d sid). P q})"
    by (metis distinct_card length_map list.set_map set_filter)
  moreover have "q_voter ` {q \<in> set (Responses d sid). P q} = {v. \<exists>q. loadResponse d sid v True = Some q \<and> P q}"
  proof (rule set_eqI)
    fix v
    have "q_voter q = v" if "loadResponse d sid v True = Some q" for q using loadResponse_row [OF that] by blast
    then show "v \<in> q_voter ` {q \<in> set (Responses d sid). P q} \<longleftrightarrow>
        v \<in> {v. \<exists>q. loadResponse d sid v True = Some q \<and> P q}"
      unfolding loaded_answers [OF k] by blast
  qed
  ultimately show ?thesis by simp
qed

lemma same_answer_hits:
  "same_answer a b \<Longrightarrow> hits sv (q_choices a) t = hits sv (q_choices b) t"
  "same_answer a b \<Longrightarrow> hits sv (q_seen a) t = hits sv (q_seen b) t"
  by (simp add: same_answer_def, rule hits_same_set, simp add: same_answer_def)

lemma same_tally:
  assumes k: "keys_ok d" "keys_ok d'" and l: "loadSurvey d sid = Some sv" "loadSurvey d' sid = Some sv"
    and same: "\<And>v. rel_option same_answer (loadResponse d' sid v True) (loadResponse d sid v True)"
  shows "computeTally d' sid = computeTally d sid"
proof -
  have ex: "(\<exists>q. loadResponse d' sid v True = Some q \<and> P q) \<longleftrightarrow> (\<exists>q. loadResponse d sid v True = Some q \<and> P q)"
    if "\<And>a b. same_answer a b \<Longrightarrow> P a = P b" for P v
    using same [of v] that by (cases rule: option.rel_cases) auto
  have v: "voters_for sv (Responses d' sid) t = voters_for sv (Responses d sid) t" for t
    unfolding voters_for_def answers_counted [OF k(1)] answers_counted [OF k(2)]
    by (intro arg_cong [where f = card] Collect_cong ex same_answer_hits(1))
  have s: "shown_to sv (Responses d' sid) t = shown_to sv (Responses d sid) t" for t
    unfolding shown_to_def answers_counted [OF k(1)] answers_counted [OF k(2)]
    by (intro arg_cong [where f = card] Collect_cong ex same_answer_hits(2))
  have "length (filter (\<lambda>_. True) (Responses d' sid)) = length (filter (\<lambda>_. True) (Responses d sid))"
    unfolding answers_counted [OF k(1)] answers_counted [OF k(2)]
    by (intro arg_cong [where f = card] Collect_cong ex refl)
  then have n: "Count d' sid = Count d sid" by (simp add: length_Responses)
  from computeTally_eq [OF l(1)] computeTally_eq [OF l(2)] obtain c s0 c' s' where
    t: "computeTally d sid = (sortResultsByVotes (map (result_row c s0 (Count d sid))
          (filter (\<lambda>o'. o_status o' = OptApproved) (options sv))), Count d sid)"
       "computeTally d' sid = (sortResultsByVotes (map (result_row c' s' (Count d' sid))
          (filter (\<lambda>o'. o_status o' = OptApproved) (options sv))), Count d' sid)"
    and c: "\<forall>t. get0 c t = voters_for sv (Responses d sid) t" "\<forall>t. get0 s0 t = shown_to sv (Responses d sid) t"
      "\<forall>t. get0 c' t = voters_for sv (Responses d' sid) t" "\<forall>t. get0 s' t = shown_to sv (Responses d' sid) t"
    by blast
  have "result_row c' s' m o' = result_row c s0 m o'" for m o'
    using c v s by (simp add: result_row_def)
  then have "result_row c' s' m = result_row c s0 m" for m by (rule ext)
  with t n show ?thesis by simp
qed


section \<open>Putting back what was deleted\<close>

lemma backup_document:
  assumes l: "loadSurvey d sid = Some sv" and r: "SurveyDocument t d sid True = Inr doc"
  shows "doc_format doc = docFormat" "doc_version doc = docVersion" "source_id doc = sid"
    "b_type (doc_survey doc) = sv_type sv" "b_title (doc_survey doc) = sv_title sv"
    "b_options (doc_survey doc) = map (document_option True) (options sv)"
    "doc_answers doc = map document_response (Responses d sid)"
    "survey_normal sv \<Longrightarrow> full_header doc (blank_survey sid now (sv_type sv) (sv_title sv) (doc_survey doc)) = Inr (sv\<lparr>options := []\<rparr>)"
proof -
  note id = loadSurvey_id [OF l]
  have doc: "doc = \<lparr>doc_format = docFormat, doc_version = docVersion, doc_exported = t, source_id = sid,
      doc_survey = \<lparr>b_type = sv_type sv, b_title = sv_title sv, b_desc = sv_desc sv,
        b_show_results = show_results sv, b_allow_write_in = allow_write_in sv,
        b_allow_comment = allow_comment sv, b_no_randomize = no_randomize sv,
        b_options = map (document_option True) (options sv), b_state = sv_state sv, b_close_at = close_at sv,
        b_first_opened_at = first_opened_at sv, b_created = sv_created sv, b_updated = sv_updated sv\<rparr>,
      doc_responses = Some (map document_response (Responses d sid))\<rparr>"
    using r by (simp add: SurveyDocument_def l Let_def id)
  show "doc_format doc = docFormat" "doc_version doc = docVersion" "source_id doc = sid"
    "b_type (doc_survey doc) = sv_type sv" "b_title (doc_survey doc) = sv_title sv"
    "b_options (doc_survey doc) = map (document_option True) (options sv)"
    "doc_answers doc = map document_response (Responses d sid)"
    by (simp_all add: doc doc_answers_def)
  show "survey_normal sv \<Longrightarrow> full_header doc (blank_survey sid now (sv_type sv) (sv_title sv) (doc_survey doc)) = Inr (sv\<lparr>options := []\<rparr>)"
    using id states_nonempty states_nonempty [symmetric] unfolding doc
    by (cases sv) (auto simp: full_header_def Full_def blank_survey_def survey_normal_def validState_def IsZero_def Let_def)
qed

lemma emptied_grows:
  assumes ok: "db_ok d" and l: "loadSurvey d sid = Some sv" and r: "DeleteSurvey sid d = Inr ((), d1)"
  shows "grows d1 sv"
proof -
  note d = db_okD [OF ok] and id = loadSurvey_id [OF l]
  note tr = DeleteSurvey_traces [OF ok r]
  have "o_survey x \<noteq> sid" if "x \<in> set (opts d1)" for x :: option_row
    using tr(2) imageI [OF that, of o_survey] by metis
  then have "owned d1 sid = []" by (simp add: owned_def filter_empty_conv)
  then have old: "loadOptions d1 (sv_id sv) = []" by (simp add: id loadOptions_def)
  have "o_id o' \<notin> o_id ` set (opts d1)" if o': "o' \<in> set (options sv)" for o'
  proof
    assume "o_id o' \<in> o_id ` set (opts d1)"
    then obtain r1 where r1: "r1 \<in> set (opts d1)" "o_id r1 = o_id o'" by auto
    with r have "r1 \<in> set (opts d)" "o_survey r1 \<noteq> sid" by (auto simp: DeleteSurvey_def split: if_splits)
    moreover obtain r2 where "r2 \<in> set (opts d)" "o_id r2 = o_id o'" "o_survey r2 = sid"
      using option_owner [OF l d(1)] o' by fastforce
    ultimately show False using r1(2) keys_okD(2) [OF d(1)] by (metis lookup_by_mem option.inject)
  qed
  moreover have "ids_unique sv" using surveys_ok_load [OF d(5) l] by (rule survey_okD(1))
  moreover have "sv_id s \<noteq> sv_id sv" if "s \<in> set (surveys d1)" for s
    using tr(1) that id by (metis imageI)
  ultimately show ?thesis by (simp add: grows_def old list_all_iff)
qed

lemma DeleteSurvey_answers:
  assumes ok: "db_ok d" and r: "DeleteSurvey i d = Inr ((), d1)"
  shows "loadResponse d1 s v w = (if s = i then None else loadResponse d s v w)"
proof -
  note d = db_okD [OF ok]
  from r have d1: "responses d1 = filter (\<lambda>r. r_survey r \<noteq> i) (responses d)"
    "choices d1 = filter (\<lambda>c. fst c \<notin> r_id ` set (filter (\<lambda>r. r_survey r = i) (responses d))) (choices d)"
    "seen d1 = filter (\<lambda>c. fst c \<notin> r_id ` set (filter (\<lambda>r. r_survey r = i) (responses d))) (seen d)"
    by (auto simp: DeleteSurvey_def delete_responses_def Let_def split: if_splits)
  show ?thesis
  proof (cases "s = i")
    case True
    then have "lookup_by row_key (s, v) (responses d1) = None" by (auto simp: d1 lookup_by_None_iff row_key_def)
    with True show ?thesis by (simp add: loadResponse_def)
  next
    case False
    then have row: "lookup_by row_key (s, v) (responses d1) = lookup_by row_key (s, v) (responses d)"
      unfolding d1 by (intro lookup_filter_other) (auto simp: row_key_def)
    have ids: "loadIDs (filter (\<lambda>c. fst c \<notin> r_id ` set (filter (\<lambda>r. r_survey r = i) (responses d))) t) (r_id r) = loadIDs t (r_id r)"
      if "lookup_by row_key (s, v) (responses d) = Some r" for r t
    proof -
      from lookup_by_SomeD [OF that] False have "r \<in> set (responses d)" "r_survey r \<noteq> i" by (auto simp: row_key_def)
      then have "r_id r \<notin> r_id ` set (filter (\<lambda>r. r_survey r = i) (responses d))"
        using same_row [OF d(1)] by fastforce
      then show ?thesis unfolding loadIDs_def by (auto simp: filter_filter intro!: arg_cong [where f = "map snd"] filter_cong)
    qed
    with False show ?thesis by (auto simp: loadResponse_def row d1(2,3) split: option.split)
  qed
qed


text \<open>Reading by voter what was restored answer by answer.\<close>

lemma same_voters: "list_all2 same_answer rs qs \<Longrightarrow> map q_voter rs = map q_voter qs"
  by (induction rule: list_all2_induct) (simp_all add: same_answer_def)

lemma same_loaded:
  assumes k: "keys_ok d" and same: "list_all2 same_answer rs (Responses d sid)"
    and some: "\<forall>r\<in>set rs. \<exists>r'. loadResponse d3 sid (q_voter r) True = Some r' \<and> same_answer r' r"
    and none: "\<And>v. v \<notin> q_voter ` set rs \<Longrightarrow> loadResponse d3 sid v True = None"
  shows "rel_option same_answer (loadResponse d3 sid v True) (loadResponse d sid v True)"
proof (cases "v \<in> q_voter ` set rs")
  case True
  then obtain r where r: "r \<in> set rs" "q_voter r = v" by blast
  from same r(1) obtain q where q: "q \<in> set (Responses d sid)" "same_answer r q"
    by (metis list_all2_conv_all_nth in_set_conv_nth)
  then have "loadResponse d sid v True = Some q" using loaded_answers [OF k] r(2) by (simp add: same_answer_def)
  moreover obtain r' where "loadResponse d3 sid v True = Some r'" "same_answer r' r" using some r by blast
  ultimately show ?thesis using q(2) by (simp add: same_answer_def)
next
  case False
  have "loadResponse d sid v True = None"
  proof (rule ccontr)
    assume "loadResponse d sid v True \<noteq> None"
    then obtain q where q: "loadResponse d sid v True = Some q" by auto
    then have v: "q_voter q = v" using loadResponse_row by blast
    with q have "q \<in> set (Responses d sid)" using loaded_answers [OF k] by simp
    then have "q_voter q \<in> set (map q_voter rs)" unfolding same_voters [OF same] by simp
    with v False show False by simp
  qed
  with none [OF False] show ?thesis by simp
qed

text \<open>The answers of a survey, as its full backup restores them.\<close>

lemma restored_answers:
  assumes ok: "db_ok d" and l: "loadSurvey d sid = Some sv"
    and voters: "\<And>q. q \<in> set (Responses d sid) \<Longrightarrow> q_voter q \<noteq> []" and inj: "inj rids"
  obtains rs where
    "restorable_from rids (\<lambda>j. if j \<in> o_id ` set (options sv) then Some j else None) 0
       (map document_response (Responses d sid)) = Inr rs"
    "list_all2 same_answer rs (Responses d sid)" "list_all (answer_fits sv) rs"
    "distinct (map q_id rs)" "distinct (map q_voter rs)" "q_id ` set rs \<subseteq> range rids"
proof -
  note k = db_okD(1) [OF ok]
  have fits: "answer_fits sv q \<and> q_voter q \<noteq> []" if q: "q \<in> set (Responses d sid)" for q
  proof -
    have lq: "loadResponse d sid (q_voter q) True = Some q" using q loaded_answers [OF k] by simp
    with voters [OF q] prev_facts [OF ok l lq] show ?thesis by (simp add: answer_fits_def)
  qed
  obtain rs where rs: "restorable_from rids (\<lambda>j. if j \<in> o_id ` set (options sv) then Some j else None) 0
      (map document_response (Responses d sid)) = Inr rs"
    "map q_id rs = map rids [0..<length (Responses d sid)]" "list_all2 same_answer rs (Responses d sid)"
    "list_all (answer_fits sv) rs"
    using restorable_saved [where sv = sv and rids = rids and i = 0 and qs = "Responses d sid"
        and m = "\<lambda>j. if j \<in> o_id ` set (options sv) then Some j else None"] fits by auto
  have "distinct (map q_voter rs)"
    using distinct_voters [OF k, of sid] by (simp add: same_voters [OF rs(3)] Responses_eq bare_response_def comp_def)
  moreover have "distinct (map q_id rs)" using rs(2) inj by (simp add: distinct_map inj_on_def inj_def)
  moreover have "q_id ` set rs \<subseteq> range rids" using rs(2) by (metis image_mono list.set_map subset_UNIV)
  ultimately show thesis using that rs by blast
qed

text \<open>The whole round trip: save a full backup, delete the survey, restore under its identifier.\<close>

lemma restoreTx_backup:
  assumes ok: "db_ok d" and l: "loadSurvey d sid = Some sv" and n: "survey_normal sv"
    and doc: "SurveyDocument t d sid True = Inr doc" and del: "DeleteSurvey sid d = Inr ((), d1)"
    and voters: "\<And>q. q \<in> set (Responses d sid) \<Longrightarrow> q_voter q \<noteq> []"
    and rids: "inj rids" "range rids \<inter> r_id ` set (responses d) = {}" and now: "now \<noteq> 0"
  obtains d2 where "restoreTx nid oids rids now doc True d1 = Inr (sv, d2)" "db_ok d2"
    "loadSurvey d2 sid = Some sv" "\<forall>s. s \<noteq> sid \<longrightarrow> loadSurvey d2 s = loadSurvey d s"
    "\<forall>v. rel_option same_answer (loadResponse d2 sid v True) (loadResponse d sid v True)"
    "\<forall>s v w. s \<noteq> sid \<longrightarrow> loadResponse d2 s v w = loadResponse d s v w"
proof -
  note d = db_okD [OF ok] and id = loadSurvey_id [OF l] and bd = backup_document [OF l doc]
  have so: "survey_ok sv" using d(5) l by (rule surveys_ok_load)
  have ok1: "db_ok d1" by (rule DeleteSurvey_db_ok [OF ok del])
  note d1 = db_okD [OF ok1]
  have gone: "loadSurvey d1 sid = None" using DeleteSurvey_load [OF del] by simp
  have g: "grows d1 sv" by (rule emptied_grows [OF ok l del])
  let ?ids = "o_id ` set (options sv)" and ?m = "\<lambda>j. if j \<in> o_id ` set (options sv) then Some j else None"
  have opts: "list_all option_normal (options sv)" "list_all opt_ok (options sv)"
    using n survey_okD(2) [OF so] by (simp_all add: survey_normal_def list_all_iff)
  have os: "restore_options True oids now 0 (map (document_option True) (options sv)) Map.empty [] = Inr (options sv, ?m)"
    using restore_saved_options [OF opts, of oids now 0 Map.empty "[]"] by simp
  have merged: "remap_merged ?m (options sv) = Inr (options sv)"
    using merge_targets [OF so] by (intro remap_identity) simp
  obtain rs where rs: "restorable_from rids ?m 0 (map document_response (Responses d sid)) = Inr rs"
    "list_all2 same_answer rs (Responses d sid)" "list_all (answer_fits sv) rs"
    "distinct (map q_id rs)" "distinct (map q_voter rs)" "q_id ` set rs \<subseteq> range rids"
    using restored_answers [OF ok l voters rids(1)] by blast
  have st: "stamp_opened now sv = sv"
    using opened_ok_load [OF d(4) l] by (auto simp: stamp_opened_def IsZero_def)
  obtain d2 where save: "saveSurvey now d1 sv = Inr (sv, d2)"
    using n st by (simp add: saveSurvey_def survey_normal_def)
  note f = saveSurvey_rest [OF save] and fr = save_frame [OF save]
  have ok2: "db_ok d2" by (rule saveSurvey_db_ok [OF ok1 g so now save])
  have l2: "loadSurvey d2 sid = Some sv"
    using save_then_load [OF d1(1) grows_savable [OF d1(1) g] save] id by simp
  have "set (responses d2) \<subseteq> set (responses d)"
    using f(5) del by (auto simp: DeleteSurvey_def split: if_splits)
  with rs(6) have fi: "q_id ` set rs \<inter> r_id ` set (responses d2) = {}" using rids(2) by blast
  have none: "lookup_by row_key (sid, v) (responses d2) = None" for v
    using DeleteSurvey_answers [OF ok del, of sid v True] f(5) by (simp add: loadResponse_None)
  obtain d3 where d3: "insertResponses sid rs d2 = Inr ((), d3)" "db_ok d3" "surveys d3 = surveys d2" "opts d3 = opts d2"
    "\<forall>r\<in>set rs. \<exists>r'. loadResponse d3 sid (q_voter r) True = Some r' \<and> same_answer r' r"
    "\<forall>s v w. s \<noteq> sid \<or> v \<notin> q_voter ` set rs \<longrightarrow> loadResponse d3 s v w = loadResponse d2 s v w"
    using insertResponses_ok [OF ok2 l2 rs(4,5) fi none] rs(3) unfolding list_all_iff by blast
  have nn: "TrimSpace (sv_title sv) = sv_title sv" "sv_title sv \<noteq> []" "sv_type sv = TypeThumbsUp" "TypeThumbsUp \<noteq> []" "sid \<noteq> []"
    using n id by (simp_all add: survey_normal_def TypeThumbsUp_def)
  have r: "restoreTx nid oids rids now doc True d1 = Inr (sv, d3)"
    using bd(8) [OF n, of now] nn gone os merged rs(1) save d3(1) id
    by (simp add: restoreTx_def bd(1-7) checkDocHeader_def docVersion_def restorableResponses_def Let_def)
  have other: "loadResponse d3 s v w = loadResponse d1 s v w" if "s \<noteq> sid \<or> v \<notin> q_voter ` set rs" for s v w
    using d3(6) that loadResponse_cong [OF f(5,6,7)] by simp
  have none3: "loadResponse d3 sid v True = None" if "v \<notin> q_voter ` set rs" for v
    using other that DeleteSurvey_answers [OF ok del, of sid v True] by simp
  note rel = same_loaded [OF d(1) rs(2) d3(5) none3]
  have l3: "loadSurvey d3 s = loadSurvey d2 s" for s by (rule loadSurvey_cong [OF d3(3,4)])
  show thesis
  proof (rule that [OF r d3(2)])
    show "loadSurvey d3 sid = Some sv" using l3 l2 by simp
    show "\<forall>s. s \<noteq> sid \<longrightarrow> loadSurvey d3 s = loadSurvey d s"
      using l3 fr DeleteSurvey_load [OF del] id by simp
    show "\<forall>v. rel_option same_answer (loadResponse d3 sid v True) (loadResponse d sid v True)" by (intro allI rel)
    show "\<forall>s v w. s \<noteq> sid \<longrightarrow> loadResponse d3 s v w = loadResponse d s v w"
      using other DeleteSurvey_answers [OF ok del] by simp
  qed
qed


section \<open>Restoring any document\<close>

text \<open>
  A document comes from outside, so nothing may be assumed of it. These facts hold of every
  restore that succeeds.
\<close>

definition rows_owned :: "db \<Rightarrow> bool" where
  "rows_owned d =
     (fst ` set (choices d) \<subseteq> r_id ` set (responses d) \<and> fst ` set (seen d) \<subseteq> r_id ` set (responses d) \<and>
      set (choices d) \<subseteq> set (seen d))"

lemma db_ok_rows_owned: "db_ok d \<Longrightarrow> rows_owned d"
proof -
  assume "db_ok d"
  then have v: "votes_ok d" by (rule db_okD)
  then have "set (choices d) \<subseteq> set (seen d)" by (auto simp: votes_ok_def list_all_iff)
  moreover have "fst ` set (choices d) \<subseteq> r_id ` set (responses d)" "fst ` set (seen d) \<subseteq> r_id ` set (responses d)"
    using no_votes_of_fresh [OF v] by blast+
  ultimately show ?thesis by (simp add: rows_owned_def)
qed

lemma restoreTx_cases:
  assumes "restoreTx nid oids rids now doc keep d = Inr (sv', d')"
  obtains sv os0 m os rs d1 where
    "checkDocHeader (doc_format doc) (doc_version doc) = Inr ()" "TrimSpace (b_title (doc_survey doc)) \<noteq> []"
    "keep \<or> doc_answers doc = []" "keep \<Longrightarrow> source_id doc \<noteq> [] \<and> loadSurvey d (source_id doc) = None"
    "restore_options keep oids now 0 (b_options (doc_survey doc)) Map.empty [] = Inr (os0, m)"
    "remap_merged m os0 = Inr os" "restorable_from rids m 0 (doc_answers doc) = Inr rs"
    "saveSurvey now d (sv\<lparr>options := os\<rparr>) = Inr (sv', d1)"
    "insertResponses (sv_id sv') rs d1 = Inr ((), d')" "sv_id sv' = (if keep then source_id doc else nid)"
    "sv_id sv = sv_id sv'" "full_header doc (blank_survey (sv_id sv') now TypeThumbsUp (TrimSpace (b_title (doc_survey doc))) (doc_survey doc)) = Inr sv"
proof -
  let ?i = "if keep then source_id doc else nid"
  have hid: "full_header doc s = Inr s' \<Longrightarrow> sv_id s' = sv_id s" for s s'
    by (auto simp: full_header_def Let_def split: if_splits)
  let ?b = "doc_survey doc" and ?t = "TrimSpace (b_title (doc_survey doc))"
  have a: "checkDocHeader (doc_format doc) (doc_version doc) = Inr ()" "?t \<noteq> []"
    "keep \<or> doc_answers doc = []" "keep \<Longrightarrow> source_id doc \<noteq> [] \<and> loadSurvey d (source_id doc) = None"
    and rest: "bindE (full_header doc (blank_survey ?i now TypeThumbsUp ?t ?b)) (\<lambda>sv.
          bindE (restore_options keep oids now 0 (b_options ?b) Map.empty []) (\<lambda>(os, optionID).
          bindE (remap_merged optionID os) (\<lambda>os.
          bindE (restorableResponses rids doc optionID) (\<lambda>rs.
          bindE (saveSurvey now d (sv\<lparr>options := os\<rparr>)) (\<lambda>(sv, d).
          bindE (insertResponses (sv_id sv) rs d) (\<lambda>(_, d). Inr (sv, d))))))) = Inr (sv', d')"
    using assms by (simp_all add: restoreTx_def Let_def split: if_split_asm)
  from rest obtain sv os0 m where h: "full_header doc (blank_survey ?i now TypeThumbsUp ?t ?b) = Inr sv"
    and o0: "restore_options keep oids now 0 (b_options ?b) Map.empty [] = Inr (os0, m)"
    and rest: "bindE (remap_merged m os0) (\<lambda>os.
          bindE (restorableResponses rids doc m) (\<lambda>rs.
          bindE (saveSurvey now d (sv\<lparr>options := os\<rparr>)) (\<lambda>(sv, d).
          bindE (insertResponses (sv_id sv) rs d) (\<lambda>(_, d). Inr (sv, d))))) = Inr (sv', d')"
    by (simp only: bindE_eq_Inr split_paired_Ex prod.case) blast
  from rest obtain os rs s1 d1 where r: "remap_merged m os0 = Inr os" "restorable_from rids m 0 (doc_answers doc) = Inr rs"
    "saveSurvey now d (sv\<lparr>options := os\<rparr>) = Inr (s1, d1)"
    and rest: "bindE (insertResponses (sv_id s1) rs d1) (\<lambda>(_, d). Inr (s1, d)) = Inr (sv', d')"
    by (simp only: bindE_eq_Inr split_paired_Ex prod.case restorableResponses_def) blast
  from rest have s: "s1 = sv'" "insertResponses (sv_id sv') rs d1 = Inr ((), d')" by auto
  note r = r [unfolded s]
  have i: "sv_id sv' = sv_id sv" "sv_id sv = ?i"
    using saveSurvey_cases [OF r(3)] hid [OF h] by (simp_all add: blank_survey_def)
  with that [OF a o0 r s(2)] h show thesis by simp
qed

lemma insert_choices_cases:
  "insert_choices rid ids t = Inr t' \<Longrightarrow> distinct ids \<and> Pair rid ` set ids \<inter> set t = {}"
proof (induction ids arbitrary: t)
  case (Cons i ids)
  then have "(rid, i) \<notin> set t" "distinct ids \<and> Pair rid ` set ids \<inter> set (t @ [(rid, i)]) = {}"
    using Cons.IH [of "t @ [(rid, i)]"] by (simp_all split: if_splits)
  then show ?case by auto
qed simp

lemma hold_choices_set: "set (hold_choices held cs) = set held \<union> set cs"
  by (induction cs arbitrary: held) auto

lemma restorable_votes_seen:
  "restorable_from rids m i drs = Inr rs \<Longrightarrow> r \<in> set rs \<Longrightarrow> set (q_choices r) \<subseteq> set (q_seen r)"
proof (induction drs arbitrary: i rs)
  case (Cons dr drs)
  then obtain cs ss out where "restorable_from rids m (i + 1) drs = Inr out"
    "rs = \<lparr>q_id = rids i, q_voter = dr_voter dr, q_choices = cs, q_seen = hold_choices ss cs,
        q_comment = dr_comment dr, q_created = dr_created dr, q_updated = dr_updated dr\<rparr> # out"
    by (auto split: if_splits)
  with Cons show ?case by (auto simp: hold_choices_set)
qed simp

lemma insertResponses_frame:
  assumes "insertResponses sid rs d = Inr ((), d')" and "keys_ok d" and "rows_owned d"
    and "\<And>r. r \<in> set rs \<Longrightarrow> set (q_choices r) \<subseteq> set (q_seen r)"
  shows "keys_ok d' \<and> rows_owned d' \<and> surveys d' = surveys d \<and> opts d' = opts d \<and> users d' = users d \<and>
    (\<forall>s v w. s \<noteq> sid \<longrightarrow> loadResponse d' s v w = loadResponse d s v w) \<and>
    r_survey ` set (responses d') \<subseteq> insert sid (r_survey ` set (responses d))"
  using assms
proof (induction rs arbitrary: d)
  case Nil
  then show ?case by auto
next
  case (Cons r rs)
  from Cons.prems(1) obtain cs where i: "q_id r \<notin> r_id ` set (responses d)"
    and k: "lookup_by row_key (sid, q_voter r) (responses d) = None"
    and cs: "insert_choices (q_id r) (q_choices r) (choices d) = Inr cs"
    by (auto simp: insert_new_response_def lookup_by_None_iff row_key_def split: if_splits)
  note c = insert_choices_cases [OF cs]
  have p: "placed d sid r" using i k by (simp add: placed_def)
  have fresh: "q_id r \<notin> fst ` set (choices d)" "q_id r \<notin> fst ` set (seen d)"
    using i Cons.prems(3) by (auto simp: rows_owned_def)
  have step: "insertResponses sid rs (saved_db sid r d) = Inr ((), d')"
    using Cons.prems(1) unfolding insert_one [OF fresh i k conjunct1 [OF c]] .
  have keys: "keys_ok (saved_db sid r d)" using saved_db_keys [OF Cons.prems(2) p] c by simp
  have cd: "set (choices (saved_db sid r d)) \<subseteq> set (choices d) \<union> Pair (q_id r) ` set (q_choices r)"
    "set (seen (saved_db sid r d)) = set (seen d) \<union> Pair (q_id r) ` set (q_seen r)"
    "responses (saved_db sid r d) = responses d @ [\<lparr>r_id = q_id r, r_survey = sid, r_voter = q_voter r,
       r_comment = q_comment r, r_created = q_created r, r_updated = q_updated r\<rparr>]"
    using k by (auto simp: saved_db_def set_insert_ignore)
  have own: "rows_owned (saved_db sid r d)"
  proof -
    have f: "fst ` set (choices (saved_db sid r d)) \<subseteq> insert (q_id r) (fst ` set (choices d))"
      "fst ` set (seen (saved_db sid r d)) \<subseteq> insert (q_id r) (fst ` set (seen d))"
      using cd(1,2) by auto
    have b: "r_id ` set (responses (saved_db sid r d)) = insert (q_id r) (r_id ` set (responses d))"
      unfolding cd(3) by simp
    have "Pair (q_id r) ` set (q_choices r) \<subseteq> Pair (q_id r) ` set (q_seen r)"
      using Cons.prems(4) [of r] by (intro image_mono) simp
    moreover have "set (choices d) \<subseteq> set (seen d)" using Cons.prems(3) by (simp add: rows_owned_def)
    ultimately have c: "set (choices (saved_db sid r d)) \<subseteq> set (seen (saved_db sid r d))"
      unfolding cd(2) by (intro order_trans [OF cd(1)] Un_mono)
    have old: "fst ` set (choices d) \<subseteq> r_id ` set (responses d)" "fst ` set (seen d) \<subseteq> r_id ` set (responses d)"
      using Cons.prems(3) by (simp_all add: rows_owned_def)
    show ?thesis
      unfolding rows_owned_def b
      by (intro conjI c order_trans [OF f(1)] order_trans [OF f(2)] insert_mono old)
  qed
  have other: "loadResponse (saved_db sid r d) s v w = loadResponse d s v w" if "s \<noteq> sid" for s v w
    using load_saved_other [OF Cons.prems(2) p] that by blast
  have "r_survey ` set (responses (saved_db sid r d)) = insert sid (r_survey ` set (responses d))"
    unfolding cd(3) by simp
  moreover have "\<And>x. x \<in> set rs \<Longrightarrow> set (q_choices x) \<subseteq> set (q_seen x)" using Cons.prems(4) by simp
  note IH = Cons.IH [OF step keys own this]
  ultimately show ?case using other by simp
qed


text \<open>What \<open>restore_options\<close> makes of a definition's options: approved ones under fresh identifiers.\<close>

lemma restore_definition_options:
  assumes "list_all option_normal os"
  shows "\<exists>os'. restore_options False oids now i (map (document_option False) os) m acc = Inr (acc @ os', m) \<and>
    map o_id os' = map oids [i..<i + length os] \<and> map o_text os' = map o_text os \<and> map o_source os' = map o_source os \<and>
    list_all (\<lambda>o'. o_status o' = OptApproved \<and> o_merged o' = [] \<and> o_created o' = now) os'"
  using assms
proof (induction os arbitrary: i acc)
  case Nil
  then show ?case by simp
next
  case (Cons o' os)
  let ?new = "\<lparr>o_id = oids i, o_text = o_text o', o_status = OptApproved, o_source = o_source o', o_merged = [], o_created = now\<rparr>"
  from Cons.prems have "list_all option_normal os" by simp
  from Cons.IH [OF this] obtain os' where os': "restore_options False oids now (i + 1) (map (document_option False) os) m (acc @ [?new]) =
      Inr ((acc @ [?new]) @ os', m)" "map o_id os' = map oids [i + 1..<i + 1 + length os]"
    "map o_text os' = map o_text os" "map o_source os' = map o_source os"
    "list_all (\<lambda>o'. o_status o' = OptApproved \<and> o_merged o' = [] \<and> o_created o' = now) os'"
    by blast
  have "restore_options False oids now i (map (document_option False) (o' # os)) m acc = Inr (acc @ (?new # os'), m)"
    using Cons.prems os'(1) by (auto simp: document_option_def option_normal_def Let_def IsZero_def validOptionStatus_def)
  moreover have "map oids [i..<i + length (o' # os)] = oids i # map oids [i + 1..<i + 1 + length os]"
    using upt_conv_Cons [of i "i + length (o' # os)"] by simp
  ultimately show ?case using os' by (intro exI [of _ "?new # os'"]) simp
qed

lemma definition_document:
  assumes l: "loadSurvey d sid = Some sv" and r: "SurveyDocument t d sid False = Inr doc"
  shows "doc_format doc = docFormat" "doc_version doc = docVersion" "b_type (doc_survey doc) = sv_type sv"
    "b_title (doc_survey doc) = sv_title sv" "doc_answers doc = []" "\<not> Full doc"
    "b_options (doc_survey doc) = map (document_option False) (filter (\<lambda>o'. o_status o' = OptApproved) (options sv))"
    "b_desc (doc_survey doc) = sv_desc sv" "b_show_results (doc_survey doc) = show_results sv"
    "b_allow_write_in (doc_survey doc) = allow_write_in sv" "b_allow_comment (doc_survey doc) = allow_comment sv"
    "b_no_randomize (doc_survey doc) = no_randomize sv"
  using r by (auto simp: SurveyDocument_def l Let_def doc_answers_def Full_def)

lemma restoreTx_definition:
  assumes ok: "db_ok d" and l: "loadSurvey d sid = Some sv" and n: "survey_normal sv"
    and doc: "SurveyDocument t d sid False = Inr doc" and fr: "fresh_ids d nid oids" and now: "now \<noteq> 0"
  obtains sv' d' where "restoreTx nid oids rids now doc False d = Inr (sv', d')" "db_ok d'" "loadSurvey d' nid = Some sv'"
    "sv_state sv' = StateDraft" "first_opened_at sv' = 0" "close_at sv' = 0" "sv_title sv' = sv_title sv"
    "map o_text (options sv') = map o_text (filter (\<lambda>o'. o_status o' = OptApproved) (options sv))"
    "list_all (\<lambda>o'. o_status o' = OptApproved \<and> o_merged o' = []) (options sv')"
    "responses d' = responses d" "choices d' = choices d" "seen d' = seen d"
    "\<And>s. s \<noteq> nid \<Longrightarrow> loadSurvey d' s = loadSurvey d s"
proof -
  note d = db_okD [OF ok] and dd = definition_document [OF l doc]
  let ?os = "filter (\<lambda>o'. o_status o' = OptApproved) (options sv)"
  have on: "list_all option_normal ?os" using n by (auto simp: survey_normal_def list_all_iff)
  obtain os' where os: "restore_options False oids now 0 (map (document_option False) ?os) Map.empty [] = Inr (os', Map.empty)"
    "map o_id os' = map oids [0..<length ?os]" "map o_text os' = map o_text ?os"
    "list_all (\<lambda>o'. o_status o' = OptApproved \<and> o_merged o' = [] \<and> o_created o' = now) os'"
    using restore_definition_options [OF on, of oids now 0 Map.empty "[]"] by auto
  let ?sv = "(blank_survey nid now TypeThumbsUp (sv_title sv) (doc_survey doc))\<lparr>options := os'\<rparr>"
  have st: "stamp_opened now ?sv = ?sv" by (simp add: stamp_opened_def blank_survey_def)
  have "length os' = length ?os" using os(3) by (metis length_map)
  then have len: "length os' \<le> maxOptions"
    using n length_filter_le [of "\<lambda>o'. o_status o' = OptApproved" "options sv"] unfolding survey_normal_def by linarith
  then obtain d' where save: "saveSurvey now d ?sv = Inr (?sv, d')" using st by (simp add: saveSurvey_def Let_def)
  have ids: "set (map o_id os') \<subseteq> range oids" using os(2) by auto
  have u: "ids_unique ?sv" using os(2) fr by (simp add: ids_unique_def fresh_ids_def distinct_map inj_on_def inj_def)
  have old: "owned d nid = []"
    using d(2) fr by (force simp: owned_def filter_empty_conv refs_ok_def list_all_iff fresh_ids_def)
  have g: "grows d ?sv"
    using u fr ids old
    by (auto simp: grows_def Let_def blank_survey_def loadOptions_def list_all_iff fresh_ids_def)
  have so: "survey_ok ?sv" by (rule survey_ok_plain [OF u]) (use os(4) in \<open>simp add: list_all_iff\<close>)
  have r: "restoreTx nid oids rids now doc False d = Inr (?sv, d')"
    using dd n os(1,4) save remap_identity [of os' Map.empty]
    by (simp add: restoreTx_def checkDocHeader_def docVersion_def restorableResponses_def Let_def survey_normal_def
        full_header_def list_all_iff)
  show thesis
  proof (rule that [OF r])
    show "db_ok d'" by (rule saveSurvey_db_ok [OF ok g so now save])
    show "loadSurvey d' nid = Some ?sv"
      using save_then_load [OF d(1) grows_savable [OF d(1) g] save] by (simp add: blank_survey_def)
    show "loadSurvey d' s = loadSurvey d s" if "s \<noteq> nid" for s
      using save_frame [OF save] that by (simp add: blank_survey_def)
  qed (use os saveSurvey_rest [OF save] in \<open>simp_all add: blank_survey_def list_all_iff\<close>)
qed


section \<open>Every survey of the program can be saved and restored\<close>

lemma CreateSurvey_normal:
  assumes r: "CreateSurvey nid ids now title desc texts d = Inr (sv, d')" and now: "now \<noteq> 0"
    and ids: "nid \<noteq> []" "\<And>k. ids k \<noteq> []" and new: "owned d nid = []"
  shows "survey_normal sv"
proof -
  let ?sv = "\<lparr>sv_id = nid, sv_type = TypeThumbsUp, sv_title = TrimSpace title, sv_desc = TrimSpace desc,
         sv_state = StateDraft, show_results = False, allow_write_in = True, allow_comment = True,
         no_randomize = False, close_at = 0, first_opened_at = 0, sv_created = now, sv_updated = now,
         options = mk_options ids 0 now texts\<rparr>"
  from r have t: "TrimSpace title \<noteq> []" and s: "saveSurvey now d ?sv = Inr (sv, d')"
    by (auto simp: CreateSurvey_def Let_def split: if_splits)
  have sv: "sv = ?sv" and len: "length (mk_options ids 0 now texts) \<le> maxOptions"
    using saveSurvey_cases [OF s] new by (auto simp: stamp_opened_def)
  have "option_normal o'" if "o' \<in> set (mk_options ids k now texts)" for o' k
    using that now ids by (induction texts arbitrary: k) (auto simp: Let_def option_normal_def TrimSpace_idem split: if_splits)
  then show ?thesis
    using t now ids len by (simp add: sv survey_normal_def TrimSpace_idem validState_def list_all_iff)
qed

lemma survey_normal_modify:
  assumes "survey_normal sv" and "\<And>o'. option_normal o' \<Longrightarrow> option_normal (f o')"
  shows "survey_normal (sv\<lparr>options := modify_by o_id i f (options sv)\<rparr>)"
  using assms by (auto simp: survey_normal_def list_all_iff set_modify_by modify_by_def)

lemma SetOptionStatus_normal:
  assumes "survey_normal sv" and "ids_unique sv" and "SetOptionStatus sv i status into = Inr sv'"
  shows "survey_normal sv'"
  using SetOptionStatus_cases [OF assms(3,2)] survey_normal_modify [OF assms(1)]
  by (auto simp: option_normal_def)

lemma publish_edit_normal: "survey_normal sv \<Longrightarrow> now \<noteq> 0 \<Longrightarrow> survey_normal (publish_edit now sv)"
  by (simp add: publish_edit_def survey_normal_def validState_def Let_def)

section \<open>Properties\<close>

text \<open>
  C16. Putting back what was deleted: a full backup of a survey restores, after the survey was
  deleted, under its old identifier to exactly the survey it was; every respondent has exactly the answer
  they had, so nobody can answer twice; the tally is the same to the last vote; no other survey
  is touched; and the invariant of the database holds.
\<close>

theorem backup_undoes_deletion:
  assumes ok: "db_ok d" and l: "loadSurvey d sid = Some sv" and n: "survey_normal sv"
    and doc: "SurveyDocument t d sid True = Inr doc" and del: "DeleteSurvey sid d = Inr ((), d1)"
    and voters: "\<forall>q\<in>set (Responses d sid). q_voter q \<noteq> []"
    and rids: "inj rids" "range rids \<inter> r_id ` set (responses d) = {}" and now: "now \<noteq> 0"
  shows "\<exists>d2. restoreTx nid oids rids now doc True d1 = Inr (sv, d2) \<and> loadSurvey d2 sid = Some sv \<and>
    (\<forall>v. rel_option same_answer (ResponseFor d2 sid v) (ResponseFor d sid v)) \<and>
    computeTally d2 sid = computeTally d sid \<and>
    (\<forall>s. s \<noteq> sid \<longrightarrow> loadSurvey d2 s = loadSurvey d s \<and> (\<forall>v. ResponseFor d2 s v = ResponseFor d s v)) \<and> db_ok d2"
proof -
  obtain d2 where r: "restoreTx nid oids rids now doc True d1 = Inr (sv, d2)" "db_ok d2" "loadSurvey d2 sid = Some sv"
    "\<forall>s. s \<noteq> sid \<longrightarrow> loadSurvey d2 s = loadSurvey d s"
    "\<forall>v. rel_option same_answer (loadResponse d2 sid v True) (loadResponse d sid v True)"
    "\<forall>s v w. s \<noteq> sid \<longrightarrow> loadResponse d2 s v w = loadResponse d s v w"
    by (rule restoreTx_backup [OF ok l n doc del bspec [OF voters] rids now, of nid oids])
  have "computeTally d2 sid = computeTally d sid"
    using db_okD(1) [OF ok] db_okD(1) [OF r(2)] l r(3) spec [OF r(5)] by (rule same_tally)
  with r show ?thesis by (auto simp: ResponseFor_def)
qed

lemma demo_rids: "inj (\<lambda>k. ''n'' @ replicate k (CHR ''x''))"
  "range (\<lambda>k. ''n'' @ replicate k (CHR ''x'')) \<inter> r_id ` set (responses demo_db) = {}"
  by (auto simp: inj_def demo_db_def dest: arg_cong [where f = length])

theorem backup_undoes_deletion_witness:
  "\<exists>doc d1 d2. SurveyDocument 50 demo_db ''s1'' True = Inr doc \<and> DeleteSurvey ''s1'' demo_db = Inr ((), d1) \<and>
     restoreTx [] (\<lambda>_. []) (\<lambda>k. ''n'' @ replicate k (CHR ''x'')) 60 doc True d1 = Inr (demo_survey, d2) \<and>
     computeTally d2 ''s1'' = computeTally demo_db ''s1''"
proof -
  obtain doc where doc: "SurveyDocument 50 demo_db ''s1'' True = Inr doc"
    by (simp add: SurveyDocument_def demo_db_loads Let_def)
  have "\<not> isl (DeleteSurvey ''s1'' demo_db)" by code_simp
  then obtain d1 where del: "DeleteSurvey ''s1'' demo_db = Inr ((), d1)" by (cases "DeleteSurvey ''s1'' demo_db") auto
  have n: "survey_normal demo_survey" by code_simp
  have v: "\<forall>q\<in>set (Responses demo_db ''s1''). q_voter q \<noteq> []"
    by (auto simp: Responses_eq bare_response_def set_rows_of demo_db_def)
  have "(60 :: time) \<noteq> 0" by simp
  from backup_undoes_deletion [OF demo_db_ok demo_db_loads n doc del v demo_rids this, of "[]" "\<lambda>_. []"]
  obtain d2 where "restoreTx [] (\<lambda>_. []) (\<lambda>k. ''n'' @ replicate k (CHR ''x'')) 60 doc True d1 = Inr (demo_survey, d2)"
    "computeTally d2 ''s1'' = computeTally demo_db ''s1''" by (elim exE conjE)
  with doc del show ?thesis by (intro exI conjI)
qed

text \<open>
  C39. Restoring cannot harm what is there, whatever the file holds: a restore that succeeds made
  a survey that did not exist, left every other survey, every other answer and every account as
  it was, broke no key or reference, recorded no vote without its exposure, and restored answers
  only under the survey's own identifier.
\<close>

theorem restore_disturbs_nothing:
  assumes ok: "db_ok d" and fresh: "loadSurvey d nid = None" and now: "now \<noteq> 0"
    and r: "restoreTx nid oids rids now doc keepID d = Inr (sv, d')"
  shows "loadSurvey d (sv_id sv) = None \<and>
    (\<forall>s. s \<noteq> sv_id sv \<longrightarrow> loadSurvey d' s = loadSurvey d s \<and> (\<forall>v. ResponseFor d' s v = ResponseFor d s v)) \<and>
    users d' = users d \<and> keys_ok d' \<and> refs_ok d' \<and> opened_ok d' \<and> set (choices d') \<subseteq> set (seen d') \<and>
    (doc_answers doc \<noteq> [] \<longrightarrow> sv_id sv = source_id doc)"
  using r
proof (cases rule: restoreTx_cases)
  case (1 sv0 os0 m os rs d1)
  note d = db_okD [OF ok] and save = 1(8) and ins = 1(9)
  note f = saveSurvey_rest [OF save] and k = saveSurvey_keys [OF d(1) save]
  have id: "sv_id (sv0\<lparr>options := os\<rparr>) = sv_id sv" using 1(11) by simp
  have own: "rows_owned d1" using db_ok_rows_owned [OF ok] by (simp add: rows_owned_def f)
  have i: "keys_ok d'" "rows_owned d'" "surveys d' = surveys d1" "opts d' = opts d1" "users d' = users d1"
    "\<And>s v w. s \<noteq> sv_id sv \<Longrightarrow> loadResponse d' s v w = loadResponse d1 s v w"
    "r_survey ` set (responses d') \<subseteq> insert (sv_id sv) (r_survey ` set (responses d1))"
    using insertResponses_frame [OF ins k(1) own restorable_votes_seen [OF 1(7)]] by blast+
  have rf: "refs_ok d1" by (rule saveSurvey_refs [OF d(1,2) save])
  have "r_survey ` set (responses d1) \<subseteq> sv_id ` set (surveys d1)"
    using rf by (auto simp: refs_ok_def list_all_iff)
  moreover have "sv_id sv \<in> sv_id ` set (surveys d1)" using k(2) id by simp
  ultimately have "insert (sv_id sv) (r_survey ` set (responses d1)) \<subseteq> sv_id ` set (surveys d1)" by simp
  with i(7) have "r_survey ` set (responses d') \<subseteq> sv_id ` set (surveys d1)" by (rule order_trans)
  then have "r_survey q \<in> sv_id ` set (surveys d')" if "q \<in> set (responses d')" for q
    using imageI [OF that, of r_survey] unfolding i(3) by (rule subsetD)
  moreover have "o_survey o' \<in> sv_id ` set (surveys d')" if "o' \<in> set (opts d')" for o'
    using that rf unfolding i(3,4) by (simp add: refs_ok_def list_all_iff)
  ultimately have "refs_ok d'" by (simp add: refs_ok_def list_all_iff)
  moreover have "opened_ok d'" using saveSurvey_opened [OF d(4) save now] i(3) by (simp add: opened_ok_def)
  moreover have "loadSurvey d' s = loadSurvey d s" if "s \<noteq> sv_id sv" for s
    using loadSurvey_cong [OF i(3,4), of s] save_frame [OF save] that id by simp
  moreover have "loadResponse d' s v w = loadResponse d s v w" if "s \<noteq> sv_id sv" for s v w
    using i(6) [OF that] loadResponse_cong [OF f(5,6,7)] by simp
  moreover have "loadSurvey d (sv_id sv) = None" using 1(4,10) fresh by (auto split: if_splits)
  ultimately show ?thesis
    using i(1,2,5) f(2) 1(3,10) by (auto simp: ResponseFor_def rows_owned_def)
qed

theorem restore_disturbs_nothing_witness:
  "\<exists>doc sv d'. SurveyDocument 50 demo_db ''s1'' False = Inr doc \<and>
     restoreTx ''s3'' (\<lambda>k. ''n'' @ replicate k (CHR ''x'')) (\<lambda>_. []) 60 doc False demo_db = Inr (sv, d') \<and>
     loadSurvey d' ''s2'' = loadSurvey demo_db ''s2''"
proof -
  let ?r = "\<lambda>doc. restoreTx ''s3'' (\<lambda>k. ''n'' @ replicate k (CHR ''x'')) (\<lambda>_. []) 60 doc False demo_db"
  have "case SurveyDocument 50 demo_db ''s1'' False of Inl _ \<Rightarrow> False
      | Inr doc \<Rightarrow> (case ?r doc of Inl _ \<Rightarrow> False | Inr (sv, d') \<Rightarrow> sv_id sv = ''s3'')" by code_simp
  then obtain doc sv d' where doc: "SurveyDocument 50 demo_db ''s1'' False = Inr doc"
    and r: "?r doc = Inr (sv, d')" "sv_id sv = ''s3''" by (auto split: sum.splits prod.splits)
  have "loadSurvey demo_db ''s3'' = None" by code_simp
  moreover have "(60 :: time) \<noteq> 0" by simp
  ultimately have "loadSurvey d' ''s2'' = loadSurvey demo_db ''s2''"
    using restore_disturbs_nothing [OF demo_db_ok _ _ r(1)] r(2) by simp
  with doc r show ?thesis by blast
qed

text \<open>
  A definition carries nothing of the respondents: restored under a fresh identifier it is a
  new draft with the approved options of the original in order, never opened and without an
  answer, and nothing that was there changes.
\<close>

theorem definition_becomes_draft:
  assumes ok: "db_ok d" and l: "loadSurvey d sid = Some sv" and n: "survey_normal sv"
    and doc: "SurveyDocument t d sid False = Inr doc" and fr: "fresh_ids d nid oids" and now: "now \<noteq> 0"
  shows "\<exists>sv' d'. restoreTx nid oids rids now doc False d = Inr (sv', d') \<and> loadSurvey d' nid = Some sv' \<and>
    sv_state sv' = StateDraft \<and> first_opened_at sv' = 0 \<and> (\<forall>now. \<not> Accepting sv' now) \<and> sv_title sv' = sv_title sv \<and>
    map o_text (options sv') = map o_text (filter (\<lambda>o'. o_status o' = OptApproved) (options sv)) \<and>
    Ballot sv' [] = options sv' \<and> Count d' nid = 0 \<and> responses d' = responses d \<and>
    (\<forall>s. s \<noteq> nid \<longrightarrow> loadSurvey d' s = loadSurvey d s) \<and> db_ok d'"
proof -
  obtain sv' d' where r: "restoreTx nid oids rids now doc False d = Inr (sv', d')" "db_ok d'" "loadSurvey d' nid = Some sv'"
    "sv_state sv' = StateDraft" "first_opened_at sv' = 0" "close_at sv' = 0" "sv_title sv' = sv_title sv"
    "map o_text (options sv') = map o_text (filter (\<lambda>o'. o_status o' = OptApproved) (options sv))"
    "list_all (\<lambda>o'. o_status o' = OptApproved \<and> o_merged o' = []) (options sv')"
    "responses d' = responses d" "choices d' = choices d" "seen d' = seen d"
    "\<And>s. s \<noteq> nid \<Longrightarrow> loadSurvey d' s = loadSurvey d s"
    using restoreTx_definition [OF ok l n doc fr now] by blast
  have "r_survey q \<noteq> nid" if "q \<in> set (responses d)" for q
    using db_okD(2) [OF ok] fr that by (auto simp: refs_ok_def list_all_iff fresh_ids_def)
  then have "Count d' nid = 0" by (simp add: Count_def r(10) filter_empty_conv)
  moreover have "filter (\<lambda>o'. o_status o' = OptApproved) (options sv') = options sv'"
    using r(9) by (intro filter_True) (auto simp: list_all_iff)
  then have "Ballot sv' [] = options sv'" using r(9) by (simp add: Ballot_def list_all_iff filter_empty_conv)
  ultimately show ?thesis using r by (auto simp: Accepting_def)
qed

theorem definition_becomes_draft_witness:
  "\<exists>doc sv d'. SurveyDocument 50 demo_db ''s1'' False = Inr doc \<and>
     restoreTx ''s3'' (\<lambda>k. ''n'' @ replicate k (CHR ''x'')) (\<lambda>_. []) 60 doc False demo_db = Inr (sv, d') \<and>
     sv_state sv = StateDraft"
proof -
  obtain doc where doc: "SurveyDocument 50 demo_db ''s1'' False = Inr doc"
    by (simp add: SurveyDocument_def demo_db_loads Let_def)
  have n: "survey_normal demo_survey" by code_simp
  have fr: "fresh_ids demo_db ''s3'' (\<lambda>k. ''n'' @ replicate k (CHR ''x''))"
  proof -
    have "\<forall>i\<in>o_id ` set (opts demo_db). hd i \<noteq> CHR ''n''" "''s3'' \<notin> sv_id ` set (surveys demo_db)" by code_simp+
    then have "o_id o' \<noteq> ''n'' @ replicate k (CHR ''x'')" if "o' \<in> set (opts demo_db)" for o' k
      using that by (metis append_Cons imageI list.sel(1))
    then have "range (\<lambda>k. ''n'' @ replicate k (CHR ''x'')) \<inter> o_id ` set (opts demo_db) = {}" by (metis (no_types, lifting) disjoint_iff imageE)
    with demo_rids(1) \<open>''s3'' \<notin> sv_id ` set (surveys demo_db)\<close> show ?thesis
      unfolding fresh_ids_def by (intro conjI)
  qed
  have "(60 :: time) \<noteq> 0" by simp
  from definition_becomes_draft [OF demo_db_ok demo_db_loads n doc fr this] doc show ?thesis by blast
qed

section \<open>What a document can carry\<close>

text \<open>
  The merge pointers of a document are only checked to point inside it: a full backup edited into
  a cycle restores, and the votes in the cycle count for nothing. \<open>SetOptionStatus\<close> can never
  build one.
\<close>

definition cyclic_document :: document where
  "cyclic_document =
     \<lparr>doc_format = docFormat, doc_version = 2, doc_exported = 1, source_id = ''z'',
      doc_survey = \<lparr>b_type = [], b_title = ''T'', b_desc = [], b_show_results = False, b_allow_write_in = False,
        b_allow_comment = False, b_no_randomize = False,
        b_options = [\<lparr>do_text = ''x'', do_source = [], do_id = ''p'', do_status = OptMerged, do_merged = ''q'', do_created = 1\<rparr>,
                     \<lparr>do_text = ''y'', do_source = [], do_id = ''q'', do_status = OptMerged, do_merged = ''p'', do_created = 1\<rparr>],
        b_state = StateOpen, b_close_at = 0, b_first_opened_at = 1, b_created = 1, b_updated = 1\<rparr>,
      doc_responses = Some []\<rparr>"

lemma restore_accepts_cycle:
  "case restoreTx ''n'' (\<lambda>_. []) (\<lambda>_. []) 5 cyclic_document True demo_db of
     Inl _ \<Rightarrow> False | Inr (sv, d') \<Rightarrow> \<not> survey_ok sv \<and> \<not> snd (Resolve sv ''p'')"
  by code_simp

end
