(* ===== verification/Migrate.thy ===== *)
theory Migrate
  imports Integrity
begin

text \<open>
  The upgrade of an old database (\<open>internal/store/store.go\<close>: \<open>backfillSeen\<close>, \<open>surveyIDsAfter\<close>,
  \<open>backfillSeenForSurvey\<close>, \<open>loadOrCreateSecret\<close>). The backfill gives answers recorded before
  exposures were stored a seen set, one survey per transaction, and is started by every process
  that opens the store; it may be killed anywhere and started again, by several processes at once.
  The main result: whatever the history, an uninterrupted run completes it with exactly the
  intended rows, and afterwards every vote has its exposure.
\<close>

section \<open>The meta table\<close>

definition meta_get :: "string \<Rightarrow> db \<Rightarrow> string option" where
  "meta_get k d = map_option snd (lookup_by fst k (meta d))"

text \<open>\<open>INSERT OR REPLACE\<close> and \<open>DELETE\<close> by key.\<close>

definition meta_put :: "string \<Rightarrow> string \<Rightarrow> db \<Rightarrow> db" where
  "meta_put k v d = d\<lparr>meta := filter (\<lambda>p. fst p \<noteq> k) (meta d) @ [(k, v)]\<rparr>"

definition meta_delete :: "string \<Rightarrow> db \<Rightarrow> db" where
  "meta_delete k d = d\<lparr>meta := filter (\<lambda>p. fst p \<noteq> k) (meta d)\<rparr>"

text \<open>\<open>fresh\<close> are the 32 bytes read from the random source when no key is stored yet.\<close>

definition loadOrCreateSecret :: "string \<Rightarrow> db \<Rightarrow> string \<times> db" where
  "loadOrCreateSecret fresh d =
     (case meta_get ''secret'' d of
        Some secret \<Rightarrow> if length secret \<ge> 32 then (secret, d) else (fresh, meta_put ''secret'' fresh d)
      | None \<Rightarrow> (fresh, meta_put ''secret'' fresh d))"

section \<open>The backfill\<close>

text \<open>The rows one survey's statement selects, in the order of the join.\<close>

definition selected :: "db \<Rightarrow> response_row \<Rightarrow> option_row \<Rightarrow> bool" where
  "selected d r o' =
     (o_survey o' = r_survey r \<and>
      ((o_status o' \<noteq> OptPending \<and> o_status o' \<noteq> OptRejected) \<or>
       list_ex (\<lambda>c. fst c = r_id r \<and> snd c = o_id o') (choices d)))"

definition backfill_rows :: "string \<Rightarrow> db \<Rightarrow> (string \<times> string) list" where
  "backfill_rows sid d =
     concat (map (\<lambda>r. map (\<lambda>o'. (r_id r, o_id o')) (filter (selected d r) (opts d)))
       (filter (\<lambda>r. r_survey r = sid) (responses d)))"

primrec insert_rows :: "(string \<times> string) list \<Rightarrow> (string \<times> string) list \<Rightarrow> (string \<times> string) list" where
  "insert_rows [] t = t"
| "insert_rows (p # ps) t = insert_rows ps (if p \<in> set t then t else t @ [p])"

definition backfill_done :: "db \<Rightarrow> bool" where
  "backfill_done d = (length (filter (\<lambda>p. fst p = ''seen_backfilled'') (meta d)) > 0)"

definition backfillSeenForSurvey :: "string \<Rightarrow> db \<Rightarrow> err + (nat \<times> db)" where
  "backfillSeenForSurvey sid d =
     (if backfill_done d then Inl ErrBackfillDone
      else let t = insert_rows (backfill_rows sid d) (seen d)
           in Inr (length t - length (seen d), meta_put ''seen_backfilled_through'' sid (d\<lparr>seen := t\<rparr>)))"

definition surveyIDsAfter :: "string \<Rightarrow> db \<Rightarrow> string list" where
  "surveyIDsAfter through d = sort (filter (\<lambda>i. through < i) (map sv_id (surveys d)))"

text \<open>The loop over the surveys: \<open>None\<close> when another process finished first, else the total.\<close>

fun backfill_loop :: "string list \<Rightarrow> nat \<Rightarrow> store \<Rightarrow> (err + nat option) \<times> store" where
  "backfill_loop [] tot s = (Inr (Some tot), s)"
| "backfill_loop (i # is) tot s =
     (case tx (backfillSeenForSurvey i) s of
        (Inl e, s) \<Rightarrow> if e = ErrBackfillDone then (Inr None, s) else (Inl e, s)
      | (Inr n, s) \<Rightarrow> backfill_loop is (tot + n) s)"

definition mark_done :: "string \<Rightarrow> db \<Rightarrow> err + (unit \<times> db)" where
  "mark_done stamp d =
     Inr ((), meta_delete ''seen_backfilled_through'' (meta_put ''seen_backfilled'' stamp d))"

definition backfill_todo :: "db \<Rightarrow> string list" where
  "backfill_todo d =
     surveyIDsAfter (case meta_get ''seen_backfilled_through'' d of None \<Rightarrow> [] | Some v \<Rightarrow> v) d"

definition backfillSeen :: "string \<Rightarrow> store \<Rightarrow> (err + unit) \<times> store" where
  "backfillSeen stamp s =
     (if backfill_done (sdb s) then (Inr (), s)
      else case backfill_loop (backfill_todo (sdb s)) 0 s of
        (Inl e, s) \<Rightarrow> (Inl e, s)
      | (Inr None, s) \<Rightarrow> (Inr (), s)
      | (Inr (Some tot), s) \<Rightarrow> tx (mark_done stamp) s)"

section \<open>Columns added since the first release\<close>

text \<open>The shape of the stored tables: each with its columns and their declarations.\<close>

type_synonym shape = "(string \<times> (string \<times> string) list) list"

definition addedColumns :: "(string \<times> string \<times> string) list" where
  "addedColumns = [(''users'', ''sessions_from'', ''TEXT'')]"

definition ensureColumn :: "string \<Rightarrow> string \<Rightarrow> string \<Rightarrow> shape \<Rightarrow> shape" where
  "ensureColumn table column decl sh =
     (if list_ex (\<lambda>(t, cs). t = table \<and> column \<in> set (map fst cs)) sh then sh
      else map (\<lambda>(t, cs). (t, if t = table then cs @ [(column, decl)] else cs)) sh)"

definition migrate_columns :: "shape \<Rightarrow> shape" where
  "migrate_columns sh = fold (\<lambda>(t, c, decl). ensureColumn t c decl) addedColumns sh"

section \<open>Opening the store\<close>

text \<open>\<open>migrate\<close> followed by \<open>loadOrCreateSecret\<close>, which writes without a transaction of its own.\<close>

definition open_store :: "string \<Rightarrow> string \<Rightarrow> store \<Rightarrow> (err + string) \<times> store" where
  "open_store stamp fresh s =
     (case backfillSeen stamp s of
        (Inl e, s) \<Rightarrow> (Inl e, s)
      | (Inr _, s) \<Rightarrow>
          let (secret, d) = loadOrCreateSecret fresh (sdb s) in (Inr secret, s\<lparr>sdb := d\<rparr>))"

section \<open>Several processes\<close>

text \<open>
  The processes that are upgrading one database: each has the surveys it still has to do. A step
  is one read or transaction of one of them; a process may be killed between any two. The first check
  for completion is a read of its own that another process may outdate before the list of surveys is
  read, so \<open>start\<close> does not rely on it.
\<close>

record upgrade =
  udb :: db
  running :: "string list list"

inductive upgrade_step :: "upgrade \<Rightarrow> upgrade \<Rightarrow> bool" where
  start: "upgrade_step u (u\<lparr>running := backfill_todo (udb u) # running u\<rparr>)"
| survey: "running u = ps @ (i # is) # qs \<Longrightarrow> backfillSeenForSurvey i (udb u) = Inr (n, d') \<Longrightarrow>
    upgrade_step u (u\<lparr>udb := d', running := ps @ is # qs\<rparr>)"
| lost: "running u = ps @ (i # is) # qs \<Longrightarrow> backfillSeenForSurvey i (udb u) = Inl ErrBackfillDone \<Longrightarrow>
    upgrade_step u (u\<lparr>running := ps @ qs\<rparr>)"
| finish: "running u = ps @ [] # qs \<Longrightarrow> mark_done stamp (udb u) = Inr ((), d') \<Longrightarrow>
    upgrade_step u (u\<lparr>udb := d', running := ps @ qs\<rparr>)"
| kill: "running u = ps @ p # qs \<Longrightarrow> upgrade_step u (u\<lparr>running := ps @ qs\<rparr>)"

inductive_cases upgrade_stepE: "upgrade_step u u'"

section \<open>What is filled in\<close>

lemma set_insert_rows: "set (insert_rows ps t) = set ps \<union> set t"
  by (induction ps arbitrary: t) auto

lemma insert_rows_shape: "distinct t \<Longrightarrow> distinct (insert_rows ps t) \<and> length t \<le> length (insert_rows ps t)"
proof (induction ps arbitrary: t)
  case (Cons p ps)
  show ?case
  proof (cases "p \<in> set t")
    case False
    with Cons.prems Cons.IH [of "t @ [p]"] show ?thesis by auto
  qed (use Cons in simp)
qed simp

lemma meta_simps [simp]:
  "meta_get k (meta_put k v d) = Some v" "k \<noteq> j \<Longrightarrow> meta_get j (meta_put k v d) = meta_get j d"
  "meta_get k (meta_delete k d) = None" "k \<noteq> j \<Longrightarrow> meta_get j (meta_delete k d) = meta_get j d"
  by (auto simp: meta_get_def meta_put_def meta_delete_def lookup_by_None_iff lookup_filter_other split: option.splits)

lemma backfill_done_iff: "backfill_done d \<longleftrightarrow> meta_get ''seen_backfilled'' d \<noteq> None"
  by (force simp: backfill_done_def meta_get_def lookup_by_None_iff filter_empty_conv)

text \<open>Everything but \<open>seen\<close> and \<open>meta\<close>: what the upgrade never touches.\<close>

definition untouched :: "db \<Rightarrow> db \<Rightarrow> bool" where
  "untouched d d' =
     (users d' = users d \<and> invites d' = invites d \<and> resets d' = resets d \<and> surveys d' = surveys d \<and>
      opts d' = opts d \<and> responses d' = responses d \<and> choices d' = choices d)"

lemma untouched_simps:
  assumes "untouched d d'"
  shows "surveys d' = surveys d" "opts d' = opts d" "responses d' = responses d" "choices d' = choices d" "users d' = users d"
  using assms by (simp_all add: untouched_def)

lemma untouched_refl [simp]: "untouched d d"
  by (simp add: untouched_def)

lemma untouched_meta [simp]: "untouched d (meta_put k v d') = untouched d d'" "untouched d (meta_delete k d') = untouched d d'"
  "untouched d (d'\<lparr>seen := t\<rparr>) = untouched d d'"
  by (simp_all add: untouched_def meta_put_def meta_delete_def)

lemma seen_meta [simp]: "seen (meta_put k v d) = seen d" "seen (meta_delete k d) = seen d"
  "surveys (meta_put k v d) = surveys d" "surveys (meta_delete k d) = surveys d"
  by (simp_all add: meta_put_def meta_delete_def)

lemma backfill_rows_untouched: "untouched d d' \<Longrightarrow> backfill_rows sid d' = backfill_rows sid d"
  by (simp add: backfill_rows_def selected_def [abs_def] untouched_simps)


section \<open>The invariant of the upgrade\<close>

abbreviation survey_ids :: "db \<Rightarrow> string set" where
  "survey_ids d \<equiv> sv_id ` set (surveys d)"

definition filled :: "db \<Rightarrow> string \<Rightarrow> bool" where
  "filled d sid = (set (backfill_rows sid d) \<subseteq> set (seen d))"

definition upgrade_ok :: "db \<Rightarrow> upgrade \<Rightarrow> bool" where
  "upgrade_ok d0 u =
     (untouched d0 (udb u) \<and> (distinct (seen d0) \<longrightarrow> distinct (seen (udb u))) \<and>
      set (seen d0) \<subseteq> set (seen (udb u)) \<and>
      set (seen (udb u)) \<subseteq> set (seen d0) \<union> (\<Union>sid\<in>survey_ids d0. set (backfill_rows sid d0)) \<and>
      (backfill_done (udb u) \<longrightarrow> (\<forall>sid\<in>survey_ids d0. filled (udb u) sid)) \<and>
      (\<forall>p\<in>set (running u). sorted p \<and> set p \<subseteq> survey_ids d0 \<and> (\<forall>sid\<in>survey_ids d0 - set p. filled (udb u) sid)) \<and>
      (\<forall>v. meta_get ''seen_backfilled_through'' (udb u) = Some v \<longrightarrow>
         (\<forall>sid\<in>survey_ids d0. sid \<le> v \<longrightarrow> filled (udb u) sid)))"

lemma filled_grows:
  "untouched d d' \<Longrightarrow> set (seen d) \<subseteq> set (seen d') \<Longrightarrow> filled d sid \<Longrightarrow> filled d' sid"
  by (auto simp: filled_def backfill_rows_untouched)

lemma filled_meta [simp]: "filled (meta_put k v d) sid = filled d sid" "filled (meta_delete k d) sid = filled d sid"
  using backfill_rows_untouched [of d "meta_put k v d"] backfill_rows_untouched [of d "meta_delete k d"]
  by (simp_all add: filled_def)

lemma backfill_done_meta [simp]:
  "backfill_done (meta_put ''seen_backfilled_through'' v d) = backfill_done d"
  "backfill_done (meta_delete ''seen_backfilled_through'' d) = backfill_done d"
  "backfill_done (meta_put ''seen_backfilled'' v d)" "backfill_done (d\<lparr>seen := t\<rparr>) = backfill_done d"
  by (simp_all add: backfill_done_iff) (simp add: meta_get_def)

lemma todo_facts:
  "sorted (backfill_todo d)" "set (backfill_todo d) \<subseteq> survey_ids d"
  by (auto simp: backfill_todo_def surveyIDsAfter_def)

lemma survey_cases:
  assumes "backfillSeenForSurvey i d = Inr (n, d')"
  shows "\<not> backfill_done d" "untouched d d'" "\<not> backfill_done d'" "set (seen d') = set (backfill_rows i d) \<union> set (seen d)"
    "meta_get ''seen_backfilled_through'' d' = Some i" "distinct (seen d) \<Longrightarrow> distinct (seen d')"
  using assms by (auto simp: backfillSeenForSurvey_def Let_def set_insert_rows insert_rows_shape split: if_splits)

lemma upgrade_ok_step:
  assumes s: "upgrade_step u u'" and ok: "upgrade_ok d0 u" and ne: "[] \<notin> survey_ids d0"
  shows "upgrade_ok d0 u'"
  using s
proof cases
  case start
  have un: "surveys (udb u) = surveys d0" using ok by (auto simp: upgrade_ok_def dest: untouched_simps)
  have "filled (udb u) sid" if sid: "sid \<in> survey_ids d0" "sid \<notin> set (backfill_todo (udb u))" for sid
  proof -
    have "sid \<noteq> []" using sid ne by metis
    with sid un obtain v where "meta_get ''seen_backfilled_through'' (udb u) = Some v" "sid \<le> v"
      by (auto simp: backfill_todo_def surveyIDsAfter_def not_less split: option.splits)
    with ok sid show ?thesis by (auto simp: upgrade_ok_def)
  qed
  moreover have "set (backfill_todo (udb u)) \<subseteq> survey_ids d0"
    using todo_facts(2) [of "udb u"] un by simp
  ultimately show ?thesis using ok todo_facts(1) start by (auto simp: upgrade_ok_def)
next
  case (survey ps i "is" qs n d')
  note c = survey_cases [OF survey(3)]
  have un: "untouched d0 (udb u)" and p: "sorted (i # is)" "set (i # is) \<subseteq> survey_ids d0"
    "\<forall>sid\<in>survey_ids d0 - set (i # is). filled (udb u) sid"
    using ok survey(2) by (auto simp: upgrade_ok_def)
  have un': "untouched d0 d'" using un c(2) by (simp add: untouched_def)
  have mono: "filled (udb u) sid \<Longrightarrow> filled d' sid" for sid
    using filled_grows [OF c(2)] c(4) by blast
  have i: "filled d' i" using c(2,4) by (auto simp: filled_def backfill_rows_untouched)
  have done_is: "filled d' sid" if "sid \<in> survey_ids d0" "sid \<notin> set is" for sid
    using that i mono p(3) by (cases "sid = i") auto
  have upto: "filled d' sid" if "sid \<in> survey_ids d0" "sid \<le> i" for sid
    using that done_is i p(1) by (cases "sid \<in> set is") (auto dest: antisym)
  have "set (backfill_rows i (udb u)) \<subseteq> (\<Union>sid\<in>survey_ids d0. set (backfill_rows sid d0))"
    using p(2) un by (auto simp: backfill_rows_untouched)
  with ok survey(1,2) un' c mono done_is upto p show ?thesis by (auto simp: upgrade_ok_def)
next
  case lost
  with ok show ?thesis by (auto simp: upgrade_ok_def)
next
  case (finish ps qs stamp d')
  then have "\<forall>sid\<in>survey_ids d0. filled (udb u) sid" using ok by (auto simp: upgrade_ok_def)
  with ok finish show ?thesis by (auto simp: upgrade_ok_def mark_done_def)
next
  case kill
  with ok show ?thesis by (auto simp: upgrade_ok_def)
qed

lemma upgrade_ok_steps:
  assumes "upgrade_step\<^sup>*\<^sup>* u u'" and "upgrade_ok d0 u" and "[] \<notin> survey_ids d0"
  shows "upgrade_ok d0 u'"
  using assms by (induction rule: rtranclp_induct) (auto intro: upgrade_ok_step)

lemma upgrade_ok_init:
  "\<not> backfill_done d0 \<Longrightarrow> meta_get ''seen_backfilled_through'' d0 = None \<Longrightarrow> upgrade_ok d0 \<lparr>udb = d0, running = []\<rparr>"
  by (simp add: upgrade_ok_def)

text \<open>An uninterrupted loop is a sequence of steps of one process.\<close>

lemma loop_is_steps:
  assumes "\<not> backfill_done (sdb s)"
  shows "\<exists>n s'. backfill_loop is tot s = (Inr (Some n), s') \<and> \<not> backfill_done (sdb s') \<and>
    upgrade_step\<^sup>*\<^sup>* \<lparr>udb = sdb s, running = is # ps\<rparr> \<lparr>udb = sdb s', running = [] # ps\<rparr>"
  using assms
proof (induction "is" arbitrary: tot s)
  case (Cons i "is")
  then obtain n d' where r: "backfillSeenForSurvey i (sdb s) = Inr (n, d')"
    by (auto simp: backfillSeenForSurvey_def Let_def)
  note c = survey_cases [OF r]
  let ?s = "s\<lparr>sdb := d', gen := gen s + 1\<rparr>"
  have "tx (backfillSeenForSurvey i) s = (Inr n, ?s)" by (simp add: tx_def r)
  moreover obtain m s' where m: "backfill_loop is (tot + n) ?s = (Inr (Some m), s')" "\<not> backfill_done (sdb s')"
    "upgrade_step\<^sup>*\<^sup>* \<lparr>udb = d', running = is # ps\<rparr> \<lparr>udb = sdb s', running = [] # ps\<rparr>"
    using Cons.IH [of ?s "tot + n"] c(3) by auto
  moreover have "upgrade_step \<lparr>udb = sdb s, running = (i # is) # ps\<rparr> \<lparr>udb = d', running = is # ps\<rparr>"
    using upgrade_step.survey [of "\<lparr>udb = sdb s, running = (i # is) # ps\<rparr>" "[]" i "is" ps n d'] r by simp
  ultimately show ?case by (auto intro: converse_rtranclp_into_rtranclp)
qed simp


section \<open>What every completed upgrade leaves\<close>

definition votes_owned :: "db \<Rightarrow> bool" where
  "votes_owned d =
     list_all (\<lambda>c. list_ex (\<lambda>r. r_id r = fst c \<and> r_survey r \<in> survey_ids d \<and>
        list_ex (\<lambda>o'. o_id o' = snd c \<and> o_survey o' = r_survey r) (opts d)) (responses d)) (choices d)"

lemma votes_filled:
  assumes v: "votes_owned d0" and un: "untouched d0 d" and f: "\<forall>sid\<in>survey_ids d0. filled d sid"
  shows "set (choices d0) \<subseteq> set (seen d)"
proof
  fix c
  assume c: "c \<in> set (choices d0)"
  then obtain r o' where r: "r \<in> set (responses d0)" "r_id r = fst c" "r_survey r \<in> survey_ids d0"
    and o': "o' \<in> set (opts d0)" "o_id o' = snd c" "o_survey o' = r_survey r"
    using v by (fastforce simp: votes_owned_def list_all_iff list_ex_iff)
  have "selected d0 r o'"
    unfolding selected_def list_ex_iff using bexI [of "\<lambda>c. fst c = r_id r \<and> snd c = o_id o'", OF _ c] r(2) o'(2,3) by simp
  then have "(r_id r, o_id o') \<in> set (backfill_rows (r_survey r) d0)"
    unfolding backfill_rows_def using r(1) o'(1) by auto
  moreover have "c = (r_id r, o_id o')" using r(2) o'(2) by simp
  moreover have "set (backfill_rows (r_survey r) d0) \<subseteq> set (seen d)"
    using bspec [OF f r(3)] backfill_rows_untouched [OF un] by (simp add: filled_def)
  ultimately show "c \<in> set (seen d)" by blast
qed

text \<open>What an old database has to satisfy: the invariant, without exposures for its votes.\<close>

definition old_ok :: "db \<Rightarrow> bool" where
  "old_ok d = (keys_ok d \<and> refs_ok d \<and> opened_ok d \<and> surveys_ok d \<and> votes_owned d \<and>
     list_all (\<lambda>c. list_ex (\<lambda>r. r_id r = fst c \<and>
        (snd c, r_survey r) \<in> (\<lambda>o'. (o_id o', o_survey o')) ` set (opts d)) (responses d)) (seen d))"

lemma backfill_rows_owned:
  assumes "c \<in> set (backfill_rows sid d)"
  shows "\<exists>r\<in>set (responses d). r_id r = fst c \<and> (snd c, r_survey r) \<in> (\<lambda>o'. (o_id o', o_survey o')) ` set (opts d)"
proof -
  obtain r o' where "r \<in> set (responses d)" "o' \<in> set (opts d)" "selected d r o'" "c = (r_id r, o_id o')"
    using assms by (auto simp: backfill_rows_def)
  then show ?thesis by (intro bexI [of _ r]) (auto simp: selected_def intro!: image_eqI [of _ _ o'])
qed

lemma old_ok_filled:
  assumes old: "old_ok d0" and un: "untouched d0 d" and di: "distinct (seen d)"
    and f: "\<forall>sid\<in>survey_ids d0. filled d sid"
    and s: "set (seen d) = set (seen d0) \<union> (\<Union>sid\<in>survey_ids d0. set (backfill_rows sid d0))"
  shows "db_ok d"
proof -
  note u = untouched_simps [OF un]
  have vo: "votes_owned d0" using old by (simp add: old_ok_def)
  have "loadOptions d = loadOptions d0" by (rule ext) (simp add: loadOptions_def owned_def u)
  then have "loadSurvey d i = loadSurvey d0 i" for i
    unfolding loadSurvey_def u by (auto split: option.split)
  then have "loadSurvey d = loadSurvey d0" by (rule ext)
  moreover have "list_all (\<lambda>c. list_ex (\<lambda>r. r_id r = fst c \<and>
      (snd c, r_survey r) \<in> (\<lambda>o'. (o_id o', o_survey o')) ` set (opts d0)) (responses d0)) (seen d)"
    unfolding list_all_iff list_ex_iff s
    using old backfill_rows_owned by (auto simp: old_ok_def list_all_iff list_ex_iff)
  moreover have "set (choices d0) \<subseteq> set (seen d)" by (rule votes_filled [OF vo un f])
  then have "list_all (\<lambda>c. c \<in> set (seen d)) (choices d0)" by (auto simp: list_all_iff)
  moreover have "keys_ok d" using old di un by (simp add: old_ok_def keys_ok_def u untouched_def)
  ultimately show ?thesis
    using old by (simp add: db_ok_def old_ok_def refs_ok_def opened_ok_def surveys_ok_def votes_ok_def u)
qed

lemma upgrade_ok_done:
  assumes ok: "upgrade_ok d0 u" and dn: "backfill_done (udb u)"
  shows "untouched d0 (udb u)" "\<forall>sid\<in>survey_ids d0. filled (udb u) sid"
    "set (seen (udb u)) = set (seen d0) \<union> (\<Union>sid\<in>survey_ids d0. set (backfill_rows sid d0))"
proof -
  show un: "untouched d0 (udb u)" and f: "\<forall>sid\<in>survey_ids d0. filled (udb u) sid"
    using ok dn by (simp_all add: upgrade_ok_def)
  have "set (backfill_rows sid d0) \<subseteq> set (seen (udb u))" if "sid \<in> survey_ids d0" for sid
    using bspec [OF f that] backfill_rows_untouched [OF un, of sid] by (simp add: filled_def)
  then have "(\<Union>sid\<in>survey_ids d0. set (backfill_rows sid d0)) \<subseteq> set (seen (udb u))" by (rule UN_least)
  with ok show "set (seen (udb u)) = set (seen d0) \<union> (\<Union>sid\<in>survey_ids d0. set (backfill_rows sid d0))"
    by (intro subset_antisym Un_least) (simp_all only: upgrade_ok_def)
qed

text \<open>An uninterrupted run, started at any moment of the history, ends with the work done.\<close>

lemma run_is_steps:
  "\<exists>s'. backfillSeen stamp s = (Inr (), s') \<and> backfill_done (sdb s') \<and>
     upgrade_step\<^sup>*\<^sup>* \<lparr>udb = sdb s, running = ps\<rparr> \<lparr>udb = sdb s', running = ps\<rparr>"
proof (cases "backfill_done (sdb s)")
  case True
  then show ?thesis by (simp add: backfillSeen_def)
next
  case False
  let ?w = "backfill_todo (sdb s)"
  obtain n s' where l: "backfill_loop ?w 0 s = (Inr (Some n), s')"
    "upgrade_step\<^sup>*\<^sup>* \<lparr>udb = sdb s, running = ?w # ps\<rparr> \<lparr>udb = sdb s', running = [] # ps\<rparr>"
    using loop_is_steps [OF False, of ?w 0 ps] by auto
  obtain d' where m: "mark_done stamp (sdb s') = Inr ((), d')" "backfill_done d'"
    by (simp add: mark_done_def)
  have "upgrade_step \<lparr>udb = sdb s, running = ps\<rparr> \<lparr>udb = sdb s, running = ?w # ps\<rparr>"
    using upgrade_step.start [of "\<lparr>udb = sdb s, running = ps\<rparr>"] by simp
  moreover have "upgrade_step \<lparr>udb = sdb s', running = [] # ps\<rparr> \<lparr>udb = d', running = ps\<rparr>"
    using upgrade_step.finish [of "\<lparr>udb = sdb s', running = [] # ps\<rparr>" "[]" ps stamp d'] m by simp
  ultimately have "upgrade_step\<^sup>*\<^sup>* \<lparr>udb = sdb s, running = ps\<rparr> \<lparr>udb = d', running = ps\<rparr>"
    using l(2) by (meson converse_rtranclp_into_rtranclp rtranclp.rtrancl_into_rtrancl)
  then show ?thesis
    using False l(1) m by (simp add: backfillSeen_def tx_def)
qed

text \<open>
  C13. The upgrade always gets there, and to the same place. Let any number of processes start it, do
  surveys, finish it or be killed in any order on an old database whose backfill was never begun;
  one further run that is left alone then ends without an error, leaves the completion marker, has
  changed nothing but the exposures and the markers, and the exposures are exactly the old ones and
  those the backfill rule selects, survey by survey. The result satisfies the invariant of the whole
  database: in particular every recorded vote has its exposure, so no option can show more votes
  than people who saw it.
\<close>
theorem backfill_completes:
  assumes "upgrade_step\<^sup>*\<^sup>* \<lparr>udb = d0, running = []\<rparr> u"
    and "\<not> backfill_done d0" and "meta_get ''seen_backfilled_through'' d0 = None"
    and "[] \<notin> survey_ids d0" and "old_ok d0"
  shows "\<exists>s. backfillSeen stamp \<lparr>sdb = udb u, gen = g\<rparr> = (Inr (), s) \<and> backfill_done (sdb s) \<and>
      untouched d0 (sdb s) \<and>
      set (seen (sdb s)) = set (seen d0) \<union> (\<Union>sid\<in>survey_ids d0. set (backfill_rows sid d0)) \<and>
      db_ok (sdb s)"
proof -
  obtain s where s: "backfillSeen stamp \<lparr>sdb = udb u, gen = g\<rparr> = (Inr (), s)" "backfill_done (sdb s)"
    "upgrade_step\<^sup>*\<^sup>* u \<lparr>udb = sdb s, running = running u\<rparr>"
    using run_is_steps [of stamp "\<lparr>sdb = udb u, gen = g\<rparr>" "running u"] by (cases u) auto
  have ok: "upgrade_ok d0 \<lparr>udb = sdb s, running = running u\<rparr>"
    using upgrade_ok_steps [OF rtranclp_trans [OF assms(1) s(3)] upgrade_ok_init assms(4)] assms(2,3) by blast
  note d = upgrade_ok_done [OF this, simplified upgrade.simps, OF s(2)]
  have "distinct (seen (sdb s))"
    using ok assms(5) by (simp add: upgrade_ok_def old_ok_def keys_ok_def)
  from old_ok_filled [OF assms(5) d(1) this d(2,3)] show ?thesis
    using s(1,2) d(1,3) by (intro exI [of _ s]) simp
qed

definition old_db :: db where
  "old_db = empty_db\<lparr>
     surveys := [\<lparr>sv_id = ''a'', sv_type = TypeThumbsUp, sv_title = ''A'', sv_desc = [], sv_state = StateOpen,
       show_results = False, allow_write_in = True, allow_comment = True, no_randomize = False,
       close_at = 0, first_opened_at = 1, sv_created = 1, sv_updated = 1\<rparr>],
     opts := [\<lparr>o_id = ''x'', o_text = ''X'', o_status = OptApproved, o_source = ''editor'', o_merged = [],
         o_created = 1, o_survey = ''a'', o_position = 0\<rparr>,
       \<lparr>o_id = ''y'', o_text = ''Y'', o_status = OptPending, o_source = ''writein'', o_merged = [],
         o_created = 1, o_survey = ''a'', o_position = 1\<rparr>],
     responses := [\<lparr>r_id = ''r'', r_survey = ''a'', r_voter = ''v'', r_comment = [], r_created = 1, r_updated = 1\<rparr>,
       \<lparr>r_id = ''q'', r_survey = ''a'', r_voter = ''w'', r_comment = [], r_created = 1, r_updated = 1\<rparr>],
     choices := [(''r'', ''y'')]\<rparr>"

lemma old_db_ok: "old_ok old_db"
  by code_simp

theorem backfill_completes_witness:
  "\<exists>s. backfillSeen ''now'' \<lparr>sdb = old_db, gen = 0\<rparr> = (Inr (), s) \<and> backfill_done (sdb s) \<and>
     untouched old_db (sdb s) \<and>
     set (seen (sdb s)) = set (seen old_db) \<union> (\<Union>sid\<in>survey_ids old_db. set (backfill_rows sid old_db)) \<and>
     db_ok (sdb s)"
  using backfill_completes [of old_db "\<lparr>udb = old_db, running = []\<rparr>" "''now''" 0, OF rtranclp.rtrancl_refl _ _ _ old_db_ok]
  by (simp add: old_db_def empty_db_def backfill_done_def meta_get_def)


section \<open>Opening again\<close>

lemma secret_stays:
  assumes "loadOrCreateSecret fresh d = (k, d')" and "length fresh \<ge> 32"
  shows "loadOrCreateSecret fresh' d' = (k, d')" "backfill_done d' = backfill_done d" "untouched d d'" "seen d' = seen d"
  using assms by (auto simp: loadOrCreateSecret_def backfill_done_iff split: option.splits if_splits)

text \<open>An open store opened again keeps its key and is not changed.\<close>

lemma reopen_same:
  assumes "open_store stamp fresh s = (Inr k, s1)" and "length fresh \<ge> 32"
  shows "open_store stamp' fresh' s1 = (Inr k, s1)"
proof -
  obtain s' where s': "backfillSeen stamp s = (Inr (), s')" "backfill_done (sdb s')"
    using run_is_steps [of stamp s "[]"] by auto
  obtain d' where d': "loadOrCreateSecret fresh (sdb s') = (k, d')" "s1 = s'\<lparr>sdb := d'\<rparr>"
    using assms(1) s'(1) by (auto simp: open_store_def split: prod.splits)
  note p = secret_stays [OF d'(1) assms(2)]
  have "backfillSeen stamp' s1 = (Inr (), s1)"
    using p(2) s'(2) d'(2) by (simp add: backfillSeen_def)
  then show ?thesis using p(1) [of fresh'] d'(2) by (simp add: open_store_def)
qed

lemma ensureColumn_twice:
  "ensureColumn t c decl (ensureColumn t c decl sh) = ensureColumn t c decl sh" (is "?e (?e sh) = _")
proof (cases "list_ex (\<lambda>(u, cs). u = t \<and> c \<in> set (map fst cs)) (?e sh)")
  case True
  then show ?thesis unfolding ensureColumn_def [of t c decl "?e sh"] by simp
next
  case False
  then have "t \<notin> fst ` set sh"
    by (force simp: ensureColumn_def list_ex_iff split: if_splits)
  then have "map (\<lambda>(u, cs). (u, if u = t then cs @ [(c, decl)] else cs)) sh = sh"
    by (intro map_idI) (force split: prod.split)
  then have "?e sh = sh" by (simp add: ensureColumn_def)
  then show ?thesis by simp
qed

lemma migrate_columns_twice: "migrate_columns (migrate_columns sh) = migrate_columns sh"
  by (simp add: migrate_columns_def addedColumns_def ensureColumn_twice)


lemma seen_more_ok:
  assumes ok: "db_ok d" and un: "untouched d d'" and di: "distinct (seen d')" and s: "set (seen d) \<subseteq> set (seen d')"
    and more: "\<And>c. c \<in> set (seen d') \<Longrightarrow> c \<in> set (seen d) \<or> (\<exists>sid. c \<in> set (backfill_rows sid d))"
  shows "db_ok d'"
proof -
  note u = untouched_simps [OF un]
  have "loadOptions d' = loadOptions d" by (rule ext) (simp add: loadOptions_def owned_def u)
  then have "loadSurvey d' i = loadSurvey d i" for i
    unfolding loadSurvey_def u by (auto split: option.split)
  then have "loadSurvey d' = loadSurvey d" by (rule ext)
  moreover have "list_all (\<lambda>c. list_ex (\<lambda>r. r_id r = fst c \<and>
      (snd c, r_survey r) \<in> (\<lambda>o'. (o_id o', o_survey o')) ` set (opts d)) (responses d)) (seen d')"
    unfolding list_all_iff list_ex_iff
  proof
    fix c
    assume c: "c \<in> set (seen d')"
    show "\<exists>r\<in>set (responses d). r_id r = fst c \<and> (snd c, r_survey r) \<in> (\<lambda>o'. (o_id o', o_survey o')) ` set (opts d)"
    proof (cases "c \<in> set (seen d)")
      case True
      have "votes_ok d" using ok by (simp add: db_ok_def)
      then show ?thesis using True unfolding votes_ok_def list_all_iff list_ex_iff by blast
    next
      case False
      then show ?thesis using more [OF c] backfill_rows_owned by blast
    qed
  qed
  moreover have "list_all (\<lambda>c. c \<in> set (seen d')) (choices d)" using ok s by (auto simp: db_ok_def votes_ok_def list_all_iff)
  moreover have "keys_ok d'" using ok di un by (simp add: db_ok_def keys_ok_def u untouched_def)
  ultimately show ?thesis
    using ok by (simp add: db_ok_def refs_ok_def opened_ok_def surveys_ok_def votes_ok_def u)
qed


lemma upgrade_step_db_ok:
  assumes "upgrade_step u u'" and "db_ok (udb u)"
  shows "db_ok (udb u') \<and> untouched (udb u) (udb u')"
proof -
  have di: "distinct (seen (udb u))" using assms(2) by (simp add: db_ok_def keys_ok_def)
  from assms(1) show ?thesis
  proof cases
    case (survey ps i "is" qs n d')
    note c = survey_cases [OF survey(3)]
    have "db_ok d'" by (rule seen_more_ok [OF assms(2) c(2) c(6) [OF di]]) (auto simp: c(4))
    with c(2) survey(1) show ?thesis by simp
  next
    case (finish ps qs stamp d')
    then have d: "d' = meta_delete ''seen_backfilled_through'' (meta_put ''seen_backfilled'' stamp (udb u))" by (simp add: mark_done_def)
    have "db_ok d'" by (rule seen_more_ok [OF assms(2)]) (auto simp: d di)
    with d finish(1) show ?thesis by simp
  qed (use assms(2) in simp_all)
qed

lemma untouched_trans: "untouched a b \<Longrightarrow> untouched b c \<Longrightarrow> untouched a c"
  by (simp add: untouched_def)

lemma upgrade_steps_db_ok:
  "upgrade_step\<^sup>*\<^sup>* u u' \<Longrightarrow> db_ok (udb u) \<Longrightarrow> db_ok (udb u') \<and> untouched (udb u) (udb u')"
proof (induction rule: rtranclp_induct)
  case (step v w)
  then show ?case using upgrade_step_db_ok [of v w] untouched_trans by blast
qed simp

text \<open>Opening a sound database keeps it sound and, exposures aside, as it was.\<close>

lemma open_keeps:
  assumes "open_store stamp fresh s = (x, s1)" and "db_ok (sdb s)"
  shows "db_ok (sdb s1) \<and> untouched (sdb s) (sdb s1) \<and> (\<exists>k. x = Inr k)"
proof -
  obtain s' where s': "backfillSeen stamp s = (Inr (), s')"
    "upgrade_step\<^sup>*\<^sup>* \<lparr>udb = sdb s, running = []\<rparr> \<lparr>udb = sdb s', running = []\<rparr>"
    using run_is_steps [of stamp s "[]"] by auto
  have ok: "db_ok (sdb s')" "untouched (sdb s) (sdb s')" using upgrade_steps_db_ok [OF s'(2)] assms(2) by simp_all
  obtain k d' where d': "loadOrCreateSecret fresh (sdb s') = (k, d')" by fastforce
  then have x: "x = Inr k" "sdb s1 = d'" using assms(1) s'(1) by (auto simp: open_store_def)
  have p: "untouched (sdb s') d'" "seen d' = seen (sdb s')"
    using d' by (auto simp: loadOrCreateSecret_def split: option.splits if_splits)
  have "distinct (seen (sdb s'))" using ok(1) by (simp add: db_ok_def keys_ok_def)
  then have "db_ok d'" using seen_more_ok [OF ok(1) p(1)] p(2) by auto
  with x p(1) ok(2) untouched_trans show ?thesis by blast
qed

end
