(* ===== verification/RateLimit.thy ===== *)
theory RateLimit
  imports Complex_Main "HOL-Library.Word" GoTime
begin

text \<open>
  Metering of clients (\<open>internal/web/ratelimit.go\<close>): one token bucket per client in a table that
  is swept when it is old and never grows beyond a ceiling. The bucket itself is the package
  \<open>golang.org/x/time/rate\<close> and a parameter here; its documented behaviour is \<open>token_bucket\<close>.
  The lemmas show that no client gets past the advertised rate, sweeping included, and that with
  fewer clients than the ceiling the table cannot be told from one bucket per client kept for ever.
\<close>

section \<open>The table of buckets\<close>

text \<open>The three operations of \<open>rate.Limiter\<close> used: \<open>NewLimiter(Every(interval), n)\<close>, \<open>Tokens\<close>, \<open>Allow\<close>.\<close>

record 'b rate_pkg =
  new_bucket :: "int \<Rightarrow> int \<Rightarrow> 'b"
  tokens :: "time \<Rightarrow> 'b \<Rightarrow> rat"
  take_token :: "time \<Rightarrow> 'b \<Rightarrow> bool \<times> 'b"

record 'b bucket =
  b_key :: string
  b_lim :: 'b
  b_seen :: time

record 'b limiter =
  l_every :: int
  l_burst :: int
  l_ttl :: int
  l_max :: nat
  l_buckets :: "'b bucket list"
  l_swept :: time

definition limiterTTL :: int where "limiterTTL = 15 * 60 * second"
definition limiterMax :: nat where "limiterMax = 20000"
definition sweepEvery :: int where "sweepEvery = 2 * 60 * second"

definition newLimiter :: "int \<Rightarrow> int \<Rightarrow> time \<Rightarrow> 'b limiter option" where
  "newLimiter n window now =
     (if n \<le> 0 then None
      else Some \<lparr>l_every = window div n, l_burst = n, l_ttl = limiterTTL, l_max = limiterMax,
        l_buckets = [], l_swept = now\<rparr>)"

text \<open>
  Each call reads the clock for the table (\<open>now\<close>, in \<open>allow\<close> before it waits for the lock) and
  then once more inside the bucket (\<open>t\<close>).
\<close>

definition touch :: "string \<Rightarrow> time \<Rightarrow> 'b limiter \<Rightarrow> 'b limiter" where
  "touch key now l = l\<lparr>l_buckets := modify_by b_key key (b_seen_update (\<lambda>_. now)) (l_buckets l)\<rparr>"

definition limiter_ok :: "'b rate_pkg \<Rightarrow> string \<Rightarrow> time \<Rightarrow> time \<Rightarrow> 'b limiter option \<Rightarrow> bool \<times> 'b limiter option" where
  "limiter_ok P key now t lm =
     (case lm of None \<Rightarrow> (True, None)
      | Some l \<Rightarrow>
          (case lookup_by b_key key (l_buckets l) of
             None \<Rightarrow> (length (l_buckets l) < l_max l, Some l)
           | Some b \<Rightarrow> (tokens P t (b_lim b) \<ge> 1, Some (touch key now l))))"

definition sweep :: "time \<Rightarrow> 'b limiter \<Rightarrow> 'b limiter" where
  "sweep now l =
     (if now - l_swept l > sweepEvery
      then l\<lparr>l_buckets := filter (\<lambda>b. \<not> now - b_seen b > l_ttl l) (l_buckets l), l_swept := now\<rparr>
      else l)"

definition charge :: "'b rate_pkg \<Rightarrow> string \<Rightarrow> time \<Rightarrow> time \<Rightarrow> 'b bucket \<Rightarrow> 'b limiter \<Rightarrow> bool \<times> 'b limiter option" where
  "charge P key now t b l =
     (let (ok, lm') = take_token P t (b_lim b)
      in (ok, Some (l\<lparr>l_buckets := modify_by b_key key (\<lambda>_. b\<lparr>b_lim := lm', b_seen := now\<rparr>) (l_buckets l)\<rparr>)))"

definition limiter_allow :: "'b rate_pkg \<Rightarrow> string \<Rightarrow> time \<Rightarrow> time \<Rightarrow> 'b limiter option \<Rightarrow> bool \<times> 'b limiter option" where
  "limiter_allow P key now t lm =
     (case lm of None \<Rightarrow> (True, None)
      | Some l0 \<Rightarrow>
          (let l = sweep now l0 in
           case lookup_by b_key key (l_buckets l) of
             Some b \<Rightarrow> charge P key now t b l
           | None \<Rightarrow>
               (if length (l_buckets l) \<ge> l_max l then (False, Some l)
                else let b = \<lparr>b_key = key, b_lim = new_bucket P (l_every l) (l_burst l), b_seen = now\<rparr>
                     in charge P key now t b (l\<lparr>l_buckets := l_buckets l @ [b]\<rparr>))))"

definition limiter_spend :: "'b rate_pkg \<Rightarrow> string \<Rightarrow> time \<Rightarrow> time \<Rightarrow> 'b limiter option \<Rightarrow> 'b limiter option" where
  "limiter_spend P key now t lm = snd (limiter_allow P key now t lm)"

section \<open>Histories of calls\<close>

datatype meter_call = Check string time time | Charge string time time

fun call_key :: "meter_call \<Rightarrow> string" where
  "call_key (Check k now t) = k" | "call_key (Charge k now t) = k"

fun call_now :: "meter_call \<Rightarrow> time" where
  "call_now (Check k now t) = now" | "call_now (Charge k now t) = now"

fun call_time :: "meter_call \<Rightarrow> time" where
  "call_time (Check k now t) = t" | "call_time (Charge k now t) = t"

fun serve_call :: "'b rate_pkg \<Rightarrow> meter_call \<Rightarrow> 'b limiter option \<Rightarrow> bool \<times> 'b limiter option" where
  "serve_call P (Check k now t) l = limiter_ok P k now t l"
| "serve_call P (Charge k now t) l = limiter_allow P k now t l"

fun serve_calls :: "'b rate_pkg \<Rightarrow> meter_call list \<Rightarrow> 'b limiter option \<Rightarrow> bool list \<times> 'b limiter option" where
  "serve_calls P [] l = ([], l)"
| "serve_calls P (c # cs) l =
     (let (r, l) = serve_call P c l; (rs, l) = serve_calls P cs l in (r # rs, l))"

text \<open>How often the calls \<open>cs\<close> admitted \<open>key\<close>, given their answers.\<close>

fun admitted :: "string \<Rightarrow> meter_call list \<Rightarrow> bool list \<Rightarrow> nat" where
  "admitted key (Charge k now t # cs) (r # rs) = (if k = key \<and> r then 1 else 0) + admitted key cs rs"
| "admitted key (Check k now t # cs) (r # rs) = admitted key cs rs"
| "admitted key cs rs = 0"

text \<open>
  What the lock guarantees of the two clock readings: buckets are used in the order of \<open>t\<close>, and a
  call waits at most \<open>slack\<close> for the lock.
\<close>

definition timed :: "int \<Rightarrow> meter_call list \<Rightarrow> bool" where
  "timed slack cs =
     (sorted (map call_time cs) \<and>
      list_all (\<lambda>c. call_now c \<le> call_time c \<and> call_time c \<le> call_now c + slack) cs)"

section \<open>The reference: one bucket per client for ever\<close>

fun ideal_call :: "'b rate_pkg \<Rightarrow> meter_call \<Rightarrow> (string \<Rightarrow> 'b) \<Rightarrow> bool \<times> (string \<Rightarrow> 'b)" where
  "ideal_call P (Check k now t) S = (tokens P t (S k) \<ge> 1, S)"
| "ideal_call P (Charge k now t) S = (let (r, b) = take_token P t (S k) in (r, S(k := b)))"

fun ideal_calls :: "'b rate_pkg \<Rightarrow> meter_call list \<Rightarrow> (string \<Rightarrow> 'b) \<Rightarrow> bool list" where
  "ideal_calls P [] S = []"
| "ideal_calls P (c # cs) S = (let (r, S) = ideal_call P c S in r # ideal_calls P cs S)"

section \<open>What the package documents of a bucket\<close>

text \<open>
  From \<open>T\<close> on, left alone, the bucket holds between 0 and \<open>n\<close> tokens and gains one per \<open>e\<close>
  nanoseconds until it is full.
\<close>

definition steady :: "'b rate_pkg \<Rightarrow> int \<Rightarrow> int \<Rightarrow> time \<Rightarrow> 'b \<Rightarrow> bool" where
  "steady P e n T b =
     (\<forall>t t'. T \<le> t \<and> t \<le> t' \<longrightarrow> 0 \<le> tokens P t b \<and>
        tokens P t' b = min (of_int n) (tokens P t b + of_int (t' - t) / of_int e))"

definition token_bucket :: "'b rate_pkg \<Rightarrow> int \<Rightarrow> int \<Rightarrow> bool" where
  "token_bucket P e n =
     ((\<forall>T. steady P e n T (new_bucket P e n) \<and> tokens P T (new_bucket P e n) = of_int n) \<and>
      (\<forall>b t. steady P e n t b \<longrightarrow>
         fst (take_token P t b) = (1 \<le> tokens P t b) \<and> steady P e n t (snd (take_token P t b)) \<and>
         tokens P t (snd (take_token P t b)) = tokens P t b - (if 1 \<le> tokens P t b then 1 else 0)))"

lemma steady_later: "steady P e n T b \<Longrightarrow> T \<le> t \<Longrightarrow> steady P e n t b"
  unfolding steady_def by (meson order_trans)

lemma steady_facts:
  assumes "steady P e n T b" and "T \<le> t"
  shows "0 \<le> tokens P t b" "tokens P t b \<le> of_int n"
    "tokens P t b \<le> tokens P T b + of_int (t - T) / of_int e"
    "steady P e n T b' \<Longrightarrow> tokens P T b' = tokens P T b \<Longrightarrow> tokens P t b' = tokens P t b"
proof -
  have s: "0 \<le> tokens P t b" "tokens P t b = min (of_int n) (tokens P T b + of_int (t - T) / of_int e)"
    using assms unfolding steady_def by (metis order_refl)+
  then show "0 \<le> tokens P t b" "tokens P t b \<le> of_int n"
    "tokens P t b \<le> tokens P T b + of_int (t - T) / of_int e" by linarith+
  assume "steady P e n T b'" "tokens P T b' = tokens P T b"
  then have "tokens P t b' = min (of_int n) (tokens P T b + of_int (t - T) / of_int e)"
    using assms(2) unfolding steady_def by (metis order_refl)
  with s(2) show "tokens P t b' = tokens P t b" by simp
qed

lemma take_tokenD:
  assumes "token_bucket P e n" "steady P e n t b" "take_token P t b = (r, c)"
  shows "r = (1 \<le> tokens P t b)" "steady P e n t c" "tokens P t c = tokens P t b - (if r then 1 else 0)"
proof -
  have "fst (take_token P t b) = (1 \<le> tokens P t b) \<and> steady P e n t (snd (take_token P t b)) \<and>
         tokens P t (snd (take_token P t b)) = tokens P t b - (if 1 \<le> tokens P t b then 1 else 0)"
    using assms(1,2) unfolding token_bucket_def by blast
  then show "r = (1 \<le> tokens P t b)" "steady P e n t c" "tokens P t c = tokens P t b - (if r then 1 else 0)"
    using assms(3) by simp_all
qed

lemma steady_full:
  assumes "steady P e n T b" and "0 < e" and "T \<le> t" and "t + n * e \<le> t'" and "0 \<le> n"
  shows "tokens P t' b = of_int n"
proof -
  have le: "t \<le> t'" using assms(2,4,5) by (smt (verit) mult_nonneg_nonneg)
  have "of_int n \<le> (of_int (t' - t) :: rat) / of_int e"
    using assms(2,4) by (simp add: le_divide_eq flip: of_int_mult)
  then show ?thesis
    using assms(1,3) le unfolding steady_def by (smt (verit) min_absorb1 add_increasing)
qed

section \<open>The invariant of the table\<close>

definition cur :: "'b rate_pkg \<Rightarrow> 'b limiter \<Rightarrow> string \<Rightarrow> 'b" where
  "cur P l k = (case lookup_by b_key k (l_buckets l) of
     None \<Rightarrow> new_bucket P (l_every l) (l_burst l) | Some b \<Rightarrow> b_lim b)"

text \<open>A bucket nobody asked about for \<open>ttl\<close> is full, so forgetting it forgets nothing.\<close>

definition bucket_ok :: "'b rate_pkg \<Rightarrow> 'b limiter \<Rightarrow> time \<Rightarrow> 'b bucket \<Rightarrow> bool" where
  "bucket_ok P l T b =
     (steady P (l_every l) (l_burst l) T (b_lim b) \<and>
      (\<forall>t. T \<le> t \<and> b_seen b + l_ttl l \<le> t \<longrightarrow> tokens P t (b_lim b) = of_int (l_burst l)))"

definition table_ok :: "'b rate_pkg \<Rightarrow> time \<Rightarrow> 'b limiter \<Rightarrow> bool" where
  "table_ok P T l =
     (distinct (map b_key (l_buckets l)) \<and> length (l_buckets l) \<le> l_max l \<and>
      (\<forall>b\<in>set (l_buckets l). bucket_ok P l T b))"

definition same_meter :: "'b limiter \<Rightarrow> 'b limiter \<Rightarrow> bool" where
  "same_meter l l' =
     (l_every l' = l_every l \<and> l_burst l' = l_burst l \<and> l_ttl l' = l_ttl l \<and> l_max l' = l_max l)"

lemma bucket_ok_same: "same_meter l l' \<Longrightarrow> bucket_ok P l' T b = bucket_ok P l T b"
  by (simp add: bucket_ok_def same_meter_def)

lemma table_ok_later: "table_ok P T l \<Longrightarrow> T \<le> t \<Longrightarrow> table_ok P t l"
  by (auto simp: table_ok_def bucket_ok_def intro: steady_later)

lemma sweep_same: "same_meter l (sweep now l)" "same_meter l (touch k now l)" "same_meter l l"
  by (simp_all add: same_meter_def sweep_def touch_def)

lemma cur_steady:
  assumes "table_ok P T l" and "token_bucket P (l_every l) (l_burst l)"
  shows "steady P (l_every l) (l_burst l) T (cur P l k)"
  using assms by (auto simp: cur_def table_ok_def bucket_ok_def token_bucket_def split: option.split dest!: lookup_by_SomeD)

lemma sweep_ok: "table_ok P T l \<Longrightarrow> table_ok P T (sweep now l)"
  by (auto simp: table_ok_def sweep_def bucket_ok_def distinct_map_filter intro: le_trans [OF length_filter_le])

lemma sweep_cur:
  assumes ok: "table_ok P T l" and tb: "token_bucket P (l_every l) (l_burst l)"
    and t: "T \<le> t" "now \<le> t" "t \<le> t'"
  shows "tokens P t' (cur P (sweep now l) k) = tokens P t' (cur P l k)"
proof (cases "now - l_swept l > sweepEvery")
  case True
  let ?kept = "\<lambda>b. \<not> now - b_seen b > l_ttl l"
  have d: "distinct (map b_key (l_buckets l))" using ok by (simp add: table_ok_def)
  show ?thesis
  proof (cases "lookup_by b_key k (l_buckets l)")
    case None
    then have "lookup_by b_key k (filter ?kept (l_buckets l)) = None"
      by (auto simp: lookup_by_None_iff)
    with None True show ?thesis by (simp add: cur_def sweep_def)
  next
    case (Some b)
    show ?thesis
    proof (cases "?kept b")
      case True
      then have "lookup_by b_key k (filter ?kept (l_buckets l)) = Some b"
        using Some d by (auto simp: lookup_by_Some_iff distinct_map_filter)
      with Some show ?thesis by (simp add: cur_def sweep_def)
    next
      case False
      have b: "b \<in> set (l_buckets l)" "b_key b = k" using Some by auto
      have "lookup_by b_key k (filter ?kept (l_buckets l)) = None"
        using b False d by (auto simp: lookup_by_None_iff dest: inj_onD [OF distinct_map [THEN iffD1, THEN conjunct2]])
      moreover have "tokens P t' (b_lim b) = of_int (l_burst l)"
        using ok b(1) False t by (auto simp: table_ok_def bucket_ok_def)
      ultimately show ?thesis using Some True tb by (simp add: cur_def sweep_def token_bucket_def)
    qed
  qed
qed (simp add: cur_def sweep_def split: option.split)

text \<open>A full refill, and the longest wait for the lock, take less than the time a bucket is kept.\<close>

definition metered :: "int \<Rightarrow> 'b limiter \<Rightarrow> bool" where
  "metered slack l =
     (0 < l_every l \<and> 1 \<le> l_burst l \<and> slack + l_burst l * l_every l \<le> l_ttl l)"

lemma metered_same: "same_meter l l' \<Longrightarrow> metered slack l' = metered slack l"
  by (simp add: metered_def same_meter_def)

lemma bucket_ok_now:
  assumes "steady P (l_every l) (l_burst l) t (b_lim b)" "metered slack l" "t \<le> now + slack" "b_seen b = now"
  shows "bucket_ok P l t b"
  unfolding bucket_ok_def
proof (intro conjI allI impI)
  fix t' assume "t \<le> t' \<and> b_seen b + l_ttl l \<le> t'"
  with assms(2-4) have "t + l_burst l * l_every l \<le> t'" unfolding metered_def by linarith
  with assms(1,2) show "tokens P t' (b_lim b) = of_int (l_burst l)"
    by (intro steady_full [of P "l_every l" "l_burst l" t]) (auto simp: metered_def)
qed (use assms in simp)

lemma modify_buckets_ok:
  assumes ok: "table_ok P t l" and l': "l' = l\<lparr>l_buckets := modify_by b_key k f (l_buckets l)\<rparr>"
    and f: "\<And>x. b_key x = k \<Longrightarrow> b_key (f x) = k"
    and b: "\<And>x. x \<in> set (l_buckets l) \<Longrightarrow> b_key x = k \<Longrightarrow> bucket_ok P l t (f x)"
  shows "table_ok P t l'" "same_meter l l'" "b_key ` set (l_buckets l') = b_key ` set (l_buckets l)"
    "lookup_by b_key j (l_buckets l') =
       (if j = k then map_option f (lookup_by b_key j (l_buckets l)) else lookup_by b_key j (l_buckets l))"
proof -
  show s: "same_meter l l'" by (simp add: l' same_meter_def)
  have m: "map b_key (l_buckets l') = map b_key (l_buckets l)"
    using f by (simp add: l' map_key_modify_by)
  show "b_key ` set (l_buckets l') = b_key ` set (l_buckets l)" using m by (metis list.set_map)
  show "lookup_by b_key j (l_buckets l') =
       (if j = k then map_option f (lookup_by b_key j (l_buckets l)) else lookup_by b_key j (l_buckets l))"
    using f by (simp add: l' lookup_modify_by)
  have "\<forall>x\<in>set (l_buckets l'). bucket_ok P l t x"
    using ok b by (auto simp: l' set_modify_by table_ok_def)
  then show "table_ok P t l'"
    using ok m bucket_ok_same [OF s] by (simp add: table_ok_def l')
qed

text \<open>What a call does to the buckets, seen from the instant \<open>t\<close> at which it is served.\<close>

definition served :: "'b rate_pkg \<Rightarrow> time \<Rightarrow> string \<Rightarrow> bool \<Rightarrow> 'b limiter \<Rightarrow> 'b limiter \<Rightarrow> bool" where
  "served P t key paid l l' =
     (table_ok P t l' \<and> same_meter l l' \<and>
      b_key ` set (l_buckets l') \<subseteq> insert key (b_key ` set (l_buckets l)) \<and>
      (paid \<longrightarrow> 1 \<le> tokens P t (cur P l key)) \<and>
      (\<forall>k. tokens P t (cur P l' k) = tokens P t (cur P l k) - (if paid \<and> k = key then 1 else 0)))"

definition has_room :: "string \<Rightarrow> 'b limiter \<Rightarrow> bool" where
  "has_room key l = (key \<in> b_key ` set (l_buckets l) \<or> length (l_buckets l) < l_max l)"

lemma ok_served:
  assumes ok: "table_ok P t l" and tb: "token_bucket P (l_every l) (l_burst l)" and me: "metered slack l"
    and t: "t \<le> now + slack" and r: "limiter_ok P key now t (Some l) = (r, lm')"
  shows "\<exists>l'. lm' = Some l' \<and> served P t key False l l' \<and>
    (has_room key l \<longrightarrow> r = (1 \<le> tokens P t (cur P l key)))"
proof (cases "lookup_by b_key key (l_buckets l)")
  case None
  then have "key \<notin> b_key ` set (l_buckets l)" by (simp add: lookup_by_None_iff)
  with None ok r tb me show ?thesis
    by (auto simp: cur_def limiter_ok_def served_def sweep_same has_room_def token_bucket_def metered_def)
next
  case (Some b)
  have bo: "bucket_ok P l t (b_seen_update (\<lambda>_. now) x)" if "x \<in> set (l_buckets l)" for x
    using ok that me t by (intro bucket_ok_now) (auto simp: table_ok_def bucket_ok_def)
  note m = modify_buckets_ok [OF ok refl, of key "b_seen_update (\<lambda>_. now)", folded touch_def, OF _ bo]
  have "tokens P t (cur P (touch key now l) k) = tokens P t (cur P l k)" for k
    using m(2,4) by (auto simp: cur_def same_meter_def split: option.split)
  with Some r m show ?thesis by (auto simp: limiter_ok_def served_def cur_def [of P l key])
qed

lemma charge_served:
  assumes ok: "table_ok P t l" and tb: "token_bucket P (l_every l) (l_burst l)" and me: "metered slack l"
    and t: "t \<le> now + slack" and b: "lookup_by b_key key (l_buckets l) = Some b"
    and r: "charge P key now t b l = (r, lm')"
  shows "\<exists>l'. lm' = Some l' \<and> served P t key r l l' \<and> r = (1 \<le> tokens P t (cur P l key))"
proof -
  obtain c where c: "take_token P t (b_lim b) = (r, c)"
    using r by (auto simp: charge_def split: prod.splits)
  let ?f = "\<lambda>_. b\<lparr>b_lim := c, b_seen := now\<rparr>"
  have bm: "b \<in> set (l_buckets l)" "b_key b = key" using b by auto
  have "steady P (l_every l) (l_burst l) t (b_lim b)"
    using ok bm(1) by (simp add: table_ok_def bucket_ok_def)
  then have tk: "r = (1 \<le> tokens P t (b_lim b))" "steady P (l_every l) (l_burst l) t c"
    "tokens P t c = tokens P t (b_lim b) - (if r then 1 else 0)"
    using take_tokenD [OF tb _ c] by simp_all
  let ?l' = "l\<lparr>l_buckets := modify_by b_key key ?f (l_buckets l)\<rparr>"
  have bo: "bucket_ok P l t (?f x)" for x
    using tk(2) me t by (intro bucket_ok_now) auto
  have ky: "b_key (?f x) = key" for x using bm(2) by simp
  note m = modify_buckets_ok [OF ok refl ky bo]
  have cu: "cur P ?l' k = (if k = key then c else cur P l k)" for k
    using m(2) m(4) [of k] b by (auto simp: cur_def same_meter_def split: option.split)
  have "cur P l key = b_lim b" using b by (simp add: cur_def)
  then have "served P t key r l ?l'"
    unfolding served_def cu using m(1-3) tk(1,3) by auto
  moreover have "lm' = Some ?l'" using r c by (simp add: charge_def)
  ultimately show ?thesis using tk(1) b by (simp add: cur_def)
qed

lemma served_after_sweep:
  assumes s: "served P t key paid (sweep now l) l'" and ok: "table_ok P t l"
    and tb: "token_bucket P (l_every l) (l_burst l)" and n: "now \<le> t"
  shows "served P t key paid l l'"
proof -
  have "b_key ` set (l_buckets (sweep now l)) \<subseteq> b_key ` set (l_buckets l)" by (auto simp: sweep_def)
  then show ?thesis
    using s unfolding served_def sweep_cur [OF ok tb order_refl n order_refl]
    by (auto simp: same_meter_def sweep_def split: if_splits)
qed

text \<open>A new bucket at the end of the table is as good as none: it is full.\<close>

lemma admit_ok:
  assumes ok: "table_ok P t l" and tb: "token_bucket P (l_every l) (l_burst l)" and me: "metered slack l"
    and t: "t \<le> now + slack" and new: "lookup_by b_key key (l_buckets l) = None" and room: "length (l_buckets l) < l_max l"
  defines "b \<equiv> \<lparr>b_key = key, b_lim = new_bucket P (l_every l) (l_burst l), b_seen = now\<rparr>"
  shows "table_ok P t (l\<lparr>l_buckets := l_buckets l @ [b]\<rparr>)" "cur P (l\<lparr>l_buckets := l_buckets l @ [b]\<rparr>) = cur P l"
    "lookup_by b_key key (l_buckets l @ [b]) = Some b"
proof -
  have "bucket_ok P l t b"
    using tb me t by (intro bucket_ok_now) (auto simp: b_def token_bucket_def)
  moreover have "key \<notin> b_key ` set (l_buckets l)" using new by (simp add: lookup_by_None_iff)
  ultimately show "table_ok P t (l\<lparr>l_buckets := l_buckets l @ [b]\<rparr>)"
    using ok room by (auto simp: table_ok_def bucket_ok_def b_def)
  show "cur P (l\<lparr>l_buckets := l_buckets l @ [b]\<rparr>) = cur P l"
    by (rule ext) (use new in \<open>auto simp: cur_def b_def split: option.split\<close>)
  show "lookup_by b_key key (l_buckets l @ [b]) = Some b" using new by (simp add: b_def)
qed

lemma admit_served:
  assumes ok: "table_ok P t l" and tb: "token_bucket P (l_every l) (l_burst l)" and me: "metered slack l"
    and t: "t \<le> now + slack" and new: "lookup_by b_key key (l_buckets l) = None" and room: "length (l_buckets l) < l_max l"
  defines "b \<equiv> \<lparr>b_key = key, b_lim = new_bucket P (l_every l) (l_burst l), b_seen = now\<rparr>"
  assumes r: "charge P key now t b (l\<lparr>l_buckets := l_buckets l @ [b]\<rparr>) = (r, lm')"
  shows "\<exists>l'. lm' = Some l' \<and> served P t key r l l' \<and> r = (1 \<le> tokens P t (cur P l key))"
proof -
  let ?l = "l\<lparr>l_buckets := l_buckets l @ [b]\<rparr>"
  note a = admit_ok [OF ok tb me t new room, folded b_def]
  have "metered slack ?l" using me by (simp add: metered_def)
  then obtain l' where l': "lm' = Some l'" "served P t key r ?l l'" "r = (1 \<le> tokens P t (cur P l key))"
    using charge_served [OF a(1) _ _ t _ r] tb a(2,3) by auto
  then have "served P t key r l l'"
    unfolding served_def a(2) by (auto simp: b_def same_meter_def)
  with l' show ?thesis by blast
qed

lemma swept_room: "has_room key l \<Longrightarrow> length (l_buckets l) \<le> l_max l \<Longrightarrow> has_room key (sweep now l)"
proof -
  assume h: "has_room key l" "length (l_buckets l) \<le> l_max l"
  let ?kept = "\<lambda>b. \<not> now - b_seen b > l_ttl l"
  show ?thesis
  proof (cases "\<exists>b\<in>set (l_buckets l). b_key b = key \<and> \<not> ?kept b")
    case True
    then have "length (filter ?kept (l_buckets l)) < length (l_buckets l)"
      by (metis length_filter_less)
    with h show ?thesis by (auto simp: has_room_def sweep_def)
  next
    case False
    with h le_less_trans [OF length_filter_le [of ?kept "l_buckets l"]] show ?thesis
      by (auto simp: has_room_def sweep_def)
  qed
qed

lemma allow_served:
  assumes ok: "table_ok P t l" and tb: "token_bucket P (l_every l) (l_burst l)" and me: "metered slack l"
    and t: "now \<le> t" "t \<le> now + slack" and r: "limiter_allow P key now t (Some l) = (r, lm')"
  shows "\<exists>l'. lm' = Some l' \<and> served P t key r l l' \<and>
    (has_room key l \<longrightarrow> r = (1 \<le> tokens P t (cur P l key)))"
proof -
  let ?s = "sweep now l"
  have sm: "l_every ?s = l_every l" "l_burst ?s = l_burst l" "l_max ?s = l_max l" "metered slack ?s"
    using me by (auto simp: sweep_def metered_def)
  note sok = sweep_ok [OF ok, of now]
  have stb: "token_bucket P (l_every ?s) (l_burst ?s)" using tb sm by simp
  note scur = sweep_cur [OF ok tb order_refl t(1) order_refl]
  have "\<exists>l'. lm' = Some l' \<and> served P t key r ?s l' \<and>
    (has_room key ?s \<longrightarrow> r = (1 \<le> tokens P t (cur P ?s key)))"
  proof (cases "lookup_by b_key key (l_buckets ?s)")
    case (Some b)
    with charge_served [OF sok stb sm(4) t(2) Some, of r lm'] r show ?thesis
      by (auto simp: limiter_allow_def Let_def)
  next
    case None
    then have nk: "key \<notin> b_key ` set (l_buckets ?s)" by (simp add: lookup_by_None_iff)
    show ?thesis
    proof (cases "length (l_buckets ?s) < l_max ?s")
      case False
      with None r sok nk show ?thesis
        by (auto simp: limiter_allow_def Let_def served_def sweep_same has_room_def)
    next
      case True
      with r None have "charge P key now t \<lparr>b_key = key, b_lim = new_bucket P (l_every ?s) (l_burst ?s), b_seen = now\<rparr>
          (?s\<lparr>l_buckets := l_buckets ?s @ [\<lparr>b_key = key, b_lim = new_bucket P (l_every ?s) (l_burst ?s), b_seen = now\<rparr>]\<rparr>) = (r, lm')"
        by (simp add: limiter_allow_def Let_def)
      from admit_served [OF sok stb sm(4) t(2) None True this] show ?thesis by blast
    qed
  qed
  then obtain l' where l': "lm' = Some l'" "served P t key r ?s l'"
    "has_room key ?s \<longrightarrow> r = (1 \<le> tokens P t (cur P l key))"
    unfolding scur by blast
  have "length (l_buckets l) \<le> l_max l" using ok by (simp add: table_ok_def)
  then show ?thesis
    using l' served_after_sweep [OF l'(2) ok tb t(1)] swept_room [of key l now] by blast
qed

section \<open>Histories\<close>

definition paid :: "meter_call \<Rightarrow> bool \<Rightarrow> bool" where
  "paid c r = (case c of Charge k now t \<Rightarrow> r | Check k now t \<Rightarrow> False)"

lemma timed_Cons:
  "timed slack (c # cs) \<longleftrightarrow> timed slack cs \<and> call_now c \<le> call_time c \<and> call_time c \<le> call_now c + slack \<and>
     (\<forall>d\<in>set cs. call_time c \<le> call_time d)"
  by (auto simp: timed_def)

lemma timed_append: "timed slack (as @ bs) \<Longrightarrow> timed slack as \<and> timed slack bs"
  by (auto simp: timed_def sorted_append)

lemma admitted_Cons:
  "admitted key (c # cs) (r # rs) = (if paid c r \<and> call_key c = key then 1 else 0) + admitted key cs rs"
  by (cases c) (auto simp: paid_def)

lemma serve_served:
  assumes "table_ok P T l" and "token_bucket P (l_every l) (l_burst l)" and "metered slack l"
    and "T \<le> call_time c" "call_now c \<le> call_time c" "call_time c \<le> call_now c + slack"
    and "serve_call P c (Some l) = (r, lm')"
  shows "\<exists>l'. lm' = Some l' \<and> served P (call_time c) (call_key c) (paid c r) l l' \<and>
    (has_room (call_key c) l \<longrightarrow> r = (1 \<le> tokens P (call_time c) (cur P l (call_key c))))"
proof (cases c)
  case (Check k now t)
  with assms show ?thesis
    using ok_served [OF table_ok_later [OF assms(1,4)] assms(2,3)] by (auto simp: paid_def)
next
  case (Charge k now t)
  with assms show ?thesis
    using allow_served [OF table_ok_later [OF assms(1,4)] assms(2,3)] by (auto simp: paid_def)
qed

text \<open>Tokens are a potential: every admission costs one, and time gives back at most the rate.\<close>

lemma history_bound:
  assumes "table_ok P T l" and "token_bucket P (l_every l) (l_burst l)" and "metered slack l"
    and "timed slack cs" and "\<forall>c\<in>set cs. T \<le> call_time c" and "serve_calls P cs (Some l) = (rs, lm')"
  shows "\<exists>l'. lm' = Some l' \<and> table_ok P (last (T # map call_time cs)) l' \<and> same_meter l l' \<and>
    of_nat (admitted key cs rs) + tokens P (last (T # map call_time cs)) (cur P l' key)
      \<le> tokens P T (cur P l key) + of_int (last (T # map call_time cs) - T) / of_int (l_every l)"
  using assms
proof (induction cs arbitrary: T l rs)
  case Nil
  then show ?case by (auto simp: sweep_same)
next
  case (Cons c cs)
  let ?t = "call_time c" and ?E = "last (call_time c # map call_time cs)"
  obtain r l1 rs' where r: "serve_call P c (Some l) = (r, Some l1)" "served P ?t (call_key c) (paid c r) l l1"
    "serve_calls P cs (Some l1) = (rs', lm')" "rs = r # rs'"
    using Cons.prems serve_served [OF Cons.prems(1-3), of c] by (auto simp: timed_Cons split: prod.splits)
  have s: "same_meter l l1" "table_ok P ?t l1" using r(2) by (simp_all add: served_def)
  then have "token_bucket P (l_every l1) (l_burst l1)" "metered slack l1"
    using Cons.prems(2,3) metered_same by (auto simp: same_meter_def)
  from Cons.IH [OF s(2) this _ _ r(3)] obtain l' where l': "lm' = Some l'" "table_ok P ?E l'" "same_meter l1 l'"
    "of_nat (admitted key cs rs') + tokens P ?E (cur P l' key)
      \<le> tokens P ?t (cur P l1 key) + of_int (?E - ?t) / of_int (l_every l1)"
    using Cons.prems(4) by (auto simp: timed_Cons)
  have "tokens P ?t (cur P l key) \<le> tokens P T (cur P l key) + of_int (?t - T) / of_int (l_every l)"
    using steady_facts(3) [OF cur_steady [OF Cons.prems(1,2)]] Cons.prems(5) by simp
  moreover have "tokens P ?t (cur P l1 key) = tokens P ?t (cur P l key) - (if paid c r \<and> key = call_key c then 1 else 0)"
    using r(2) by (simp add: served_def)
  moreover have "l_every l1 = l_every l" using s(1) by (simp add: same_meter_def)
  ultimately have "of_nat (admitted key (c # cs) rs) + tokens P ?E (cur P l' key)
      \<le> tokens P T (cur P l key) + (of_int (?t - T) / of_int (l_every l) + of_int (?E - ?t) / of_int (l_every l))"
    using l'(4) unfolding r(4) admitted_Cons by (auto split: if_splits)
  also have "\<dots> = tokens P T (cur P l key) + of_int (?E - T) / of_int (l_every l)"
    by (simp add: add_divide_distrib [symmetric])
  finally show ?case using l'(1-3) s(1) by (simp add: same_meter_def)
qed

lemma new_limiter_ok:
  assumes "0 < n" "n \<le> window" "slack + window \<le> limiterTTL" "token_bucket P (window div n) n"
  shows "\<exists>l. newLimiter n window t0 = Some l \<and> table_ok P T l \<and> token_bucket P (l_every l) (l_burst l) \<and>
    metered slack l \<and> l_max l = limiterMax \<and> l_every l = window div n \<and> l_burst l = n \<and> l_buckets l = []"
proof -
  have "n * (window div n) \<le> window"
    using assms(1) mult_div_mod_eq [of n window] pos_mod_sign [of n window] by linarith
  moreover have "0 < window div n" using assms(1,2) by (simp add: pos_imp_zdiv_pos_iff)
  ultimately have "slack + n * (window div n) \<le> limiterTTL" using assms(3) by linarith
  with \<open>0 < window div n\<close> show ?thesis
    using assms by (simp add: newLimiter_def table_ok_def metered_def)
qed

lemma serve_calls_append:
  "serve_calls P (as @ bs) lm = (case serve_calls P as lm of (rs, lm1) \<Rightarrow>
     case serve_calls P bs lm1 of (rs', lm2) \<Rightarrow> (rs @ rs', lm2))"
  by (induction as arbitrary: lm) (auto split: prod.splits)

lemma distinct_room:
  assumes "distinct (map b_key (l_buckets l))" "finite K" "card K \<le> l_max l"
    "b_key ` set (l_buckets l) \<union> call_key ` set (c # cs) \<subseteq> K"
  shows "has_room (call_key c) l"
proof (cases "call_key c \<in> b_key ` set (l_buckets l)")
  case False
  have "Suc (length (l_buckets l)) = card (insert (call_key c) (b_key ` set (l_buckets l)))"
    using False distinct_card [OF assms(1)] by simp
  also have "\<dots> \<le> card K" using assms(2,4) by (intro card_mono) auto
  finally show ?thesis using assms(3) by (simp add: has_room_def)
qed (simp add: has_room_def)

lemma ideal_served:
  assumes "token_bucket P e n" and "\<And>k. steady P e n (call_time c) (S k)"
    and "\<And>k. tokens P (call_time c) (S k) = tokens P (call_time c) (cur P l k)"
    and "ideal_call P c S = (r', S')"
  shows "r' = (1 \<le> tokens P (call_time c) (cur P l (call_key c)))"
    "\<forall>k. steady P e n (call_time c) (S' k) \<and> tokens P (call_time c) (S' k) =
       tokens P (call_time c) (cur P l k) - (if paid c r' \<and> k = call_key c then 1 else 0)"
proof (atomize (full), cases c)
  case (Charge k now t)
  obtain b where "take_token P t (S k) = (r', b)" "S' = S(k := b)"
    using assms(4) Charge by (auto split: prod.splits)
  with take_tokenD [OF assms(1) assms(2) [of k]] assms(2,3) Charge
  show "r' = (1 \<le> tokens P (call_time c) (cur P l (call_key c))) \<and>
    (\<forall>k. steady P e n (call_time c) (S' k) \<and> tokens P (call_time c) (S' k) =
       tokens P (call_time c) (cur P l k) - (if paid c r' \<and> k = call_key c then 1 else 0))"
    by (auto simp: paid_def)
qed (use assms in \<open>auto simp: paid_def\<close>)

text \<open>The relation between the table and one bucket per client: equally full at every later instant.\<close>

lemma history_ideal:
  assumes "table_ok P T l" and "token_bucket P (l_every l) (l_burst l)" and "metered slack l"
    and "timed slack cs" and "\<forall>c\<in>set cs. T \<le> call_time c"
    and "\<forall>k. steady P (l_every l) (l_burst l) T (S k) \<and> tokens P T (S k) = tokens P T (cur P l k)"
    and "finite K" "card K \<le> l_max l" "b_key ` set (l_buckets l) \<union> call_key ` set cs \<subseteq> K"
  shows "fst (serve_calls P cs (Some l)) = ideal_calls P cs S"
  using assms
proof (induction cs arbitrary: T l S)
  case (Cons c cs)
  let ?t = "call_time c" and ?k = "call_key c"
  obtain r lm' where "serve_call P c (Some l) = (r, lm')" by fastforce
  with Cons.prems serve_served [OF Cons.prems(1-3), of c r lm']
  obtain l1 where r: "serve_call P c (Some l) = (r, Some l1)" "served P ?t ?k (paid c r) l l1"
    "has_room ?k l \<longrightarrow> r = (1 \<le> tokens P ?t (cur P l ?k))"
    by (auto simp: timed_Cons)
  have room: "has_room ?k l"
    using distinct_room [of l K c cs] Cons.prems(1,7,8,9) by (simp add: table_ok_def)
  have T: "T \<le> ?t" using Cons.prems(5) by simp
  have S: "steady P (l_every l) (l_burst l) ?t (S k)" "tokens P ?t (S k) = tokens P ?t (cur P l k)" for k
    using steady_later [OF _ T, of P _ _ "S k"] spec [OF Cons.prems(6), of k]
      steady_facts(4) [OF cur_steady [OF Cons.prems(1,2)] T, of "S k" k] by simp_all
  obtain r' S' where i: "ideal_call P c S = (r', S')" by fastforce
  have rr: "r' = r" "\<forall>k. steady P (l_every l) (l_burst l) ?t (S' k) \<and> tokens P ?t (S' k) = tokens P ?t (cur P l1 k)"
    using ideal_served [OF Cons.prems(2) S i] r(2,3) room unfolding served_def by auto
  have s: "same_meter l l1" "table_ok P ?t l1" "b_key ` set (l_buckets l1) \<subseteq> insert ?k (b_key ` set (l_buckets l))"
    using r(2) by (simp_all add: served_def)
  have m: "l_every l1 = l_every l" "l_burst l1 = l_burst l" "l_max l1 = l_max l"
    using s(1) by (simp_all add: same_meter_def)
  have ks: "b_key ` set (l_buckets l1) \<union> call_key ` set cs \<subseteq> K"
    using s(3) Cons.prems(9) unfolding list.set image_insert by blast
  have "fst (serve_calls P cs (Some l1)) = ideal_calls P cs S'"
    by (rule Cons.IH [OF s(2) _ _ _ _ _ Cons.prems(7) _ ks])
       (use Cons.prems(2-5,8) rr m metered_same [OF s(1)] in \<open>simp_all add: timed_Cons\<close>)
  then show ?case using r(1) i rr(1) by (cases "serve_calls P cs (Some l1)") simp
qed simp

section \<open>The guarantees\<close>

text \<open>A bucket as the package documents it, to show that its laws can hold: when it was last used, and what it held then.\<close>

definition plain_bucket :: "int \<Rightarrow> int \<Rightarrow> (rat \<times> time) rate_pkg" where
  "plain_bucket e n =
     (let level = (\<lambda>t (v, last). min (of_int n) (v + of_int (max 0 (t - last)) / of_int e))
      in \<lparr>new_bucket = \<lambda>_ _. (of_int n, 0), tokens = level,
        take_token = \<lambda>t b. if 1 \<le> level t b then (True, level t b - 1, t) else (False, b)\<rparr>)"

lemma plain_bucket_laws:
  assumes "0 < e" "1 \<le> n"
  shows "token_bucket (plain_bucket e n) e n"
proof -
  have full: "min (of_int n) (of_int n + (x :: rat) / of_int e) = of_int n" if "0 \<le> x" for x
    using that assms(1) by (simp add: min_absorb1)
  have "steady (plain_bucket e n) e n T (of_int n, 0)" for T
    using assms full by (simp add: steady_def plain_bucket_def)
  moreover have "tokens (plain_bucket e n) T (of_int n, 0) = of_int n" for T
    using full by (simp add: plain_bucket_def)
  moreover have "steady (plain_bucket e n) e n t (tokens (plain_bucket e n) t b - 1, t)"
    if "1 \<le> tokens (plain_bucket e n) t b" "tokens (plain_bucket e n) t b \<le> of_int n" for t b
    using that assms unfolding steady_def
    by (auto simp: plain_bucket_def min_def divide_simps split: if_splits)
  ultimately show ?thesis
    unfolding token_bucket_def by (auto simp: plain_bucket_def Let_def)
qed

lemma clients_stay:
  assumes "0 < n" "n \<le> window" "slack + window \<le> limiterTTL" and "token_bucket P (window div n) n"
    and "timed slack (before @ cs)" and "cs \<noteq> []"
    and "serve_calls P before (newLimiter n window t0) = (rs0, lm1)" and "serve_calls P cs lm1 = (rs, lm2)"
  shows "of_nat (admitted key cs rs) \<le> (of_int n :: rat) + of_int (call_time (last cs) - call_time (hd cs)) / of_int (window div n)
    \<and> (\<exists>l. lm2 = Some l \<and> length (l_buckets l) \<le> limiterMax)"
proof -
  let ?T = "call_time (hd (before @ cs))"
  obtain l0 where l0: "newLimiter n window t0 = Some l0" "table_ok P ?T l0" "token_bucket P (l_every l0) (l_burst l0)"
    "metered slack l0" "l_max l0 = limiterMax" "l_every l0 = window div n" "l_burst l0 = n"
    using new_limiter_ok [OF assms(1-4), of t0 ?T] by blast
  have tm: "timed slack before" "timed slack cs" using timed_append [OF assms(5)] by auto
  have T: "\<forall>c\<in>set (before @ cs). ?T \<le> call_time c"
    using assms(5,6) by (cases "before @ cs") (auto simp: timed_Cons)
  let ?T1 = "last (?T # map call_time before)" and ?H = "call_time (hd cs)"
  have H: "?T1 \<le> ?H" "\<forall>c\<in>set cs. ?H \<le> call_time c"
    using assms(5,6) T by (cases cs; fastforce simp: timed_def sorted_append last_map)+
  obtain l1 where l1: "lm1 = Some l1" "table_ok P ?T1 l1" "same_meter l0 l1"
    using history_bound [OF l0(2-4) tm(1) _ assms(7) [unfolded l0(1)]] T by auto
  then have m: "token_bucket P (l_every l1) (l_burst l1)" "metered slack l1" "table_ok P ?H l1"
    using l0(3,4) metered_same table_ok_later [OF l1(2) H(1)] by (auto simp: same_meter_def)
  obtain l2 where l2: "lm2 = Some l2" "table_ok P (last (?H # map call_time cs)) l2" "same_meter l1 l2"
    "of_nat (admitted key cs rs) + tokens P (last (?H # map call_time cs)) (cur P l2 key)
      \<le> tokens P ?H (cur P l1 key) + of_int (last (?H # map call_time cs) - ?H) / of_int (l_every l1)"
    using history_bound [OF m(3,1,2) tm(2) H(2) assms(8) [unfolded l1(1)]] by blast
  have "tokens P ?H (cur P l1 key) \<le> of_int (l_burst l1)"
    using steady_facts(2) [OF cur_steady [OF m(3,1)]] by simp
  moreover have "0 \<le> tokens P (last (?H # map call_time cs)) (cur P l2 key)"
    using steady_facts(1) [OF cur_steady [OF l2(2)]] m(1) l2(3) by (simp add: same_meter_def)
  moreover have "last (?H # map call_time cs) = call_time (last cs)" using assms(6) by (simp add: last_map)
  moreover have "l_burst l1 = n" "l_every l1 = window div n" "l_max l2 = limiterMax"
    using l0(5-7) l1(3) l2(3) by (simp_all add: same_meter_def)
  ultimately show ?thesis using l2(1,2,4) by (auto simp: table_ok_def)
qed

text \<open>
  C14. A client gets past the limiter at most as often as advertised. Take a limiter of \<open>n\<close> events per
  \<open>window\<close> with any history of calls behind it, from any mix of clients, and any stretch of further
  calls: the calls of one client it admits in that stretch are at most \<open>n\<close>, the burst, and one more for
  every \<open>window / n\<close> the stretch lasts. Sweeping the table never gives a client a second burst, and the
  table never holds more than 20000 clients whoever asks. Assumed are the documented behaviour of the
  token bucket, calls served in the order of their clock readings, and that no call waits for the lock
  longer than the time for which an idle bucket is kept less one window (14 minutes at one minute).
\<close>
theorem clients_stay_within_rate:
  assumes "0 < n" "n \<le> window" "slack + window \<le> limiterTTL" and "token_bucket P (window div n) n"
    and "timed slack (before @ cs)" and "cs \<noteq> []"
    and "serve_calls P before (newLimiter n window t0) = (rs0, lm1)" and "serve_calls P cs lm1 = (rs, lm2)"
  shows "of_nat (admitted key cs rs) \<le> (of_int n :: rat) + of_int (call_time (last cs) - call_time (hd cs)) / of_int (window div n)
    \<and> (\<exists>l. lm2 = Some l \<and> length (l_buckets l) \<le> limiterMax)"
  by (rule clients_stay [OF assms])

definition two_calls :: "meter_call list" where
  "two_calls = [Charge ''a'' 0 1, Check ''a'' 2 2]"

theorem clients_stay_within_rate_witness:
  "of_nat (admitted ''a'' two_calls (fst (serve_calls (plain_bucket (20 * second) 3) two_calls (newLimiter 3 (60 * second) 0))))
     \<le> (3 :: rat) + of_int 1 / of_int (20 * second)"
  using clients_stay_within_rate [of 3 "60 * second" second "plain_bucket (20 * second) 3" "[]" two_calls 0 "[]"
      "newLimiter 3 (60 * second) 0" "fst (serve_calls (plain_bucket (20 * second) 3) two_calls (newLimiter 3 (60 * second) 0))"
      "snd (serve_calls (plain_bucket (20 * second) 3) two_calls (newLimiter 3 (60 * second) 0))" "''a''"]
    plain_bucket_laws [of "20 * second" 3]
  by (simp add: two_calls_def second_def limiterTTL_def timed_def)

text \<open>
  C37. Nobody can tell the table from a bucket per client kept for ever. While the calls come from at most
  20000 clients, every answer of the limiter, to a check or to a charge, is the answer of the client's own
  token bucket of size \<open>n\<close>, full at the start and never forgotten: neither the sweeping of idle
  buckets nor the ceiling is observable. The assumptions are those of the rate guarantee.
\<close>
theorem limiter_is_a_bucket_per_client:
  assumes "0 < n" "n \<le> window" "slack + window \<le> limiterTTL" and "token_bucket P (window div n) n"
    and "timed slack cs" and "card (call_key ` set cs) \<le> limiterMax"
  shows "fst (serve_calls P cs (newLimiter n window t0)) = ideal_calls P cs (\<lambda>_. new_bucket P (window div n) n)"
proof (cases cs)
  case (Cons c cs')
  let ?T = "call_time c"
  obtain l where l: "newLimiter n window t0 = Some l" "table_ok P ?T l" "token_bucket P (l_every l) (l_burst l)"
    "metered slack l" "l_max l = limiterMax" "l_every l = window div n" "l_burst l = n" "l_buckets l = []"
    using new_limiter_ok [OF assms(1-4), of t0 ?T] by blast
  have "\<forall>d\<in>set cs. ?T \<le> call_time d" using assms(5) Cons by (auto simp: timed_Cons)
  then show ?thesis
    unfolding l(1) using assms(4,5,6) l(2-8)
    by (intro history_ideal [of P ?T l slack cs _ "call_key ` set cs"]) (auto simp: token_bucket_def cur_def)
qed (simp add: newLimiter_def)

theorem limiter_is_a_bucket_per_client_witness:
  "fst (serve_calls (plain_bucket (20 * second) 3) two_calls (newLimiter 3 (60 * second) 0)) =
     ideal_calls (plain_bucket (20 * second) 3) two_calls (\<lambda>_. new_bucket (plain_bucket (20 * second) 3) (20 * second) 3)"
  using limiter_is_a_bucket_per_client [of 3 "60 * second" second "plain_bucket (20 * second) 3" two_calls 0]
    plain_bucket_laws [of "20 * second" 3]
  by (simp add: two_calls_def second_def limiterTTL_def limiterMax_def timed_def)

section \<open>Who the client is\<close>

text \<open>
  Addresses as \<open>net/netip\<close> has them after parsing; the textual forms are parameters. A request is
  what \<open>clientKey\<close> reads of it: two headers (empty when absent) and the address of the peer.
\<close>

datatype addr = V4 "32 word" | V6 "128 word" string

record peer =
  x_real_ip :: string
  x_forwarded_for :: string
  remote_addr :: string

record netip =
  parse_addr :: "string \<Rightarrow> addr option"
  addr_text :: "addr \<Rightarrow> string"
  prefix64_text :: "64 word \<Rightarrow> string"      \<comment> \<open>the text of a /64 given its upper half\<close>
  split_host :: "string \<Rightarrow> string option"

text \<open>\<open>Is4() || Is4In6()\<close>, then \<open>Unmap\<close>; else \<open>Prefix(64)\<close>, which drops a zone and cannot fail for 64 bits.\<close>

definition Unmap :: "addr \<Rightarrow> (32 word) option" where
  "Unmap a =
     (case a of
        V4 w \<Rightarrow> Some w
      | V6 w z \<Rightarrow> if (drop_bit 32 w :: 128 word) = 0xFFFF then Some (ucast w) else None)"

definition upper64 :: "addr \<Rightarrow> 64 word" where
  "upper64 a = (case a of V4 w \<Rightarrow> 0 | V6 w z \<Rightarrow> ucast (drop_bit 64 w))"

definition canonicalIP :: "netip \<Rightarrow> string \<Rightarrow> string" where
  "canonicalIP N s0 =
     (let s = TrimSpace s0 in
      case parse_addr N s of
        None \<Rightarrow> s
      | Some ip \<Rightarrow>
          (case Unmap ip of Some v4 \<Rightarrow> addr_text N (V4 v4) | None \<Rightarrow> prefix64_text N (upper64 ip)))"

definition clientKey :: "netip \<Rightarrow> peer \<Rightarrow> bool \<Rightarrow> string" where
  "clientKey N r trustProxy =
     (if trustProxy \<and> x_real_ip r \<noteq> [] then canonicalIP N (x_real_ip r)
      else if trustProxy \<and> x_forwarded_for r \<noteq> [] then canonicalIP N (takeWhile (\<lambda>c. c \<noteq> CHR '','') (x_forwarded_for r))
      else case split_host N (remote_addr r) of
        None \<Rightarrow> canonicalIP N (remote_addr r)
      | Some host \<Rightarrow> canonicalIP N host)"

text \<open>
  Without a trusted proxy no header changes the key. Two addresses share a key exactly when they are
  one IPv4 address, however written, or lie in one /64, given that the textual forms are unambiguous.
\<close>

lemma headers_ignored: "remote_addr r = remote_addr r' \<Longrightarrow> clientKey N r False = clientKey N r' False"
  by (auto simp: clientKey_def split: option.split)

lemma canonicalIP_groups:
  assumes "parse_addr N (TrimSpace s) = Some a" "parse_addr N (TrimSpace s') = Some b"
    and "inj (\<lambda>w. addr_text N (V4 w))" "inj (prefix64_text N)" "\<And>w p. addr_text N (V4 w) \<noteq> prefix64_text N p"
  shows "canonicalIP N s = canonicalIP N s' \<longleftrightarrow>
    Unmap a = Unmap b \<and> (Unmap a = None \<longrightarrow> upper64 a = upper64 b)"
  using assms(1,2) assms(5) assms(5) [symmetric]
  by (auto simp: canonicalIP_def Let_def split: option.split dest: injD [OF assms(3)] injD [OF assms(4)])

end
