(* ===== verification/Web.thy ===== *)
theory Web
  imports Accounts Links Tallies Portable RateLimit
begin

text \<open>
  The vocabulary of the web server (\<open>internal/web\<close>): requests, cookies, replies, the server's state
  and its configuration, and the parts of \<open>server.go\<close> every handler uses (\<open>render\<close>, \<open>fail\<close>,
  redirects). A handler is a function from what the request draws (the clock, random bytes, fresh
  identifiers), the request and the server to a reply and the server afterwards. Templates are not
  modelled: a rendered page is the data its template is given.
\<close>

section \<open>Requests\<close>

text \<open>
  \<open>rq_raw\<close> is the path as the client encoded it and \<open>rq_path\<close> the decoded path; \<open>rq_val\<close> are the path
  wildcards, \<open>rq_form\<close> the values of each form field in order, those of the body before those of the
  address (\<open>rq_query\<close>), \<open>rq_parsed\<close> whether the body could be read, \<open>rq_file\<close> the uploaded file,
  \<open>rq_length\<close> the announced and \<open>rq_size\<close> the true length of the body, \<open>rq_tls\<close> whether the connection
  itself is encrypted.
\<close>

record request =
  rq_method :: string
  rq_raw :: string
  rq_path :: string
  rq_uri :: string
  rq_host :: string
  rq_val :: "string \<Rightarrow> string"
  rq_header :: "string \<Rightarrow> string"
  rq_cookies :: "(string \<times> string) list"
  rq_form :: "string \<Rightarrow> string list"
  rq_query :: "string \<Rightarrow> string list"
  rq_parsed :: bool
  rq_file :: "string option"
  rq_length :: int
  rq_size :: int
  rq_tls :: bool
  rq_remote :: string

definition FormValue :: "request \<Rightarrow> string \<Rightarrow> string" where
  "FormValue r k = (case rq_form r k of [] \<Rightarrow> [] | v # _ \<Rightarrow> v)"

definition Cookie :: "request \<Rightarrow> string \<Rightarrow> string option" where
  "Cookie r n = map_option snd (lookup_by fst n (rq_cookies r))"

definition AddCookie :: "string \<Rightarrow> string \<Rightarrow> request \<Rightarrow> request" where
  "AddCookie n v r = r\<lparr>rq_cookies := rq_cookies r @ [(n, v)]\<rparr>"

definition peer_of :: "request \<Rightarrow> peer" where
  "peer_of r = \<lparr>x_real_ip = rq_header r ''X-Real-Ip'', x_forwarded_for = rq_header r ''X-Forwarded-For'',
     remote_addr = rq_remote r\<rparr>"

text \<open>A cookie to be set; \<open>Expires\<close> repeats \<open>c_max_age\<close>. The \<open>SameSite\<close> attribute is \<open>c_lax\<close>.\<close>

record cookie =
  c_name :: string
  c_value :: string
  c_path :: string
  c_http_only :: bool
  c_secure :: bool
  c_lax :: bool
  c_max_age :: int

text \<open>The rule by which a browser accepts a cookie whose name has the \<open>__Host-\<close> prefix.\<close>

definition browser_accepts :: "cookie \<Rightarrow> bool" where
  "browser_accepts c = (take 7 (c_name c) = ''__Host-'' \<longrightarrow> c_secure c \<and> c_path c = ''/'')"

section \<open>Pages and replies\<close>

record ballot_data =
  bd_survey :: survey
  bd_options :: "opt list"
  bd_selected :: "string list"
  bd_comment :: string
  bd_responded :: bool
  bd_accepting :: bool
  bd_preview :: bool
  bd_results :: "result list"
  bd_voters :: nat

record survey_line =
  ln_survey :: survey
  ln_responses :: nat
  ln_pending :: nat
  ln_url :: string
  ln_overdue :: bool

record admin_data =
  ad_line :: survey_line
  ad_results :: "result list"
  ad_voters :: nat
  ad_comments :: "response list"
  ad_pending :: "opt list"
  ad_merge_into :: "opt list"
  ad_can_edit :: bool
  ad_removed :: "opt list"

record users_data =
  ud_users :: "user list"
  ud_pending :: "user list"
  ud_invites :: "invite list"
  ud_new_invite :: string
  ud_resets :: "(string \<times> reset) list"
  ud_new_reset :: string
  ud_new_reset_user :: string

datatype page =
    IndexPage
  | LoginPage string string                      \<comment> \<open>where to go next, the name typed\<close>
  | PasswordPage "user option"
  | PendingPage "user option"
  | BallotPage ballot_data
  | ResultsPage survey "result list" nat
  | InvitePage string invite string              \<comment> \<open>token, invitation, the name typed\<close>
  | ResetPage string reset
  | DashboardPage "survey_line list"
  | SurveyPage admin_data
  | EditPage admin_data
  | UsersPage users_data

datatype reply =
    Redirect nat string                          \<comment> \<open>status, \<open>Location\<close>\<close>
  | Page nat page
  | Failed nat string                            \<comment> \<open>status, explanation\<close>
  | Limited string                               \<comment> \<open>429 with \<open>Retry-After\<close>\<close>
  | Download string string string                \<comment> \<open>content type, file name, content\<close>

text \<open>A reply with the cookies it sets; a rendered page also has a CSRF token and a message to show.\<close>

record http =
  h_reply :: reply
  h_cookies :: "cookie list"
  h_csrf :: string
  h_flash :: "(string \<times> bool) option"

section \<open>The server\<close>

record url =
  u_scheme :: string
  u_host :: string
  u_opaque :: string
  u_path :: string

text \<open>
  The configuration, and the functions outside the repository: the keyed digest under the instance's
  secret, the key derivation, the address parser, the token bucket, \<open>url.Parse\<close>, the generator of
  the shuffle, the text of an error, JSON and the formatting of times.
\<close>

record 'b config =
  cf_secure :: bool
  cf_trust :: bool
  cf_base :: string
  cf_redirect :: bool
  cf_mac :: "string list \<Rightarrow> string"
  cf_kdf :: kdf
  cf_netip :: netip
  cf_rate :: "'b rate_pkg"
  cf_parse :: "string \<Rightarrow> url option"
  cf_draw :: "string \<Rightarrow> nat \<Rightarrow> nat"
  cf_text :: "err \<Rightarrow> string"
  cf_local :: "time \<Rightarrow> string"                     \<comment> \<open>an instant in the configured timezone\<close>
  cf_ymd :: "time \<Rightarrow> string"
  cf_parse_time :: "string \<Rightarrow> time option"        \<comment> \<open>a \<open>datetime-local\<close> value, with or without seconds, in that timezone\<close>
  cf_parse_hours :: "string \<Rightarrow> int option"        \<comment> \<open>\<open>time.ParseDuration\<close>, in nanoseconds\<close>
  cf_fmt1 :: "rat \<Rightarrow> string"
  cf_escape :: "string \<Rightarrow> string"                 \<comment> \<open>\<open>url.PathEscape\<close>\<close>
  cf_query :: "string \<Rightarrow> string"                  \<comment> \<open>\<open>url.QueryEscape\<close>\<close>
  cf_unescape :: "string \<Rightarrow> string"               \<comment> \<open>\<open>url.PathUnescape\<close> of a segment\<close>
  cf_quote :: "string \<Rightarrow> string"                  \<comment> \<open>the verb \<open>%q\<close>\<close>
  cf_encode :: "document \<Rightarrow> string"
  cf_header :: "string \<rightharpoonup> string \<times> int"
  cf_decode :: "string \<rightharpoonup> document"

text \<open>What one request draws: the clock before and after the lock of a limiter, random bytes, identifiers.\<close>

record draws =
  dr_now :: time
  dr_locked :: time
  dr_bytes :: string
  dr_salt :: string
  dr_id :: string
  dr_id2 :: string
  dr_ids :: "nat \<Rightarrow> string"
  dr_rids :: "nat \<Rightarrow> string"

record 'b server =
  sv_store :: store
  sv_login :: "'b limiter option"
  sv_voter :: "'b limiter option"

definition sdb_of :: "'b server \<Rightarrow> db" where
  "sdb_of s = sdb (sv_store s)"

type_synonym 'b handler = "draws \<Rightarrow> request \<Rightarrow> 'b server \<Rightarrow> http \<times> 'b server"

text \<open>Running a transaction of the store and going on with its result.\<close>

definition on_store :: "(store \<Rightarrow> 'a \<times> store) \<Rightarrow> 'b server \<Rightarrow> 'a \<times> 'b server" where
  "on_store f s = (let (x, st) = f (sv_store s) in (x, s\<lparr>sv_store := st\<rparr>))"

text \<open>A new server on an open store. A rate of zero is unset and means the default; a negative one disables.\<close>

definition DefaultLoginRate :: int where "DefaultLoginRate = 10"
definition DefaultVoterRate :: int where "DefaultVoterRate = 300"

definition newServer :: "int \<Rightarrow> int \<Rightarrow> time \<Rightarrow> store \<Rightarrow> 'b server" where
  "newServer loginRate voterRate now st =
     (let loginRate = (if loginRate = 0 then DefaultLoginRate else loginRate);
          voterRate = (if voterRate = 0 then DefaultVoterRate else voterRate)
      in \<lparr>sv_store = st, sv_login = newLimiter loginRate (60 * second) now,
          sv_voter = newLimiter voterRate (60 * second) now\<rparr>)"

section \<open>Cookies\<close>

definition sessionCookie :: string where "sessionCookie = ''qs_session''"
definition voterCookie :: string where "voterCookie = ''qs_voter''"
definition flashCookie :: string where "flashCookie = ''qs_flash''"
definition sessionTTL :: int where "sessionTTL = 12 * hour"
definition voterTTL :: int where "voterTTL = 365 * 24 * hour"
definition flashTTL :: int where "flashTTL = 5 * 60 * second"

definition cookieName :: "'b config \<Rightarrow> string \<Rightarrow> string" where
  "cookieName C base = (if cf_secure C then ''__Host-'' @ base else base)"

definition cookie_of :: "'b config \<Rightarrow> string \<Rightarrow> string \<Rightarrow> int \<Rightarrow> cookie" where
  "cookie_of C name value ttl =
     \<lparr>c_name = cookieName C name, c_value = value, c_path = ''/'', c_http_only = True,
      c_secure = cf_secure C, c_lax = True, c_max_age = (if ttl > 0 then ttl div second else -1)\<rparr>"

section \<open>Messages across a redirect\<close>

definition setFlash :: "'b config \<Rightarrow> string \<Rightarrow> bool \<Rightarrow> cookie" where
  "setFlash C msg isErr =
     cookie_of C flashCookie (EncodeToString url_alphabet ((if isErr then CHR ''e'' else CHR ''i'') # msg)) flashTTL"

definition clear_flash :: "'b config \<Rightarrow> cookie" where
  "clear_flash C =
     \<lparr>c_name = cookieName C flashCookie, c_value = [], c_path = ''/'', c_http_only = False,
      c_secure = False, c_lax = False, c_max_age = -1\<rparr>"

text \<open>\<open>flashNow\<close> puts the message into the request's context: the first argument.\<close>

definition takeFlash ::
  "'b config \<Rightarrow> (string \<times> bool) option \<Rightarrow> request \<Rightarrow> (string \<times> bool) option \<times> cookie list" where
  "takeFlash C flashed r =
     (case flashed of
        Some f \<Rightarrow> (Some f, [])
      | None \<Rightarrow>
          (case Cookie r (cookieName C flashCookie) of
             None \<Rightarrow> (None, [])
           | Some v \<Rightarrow>
               if v = [] then (None, [])
               else case DecodeString url_alphabet v of
                 None \<Rightarrow> (None, [clear_flash C])
               | Some b \<Rightarrow>
                   (case b of [] \<Rightarrow> (None, [clear_flash C])
                    | k # msg \<Rightarrow> (Some (msg, k = CHR ''e''), [clear_flash C]))))"

section \<open>The CSRF token\<close>

definition cookie_value :: "'b config \<Rightarrow> request \<Rightarrow> string \<Rightarrow> string option" where
  "cookie_value C r base =
     (case Cookie r (cookieName C base) of None \<Rightarrow> None | Some v \<Rightarrow> if v = [] then None else Some v)"

definition csrfToken :: "'b config \<Rightarrow> request \<Rightarrow> string" where
  "csrfToken C r =
     (case cookie_value C r sessionCookie of
        Some v \<Rightarrow> cf_mac C [''csrf'', v]
      | None \<Rightarrow>
          (case cookie_value C r voterCookie of Some v \<Rightarrow> cf_mac C [''csrf'', v] | None \<Rightarrow> []))"

definition checkCSRF :: "'b config \<Rightarrow> request \<Rightarrow> bool" where
  "checkCSRF C r =
     (let want = csrfToken C r in if want = [] then False else FormValue r ''csrf'' = want)"

section \<open>Replies\<close>

definition render_with :: "'b config \<Rightarrow> (string \<times> bool) option \<Rightarrow> request \<Rightarrow> cookie list \<Rightarrow> reply \<Rightarrow> http" where
  "render_with C flashed r cs reply =
     (case takeFlash C flashed r of (f, clear) \<Rightarrow>
        \<lparr>h_reply = reply, h_cookies = cs @ clear, h_csrf = csrfToken C r, h_flash = f\<rparr>)"

definition render :: "'b config \<Rightarrow> request \<Rightarrow> cookie list \<Rightarrow> nat \<Rightarrow> page \<Rightarrow> http" where
  "render C r cs status p = render_with C None r cs (Page status p)"

text \<open>Pages of error: a status and, below 500, what was wrong.\<close>

definition fail :: "'b config \<Rightarrow> request \<Rightarrow> cookie list \<Rightarrow> nat \<Rightarrow> string \<Rightarrow> http" where
  "fail C r cs status msg = render_with C None r cs (Failed status msg)"

definition tooMany :: "'b config \<Rightarrow> request \<Rightarrow> cookie list \<Rightarrow> string \<Rightarrow> http" where
  "tooMany C r cs msg = render_with C None r cs (Limited msg)"

section \<open>Redirects\<close>

text \<open>\<open>path.Clean\<close> of a path that begins with a slash: the stack holds the segments kept so far, last first.\<close>

fun clean_segs :: "string list \<Rightarrow> string list \<Rightarrow> string list" where
  "clean_segs st [] = rev st"
| "clean_segs st (s # ss) =
     (if s = [] \<or> s = ''.'' then clean_segs st ss
      else if s = ''..'' then clean_segs (tl st) ss
      else clean_segs (s # st) ss)"

fun join_slash :: "string list \<Rightarrow> string" where
  "join_slash [] = []"
| "join_slash [s] = s"
| "join_slash (s # ss) = s @ CHR ''/'' # join_slash ss"

definition path_clean :: "string \<Rightarrow> string" where
  "path_clean p = CHR ''/'' # join_slash (clean_segs [] (split_at (CHR ''/'') p))"

text \<open>\<open>path.Split\<close>: everything up to the last slash.\<close>

definition path_dir :: "string \<Rightarrow> string" where
  "path_dir p = rev (dropWhile (\<lambda>c. c \<noteq> CHR ''/'') (rev p))"

definition hex_digit :: "nat \<Rightarrow> char" where
  "hex_digit n = ''0123456789abcdef'' ! n"

definition hexEscapeNonASCII :: "string \<Rightarrow> string" where
  "hexEscapeNonASCII s =
     concat (map (\<lambda>c. if byte c \<ge> 0x80 then [CHR 0x25, hex_digit (byte c div 16), hex_digit (byte c mod 16)] else [c]) s)"

text \<open>The \<open>Location\<close> that \<open>http.Redirect\<close> sends.\<close>

definition relative_location :: "string \<Rightarrow> string \<Rightarrow> string" where
  "relative_location oldpath url =
     (let url = (if url = [] \<or> hd url \<noteq> CHR ''/'' then path_dir (if oldpath = [] then ''/'' else oldpath) @ url else url);
          p = takeWhile (\<lambda>c. c \<noteq> CHR ''?'') url; query = dropWhile (\<lambda>c. c \<noteq> CHR ''?'') url;
          q = path_clean p
      in (if p \<noteq> [] \<and> last p = CHR ''/'' \<and> last q \<noteq> CHR ''/'' then q @ ''/'' else q) @ query)"

definition location_of :: "'b config \<Rightarrow> request \<Rightarrow> string \<Rightarrow> string" where
  "location_of C r url =
     hexEscapeNonASCII
       (case cf_parse C url of
          None \<Rightarrow> url
        | Some u \<Rightarrow> if u_scheme u = [] \<and> u_host u = [] then relative_location (rq_path r) url else url)"

definition redirect :: "'b config \<Rightarrow> request \<Rightarrow> cookie list \<Rightarrow> nat \<Rightarrow> string \<Rightarrow> http" where
  "redirect C r cs status url =
     \<lparr>h_reply = Redirect status (location_of C r url), h_cookies = cs, h_csrf = [], h_flash = None\<rparr>"

text \<open>Most handlers answer with \<open>303 See Other\<close>.\<close>

definition see_other :: "'b config \<Rightarrow> request \<Rightarrow> cookie list \<Rightarrow> string \<Rightarrow> http" where
  "see_other C r cs url = redirect C r cs 303 url"

section \<open>Facts every handler uses\<close>

text \<open>Every cookie of the server is one its browser keeps under the \<open>__Host-\<close> rule, but for the flash cookie's removal.\<close>

lemma cookie_accepted: "browser_accepts (cookie_of C name value ttl)" if "take 7 name \<noteq> ''__Host-''"
  using that by (simp add: browser_accepts_def cookie_of_def cookieName_def)

lemma clear_flash_refused: "cf_secure C \<Longrightarrow> \<not> browser_accepts (clear_flash C)"
  by (simp add: browser_accepts_def clear_flash_def cookieName_def)

text \<open>A message set on a redirect is the message the next page shows.\<close>

lemma flash_round_trip:
  assumes "Cookie r (cookieName C flashCookie) = Some (c_value (setFlash C msg isErr))"
  shows "takeFlash C None r = (Some (msg, isErr), [clear_flash C])"
proof -
  let ?v = "EncodeToString url_alphabet ((if isErr then CHR ''e'' else CHR ''i'') # msg)"
  have d: "DecodeString url_alphabet ?v = Some ((if isErr then CHR ''e'' else CHR ''i'') # msg)"
    by (rule Decode_Encode [OF alphabets_good(2)])
  have "DecodeString url_alphabet [] = Some []" by code_simp
  with d have "?v \<noteq> []" by auto
  with d show ?thesis using assms by (simp add: takeFlash_def setFlash_def cookie_of_def)
qed

lemma split_at_no_sep: "p \<in> set (split_at sep s) \<Longrightarrow> sep \<notin> set p"
  by (induction s arbitrary: p) (auto split: list.splits if_splits)

lemma split_at_subset: "p \<in> set (split_at sep s) \<Longrightarrow> set p \<subseteq> set s"
proof (induction s arbitrary: p)
  case (Cons c s)
  then show ?case
    by (cases "split_at sep s") (force split: if_splits)+
qed simp

lemma clean_segs_kept: "set (clean_segs st ss) \<subseteq> set st \<union> {s \<in> set ss. s \<noteq> []}"
proof (induction st ss rule: clean_segs.induct)
  case (2 st s ss)
  have "set (tl st) \<subseteq> set st" by (cases st) auto
  with 2 show ?case by auto
qed simp

text \<open>A cleaned path begins with one slash: no browser reads a host out of it.\<close>

lemma path_clean_one_slash:
  "path_clean p = ''/'' \<or> (\<exists>c cs. path_clean p = CHR ''/'' # c # cs \<and> c \<noteq> CHR ''/'' \<and> c \<in> set p)"
proof -
  let ?ss = "clean_segs [] (split_at (CHR ''/'') p)"
  show ?thesis
  proof (cases ?ss)
    case (Cons s ss)
    have "s \<in> set (split_at (CHR ''/'') p)" "s \<noteq> []"
      using clean_segs_kept [of "[]" "split_at (CHR ''/'') p"] Cons by auto
    then have "hd s \<noteq> CHR ''/''" "hd s \<in> set p" "s = hd s # tl s"
      using split_at_no_sep split_at_subset by (metis hd_in_set, fastforce, simp)
    moreover have "\<exists>t. join_slash (s # ss) = s @ t" by (cases ss) auto
    ultimately show ?thesis unfolding path_clean_def Cons by (metis append_Cons)
  qed (simp add: path_clean_def)
qed

end
