(* ===== verification/Sessions.thy ===== *)
theory Sessions
  imports Web
begin

text \<open>
  Who is asking (\<open>internal/web/auth.go\<close>, and \<open>limitLogin\<close> and \<open>handleIndex\<close> of
  \<open>server.go\<close>): session cookies, the gate in front of every handler that needs an account, the
  signed identity of anonymous respondents, and the handlers that sign in and out and change a
  password.
\<close>

section \<open>Sessions\<close>

definition Unix :: "time \<Rightarrow> int" where
  "Unix t = (t - 62135596800 * second) div second"

abbreviation bar :: char where "bar \<equiv> CHR 0x7C"

definition session_body :: "string \<Rightarrow> string \<Rightarrow> string" where
  "session_body name expiry = name @ [bar] @ expiry"

definition newSession :: "'b config \<Rightarrow> time \<Rightarrow> user \<Rightarrow> string" where
  "newSession C now u =
     (let body = session_body (u_name u) (FormatInt (Unix (now + sessionTTL)))
      in body @ [bar] @ cf_mac C [''session'', body, SessionKey u])"

definition sessionUser :: "'b config \<Rightarrow> time \<Rightarrow> db \<Rightarrow> request \<Rightarrow> user option" where
  "sessionUser C now d r =
     (case Cookie r (cookieName C sessionCookie) of
        None \<Rightarrow> None
      | Some c \<Rightarrow>
          (case split_at bar c of
             [name, expiry, mac] \<Rightarrow>
               (case Atoi expiry of
                  None \<Rightarrow> None
                | Some ts \<Rightarrow>
                    if Unix now > ts then None
                    else (case UserOf d name of
                       None \<Rightarrow> None
                     | Some u \<Rightarrow>
                         if mac \<noteq> cf_mac C [''session'', session_body name expiry, SessionKey u] then None
                         else Some u))
           | _ \<Rightarrow> None))"

definition activeUser :: "'b config \<Rightarrow> time \<Rightarrow> db \<Rightarrow> request \<Rightarrow> user option" where
  "activeUser C now d r =
     (case sessionUser C now d r of
        None \<Rightarrow> None
      | Some u \<Rightarrow> if u_pending u \<or> u_must_change u then None else Some u)"

section \<open>The gate\<close>

definition has_prefix :: "string \<Rightarrow> string \<Rightarrow> bool" where
  "has_prefix s p = (take (length p) s = p)"

definition requireRole :: "'b config \<Rightarrow> string \<Rightarrow> (user \<Rightarrow> 'b handler) \<Rightarrow> 'b handler" where
  "requireRole C need h dr r s =
     (case sessionUser C (dr_now dr) (sdb_of s) r of
        None \<Rightarrow>
          if rq_method r = ''GET'' then (see_other C r [] (''/login?next='' @ cf_query C (rq_uri r)), s)
          else (fail C r [] 401 ''please log in again'', s)
      | Some u \<Rightarrow>
          if u_pending u \<and> rq_path r \<noteq> ''/account/pending'' then
            (if rq_method r = ''GET'' then (see_other C r [] ''/account/pending'', s)
             else (fail C r [] 403 ''your account is still waiting for approval'', s))
          else if u_must_change u \<and> \<not> has_prefix (rq_path r) ''/account/password'' then
            (see_other C r [] ''/account/password'', s)
          else if \<not> AtLeast (u_role u) need then
            (fail C r [] 403 ''your account does not have permission to do that'', s)
          else if rq_method r \<noteq> ''GET'' \<and> \<not> checkCSRF C r then
            (fail C r [] 403 ''your session expired; please retry'', s)
          else h u dr r s)"

section \<open>Anonymous respondents\<close>

text \<open>\<open>strings.Cut\<close> at the first dot.\<close>

definition verifyVoterToken :: "'b config \<Rightarrow> string \<Rightarrow> string option" where
  "verifyVoterToken C v =
     (let tok = takeWhile (\<lambda>c. c \<noteq> CHR ''.'') v; rest = dropWhile (\<lambda>c. c \<noteq> CHR ''.'') v in
      if rest = [] \<or> length tok < 16 then None
      else if tl rest \<noteq> cf_mac C [''voter-cookie'', tok] then None
      else Some tok)"

definition client_of :: "'b config \<Rightarrow> request \<Rightarrow> string" where
  "client_of C r = clientKey (cf_netip C) (peer_of r) (cf_trust C)"

text \<open>
  The token (empty when the caller is throttled), the cookies set, and the request as the rest of
  the handler sees it.
\<close>

definition voterToken ::
  "'b config \<Rightarrow> draws \<Rightarrow> request \<Rightarrow> 'b server \<Rightarrow> (string \<times> cookie list \<times> request) \<times> 'b server" where
  "voterToken C dr r s =
     (case (case Cookie r (cookieName C voterCookie) of None \<Rightarrow> None | Some v \<Rightarrow> verifyVoterToken C v) of
        Some tok \<Rightarrow> ((tok, [], r), s)
      | None \<Rightarrow>
          (case limiter_allow (cf_rate C) (client_of C r) (dr_now dr) (dr_locked dr) (sv_voter s) of
             (ok, lm) \<Rightarrow>
               (let s = s\<lparr>sv_voter := lm\<rparr> in
                if \<not> ok then (([], [], r), s)
                else
                  let tok = EncodeToString url_alphabet (dr_bytes dr);
                      signed = tok @ ''.'' @ cf_mac C [''voter-cookie'', tok]
                  in ((tok, [cookie_of C voterCookie signed voterTTL], AddCookie (cookieName C voterCookie) signed r), s))))"

section \<open>Signing in and out\<close>

text \<open>\<open>safeNext\<close>: the empty string stands for no usable destination.\<close>

definition safeNext :: "'b config \<Rightarrow> string \<Rightarrow> string" where
  "safeNext C nxt =
     (if nxt = [] \<or> \<not> has_prefix nxt ''/'' then []
      else if CHR 0x5C \<in> set nxt then []
      else (case cf_parse C nxt of
         None \<Rightarrow> []
       | Some u \<Rightarrow>
           if u_scheme u \<noteq> [] \<or> u_host u \<noteq> [] \<or> u_opaque u \<noteq> [] then []
           else if \<not> has_prefix (u_path u) ''/'' \<or> has_prefix (u_path u) ''//'' then []
           else nxt))"

definition limitLogin :: "'b config \<Rightarrow> 'b handler \<Rightarrow> 'b handler" where
  "limitLogin C h dr r s =
     (case limiter_ok (cf_rate C) (client_of C r) (dr_now dr) (dr_locked dr) (sv_login s) of
        (ok, lm) \<Rightarrow>
          (let s = s\<lparr>sv_login := lm\<rparr> in
           if \<not> ok then (tooMany C r [] ''Too many failed attempts from your address. Wait a minute and try again.'', s)
           else h dr r s))"

definition spend_login :: "'b config \<Rightarrow> draws \<Rightarrow> request \<Rightarrow> 'b server \<Rightarrow> 'b server" where
  "spend_login C dr r s =
     s\<lparr>sv_login := limiter_spend (cf_rate C) (client_of C r) (dr_now dr) (dr_locked dr) (sv_login s)\<rparr>"

definition handleIndex :: "'b config \<Rightarrow> 'b handler" where
  "handleIndex C dr r s =
     (if sessionUser C (dr_now dr) (sdb_of s) r \<noteq> None then (see_other C r [] ''/admin/'', s)
      else (render C r [] 200 IndexPage, s))"

definition handleLoginForm :: "'b config \<Rightarrow> 'b handler" where
  "handleLoginForm C dr r s =
     (if sessionUser C (dr_now dr) (sdb_of s) r \<noteq> None then (see_other C r [] ''/admin/'', s)
      else (case voterToken C dr r s of
        ((tok, cs, r), s) \<Rightarrow> (render C r cs 200 (LoginPage (safeNext C (FormValue r ''next'')) []), s)))"

definition handleLogin :: "'b config \<Rightarrow> 'b handler" where
  "handleLogin C dr r s =
     (if \<not> checkCSRF C r then (fail C r [] 403 ''your session expired; please try again'', s)
      else
        let name = TrimSpace (FormValue r ''username''); pw = FormValue r ''password'';
            nxt = safeNext C (FormValue r ''next'')
        in case Authenticate (cf_kdf C) (sdb_of s) name pw of
             None \<Rightarrow>
               (render_with C (Some (''Incorrect username or password.'', True)) r [] (Page 401 (LoginPage nxt name)),
                spend_login C dr r s)
           | Some u \<Rightarrow>
               (let cs = [cookie_of C sessionCookie (newSession C (dr_now dr) u) sessionTTL];
                    dest = (if u_pending u then ''/account/pending''
                            else if u_must_change u then ''/account/password''
                            else if nxt = [] then ''/admin/'' else nxt)
                in (see_other C r cs dest, s)))"

definition handleLogout :: "'b config \<Rightarrow> 'b handler" where
  "handleLogout C dr r s =
     (if \<not> checkCSRF C r then (fail C r [] 403 ''your session expired'', s)
      else
        let s = (case sessionUser C (dr_now dr) (sdb_of s) r of
                   None \<Rightarrow> s
                 | Some u \<Rightarrow> snd (on_store (tx (RevokeSessions (dr_now dr) (u_name u))) s))
        in (see_other C r [cookie_of C sessionCookie [] 0, setFlash C ''Signed out on every device.'' False] ''/login'', s))"

definition handlePasswordForm :: "'b config \<Rightarrow> user \<Rightarrow> 'b handler" where
  "handlePasswordForm C u dr r s = (render C r [] 200 (PasswordPage (Some u)), s)"

definition handlePasswordChange :: "'b config \<Rightarrow> user \<Rightarrow> 'b handler" where
  "handlePasswordChange C u dr r s =
     (let current = FormValue r ''current''; nxt = FormValue r ''new''; confirm = FormValue r ''confirm'';
          bad = (\<lambda>msg. render_with C (Some (msg, True)) r [] (Page 400 (PasswordPage (Some u))))
      in
      if Authenticate (cf_kdf C) (sdb_of s) (u_name u) current = None then
        (bad ''Your current password is not correct.'', s)
      else if nxt \<noteq> confirm then (bad ''The two new passwords do not match.'', s)
      else
        case on_store (tx (SetPassword (cf_kdf C) (dr_salt dr) (dr_now dr) (u_name u) nxt)) s of
          (Inl e, s) \<Rightarrow> (bad (cf_text C e), s)
        | (Inr _, s) \<Rightarrow>
            (let cs = (case UserOf (sdb_of s) (u_name u) of
                 None \<Rightarrow> []
               | Some u \<Rightarrow> [cookie_of C sessionCookie (newSession C (dr_now dr) u) sessionTTL])
             in (see_other C r (cs @ [setFlash C ''Password changed.'' False]) ''/admin/'', s)))"

section \<open>What a session cookie is worth\<close>

lemma split_at_three:
  "bar \<notin> set a \<Longrightarrow> bar \<notin> set b \<Longrightarrow> bar \<notin> set c \<Longrightarrow> split_at bar (a @ [bar] @ b @ [bar] @ c) = [a, b, c]"
  by (simp add: split_at_append split_at_none)

lemma bar_facts: "\<not> is_digit bar" "bar \<notin> set url_alphabet" "bar \<noteq> CHR ''-''"
  by code_simp+

lemma Atoi_FormatInt:
  assumes "0 \<le> n" "n < 2 ^ 63"
  shows "Atoi (FormatInt n) = Some n"
proof -
  have "nat n < 2 ^ 63" using assms by (simp add: nat_less_iff)
  from Atoi_decimal [OF this] show ?thesis using assms(1) by (simp add: FormatInt_def)
qed

lemma bar_FormatInt: "bar \<notin> set (FormatInt n)"
  using decimal_digits bar_facts by (auto simp: FormatInt_def list_all_iff)

lemma bar_MAC: "bar \<notin> set (MAC hmac secret xs)"
  using Encode_chars [OF alphabets_good(2)] bar_facts(2) by (auto simp: MAC_def)

lemma MAC_eq: "MAC hmac secret xs = MAC hmac secret ys \<longleftrightarrow> hmac secret (mac_input xs) = hmac secret (mac_input ys)"
  by (simp add: MAC_def Encode_inject [OF alphabets_good(2)])

text \<open>Rendered instants hold no zero byte, so a session key shows its hash and its instant.\<close>

lemma digit_nonzero: "n < 10 \<Longrightarrow> digit n \<noteq> CHR 0x00"
proof -
  have "\<not> is_digit (CHR 0x00)" by code_simp
  then show "n < 10 \<Longrightarrow> digit n \<noteq> CHR 0x00" using digit_is_digit by metis
qed

lemma pad_nonzero: "CHR 0x00 \<notin> set (pad w n)"
proof (induction w arbitrary: n)
  case (Suc w)
  have "nat (n mod 10) < 10" by (simp add: nat_less_iff)
  then have "digit (nat (n mod 10)) \<noteq> CHR 0x00" by (rule digit_nonzero)
  with Suc show ?case by auto
qed simp

lemma frac_nonzero: "CHR 0x00 \<notin> set (GoTime.frac n)"
proof -
  have "set (dropWhile p xs) \<subseteq> set xs" for p :: "char \<Rightarrow> bool" and xs by (auto dest: set_dropWhileD)
  then show ?thesis using pad_nonzero [of 9 n] by (auto simp: GoTime.frac_def dest: set_dropWhileD)
qed

lemma dbTime_nonzero: "CHR 0x00 \<notin> set (dbTime t)"
  using pad_nonzero frac_nonzero by (auto simp: dbTime_def Let_def split: prod.splits)

lemma last_zero_split:
  assumes "x @ z # p = y @ z # q" "z \<notin> set p" "z \<notin> set q"
  shows "x = y \<and> p = q"
proof -
  obtain us where "x = y @ us \<and> us @ z # p = z # q \<or> x @ us = y \<and> z # p = us @ z # q"
    using assms(1) append_eq_append_conv2 [of x "z # p" y "z # q"] by blast
  then show ?thesis
    using assms(2,3) by (cases us) auto
qed

lemma SessionKey_eq:
  assumes "u_name u = u_name u'"
  shows "SessionKey u = SessionKey u' \<longleftrightarrow>
    u_hash u = u_hash u' \<and> dbTime (u_sessions_from u) = dbTime (u_sessions_from u')"
  using assms last_zero_split [of "u_hash u" "CHR 0x00" "dbTime (u_sessions_from u)" "u_hash u'" "dbTime (u_sessions_from u')"]
    dbTime_nonzero by (auto simp: SessionKey_def)

text \<open>Who a cookie of \<open>newSession\<close> stands for, at any later instant and in any later database.\<close>

lemma sessionUser_new:
  assumes C: "cf_mac C = MAC hmac secret" and k: "Cookie r (cookieName C sessionCookie) = Some (newSession C t0 u)"
    and nm: "bar \<notin> set (u_name u)" and rg: "0 \<le> Unix (t0 + sessionTTL)" "Unix (t0 + sessionTTL) < 2 ^ 63"
  shows "sessionUser C now d r =
    (if Unix now > Unix (t0 + sessionTTL) then None
     else case UserOf d (u_name u) of None \<Rightarrow> None
     | Some u' \<Rightarrow>
        let body = session_body (u_name u) (FormatInt (Unix (t0 + sessionTTL)))
        in if hmac secret (mac_input [''session'', body, SessionKey u']) = hmac secret (mac_input [''session'', body, SessionKey u])
           then Some u' else None)"
proof -
  let ?e = "FormatInt (Unix (t0 + sessionTTL))"
  let ?b = "session_body (u_name u) ?e"
  have "split_at bar (newSession C t0 u) = [u_name u, ?e, cf_mac C [''session'', ?b, SessionKey u]]"
    using split_at_three [OF nm bar_FormatInt bar_MAC]
    by (simp add: newSession_def session_body_def Let_def C)
  then show ?thesis
    by (auto simp: sessionUser_def k Atoi_FormatInt [OF rg] C MAC_eq Let_def split: option.split)
qed

text \<open>Two argument lists the keyed hash cannot tell apart.\<close>

definition collides :: "(string \<Rightarrow> string \<Rightarrow> string) \<Rightarrow> string \<Rightarrow> string list \<Rightarrow> string list \<Rightarrow> bool" where
  "collides hmac secret xs ys = (xs \<noteq> ys \<and> hmac secret (mac_input xs) = hmac secret (mac_input ys))"

text \<open>
  C7. A session cookie stands for its account exactly as long as it should. A cookie minted by
  \<open>newSession\<close> and presented at any later instant, to any later state of the database, is resolved
  to an account exactly when it has not expired, an account of that name exists, and neither its
  password hash nor the instant its sessions are bound to has changed since; so a new password, a
  sign-out, a reset and the deletion of the account each void every session, on every device. The
  name holds no separator, as \<open>ValidUsername\<close> demands, and the keyed hash does not collide on the two
  session keys.
\<close>
theorem session_stands_for_its_account:
  assumes C: "cf_mac C = MAC hmac secret" and k: "Cookie r (cookieName C sessionCookie) = Some (newSession C t0 u)"
    and nm: "bar \<notin> set (u_name u)" and rg: "0 \<le> Unix (t0 + sessionTTL)" "Unix (t0 + sessionTTL) < 2 ^ 63"
    and nc: "\<And>u'. UserOf d (u_name u) = Some u' \<Longrightarrow>
      \<not> collides hmac secret [''session'', session_body (u_name u) (FormatInt (Unix (t0 + sessionTTL))), SessionKey u']
          [''session'', session_body (u_name u) (FormatInt (Unix (t0 + sessionTTL))), SessionKey u]"
  shows "sessionUser C now d r = Some u' \<longleftrightarrow>
    Unix now \<le> Unix (t0 + sessionTTL) \<and> UserOf d (u_name u) = Some u' \<and>
    u_hash u' = u_hash u \<and> dbTime (u_sessions_from u') = dbTime (u_sessions_from u)"
proof (cases "UserOf d (u_name u)")
  case None
  then show ?thesis by (simp add: sessionUser_new [OF C k nm rg])
next
  case (Some v)
  have "u_name v = u_name u" using Some by (auto simp: UserOf_def)
  from SessionKey_eq [OF this] nc [OF Some] show ?thesis
    by (auto simp: sessionUser_new [OF C k nm rg] Some Let_def collides_def)
qed

definition demo_request :: "string \<Rightarrow> string \<Rightarrow> (string \<times> string) list \<Rightarrow> (string \<Rightarrow> string list) \<Rightarrow> request" where
  "demo_request m p cs f =
     \<lparr>rq_method = m, rq_raw = p, rq_path = p, rq_uri = p, rq_host = ''h'', rq_val = \<lambda>_. ''id'', rq_header = \<lambda>_. [], rq_cookies = cs,
      rq_form = f, rq_query = \<lambda>_. [], rq_parsed = True, rq_file = None, rq_length = 0, rq_size = 0, rq_tls = True, rq_remote = ''1.2.3.4''\<rparr>"

definition demo_netip :: netip where
  "demo_netip = \<lparr>parse_addr = \<lambda>_. None, addr_text = \<lambda>_. [], prefix64_text = \<lambda>_. [], split_host = \<lambda>_. None\<rparr>"

definition demo_config :: "(rat \<times> time) config" where
  "demo_config =
     \<lparr>cf_secure = True, cf_trust = False, cf_base = [], cf_redirect = False, cf_mac = MAC (@) ''key'', cf_kdf = demo_kdf,
      cf_netip = demo_netip, cf_rate = plain_bucket (20 * second) 3,
      cf_parse = \<lambda>s. Some \<lparr>u_scheme = [], u_host = [], u_opaque = [], u_path = s\<rparr>,
      cf_draw = \<lambda>_ _. 0, cf_text = \<lambda>_. ''error'', cf_local = \<lambda>_. [], cf_ymd = \<lambda>_. [], cf_parse_time = \<lambda>_. None,
      cf_parse_hours = \<lambda>_. None, cf_fmt1 = \<lambda>_. [], cf_escape = id, cf_query = id, cf_unescape = id, cf_quote = id, cf_encode = \<lambda>_. [], cf_header = \<lambda>_. None, cf_decode = \<lambda>_. None\<rparr>"

definition demo_ann :: user where
  "demo_ann = \<lparr>u_name = ''ann'', u_role = RoleAdmin, u_hash = ''h'', u_created = 0, u_must_change = False,
     u_pending = False, u_invited_by = [], u_sessions_from = 0\<rparr>"

theorem session_stands_for_its_account_witness:
  "\<forall>now. sessionUser demo_config now (empty_db\<lparr>users := [demo_ann]\<rparr>)
       (demo_request ''GET'' ''/'' [(''__Host-qs_session'', newSession demo_config (62135596800 * second) demo_ann)] (\<lambda>_. [])) = Some demo_ann
     \<longleftrightarrow> Unix now \<le> 43200"
proof -
  let ?r = "demo_request ''GET'' ''/'' [(''__Host-qs_session'', newSession demo_config (62135596800 * second) demo_ann)] (\<lambda>_. [])"
  let ?d = "empty_db\<lparr>users := [demo_ann]\<rparr>"
  have "cf_mac demo_config = MAC (@) ''key''" by (simp add: demo_config_def)
  moreover have "Cookie ?r (cookieName demo_config sessionCookie) = Some (newSession demo_config (62135596800 * second) demo_ann)"
    by (simp add: Cookie_def demo_request_def cookieName_def demo_config_def sessionCookie_def)
  moreover have "bar \<notin> set (u_name demo_ann)" by (simp add: demo_ann_def)
  moreover have x: "Unix (62135596800 * second + sessionTTL) = 43200"
    by (simp add: Unix_def sessionTTL_def hour_def second_def)
  moreover have u: "UserOf ?d (u_name demo_ann) = Some demo_ann" by (simp add: UserOf_def)
  ultimately show ?thesis
    using session_stands_for_its_account [of demo_config "(@)" "''key''" ?r "62135596800 * second" demo_ann ?d _ demo_ann]
    by (simp add: collides_def)
qed

section \<open>Where signing in leads\<close>

definition on_site :: "string \<Rightarrow> bool" where
  "on_site loc =
     (case loc of [] \<Rightarrow> False
      | c # cs \<Rightarrow> c = CHR ''/'' \<and> (cs = [] \<or> hd cs \<noteq> CHR ''/'' \<and> hd cs \<noteq> CHR 0x5C))"

lemma escape_first: "hexEscapeNonASCII (c # cs) = (if byte c \<ge> 0x80 then [CHR 0x25, hex_digit (byte c div 16), hex_digit (byte c mod 16)] else [c]) @ hexEscapeNonASCII cs"
  by (simp add: hexEscapeNonASCII_def)

lemma escape_on_site: "on_site s \<Longrightarrow> on_site (hexEscapeNonASCII s)"
proof -
  assume o: "on_site s"
  then obtain cs where s: "s = CHR ''/'' # cs" by (auto simp: on_site_def split: list.splits)
  have b: "\<not> byte (CHR ''/'') \<ge> 0x80" by code_simp
  show ?thesis
  proof (cases cs)
    case Nil
    then show ?thesis using b by (simp add: s escape_first on_site_def) (simp add: hexEscapeNonASCII_def)
  next
    case (Cons c ds)
    with o b show ?thesis by (auto simp: s escape_first on_site_def)
  qed
qed

lemma relative_on_site:
  assumes "url \<noteq> []" "hd url = CHR ''/''" "CHR 0x5C \<notin> set url"
  shows "on_site (relative_location old url)"
proof -
  let ?p = "takeWhile (\<lambda>c. c \<noteq> CHR ''?'') url" and ?q = "dropWhile (\<lambda>c. c \<noteq> CHR ''?'') url"
  have bs: "CHR 0x5C \<notin> set ?p" using assms(3) by (meson set_takeWhileD)
  have q: "?q = [] \<or> hd ?q = CHR ''?''" using hd_dropWhile [of "\<lambda>c. c \<noteq> CHR ''?''" url] by blast
  consider "path_clean ?p = ''/''" | c cs where "path_clean ?p = CHR ''/'' # c # cs" "c \<noteq> CHR ''/''" "c \<noteq> CHR 0x5C"
    using path_clean_one_slash [of ?p] bs by metis
  then show ?thesis
  proof cases
    case 1
    with assms(1,2) q show ?thesis by (auto simp: relative_location_def Let_def on_site_def)
  next
    case 2
    with assms(1,2) show ?thesis by (auto simp: relative_location_def Let_def on_site_def)
  qed
qed

lemma local_on_site:
  assumes "url \<noteq> []" "hd url = CHR ''/''" "CHR 0x5C \<notin> set url" "on_site url \<or> (\<exists>u. cf_parse C url = Some u \<and> u_scheme u = [] \<and> u_host u = [])"
  shows "on_site (location_of C r url)"
  using escape_on_site relative_on_site [OF assms(1-3)] assms(4)
  by (auto simp: location_of_def split: option.split)

lemma safeNext_cases: "safeNext C nxt = [] \<or>
  safeNext C nxt = nxt \<and> nxt \<noteq> [] \<and> hd nxt = CHR ''/'' \<and> CHR 0x5C \<notin> set nxt \<and>
  (\<exists>u. cf_parse C nxt = Some u \<and> u_scheme u = [] \<and> u_host u = [])"
  by (cases nxt) (auto simp: safeNext_def has_prefix_def split: option.split)

lemma redirect_reply [simp]: "h_reply (see_other C r cs url) = Redirect 303 (location_of C r url)"
  by (simp add: see_other_def redirect_def)

lemma page_reply [simp]:
  "h_reply (fail C r cs st msg) = Failed st msg" "h_reply (render C r cs st p) = Page st p"
  "h_reply (tooMany C r cs msg) = Limited msg" "h_reply (render_with C f r cs rep) = rep"
  by (simp_all add: fail_def tooMany_def render_def render_with_def split: prod.split)

lemma handleLogin_redirects:
  assumes "h_reply (fst (handleLogin C dr r s)) = Redirect status loc"
  shows "\<exists>dest. loc = location_of C r dest \<and>
    (dest \<in> {''/admin/'', ''/account/pending'', ''/account/password''} \<or> dest = safeNext C (FormValue r ''next'') \<and> dest \<noteq> [])"
proof (cases "Authenticate (cf_kdf C) (sdb_of s) (TrimSpace (FormValue r ''username'')) (FormValue r ''password'')")
  case None
  with assms show ?thesis by (simp add: handleLogin_def Let_def split: if_split_asm)
next
  case (Some u)
  with assms show ?thesis by (cases "checkCSRF C r") (auto simp: handleLogin_def Let_def)
qed

text \<open>
  Signing in never sends a browser to another site. Whatever a sign-in link asks for in \<open>next\<close>,
  and whatever \<open>url.Parse\<close> makes of it, every redirect of the sign-in form and of its submission is a
  path of this site: it begins with one slash, and neither a second slash nor a backslash, which
  browsers read as one, follows.
\<close>
theorem login_stays_on_site:
  assumes "h_reply (fst (handleLogin C dr r s)) = Redirect status loc \<or> h_reply (fst (handleLoginForm C dr r s)) = Redirect status loc"
  shows "on_site loc"
proof -
  have k: "on_site (location_of C r ''/admin/'')" "on_site (location_of C r ''/account/pending'')" "on_site (location_of C r ''/account/password'')"
    by (rule local_on_site; simp add: on_site_def)+
  have n: "safeNext C nxt \<noteq> [] \<Longrightarrow> on_site (location_of C r (safeNext C nxt))" for nxt
    using safeNext_cases [of C nxt] local_on_site by metis
  from assms show ?thesis
  proof
    assume "h_reply (fst (handleLogin C dr r s)) = Redirect status loc"
    from handleLogin_redirects [OF this] show ?thesis using k n by auto
  next
    assume "h_reply (fst (handleLoginForm C dr r s)) = Redirect status loc"
    then have "loc = location_of C r ''/admin/''"
      by (cases "voterToken C dr r s") (auto simp: handleLoginForm_def split: if_splits prod.splits)
    with k show ?thesis by simp
  qed
qed

definition demo_draws :: draws where
  "demo_draws = \<lparr>dr_now = 0, dr_locked = 0, dr_bytes = ''0123456789abcdef'', dr_salt = ''salt'', dr_id = ''n1'', dr_id2 = ''n2'',
     dr_ids = \<lambda>k. ''o'' @ decimal k, dr_rids = \<lambda>k. ''r'' @ decimal k\<rparr>"

definition demo_server :: "db \<Rightarrow> (rat \<times> time) server" where
  "demo_server d = newServer 3 3 0 \<lparr>sdb = d, gen = 0\<rparr>"

theorem login_stays_on_site_witness:
  "on_site ''/admin/'' \<and>
   h_reply (fst (handleLoginForm (demo_config\<lparr>cf_mac := \<lambda>_. ''m''\<rparr>) demo_draws
     (demo_request ''GET'' ''/login'' [(''__Host-qs_session'', ''ann|99|m'')] (\<lambda>_. []))
     (demo_server (empty_db\<lparr>users := [demo_ann]\<rparr>)))) = Redirect 303 ''/admin/''"
proof -
  let ?C = "demo_config\<lparr>cf_mac := \<lambda>_. ''m''\<rparr>" and ?s = "demo_server (empty_db\<lparr>users := [demo_ann]\<rparr>)"
  let ?r = "demo_request ''GET'' ''/login'' [(''__Host-qs_session'', ''ann|99|m'')] (\<lambda>_. [])"
  have a: "Atoi ''99'' = Some 99" "split_at bar ''ann|99|m'' = [''ann'', ''99'', ''m'']"
    "hexEscapeNonASCII (relative_location ''/login'' ''/admin/'') = ''/admin/''" by code_simp+
  have "sessionUser ?C 0 (empty_db\<lparr>users := [demo_ann]\<rparr>) ?r = Some demo_ann"
    using a by (simp add: sessionUser_def Cookie_def demo_request_def cookieName_def demo_config_def sessionCookie_def
        UserOf_def demo_ann_def Unix_def second_def)
  then have h: "h_reply (fst (handleLoginForm ?C demo_draws ?r ?s)) = Redirect 303 ''/admin/''"
    using a by (simp add: handleLoginForm_def demo_server_def newServer_def Let_def sdb_of_def demo_draws_def location_of_def)
      (simp add: demo_config_def demo_request_def)
  then show ?thesis using login_stays_on_site [of ?C demo_draws ?r ?s 303 "''/admin/''"] by blast
qed

section \<open>What an anonymous identity costs\<close>

lemma dot_facts: "CHR ''.'' \<notin> set url_alphabet"
  by code_simp

text \<open>A cookie value is accepted exactly when the server signed it.\<close>

lemma verify_signed_iff:
  assumes "\<And>xs. CHR ''.'' \<notin> set (cf_mac C xs)"
  shows "verifyVoterToken C v = Some tok \<longleftrightarrow>
    v = tok @ ''.'' @ cf_mac C [''voter-cookie'', tok] \<and> CHR ''.'' \<notin> set tok \<and> 16 \<le> length tok"
proof
  let ?t = "takeWhile (\<lambda>c. c \<noteq> CHR ''.'') v" and ?d = "dropWhile (\<lambda>c. c \<noteq> CHR ''.'') v"
  assume "verifyVoterToken C v = Some tok"
  then have a: "?d \<noteq> []" "tl ?d = cf_mac C [''voter-cookie'', ?t]" "tok = ?t" "16 \<le> length ?t"
    by (auto simp: verifyVoterToken_def Let_def split: if_splits)
  have "hd ?d = CHR ''.''" using hd_dropWhile [of "\<lambda>c. c \<noteq> CHR ''.''" v] a(1) by blast
  then have "?d = CHR ''.'' # cf_mac C [''voter-cookie'', ?t]" using a(1,2) by (metis list.collapse)
  moreover have "CHR ''.'' \<notin> set ?t"
    using set_takeWhileD [of "CHR ''.''" "\<lambda>c. c \<noteq> CHR ''.''" v] by blast
  ultimately show "v = tok @ ''.'' @ cf_mac C [''voter-cookie'', tok] \<and> CHR ''.'' \<notin> set tok \<and> 16 \<le> length tok"
    using a(3,4) takeWhile_dropWhile_id [of "\<lambda>c. c \<noteq> CHR ''.''" v] by (metis append_Cons append_Nil)
next
  assume a: "v = tok @ ''.'' @ cf_mac C [''voter-cookie'', tok] \<and> CHR ''.'' \<notin> set tok \<and> 16 \<le> length tok"
  then have "\<And>c. c \<in> set tok \<Longrightarrow> c \<noteq> CHR ''.''" by metis
  then have "takeWhile (\<lambda>c. c \<noteq> CHR ''.'') v = tok"
    "dropWhile (\<lambda>c. c \<noteq> CHR ''.'') v = ''.'' @ cf_mac C [''voter-cookie'', tok]"
    using a by (simp_all add: takeWhile_append2 dropWhile_append2)
  with a show "verifyVoterToken C v = Some tok" by (simp add: verifyVoterToken_def Let_def)
qed

definition known_voter :: "'b config \<Rightarrow> request \<Rightarrow> string option" where
  "known_voter C r = (case Cookie r (cookieName C voterCookie) of None \<Rightarrow> None | Some v \<Rightarrow> verifyVoterToken C v)"

lemma voterToken_cases:
  obtains (known) tok where "known_voter C r = Some tok" "voterToken C dr r s = ((tok, [], r), s)"
  | (minted) tok v lm where "known_voter C r = None"
      "limiter_allow (cf_rate C) (client_of C r) (dr_now dr) (dr_locked dr) (sv_voter s) = (True, lm)"
      "tok = EncodeToString url_alphabet (dr_bytes dr)" "v = tok @ ''.'' @ cf_mac C [''voter-cookie'', tok]"
      "voterToken C dr r s = ((tok, [cookie_of C voterCookie v voterTTL], AddCookie (cookieName C voterCookie) v r), s\<lparr>sv_voter := lm\<rparr>)"
  | (refused) lm where "known_voter C r = None"
      "limiter_allow (cf_rate C) (client_of C r) (dr_now dr) (dr_locked dr) (sv_voter s) = (False, lm)"
      "voterToken C dr r s = (([], [], r), s\<lparr>sv_voter := lm\<rparr>)"
proof (cases "known_voter C r")
  case None
  obtain ok lm where l: "limiter_allow (cf_rate C) (client_of C r) (dr_now dr) (dr_locked dr) (sv_voter s) = (ok, lm)"
    by fastforce
  show thesis
    by (cases ok; rule minted refused) (use None l in \<open>auto simp: voterToken_def known_voter_def Let_def\<close>)
next
  case (Some tok)
  then show thesis by (intro known) (auto simp: voterToken_def known_voter_def)
qed

text \<open>A run of requests that each ask who the respondent is, and the cookies each of them is sent.\<close>

fun ask_all :: "'b config \<Rightarrow> (draws \<times> request) list \<Rightarrow> 'b server \<Rightarrow> cookie list list \<times> 'b server" where
  "ask_all C [] s = ([], s)"
| "ask_all C ((dr, r) # xs) s =
     (case voterToken C dr r s of
        ((tok, cs, r'), s) \<Rightarrow> (case ask_all C xs s of (ys, s) \<Rightarrow> (cs # ys, s)))"

fun minted_for :: "'b config \<Rightarrow> string \<Rightarrow> (draws \<times> request) list \<Rightarrow> cookie list list \<Rightarrow> nat" where
  "minted_for C k ((dr, r) # xs) (cs # ys) = (if client_of C r = k \<and> cs \<noteq> [] then 1 else 0) + minted_for C k xs ys"
| "minted_for C k xs ys = 0"

definition charges :: "'b config \<Rightarrow> (draws \<times> request) list \<Rightarrow> meter_call list" where
  "charges C xs = map (\<lambda>(dr, r). Charge (client_of C r) (dr_now dr) (dr_locked dr))
     (filter (\<lambda>(dr, r). known_voter C r = None) xs)"

lemma ask_all_charges:
  assumes "ask_all C xs s = (ys, s')"
  shows "\<exists>rs. serve_calls (cf_rate C) (charges C xs) (sv_voter s) = (rs, sv_voter s') \<and>
    admitted k (charges C xs) rs = minted_for C k xs ys"
  using assms
proof (induction xs arbitrary: s ys)
  case Nil
  then show ?case by (simp add: charges_def)
next
  case (Cons x xs)
  obtain dr r where x: "x = (dr, r)" by fastforce
  show ?case
  proof (cases rule: voterToken_cases [of C r dr s])
    case (known tok)
    with Cons show ?thesis by (auto simp: x charges_def split: prod.splits)
  next
    case (minted tok v lm)
    from Cons.prems minted(5) obtain ys' where a: "ask_all C xs (s\<lparr>sv_voter := lm\<rparr>) = (ys', s')"
      "ys = [cookie_of C voterCookie v voterTTL] # ys'" by (auto simp: x split: prod.splits)
    from Cons.IH [OF a(1)] minted(1,2) show ?thesis by (auto simp: x charges_def a(2) Let_def)
  next
    case (refused lm)
    from Cons.prems refused(3) obtain ys' where a: "ask_all C xs (s\<lparr>sv_voter := lm\<rparr>) = (ys', s')" "ys = [] # ys'"
      by (auto simp: x split: prod.splits)
    from Cons.IH [OF a(1)] refused(1,2) show ?thesis by (auto simp: x charges_def a(2) Let_def)
  qed
qed

lemma ask_all_append: "ask_all C (xs @ ys) s =
  (case ask_all C xs s of (as, s1) \<Rightarrow> case ask_all C ys s1 of (bs, s2) \<Rightarrow> (as @ bs, s2))"
  by (induction xs arbitrary: s) (auto split: prod.splits)

lemma timed_charges:
  "timed slack (map (\<lambda>(dr, r). Charge (client_of C r) (dr_now dr) (dr_locked dr)) xs) \<Longrightarrow> timed slack (charges C xs)"
  by (induction xs) (auto simp: charges_def timed_Cons split: prod.splits)

lemma mint_rate:
  assumes n: "0 < n" "n \<le> 60 * second" "slack + 60 * second \<le> limiterTTL"
    and tb: "token_bucket (cf_rate C) (60 * second div n) n"
    and tm: "timed slack (map (\<lambda>(dr, r). Charge (client_of C r) (dr_now dr) (dr_locked dr)) (earlier @ xs))"
    and r0: "ask_all C earlier (newServer loginRate n t0 st) = (ys0, s1)" and r1: "ask_all C xs s1 = (ys, s2)"
    and t: "\<forall>(dr, r)\<in>set xs. t1 \<le> dr_locked dr \<and> dr_locked dr \<le> t2" "t1 \<le> t2"
  shows "of_nat (minted_for C k xs ys) \<le> (of_int n :: rat) + of_int (t2 - t1) / of_int (60 * second div n)"
proof -
  have e: "0 < 60 * second div n" using n(1,2) by (simp add: pos_imp_zdiv_pos_iff)
  have z: "0 \<le> (of_int (t2 - t1) :: rat) / of_int (60 * second div n)" using t(2) e by simp
  obtain rs0 where c0: "serve_calls (cf_rate C) (charges C earlier) (newLimiter n (60 * second) t0) = (rs0, sv_voter s1)"
    using ask_all_charges [OF r0] n(1) by (auto simp: newServer_def Let_def)
  obtain rs where c1: "serve_calls (cf_rate C) (charges C xs) (sv_voter s1) = (rs, sv_voter s2)"
    "admitted k (charges C xs) rs = minted_for C k xs ys"
    using ask_all_charges [OF r1] by blast
  show ?thesis
  proof (cases "charges C xs = []")
    case True
    then have "admitted k (charges C xs) rs = 0" by simp
    with c1(2) z n(1) show ?thesis by simp
  next
    case False
    have "timed slack (charges C earlier @ charges C xs)"
      using timed_charges [OF tm] by (simp add: charges_def)
    from clients_stay [OF n tb this False c0 c1(1), of k]
    have "of_nat (minted_for C k xs ys) \<le> (of_int n :: rat) +
        of_int (call_time (last (charges C xs)) - call_time (hd (charges C xs))) / of_int (60 * second div n)"
      by (simp add: c1(2))
    moreover have "\<forall>c\<in>set (charges C xs). t1 \<le> call_time c \<and> call_time c \<le> t2"
      using t(1) by (auto simp: charges_def)
    then have "t1 \<le> call_time (hd (charges C xs))" "call_time (last (charges C xs)) \<le> t2"
      using False by simp_all
    then have "(of_int (call_time (last (charges C xs)) - call_time (hd (charges C xs))) :: rat) / of_int (60 * second div n)
        \<le> of_int (t2 - t1) / of_int (60 * second div n)"
      using e by (intro divide_right_mono) (simp_all only: of_int_le_iff of_int_0_le_iff)
    ultimately show ?thesis by linarith
  qed
qed

text \<open>
  C24. Anonymous identities are metered. However many requests arrive without a cookie this server
  signed, and in whatever order with others, the server issues one client address at most \<open>n\<close> new
  identities in any stretch of requests and one more for every \<open>n\<close>-th of a minute it lasts. A
  request that comes with an identity keeps it, costs nothing and is never refused for the rate, and
  its cookie holds the keyed digest of the token, so inventing identities means asking for them.
\<close>
theorem identities_are_metered:
  assumes "cf_mac C = MAC hmac secret"
    and "0 < n" "n \<le> 60 * second" "slack + 60 * second \<le> limiterTTL" and "token_bucket (cf_rate C) (60 * second div n) n"
    and "timed slack (map (\<lambda>(dr, r). Charge (client_of C r) (dr_now dr) (dr_locked dr)) (earlier @ xs))"
    and "ask_all C earlier (newServer loginRate n t0 st) = (ys0, s1)" and "ask_all C xs s1 = (ys, s2)"
    and "\<forall>(dr, r)\<in>set xs. t1 \<le> dr_locked dr \<and> dr_locked dr \<le> t2" "t1 \<le> t2"
  shows "of_nat (minted_for C k xs ys) \<le> (of_int n :: rat) + of_int (t2 - t1) / of_int (60 * second div n) \<and>
    (\<forall>r tok. known_voter C r = Some tok \<longrightarrow>
       (\<forall>dr s. voterToken C dr r s = ((tok, [], r), s)) \<and>
       Cookie r (cookieName C voterCookie) = Some (tok @ ''.'' @ MAC hmac secret [''voter-cookie'', tok]))"
proof (intro conjI allI impI)
  show "of_nat (minted_for C k xs ys) \<le> (of_int n :: rat) + of_int (t2 - t1) / of_int (60 * second div n)"
    by (rule mint_rate [OF assms(2-)])
next
  fix r tok dr and s :: "'a server"
  assume v: "known_voter C r = Some tok"
  then show "voterToken C dr r s = ((tok, [], r), s)"
    by (simp add: voterToken_def known_voter_def)
  obtain c where c: "Cookie r (cookieName C voterCookie) = Some c" "verifyVoterToken C c = Some tok"
    using v by (auto simp: known_voter_def split: option.splits)
  have "CHR ''.'' \<notin> set (cf_mac C ps)" for ps
    using dot_facts Encode_chars [OF alphabets_good(2)] by (auto simp: assms(1) MAC_def)
  from verify_signed_iff [of C c tok, OF this] c
  show "Cookie r (cookieName C voterCookie) = Some (tok @ ''.'' @ MAC hmac secret [''voter-cookie'', tok])"
    by (simp add: assms(1))
qed

definition demo_visits :: "(draws \<times> request) list" where
  "demo_visits = map (\<lambda>t. (demo_draws\<lparr>dr_now := t, dr_locked := t\<rparr>, demo_request ''GET'' ''/s/id'' [] (\<lambda>_. []))) [0, 1, 2, 3]"

theorem identities_are_metered_witness:
  "of_nat (minted_for demo_config ''1.2.3.4'' demo_visits (fst (ask_all demo_config demo_visits (demo_server empty_db))))
     \<le> (3 :: rat) + of_int (second - 0) / of_int (60 * second div 3)"
proof -
  have b: "token_bucket (cf_rate demo_config) (60 * second div 3) 3"
    using plain_bucket_laws [of "20 * second" 3] by (simp add: demo_config_def second_def)
  have m: "cf_mac demo_config = MAC (@) ''key''" by (simp add: demo_config_def)
  have t: "timed second (map (\<lambda>(dr, r). Charge (client_of demo_config r) (dr_now dr) (dr_locked dr)) ([] @ demo_visits))"
    by (simp add: demo_visits_def timed_def second_def)
  obtain ys s2 where a: "ask_all demo_config demo_visits (newServer 3 3 0 \<lparr>sdb = empty_db, gen = 0\<rparr>) = (ys, s2)" by fastforce
  have d: "\<forall>(dr, r)\<in>set demo_visits. (0 :: int) \<le> dr_locked dr \<and> dr_locked dr \<le> second"
    by (simp add: demo_visits_def second_def)
  from identities_are_metered [OF m _ _ _ b t _ a d, of 3 0 \<open>\<lparr>sdb = empty_db, gen = 0\<rparr>\<close> "[]" "''1.2.3.4''"]
  show ?thesis by (simp add: a demo_server_def second_def limiterTTL_def)
qed

end
