(* ===== verification/PublicPages.thy ===== *)
theory PublicPages
  imports Sessions
begin

text \<open>
  The pages of respondents (\<open>internal/web/public.go\<close>): the ballot, voting, suggesting an option and
  the public results. No account is needed: the survey's identifier is the credential, and the
  respondent is the identity in their cookie. The tally a page shows is that of the present database;
  what the cache may serve instead is the subject of TallyCache.
\<close>

section \<open>The handlers\<close>

definition voter_id :: "'b config \<Rightarrow> string \<Rightarrow> string \<Rightarrow> string" where
  "voter_id C surveyID token = take 22 (cf_mac C [''voter'', surveyID, token])"

text \<open>The refusal, or the survey and whether an editor is looking at a draft.\<close>

definition visibleSurvey :: "'b config \<Rightarrow> draws \<Rightarrow> request \<Rightarrow> 'b server \<Rightarrow> http + (survey \<times> bool)" where
  "visibleSurvey C dr r s =
     (case loadSurvey (sdb_of s) (rq_val r ''id'') of
        None \<Rightarrow> Inl (fail C r [] 404 ''no such survey'')
      | Some sv \<Rightarrow>
          if sv_state sv = StateDraft then
            (case activeUser C (dr_now dr) (sdb_of s) r of
               None \<Rightarrow> Inl (fail C r [] 404 ''no such survey'')
             | Some u \<Rightarrow>
                 if \<not> AtLeast (u_role u) RoleEditor then Inl (fail C r [] 404 ''no such survey'')
                 else Inr (sv, True))
          else Inr (sv, False))"

definition ballot_of :: "'b config \<Rightarrow> time \<Rightarrow> db \<Rightarrow> survey \<Rightarrow> bool \<Rightarrow> string \<Rightarrow> ballot_data" where
  "ballot_of C now d sv preview voter =
     (let (responded, comment, chosen) =
            (case PriorAnswer d (sv_id sv) voter of
               None \<Rightarrow> (False, [], []) | Some (chs, comment) \<Rightarrow> (True, comment, chs));
          (results, voters) = (if show_results sv then computeTally d (sv_id sv) else ([], 0))
      in \<lparr>bd_survey = sv, bd_options = BallotFor (cf_draw C) sv chosen voter, bd_selected = chosen,
          bd_comment = comment, bd_responded = responded, bd_accepting = AcceptingFrom sv now preview,
          bd_preview = preview, bd_results = results, bd_voters = voters\<rparr>)"

definition handleBallot :: "'b config \<Rightarrow> 'b handler" where
  "handleBallot C dr r s =
     (case visibleSurvey C dr r s of
        Inl h \<Rightarrow> (h, s)
      | Inr (sv, preview) \<Rightarrow>
          (case voterToken C dr r s of
             ((token, cs, r), s) \<Rightarrow>
               if token = [] then
                 (tooMany C r cs ''Too many new visitors from your address at once. Wait a minute and reload.'', s)
               else
                 (render C r cs 200 (BallotPage (ballot_of C (dr_now dr) (sdb_of s) sv preview (voter_id C (sv_id sv) token))), s)))"

definition handleVote :: "'b config \<Rightarrow> 'b handler" where
  "handleVote C dr r s =
     (case visibleSurvey C dr r s of
        Inl h \<Rightarrow> (h, s)
      | Inr (sv, preview) \<Rightarrow>
          if \<not> rq_parsed r then (fail C r [] 400 ''could not read the submitted form'', s)
          else if \<not> checkCSRF C r then
            (fail C r [] 403 ''your session expired; please reload and try again'', s)
          else (case voterToken C dr r s of
             ((token, cs, r), s) \<Rightarrow>
               if token = [] then
                 (tooMany C r cs ''Too many new visitors from your address at once. Wait a minute and try again.'', s)
               else
                 let save = (if preview then PreviewResponse else SaveResponse)
                 in case on_store (save (dr_id dr) (dr_now dr) (sv_id sv) (voter_id C (sv_id sv) token)
                      (rq_form r ''choice'') (FormValue r ''comment'')) s of
                      (Inl e, s) \<Rightarrow> (see_other C r (cs @ [setFlash C (cf_text C e) True]) (''/s/'' @ sv_id sv), s)
                    | (Inr _, s) \<Rightarrow>
                        (see_other C r (cs @ [setFlash C
                           (if preview then ''Recorded as a test response. It will be discarded when you publish the survey.''
                            else ''Your response has been recorded. You can change it any time from this page.'') False])
                           (''/s/'' @ sv_id sv), s)))"

definition thanks :: string where
  "thanks = ''Thanks '' @ [CHR 0xE2, CHR 0x80, CHR 0x94] @ '' your suggestion is waiting for a moderator to review it. '' @
     ''Your vote for it is saved and will count once it is approved.''"

definition handleWriteIn :: "'b config \<Rightarrow> 'b handler" where
  "handleWriteIn C dr r s =
     (case visibleSurvey C dr r s of
        Inl h \<Rightarrow> (h, s)
      | Inr (sv, preview) \<Rightarrow>
          if \<not> checkCSRF C r then
            (fail C r [] 403 ''your session expired; please reload and try again'', s)
          else (case voterToken C dr r s of
             ((token, cs, r), s) \<Rightarrow>
               if token = [] then
                 (tooMany C r cs ''Too many new visitors from your address at once. Wait a minute and try again.'', s)
               else
                 let add = (if preview then PreviewWriteIn else AddWriteIn)
                 in case on_store (add (dr_id2 dr) (dr_id dr) (dr_now dr) (sv_id sv) (voter_id C (sv_id sv) token)
                      (FormValue r ''text'')) s of
                      (Inl e, s) \<Rightarrow> (see_other C r (cs @ [setFlash C (cf_text C e) True]) (''/s/'' @ sv_id sv), s)
                    | (Inr _, s) \<Rightarrow>
                        (see_other C r (cs @ [setFlash C thanks False]) (''/s/'' @ sv_id sv), s)))"

definition handlePublicResults :: "'b config \<Rightarrow> 'b handler" where
  "handlePublicResults C dr r s =
     (case visibleSurvey C dr r s of
        Inl h \<Rightarrow> (h, s)
      | Inr (sv, _) \<Rightarrow>
          if \<not> show_results sv then (fail C r [] 404 ''results for this survey are not public'', s)
          else (case computeTally (sdb_of s) (sv_id sv) of
            (results, voters) \<Rightarrow> (render C r [] 200 (ResultsPage sv results voters), s)))"

section \<open>What they reach\<close>

lemma on_tx:
  "on_store (tx f) s =
    (case f (sdb_of s) of
       Inl e \<Rightarrow> (Inl e, s)
     | Inr (x, d) \<Rightarrow> (Inr x, s\<lparr>sv_store := (sv_store s)\<lparr>sdb := d, gen := gen (sv_store s) + 1\<rparr>\<rparr>))"
  by (auto simp: on_store_def tx_def sdb_of_def split: sum.split prod.split)

lemma sdb_of_simps [simp]:
  "sdb_of (s\<lparr>sv_store := st\<rparr>) = sdb st" "sdb_of (s\<lparr>sv_voter := lm\<rparr>) = sdb_of s" "sdb_of (s\<lparr>sv_login := lm\<rparr>) = sdb_of s"
  by (simp_all add: sdb_of_def)

lemma voterToken_db [simp]: "voterToken C dr r s = (x, s') \<Longrightarrow> sdb_of s' = sdb_of s"
  by (cases rule: voterToken_cases [of C r dr s]) auto

text \<open>The identity a request acts under, if it gets one.\<close>

definition token_of :: "'b config \<Rightarrow> draws \<Rightarrow> request \<Rightarrow> string" where
  "token_of C dr r = (case known_voter C r of Some tok \<Rightarrow> tok | None \<Rightarrow> EncodeToString url_alphabet (dr_bytes dr))"

lemma voterToken_token: "voterToken C dr r s = ((tok, cs, r'), s') \<Longrightarrow> tok \<noteq> [] \<Longrightarrow> tok = token_of C dr r"
  by (cases rule: voterToken_cases [of C r dr s]) (auto simp: token_of_def)

lemma voterToken_form: "voterToken C dr r s = ((tok, cs, r'), s') \<Longrightarrow> rq_form r' = rq_form r"
  by (cases rule: voterToken_cases [of C r dr s]) (auto simp: AddCookie_def)

lemma voter_id_VoterID: "cf_mac C = MAC hmac secret \<Longrightarrow> voter_id C sid tok = VoterID hmac secret sid tok"
  by (simp add: voter_id_def VoterID_def)

text \<open>
  What a respondent's request may do to the database: nothing but to the answer of one identity to
  one survey, and to that survey's list of suggestions.
\<close>

definition own_answer_only :: "string \<Rightarrow> string \<Rightarrow> db \<Rightarrow> db \<Rightarrow> bool" where
  "own_answer_only sid voter d d' =
     (db_ok d' \<and> users d' = users d \<and> invites d' = invites d \<and> resets d' = resets d \<and> meta d' = meta d \<and>
      (\<forall>s v. (s, v) \<noteq> (sid, voter) \<longrightarrow> ResponseFor d' s v = ResponseFor d s v) \<and>
      (\<forall>s. s \<noteq> sid \<longrightarrow> loadSurvey d' s = loadSurvey d s))"

lemma own_answer_refl: "db_ok d \<Longrightarrow> own_answer_only sid voter d d"
  by (simp add: own_answer_only_def)

lemma save_own_answer:
  assumes "db_ok d" and "saveResponseTx rid now sid voter chs comment allow preview d = Inr (q, d')"
  shows "own_answer_only sid voter d d'"
  using save_frame_responses [OF assms] saveResponseTx_db_ok [OF assms] loadSurvey_cong [of d' d]
  by (simp add: own_answer_only_def ResponseFor_def)

lemma write_in_own_answer:
  assumes ok: "db_ok d" and r: "addWriteIn nid rid now sid voter txt preview d = Inr (i, d')"
    and fresh: "nid \<notin> o_id ` set (opts d)" and now: "now \<noteq> 0"
  shows "own_answer_only sid voter d d'"
  using ok r fresh now
proof (cases rule: addWriteIn_cases)
  case (1 sv sv1 d1 q)
  note s = saveSurvey_rest [OF 1(11)] and f = save_frame_responses [OF 1(12,14)]
  have "loadResponse d1 s v w = loadResponse d s v w" for s v w
    using s by (intro loadResponse_cong)
  moreover have "loadSurvey d' s = loadSurvey d1 s" for s using loadSurvey_cong f(2,3) by blast
  moreover have "loadSurvey d1 s = loadSurvey d s" if "s \<noteq> sid" for s
    using save_frame [OF 1(11)] that 1(16) by simp
  ultimately show ?thesis
    using s f addWriteIn_db_ok [OF ok r fresh now] by (simp add: own_answer_only_def ResponseFor_def)
qed

lemma visible_id: "visibleSurvey C dr r s = Inr (sv, preview) \<Longrightarrow> sv_id sv = rq_val r ''id'' \<and> loadSurvey (sdb_of s) (rq_val r ''id'') = Some sv"
  by (auto simp: visibleSurvey_def loadSurvey_id split: option.splits if_splits)

lemma vote_db:
  assumes "handleVote C dr r s = (rsp, s')"
  shows "(s' = s \<or> sdb_of s' = sdb_of s \<or> (\<exists>preview q. saveResponseTx (dr_id dr) (dr_now dr) (rq_val r ''id'')
      (voter_id C (rq_val r ''id'') (token_of C dr r)) (rq_form r ''choice'') (FormValue r ''comment'') [] preview (sdb_of s) = Inr (q, sdb_of s')))
    \<and> (\<not> checkCSRF C r \<longrightarrow> s' = s)"
proof (cases "visibleSurvey C dr r s")
  case (Inl h)
  with assms show ?thesis by (simp add: handleVote_def)
next
  case (Inr x)
  then obtain sv preview where v: "visibleSurvey C dr r s = Inr (sv, preview)" by (cases x) auto
  obtain tok cs r1 s1 where t: "voterToken C dr r s = ((tok, cs, r1), s1)" by (metis surj_pair)
  note f = voterToken_form [OF t] voterToken_db [OF t] voterToken_token [OF t] visible_id [OF v]
  from assms v t f show ?thesis
    by (auto simp: handleVote_def Let_def SaveResponse_def PreviewResponse_def on_tx FormValue_def
        split: if_splits sum.splits prod.splits)
qed

lemma write_in_db:
  assumes "handleWriteIn C dr r s = (rsp, s')"
  shows "(s' = s \<or> sdb_of s' = sdb_of s \<or> (\<exists>preview i. addWriteIn (dr_id2 dr) (dr_id dr) (dr_now dr) (rq_val r ''id'')
      (voter_id C (rq_val r ''id'') (token_of C dr r)) (FormValue r ''text'') preview (sdb_of s) = Inr (i, sdb_of s')))
    \<and> (\<not> checkCSRF C r \<longrightarrow> s' = s)"
proof (cases "visibleSurvey C dr r s")
  case (Inl h)
  with assms show ?thesis by (simp add: handleWriteIn_def)
next
  case (Inr x)
  then obtain sv preview where v: "visibleSurvey C dr r s = Inr (sv, preview)" by (cases x) auto
  obtain tok cs r1 s1 where t: "voterToken C dr r s = ((tok, cs, r1), s1)" by (metis surj_pair)
  note f = voterToken_form [OF t] voterToken_db [OF t] voterToken_token [OF t] visible_id [OF v]
  from assms v t f show ?thesis
    by (auto simp: handleWriteIn_def Let_def AddWriteIn_def PreviewWriteIn_def on_tx FormValue_def
        split: if_splits sum.splits prod.splits)
qed

lemma public_pages_db:
  "handleBallot C dr r s = (rsp, s') \<Longrightarrow> sdb_of s' = sdb_of s" "handlePublicResults C dr r s = (rsp, s') \<Longrightarrow> s' = s"
  by (cases "voterToken C dr r s"; auto simp: handleBallot_def split: sum.splits prod.splits if_splits)
    (auto simp: handlePublicResults_def split: sum.splits prod.splits if_splits)

lemma answer_page:
  assumes "db_ok (sdb_of s)" and "dr_id2 dr \<notin> o_id ` set (opts (sdb_of s))" "dr_now dr \<noteq> 0"
    and "handleVote C dr r s = (rsp, s') \<or> handleWriteIn C dr r s = (rsp, s')"
  shows "own_answer_only (rq_val r ''id'') (voter_id C (rq_val r ''id'') (token_of C dr r)) (sdb_of s) (sdb_of s') \<and>
    (\<not> checkCSRF C r \<longrightarrow> s' = s)"
  using assms(4)
proof
  assume "handleVote C dr r s = (rsp, s')"
  with vote_db [OF this] own_answer_refl [OF assms(1)] save_own_answer [OF assms(1)] show ?thesis by metis
next
  assume "handleWriteIn C dr r s = (rsp, s')"
  with write_in_db [OF this] own_answer_refl [OF assms(1)] write_in_own_answer [OF assms(1) _ assms(2,3)]
  show ?thesis by metis
qed


text \<open>
  C28. A draft does not exist for the public. To anyone but a signed-in editor whose account is
  approved and needs no new password, each of the four public addresses of a draft survey answers
  exactly as that of a survey that was never created, and changes nothing: no identity is issued, no
  answer is taken, and neither ballot nor results can be seen.
\<close>
theorem draft_is_invisible:
  assumes "loadSurvey (sdb_of s) (rq_val r ''id'') = Some sv" "sv_state sv = StateDraft"
    and "\<forall>u. activeUser C (dr_now dr) (sdb_of s) r = Some u \<longrightarrow> \<not> AtLeast (u_role u) RoleEditor"
    and "h \<in> {handleBallot C, handleVote C, handleWriteIn C, handlePublicResults C}"
    and "loadSurvey (sdb_of s') (rq_val r ''id'') = None"
  shows "h dr r s = (fst (h dr r s'), s) \<and> snd (h dr r s') = s' \<and> h_reply (fst (h dr r s)) = Failed 404 ''no such survey''"
proof -
  have "visibleSurvey C dr r s = Inl (fail C r [] 404 ''no such survey'')"
    using assms(1-3) by (auto simp: visibleSurvey_def split: option.splits)
  moreover have "visibleSurvey C dr r s' = Inl (fail C r [] 404 ''no such survey'')"
    using assms(5) by (simp add: visibleSurvey_def)
  ultimately have "h dr r s = (fail C r [] 404 ''no such survey'', s)" "h dr r s' = (fail C r [] 404 ''no such survey'', s')"
    using assms(4) by (auto simp: handleBallot_def handleVote_def handleWriteIn_def handlePublicResults_def)
  then show ?thesis by simp
qed

section \<open>From the ballot to the vote\<close>

text \<open>A request the same browser sends next: its cookies with those of the reply.\<close>

definition sent_after :: "http \<Rightarrow> request \<Rightarrow> request \<Rightarrow> bool" where
  "sent_after rsp r r2 =
     (\<forall>n. Cookie r2 n =
        (case lookup_by c_name n (rev (h_cookies rsp)) of
           None \<Rightarrow> Cookie r n
         | Some c \<Rightarrow> if c_max_age c < 0 then None else Some (c_value c)))"

lemma cookie_names: "cookieName C sessionCookie \<noteq> cookieName C voterCookie"
  "cookieName C flashCookie \<noteq> cookieName C voterCookie" "cookieName C flashCookie \<noteq> cookieName C sessionCookie"
  by (simp_all add: cookieName_def sessionCookie_def voterCookie_def flashCookie_def)

lemma take_flash_cookies: "takeFlash C f r = (x, cs) \<Longrightarrow> cs = [] \<or> cs = [clear_flash C]"
  by (auto simp: takeFlash_def split: option.splits list.splits if_splits)

lemma AddCookie_Cookie: "Cookie (AddCookie m v r) n =
  (case Cookie r n of Some x \<Rightarrow> Some x | None \<Rightarrow> if n = m then Some v else None)"
  by (auto simp: Cookie_def AddCookie_def split: option.splits)

lemma EncodeToString_length: "length (EncodeToString a s) \<ge> length s"
proof -
  have "length (b64_digits bs) \<ge> length bs" for bs by (induction bs rule: b64_digits.induct) auto
  from this [of "map byte s"] show ?thesis by (simp add: EncodeToString_def)
qed

lemma dot_MAC: "CHR ''.'' \<notin> set (EncodeToString url_alphabet s)" "CHR ''.'' \<notin> set (MAC hmac secret xs)"
  using dot_facts Encode_chars [OF alphabets_good(2)] by (auto simp: MAC_def)

lemma MAC_nonempty: "hmac secret (mac_input xs) \<noteq> [] \<Longrightarrow> MAC hmac secret xs \<noteq> []"
  using EncodeToString_length [of "hmac secret (mac_input xs)" url_alphabet] by (auto simp: MAC_def)

lemma known_cookie:
  assumes "known_voter C r = Some tok"
  shows "\<exists>v. v \<noteq> [] \<and> Cookie r (cookieName C voterCookie) = Some v \<and> verifyVoterToken C v = Some tok"
proof -
  obtain v where v: "Cookie r (cookieName C voterCookie) = Some v" "verifyVoterToken C v = Some tok"
    using assms by (auto simp: known_voter_def split: option.splits)
  have "verifyVoterToken C [] = None" by (simp add: verifyVoterToken_def)
  with v have "v \<noteq> []" by (metis option.distinct(1))
  with v show ?thesis by blast
qed

lemma csrf_cong:
  assumes "Cookie r (cookieName C sessionCookie) = Cookie r' (cookieName C sessionCookie)"
    "Cookie r (cookieName C voterCookie) = Cookie r' (cookieName C voterCookie)"
  shows "csrfToken C r = csrfToken C r'" "known_voter C r = known_voter C r'"
proof -
  have "cookie_value C r sessionCookie = cookie_value C r' sessionCookie" "cookie_value C r voterCookie = cookie_value C r' voterCookie"
    unfolding cookie_value_def assms by simp_all
  then show "csrfToken C r = csrfToken C r'" by (simp only: csrfToken_def)
  show "known_voter C r = known_voter C r'" unfolding known_voter_def assms by simp
qed

text \<open>The cookies of the next request are those the page was made with: its token holds.\<close>

lemma next_request:
  assumes C: "cf_mac C = MAC hmac secret" and len: "16 \<le> length (dr_bytes dr)"
    and v: "voterToken C dr r s = ((tok, cs, r'), s')" "tok \<noteq> []"
    and ck: "Cookie r (cookieName C voterCookie) = None \<or> known_voter C r \<noteq> None"
    and rsp: "rsp = render C r' cs 200 p" and r2: "sent_after rsp r r2"
  shows "known_voter C r2 = Some tok" "csrfToken C r2 = h_csrf rsp"
proof -
  note names = cookie_names [of C]
  obtain x clear where tf: "takeFlash C None r' = (x, clear)" by fastforce
  have h: "h_cookies rsp = cs @ clear" "h_csrf rsp = csrfToken C r'"
    using tf by (simp_all add: rsp render_def render_with_def)
  have cl: "clear = [] \<or> clear = [clear_flash C]" by (rule take_flash_cookies [OF tf])
  have "known_voter C r2 = Some tok \<and> csrfToken C r2 = csrfToken C r'"
    using v(1)
  proof (cases rule: voterToken_cases [of C r dr s])
    case (known tok')
    with v(1) have e: "cs = []" "r' = r" "tok' = tok" by auto
    have "Cookie r2 n = Cookie r n" if "n \<noteq> cookieName C flashCookie" for n
      using r2 h(1) cl that unfolding e sent_after_def by (auto simp: clear_flash_def)
    then have "Cookie r2 (cookieName C voterCookie) = Cookie r (cookieName C voterCookie)"
      "Cookie r2 (cookieName C sessionCookie) = Cookie r (cookieName C sessionCookie)" using names by auto
    with known(1) e csrf_cong [of r2 C r] show ?thesis by simp
  next
    case (minted tok' w lm)
    with v(1) have e: "cs = [cookie_of C voterCookie w voterTTL]" "r' = AddCookie (cookieName C voterCookie) w r" "tok' = tok" by auto
    have none: "Cookie r (cookieName C voterCookie) = None" using ck minted(1) by simp
    have c: "Cookie r2 n = (if n = cookieName C voterCookie then Some w else Cookie r n)" if "n \<noteq> cookieName C flashCookie" for n
      using r2 h(1) cl that names unfolding e sent_after_def
      by (auto simp: clear_flash_def cookie_of_def voterTTL_def hour_def second_def)
    have c': "Cookie r' n = (if n = cookieName C voterCookie then Some w else Cookie r n)" for n
      using none by (auto simp: e(2) AddCookie_Cookie split: option.split)
    have "16 \<le> length tok'" using len EncodeToString_length [of "dr_bytes dr" url_alphabet] minted(3) by simp
    then have "verifyVoterToken C w = Some tok'"
      using verify_signed_iff [of C w tok'] minted(3,4) dot_MAC by (simp add: C)
    moreover have n1: "cookieName C voterCookie \<noteq> cookieName C flashCookie" "cookieName C sessionCookie \<noteq> cookieName C flashCookie"
      using names by metis+
    ultimately show ?thesis
      using c [OF n1(1)] c [OF n1(2)] c' e(3) names csrf_cong(1) [of r2 C r'] by (simp add: known_voter_def)
  next
    case (refused lm)
    with v show ?thesis by simp
  qed
  with h(2) show "known_voter C r2 = Some tok" "csrfToken C r2 = h_csrf rsp" by simp_all
qed

text \<open>The vote of a respondent the server knows, with the token of their page.\<close>

lemma vote_of_known:
  assumes k: "known_voter C r = Some tok" "tok \<noteq> []" and cs: "checkCSRF C r" and p: "rq_parsed r"
    and sv: "loadSurvey (sdb_of s) (rq_val r ''id'') = Some sv" "sv_state sv \<noteq> StateDraft"
  shows "sdb_of (snd (handleVote C dr r s)) =
    (case saveResponseTx (dr_id dr) (dr_now dr) (rq_val r ''id'') (voter_id C (rq_val r ''id'') tok)
       (rq_form r ''choice'') (FormValue r ''comment'') [] False (sdb_of s) of
       Inl e \<Rightarrow> sdb_of s | Inr (q, d) \<Rightarrow> d)"
proof -
  have t: "voterToken C dr r s = ((tok, [], r), s)"
    using k(1) by (simp add: voterToken_def known_voter_def)
  have vis: "visibleSurvey C dr r s = Inr (sv, False)" using sv by (simp add: visibleSurvey_def)
  have id: "sv_id sv = rq_val r ''id''" by (rule loadSurvey_id [OF sv(1)])
  have "snd (handleVote C dr r s) = snd (on_store (SaveResponse (dr_id dr) (dr_now dr) (sv_id sv)
      (voter_id C (sv_id sv) tok) (rq_form r ''choice'') (FormValue r ''comment'')) s)"
    by (simp add: handleVote_def vis p cs t k(2) Let_def split: prod.split sum.split)
  then show ?thesis
    unfolding id SaveResponse_def on_tx by (simp split: sum.split prod.split)
qed

text \<open>
  C23. A first visit can vote. Whoever opens the ballot of a published survey, with an identity of this
  server or with none yet, and then sends the form of that page back with the cookies the reply set,
  has exactly that submission recorded, under the identity the page was made for: the token of the
  page passes, the identity is recognised, nothing is refused for the rate, and the database becomes
  what the store's submission makes of it.
\<close>
theorem first_visit_can_vote:
  assumes C: "cf_mac C = MAC hmac secret" "\<And>x. hmac secret x \<noteq> []" and len: "16 \<le> length (dr_bytes dr)"
    and b: "handleBallot C dr r s = (rsp, s1)" "h_reply rsp = Page 200 (BallotPage b)"
    and ck: "Cookie r (cookieName C voterCookie) = None \<or> known_voter C r \<noteq> None"
    and r2: "sent_after rsp r r2" "FormValue r2 ''csrf'' = h_csrf rsp" "rq_parsed r2" "rq_val r2 ''id'' = rq_val r ''id''"
    and sv2: "loadSurvey (sdb_of s2) (rq_val r ''id'') = Some sv2" "sv_state sv2 \<noteq> StateDraft"
  shows "sdb_of (snd (handleVote C dr2 r2 s2)) =
    (case saveResponseTx (dr_id dr2) (dr_now dr2) (rq_val r ''id'') (voter_id C (rq_val r ''id'') (token_of C dr r))
       (rq_form r2 ''choice'') (FormValue r2 ''comment'') [] False (sdb_of s2) of
       Inl e \<Rightarrow> sdb_of s2 | Inr (q, d) \<Rightarrow> d)"
proof -
  obtain tok cs r' s' p where v: "voterToken C dr r s = ((tok, cs, r'), s')" "tok \<noteq> []" "rsp = render C r' cs 200 p"
    using b by (auto simp: handleBallot_def visibleSurvey_def split: sum.splits prod.splits if_splits option.splits)
  note n = next_request [OF C(1) len v(1,2) ck v(3) r2(1)]
  obtain w where w: "w \<noteq> []" "Cookie r2 (cookieName C voterCookie) = Some w" using known_cookie [OF n(1)] by blast
  have "cookie_value C r2 voterCookie = Some w" using w by (simp add: cookie_value_def)
  then have "csrfToken C r2 \<noteq> []"
    using MAC_nonempty [of hmac secret, OF C(2)] by (cases "cookie_value C r2 sessionCookie") (simp_all add: csrfToken_def C(1))
  then have cs: "checkCSRF C r2" using r2(2) n(2) by (simp add: checkCSRF_def Let_def)
  show ?thesis
    using vote_of_known [OF n(1) v(2) cs r2(3), of s2 sv2 dr2] sv2 unfolding r2(4) voterToken_token [OF v(1,2)] .
qed

text \<open>
  The page of a visitor whose identity cookie is no longer one of this server's does not: its token
  is still derived from the old cookie, which the new one replaces in the browser.
\<close>

lemma stale_identity_spoils_form:
  assumes "Cookie r (cookieName C voterCookie) = Some old" "old \<noteq> []" "known_voter C r = None"
    and "voterToken C dr r s = ((tok, cs, r'), s')"
  shows "cookie_value C r' voterCookie = Some old"
  using assms(4)
proof (cases rule: voterToken_cases [of C r dr s])
  case (minted tok' v lm)
  with assms show ?thesis by (auto simp: cookie_value_def AddCookie_Cookie)
qed (use assms in \<open>auto simp: cookie_value_def\<close>)

section \<open>Concrete requests\<close>

lemma demo_server_db [simp]: "sdb_of (demo_server d) = d"
  by (simp add: demo_server_def newServer_def sdb_of_def Let_def)

definition late_draws :: draws where
  "late_draws = demo_draws\<lparr>dr_now := 99, dr_locked := 99\<rparr>"

definition survey_request :: "string \<Rightarrow> (string \<times> string) list \<Rightarrow> (string \<Rightarrow> string list) \<Rightarrow> request" where
  "survey_request m cs f = (demo_request m ''/s/s1'' cs f)\<lparr>rq_val := \<lambda>_. ''s1''\<rparr>"


definition draft_db :: db where
  "draft_db = empty_db\<lparr>surveys := [survey_row.truncate (demo_survey\<lparr>sv_id := ''s1'', sv_state := StateDraft\<rparr>)]\<rparr>"

theorem draft_is_invisible_witness:
  "handleBallot demo_config demo_draws (survey_request ''GET'' [] (\<lambda>_. [])) (demo_server draft_db) =
     (fst (handleBallot demo_config demo_draws (survey_request ''GET'' [] (\<lambda>_. [])) (demo_server empty_db)), demo_server draft_db)"
proof -
  let ?r = "survey_request ''GET'' [] (\<lambda>_. [])"
  have "activeUser demo_config (dr_now demo_draws) (sdb_of (demo_server draft_db)) ?r = None"
    by (simp add: activeUser_def sessionUser_def Cookie_def survey_request_def demo_request_def)
  moreover obtain sv where "loadSurvey (sdb_of (demo_server draft_db)) (rq_val ?r ''id'') = Some sv" "sv_state sv = StateDraft"
    by (simp add: loadSurvey_def draft_db_def survey_request_def survey_row.defs)
  moreover have "loadSurvey (sdb_of (demo_server empty_db)) (rq_val ?r ''id'') = None"
    by (simp add: loadSurvey_def empty_db_def)
  ultimately show ?thesis
    using draft_is_invisible [of "demo_server draft_db" ?r sv demo_config demo_draws "handleBallot demo_config" "demo_server empty_db"]
    by simp
qed

definition reply_form :: "http \<Rightarrow> string \<Rightarrow> string list" where
  "reply_form rsp k = (if k = ''csrf'' then [h_csrf rsp] else if k = ''choice'' then [''a''] else [])"

lemma demo_minted:
  "\<exists>c r' s1. voterToken demo_config demo_draws (survey_request ''GET'' [] (\<lambda>_. [])) (demo_server demo_db) =
     ((EncodeToString url_alphabet ''0123456789abcdef'', [c], r'), s1) \<and> c_name c = cookieName demo_config voterCookie \<and> c_max_age c > 0"
proof (cases rule: voterToken_cases [of demo_config "survey_request ''GET'' [] (\<lambda>_. [])" demo_draws "demo_server demo_db"])
  case (known tok)
  then show ?thesis by (simp add: known_voter_def Cookie_def survey_request_def demo_request_def)
next
  case (minted tok v lm)
  then show ?thesis by (auto simp: demo_draws_def cookie_of_def voterTTL_def hour_def second_def)
next
  case (refused lm)
  then show ?thesis
    by (simp add: limiter_allow_def demo_server_def newServer_def newLimiter_def sweep_def charge_def Let_def limiterMax_def
        demo_config_def plain_bucket_def demo_draws_def sweepEvery_def second_def)
qed

theorem first_visit_can_vote_witness:
  "\<exists>rsp s1 r2. handleBallot demo_config demo_draws (survey_request ''GET'' [] (\<lambda>_. [])) (demo_server demo_db) = (rsp, s1) \<and>
     sent_after rsp (survey_request ''GET'' [] (\<lambda>_. [])) r2 \<and>
     sdb_of (snd (handleVote demo_config late_draws r2 s1)) =
       (case saveResponseTx ''n1'' 99 ''s1'' (voter_id demo_config ''s1'' (EncodeToString url_alphabet ''0123456789abcdef''))
          [''a''] [] [] False demo_db of Inl e \<Rightarrow> demo_db | Inr (q, d) \<Rightarrow> d)"
proof -
  let ?r = "survey_request ''GET'' [] (\<lambda>_. [])" and ?s = "demo_server demo_db"
  let ?tok = "EncodeToString url_alphabet ''0123456789abcdef''"
  obtain c r' s1 where v: "voterToken demo_config demo_draws ?r ?s = ((?tok, [c], r'), s1)"
    "c_name c = cookieName demo_config voterCookie" "c_max_age c > 0"
    using demo_minted by blast
  have ne: "?tok \<noteq> []" using EncodeToString_length [of "''0123456789abcdef''" url_alphabet] by auto
  have st: "sv_state demo_survey \<noteq> StateDraft" by code_simp
  have vis: "visibleSurvey demo_config demo_draws ?r ?s = Inr (demo_survey, False)"
    using st demo_db_loads by (simp add: visibleSurvey_def survey_request_def)
  obtain b where h: "handleBallot demo_config demo_draws ?r ?s = (render demo_config r' [c] 200 (BallotPage b), s1)"
    using v(1) vis ne by (simp add: handleBallot_def)
  let ?rsp = "render demo_config r' [c] 200 (BallotPage b)"
  let ?r2 = "survey_request ''POST'' [(c_name c, c_value c)] (reply_form ?rsp)"
  obtain x clear where tf: "takeFlash demo_config None r' = (x, clear)" by fastforce
  have ck: "Cookie ?r n = None" for n by (simp add: survey_request_def demo_request_def Cookie_def)
  have sent: "sent_after ?rsp ?r ?r2"
    using take_flash_cookies [OF tf] v(2,3) tf ck cookie_names(2) [of demo_config]
    by (auto simp: sent_after_def render_def render_with_def survey_request_def demo_request_def Cookie_def clear_flash_def)
  have m: "cf_mac demo_config = MAC (@) ''key''" by (simp add: demo_config_def)
  have db1: "sdb_of s1 = demo_db" using voterToken_db [OF v(1)] by simp
  have "loadSurvey (sdb_of s1) (rq_val ?r ''id'') = Some demo_survey"
    using db1 demo_db_loads by (simp add: survey_request_def)
  from first_visit_can_vote [OF m _ _ h _ _ sent _ _ _ this st, of b late_draws, unfolded db1] ck
  have "sdb_of (snd (handleVote demo_config late_draws ?r2 s1)) =
       (case saveResponseTx ''n1'' 99 ''s1'' (voter_id demo_config ''s1'' (token_of demo_config demo_draws ?r))
          [''a''] [] [] False demo_db of Inl e \<Rightarrow> demo_db | Inr (q, d) \<Rightarrow> d)"
    by (simp add: late_draws_def demo_draws_def survey_request_def demo_request_def FormValue_def reply_form_def)
  moreover have "token_of demo_config demo_draws ?r = ?tok" using voterToken_token [OF v(1) ne] by simp
  ultimately show ?thesis using h sent by auto
qed

end
