(* ===== verification/AdminPages.thy ===== *)
theory AdminPages
  imports PublicPages Export
begin

text \<open>
  The pages behind a link (\<open>internal/web/invite.go\<close>) and the administration pages
  (\<open>internal/web/admin.go\<close>). Every handler here that takes a user runs behind \<open>requireRole\<close>,
  which has resolved and checked the session. Log lines are not modelled.
\<close>

section \<open>Invitations and resets\<close>

definition handleInviteForm :: "'b config \<Rightarrow> 'b handler" where
  "handleInviteForm C dr r s =
     (let token = rq_val r ''token'' in
      case InviteByToken (cf_mac C) (sdb_of s) (dr_now dr) token of
        None \<Rightarrow> (fail C r [] 404 ''that invitation link is not valid. It may have been used already, revoked, or expired.'', s)
      | Some iv \<Rightarrow>
          (case voterToken C dr r s of ((tok, cs, r), s) \<Rightarrow> (render C r cs 200 (InvitePage token iv []), s)))"

definition handleInviteClaim :: "'b config \<Rightarrow> 'b handler" where
  "handleInviteClaim C dr r s =
     (let token = rq_val r ''token'' in
      if \<not> checkCSRF C r then (fail C r [] 403 ''your session expired; please reload and try again'', s)
      else case InviteByToken (cf_mac C) (sdb_of s) (dr_now dr) token of
        None \<Rightarrow> (fail C r [] 404 ''that invitation link is no longer valid'', spend_login C dr r s)
      | Some iv \<Rightarrow>
          (let name = TrimSpace (FormValue r ''username''); pw = FormValue r ''password''; confirm = FormValue r ''confirm'';
               bad = (\<lambda>msg. render_with C (Some (msg, True)) r [] (Page 400 (InvitePage token iv name)))
           in if pw \<noteq> confirm then (bad ''The two passwords do not match.'', s)
              else case on_store (tx (ClaimInvite (cf_kdf C) (cf_mac C) (dr_salt dr) (dr_now dr) token name pw)) s of
                (Inl e, s) \<Rightarrow> (bad (cf_text C e), s)
              | (Inr u, s) \<Rightarrow>
                  (see_other C r [cookie_of C sessionCookie (newSession C (dr_now dr) u) sessionTTL] ''/account/pending'', s)))"

definition handlePending :: "'b config \<Rightarrow> user \<Rightarrow> 'b handler" where
  "handlePending C u dr r s = (render C r [] 200 (PendingPage (Some u)), s)"

text \<open>The lifetime asked for: a number of hours, rounded down to days; 7 days when there is none.\<close>

definition invite_days :: "'b config \<Rightarrow> string \<Rightarrow> int" where
  "invite_days C d =
     (if d = [] then 7
      else case cf_parse_hours C (d @ ''h'') of
        None \<Rightarrow> 7
      | Some n \<Rightarrow> if n > 0 then n div hour div 24 else 7)"

definition handleInvitesPost :: "'b config \<Rightarrow> user \<Rightarrow> 'b handler" where
  "handleInvitesPost C me dr r s =
     (let back = (\<lambda>msg isErr s. (see_other C r [setFlash C msg isErr] ''/admin/users'', s)) in
      if \<not> rq_parsed r then (fail C r [] 400 ''could not read the submitted form'', s)
      else if FormValue r ''action'' = ''create'' then
        (case on_store (tx (CreateInvite (cf_mac C) (dr_id dr) (dr_bytes dr) (dr_now dr) (u_name me)
              (FormValue r ''role'') (FormValue r ''note'') (invite_days C (FormValue r ''days'') * 24 * hour))) s of
           (Inl e, s) \<Rightarrow> back (cf_text C e) True s
         | (Inr (iv, token), s) \<Rightarrow> (see_other C r [] (''/admin/users?new_invite='' @ cf_query C token), s))
      else if FormValue r ''action'' = ''revoke'' then
        (case on_store (tx (RevokeInvite (FormValue r ''id''))) s of
           (Inl e, s) \<Rightarrow> back (cf_text C e) True s
         | (Inr _, s) \<Rightarrow> back ''Invitation link revoked.'' False s)
      else back ''Unknown action.'' True s)"

definition handleResetForm :: "'b config \<Rightarrow> 'b handler" where
  "handleResetForm C dr r s =
     (let token = rq_val r ''token'' in
      case ResetByToken (cf_mac C) (sdb_of s) (dr_now dr) token of
        None \<Rightarrow> (fail C r [] 404 ''that reset link is not valid. It may have been used already, replaced by a newer one, or expired.'', s)
      | Some rp \<Rightarrow>
          (case voterToken C dr r s of ((tok, cs, r), s) \<Rightarrow> (render C r cs 200 (ResetPage token rp), s)))"

definition handleReset :: "'b config \<Rightarrow> 'b handler" where
  "handleReset C dr r s =
     (let token = rq_val r ''token'' in
      if \<not> checkCSRF C r then (fail C r [] 403 ''your session expired; please reload and try again'', s)
      else case ResetByToken (cf_mac C) (sdb_of s) (dr_now dr) token of
        None \<Rightarrow> (fail C r [] 404 ''that reset link is no longer valid'', spend_login C dr r s)
      | Some rp \<Rightarrow>
          (let pw = FormValue r ''password''; confirm = FormValue r ''confirm'';
               bad = (\<lambda>msg. render_with C (Some (msg, True)) r [] (Page 400 (ResetPage token rp)))
           in if pw \<noteq> confirm then (bad ''The two passwords do not match.'', s)
              else case on_store (tx (UseReset (cf_kdf C) (cf_mac C) (dr_salt dr) (dr_now dr) token pw)) s of
                (Inl e, s) \<Rightarrow> (bad (cf_text C e), s)
              | (Inr user, s) \<Rightarrow>
                  (see_other C r [cookie_of C sessionCookie [] 0, setFlash C ''Password set. Sign in with it now.'' False] ''/login'', s)))"

section \<open>Addresses\<close>

definition first_of_list :: "string \<Rightarrow> string" where
  "first_of_list v = TrimSpace (takeWhile (\<lambda>c. c \<noteq> CHR '','') v)"

definition baseURL :: "'b config \<Rightarrow> request \<Rightarrow> string" where
  "baseURL C r =
     (if cf_base C \<noteq> [] then rev (dropWhile (\<lambda>c. c = CHR ''/'') (rev (cf_base C)))
      else
        let scheme = (if rq_tls r then ''https'' else ''http'');
            scheme = (if rq_header r ''X-Forwarded-Proto'' \<noteq> [] then first_of_list (rq_header r ''X-Forwarded-Proto'') else scheme);
            host = (if rq_header r ''X-Forwarded-Host'' \<noteq> [] then first_of_list (rq_header r ''X-Forwarded-Host'') else rq_host r)
        in scheme @ ''://'' @ host)"

definition surveyURL :: "'b config \<Rightarrow> request \<Rightarrow> string \<Rightarrow> string" where
  "surveyURL C r i = baseURL C r @ ''/s/'' @ cf_escape C i"

section \<open>Surveys\<close>

definition survey_line_of :: "'b config \<Rightarrow> time \<Rightarrow> db \<Rightarrow> request \<Rightarrow> survey \<Rightarrow> survey_line" where
  "survey_line_of C now d r sv =
     \<lparr>ln_survey = sv, ln_responses = Count d (sv_id sv), ln_pending = length (PendingOptions sv),
      ln_url = surveyURL C r (sv_id sv), ln_overdue = ClosedByClock sv now\<rparr>"

definition handleDashboard :: "'b config \<Rightarrow> user \<Rightarrow> 'b handler" where
  "handleDashboard C u dr r s =
     (render C r [] 200 (DashboardPage (map (survey_line_of C (dr_now dr) (sdb_of s) r) (Surveys_list (sdb_of s)))), s)"

definition handleCreateSurvey :: "'b config \<Rightarrow> user \<Rightarrow> 'b handler" where
  "handleCreateSurvey C u dr r s =
     (if \<not> rq_parsed r then (fail C r [] 400 ''could not read the submitted form'', s)
      else case on_store (tx (CreateSurvey (dr_id dr) (dr_ids dr) (dr_now dr) (FormValue r ''title'')
          (FormValue r ''description'') (split_at (CHR 0x0A) (FormValue r ''options'')))) s of
        (Inl e, s) \<Rightarrow> (see_other C r [setFlash C (cf_text C e) True] ''/admin/'', s)
      | (Inr sv, s) \<Rightarrow>
          (see_other C r [setFlash C ''Survey created as a draft. Publish it when you are ready to share the link.'' False]
             (''/admin/s/'' @ sv_id sv @ ''/edit''), s))"

text \<open>\<open>None\<close> when there is no such survey.\<close>

definition loadAdminSurvey :: "'b config \<Rightarrow> user \<Rightarrow> draws \<Rightarrow> request \<Rightarrow> 'b server \<Rightarrow> admin_data option" where
  "loadAdminSurvey C u dr r s =
     (case loadSurvey (sdb_of s) (rq_val r ''id'') of
        None \<Rightarrow> None
      | Some sv \<Rightarrow>
          (case computeTally (sdb_of s) (sv_id sv) of
            (results, voters) \<Rightarrow>
              Some \<lparr>ad_line = survey_line_of C (dr_now dr) (sdb_of s) r sv, ad_results = results, ad_voters = voters,
                ad_comments = Comments (sdb_of s) (sv_id sv), ad_pending = PendingOptions sv,
                ad_merge_into = filter (\<lambda>o'. o_status o' = OptApproved) (options sv),
                ad_can_edit = AtLeast (u_role u) RoleEditor,
                ad_removed = filter (\<lambda>o'. o_status o' = OptRemoved \<or> o_status o' = OptRejected) (options sv)\<rparr>))"

definition handleAdminSurvey :: "'b config \<Rightarrow> user \<Rightarrow> 'b handler" where
  "handleAdminSurvey C u dr r s =
     (case loadAdminSurvey C u dr r s of
        None \<Rightarrow> (fail C r [] 404 ''no such survey'', s) | Some d \<Rightarrow> (render C r [] 200 (SurveyPage d), s))"

definition handleEditForm :: "'b config \<Rightarrow> user \<Rightarrow> 'b handler" where
  "handleEditForm C u dr r s =
     (case loadAdminSurvey C u dr r s of
        None \<Rightarrow> (fail C r [] 404 ''no such survey'', s) | Some d \<Rightarrow> (render C r [] 200 (EditPage d), s))"

text \<open>The form's rows of existing options: rename, remove or restore; suggestions belong to moderation.\<close>

definition edit_row :: "request \<Rightarrow> opt \<Rightarrow> opt" where
  "edit_row r o' =
     (if o_status o' = OptPending \<or> o_status o' = OptMerged \<or> o_status o' = OptRejected then o'
      else
        let txt = TrimSpace (FormValue r (''opt_'' @ o_id o'));
            o' = (if txt \<noteq> [] then o'\<lparr>o_text := txt\<rparr> else o')
        in if FormValue r (''remove_'' @ o_id o') \<noteq> [] then o'\<lparr>o_status := OptRemoved\<rparr>
           else o'\<lparr>o_status := OptApproved\<rparr>)"

text \<open>\<open>ids k\<close> is the identifier the \<open>k\<close>-th call of \<open>AddOption\<close> draws.\<close>

primrec add_rows :: "(nat \<Rightarrow> string) \<Rightarrow> nat \<Rightarrow> time \<Rightarrow> survey \<Rightarrow> string list \<Rightarrow> err + survey" where
  "add_rows ids k now sv [] = Inr sv"
| "add_rows ids k now sv (t # ts) =
     (if TrimSpace t = [] then add_rows ids k now sv ts
      else bindE (AddOption (ids k) now sv t OptApproved ''editor'') (\<lambda>(_, sv). add_rows ids (Suc k) now sv ts))"

definition edit_form :: "(nat \<Rightarrow> string) \<Rightarrow> time \<Rightarrow> time \<Rightarrow> request \<Rightarrow> survey \<Rightarrow> err + survey" where
  "edit_form ids now closeAt r sv =
     (let title = TrimSpace (FormValue r ''title'') in
      if title = [] then Inl ErrEmptyTitle
      else
        add_rows ids 0 now
          (sv\<lparr>sv_title := title, sv_desc := TrimSpace (FormValue r ''description''),
              show_results := (FormValue r ''show_results'' \<noteq> []),
              allow_write_in := (FormValue r ''allow_write_in'' \<noteq> []),
              allow_comment := (FormValue r ''allow_comment'' \<noteq> []),
              no_randomize := (FormValue r ''randomize'' = []),
              close_at := closeAt, options := map (edit_row r) (options sv)\<rparr>)
          (rq_form r ''newopt''))"

definition parseCloseAt :: "'b config \<Rightarrow> string \<Rightarrow> time option" where
  "parseCloseAt C v = (if TrimSpace v = [] then Some 0 else cf_parse_time C v)"

definition handleEditSave :: "'b config \<Rightarrow> user \<Rightarrow> 'b handler" where
  "handleEditSave C u dr r s =
     (let i = rq_val r ''id''; back = ''/admin/s/'' @ i @ ''/edit'' in
      if \<not> rq_parsed r then (fail C r [] 400 ''could not read the submitted form'', s)
      else case parseCloseAt C (FormValue r ''close_at'') of
        None \<Rightarrow> (see_other C r [setFlash C (''could not understand the close time '' @ cf_quote C (FormValue r ''close_at'')) True] back, s)
      | Some closeAt \<Rightarrow>
          (case on_store (tx (UpdateSurvey (dr_now dr) i (edit_form (dr_ids dr) (dr_now dr) closeAt r))) s of
             (Inl e, s) \<Rightarrow> (see_other C r [setFlash C (cf_text C e) True] back, s)
           | (Inr _, s) \<Rightarrow> (see_other C r [setFlash C ''Saved.'' False] back, s)))"

definition plural :: "nat \<Rightarrow> string \<Rightarrow> string \<Rightarrow> string" where
  "plural n one many = (if n = 1 then one else many)"

definition handleSetState :: "'b config \<Rightarrow> user \<Rightarrow> 'b handler" where
  "handleSetState C u dr r s =
     (let i = rq_val r ''id''; state = FormValue r ''state''; back = ''/admin/s/'' @ i in
      if \<not> validState state then (fail C r [] 400 ''unknown survey state'', s)
      else if state = StateOpen then
        (case on_store (Publish (dr_now dr) i) s of
           (Inl e, s) \<Rightarrow> (see_other C r [setFlash C (cf_text C e) True] back, s)
         | (Inr discarded, s) \<Rightarrow>
             if discarded > 0 then
               (see_other C r [setFlash C (''Survey is now open. '' @ decimal discarded @ '' test '' @
                  plural discarded ''response'' ''responses'' @ '' from the draft '' @
                  plural discarded ''was'' ''were'' @ '' discarded.'') False] back, s)
             else (see_other C r [setFlash C ''Survey is now open.'' False] back, s))
      else
        (case on_store (tx (UpdateSurvey (dr_now dr) i (\<lambda>sv. Inr (sv\<lparr>sv_state := state\<rparr>)))) s of
           (Inl e, s) \<Rightarrow> (see_other C r [setFlash C (cf_text C e) True] back, s)
         | (Inr _, s) \<Rightarrow> (see_other C r [setFlash C (''Survey is now '' @ state @ ''.'') False] back, s)))"

definition moderation :: "request \<Rightarrow> survey \<Rightarrow> err + survey" where
  "moderation r sv =
     (let i = FormValue r ''option''; action = FormValue r ''action''; txt = TrimSpace (FormValue r ''text'') in
      bindE (if txt \<noteq> [] \<and> action \<noteq> ''merge'' then SetOptionText sv i txt else Inr sv) (\<lambda>sv.
        if action = ''approve'' \<or> action = ''restore'' then SetOptionStatus sv i OptApproved []
        else if action = ''reject'' then SetOptionStatus sv i OptRejected []
        else if action = ''remove'' then SetOptionStatus sv i OptRemoved []
        else if action = ''merge'' then SetOptionStatus sv i OptMerged (FormValue r ''merge_into'')
        else Inl (ErrRefused ''unknown moderation action'')))"

definition moderation_message :: "string \<Rightarrow> string" where
  "moderation_message action =
     (if action = ''approve'' then ''Suggestion approved; votes for it now count.''
      else if action = ''reject'' then ''Suggestion rejected.''
      else if action = ''merge'' then ''Suggestion merged; its votes moved to the option you chose.''
      else if action = ''remove'' then ''Option removed from the survey.''
      else if action = ''restore'' then ''Option restored.'' else [])"

definition handleModerate :: "'b config \<Rightarrow> user \<Rightarrow> 'b handler" where
  "handleModerate C u dr r s =
     (let i = rq_val r ''id''; back = ''/admin/s/'' @ i in
      if \<not> rq_parsed r then (fail C r [] 400 ''could not read the submitted form'', s)
      else case on_store (tx (UpdateSurvey (dr_now dr) i (moderation r))) s of
        (Inl e, s) \<Rightarrow> (see_other C r [setFlash C (cf_text C e) True] back, s)
      | (Inr _, s) \<Rightarrow> (see_other C r [setFlash C (moderation_message (FormValue r ''action'')) False] back, s))"

definition handleDeleteSurvey :: "'b config \<Rightarrow> user \<Rightarrow> 'b handler" where
  "handleDeleteSurvey C u dr r s =
     (let i = rq_val r ''id''; back = ''/admin/s/'' @ i;
          confirmed = (case loadSurvey (sdb_of s) i of
             None \<Rightarrow> False | Some sv \<Rightarrow> TrimSpace (FormValue r ''confirm'') = sv_title sv)
      in if \<not> confirmed then
           (see_other C r [setFlash C ''Not deleted: the confirmation text did not match the survey title.'' True] back, s)
         else case on_store (tx (DeleteSurvey i)) s of
           (Inl e, s) \<Rightarrow> (see_other C r [setFlash C (cf_text C e) True] back, s)
         | (Inr _, s) \<Rightarrow>
             (see_other C r [setFlash C ''Survey and all of its responses were deleted.'' False] ''/admin/'', s))"

section \<open>Files\<close>

text \<open>\<open>strings.TrimSuffix\<close>\<close>

definition trim_suffix :: "string \<Rightarrow> string \<Rightarrow> string" where
  "trim_suffix s x = (if x \<noteq> [] \<and> length x \<le> length s \<and> drop (length s - length x) s = x then take (length s - length x) s else s)"

definition handleExport :: "'b config \<Rightarrow> user \<Rightarrow> 'b handler" where
  "handleExport C u dr r s =
     (case loadSurvey (sdb_of s) (rq_val r ''id'') of
        None \<Rightarrow> (fail C r [] 404 ''no such survey'', s)
      | Some sv \<Rightarrow>
          (let kind = trim_suffix (rq_val r ''kind'') ''.tsv'';
               file = (\<lambda>body. (\<lparr>h_reply = Download ''text/tab-separated-values; charset=utf-8''
                  (Filename (cf_ymd C (dr_now dr)) sv kind ''tsv'') body, h_cookies = [], h_csrf = [], h_flash = None\<rparr>, s))
           in if kind = ''responses'' then file (Export_Responses (cf_local C) sv (Responses (sdb_of s) (sv_id sv)))
              else if kind = ''summary'' then
                (case computeTally (sdb_of s) (sv_id sv) of (results, voters) \<Rightarrow> file (Summary (cf_fmt1 C) results voters))
              else (fail C r [] 404 ''unknown export type'', s)))"

definition handleSaveSurvey :: "'b config \<Rightarrow> user \<Rightarrow> 'b handler" where
  "handleSaveSurvey C u dr r s =
     (case loadSurvey (sdb_of s) (rq_val r ''id'') of
        None \<Rightarrow> (fail C r [] 404 ''no such survey'', s)
      | Some sv \<Rightarrow>
          (let kind = trim_suffix (rq_val r ''kind'') ''.json'' in
           if kind \<noteq> ''definition'' \<and> kind \<noteq> ''full'' then (fail C r [] 404 ''unknown save type'', s)
           else
             let body = (case WriteSurveyDocument (cf_encode C) (dr_now dr) (sdb_of s) (sv_id sv) (kind = ''full'') of
                   Inl e \<Rightarrow> [] | Inr b \<Rightarrow> b)
             in (\<lparr>h_reply = Download ''application/json; charset=utf-8'' (Filename (cf_ymd C (dr_now dr)) sv kind ''json'') body,
                  h_cookies = [], h_csrf = [], h_flash = None\<rparr>, s)))"

definition handleRestoreSurvey :: "'b config \<Rightarrow> user \<Rightarrow> 'b handler" where
  "handleRestoreSurvey C u dr r s =
     (let bad = (\<lambda>msg s. (see_other C r [setFlash C msg True] ''/admin/'', s)); keepID = (FormValue r ''keep_id'' \<noteq> []) in
      case rq_file r of
        None \<Rightarrow> bad ''Choose a saved survey file to restore.'' s
      | Some body \<Rightarrow>
          (case on_store (ReadSurveyDocument (cf_header C) (cf_decode C) (dr_id dr) (dr_ids dr) (dr_rids dr) (dr_now dr) body keepID) s of
             (Inl e, s) \<Rightarrow> bad (cf_text C e) s
           | (Inr sv, s) \<Rightarrow>
               (let n = Count (sdb_of s) (sv_id sv);
                    msg = (if keepID then ''Restored '' @ cf_quote C (sv_title sv) @ '' under its original link, with '' @ decimal n @ '' '' @
                             plural n ''response'' ''responses'' @ ''.''
                           else ''Restored '' @ cf_quote C (sv_title sv) @ '' as a new draft. It has its own link, and no responses.'')
                in (see_other C r [setFlash C msg False] (''/admin/s/'' @ sv_id sv), s))))"

section \<open>Accounts\<close>

definition users_page :: "'b config \<Rightarrow> time \<Rightarrow> db \<Rightarrow> users_data" where
  "users_page C now d =
     (let us = filter (\<lambda>u. \<not> u_pending u) (Users d) in
      \<lparr>ud_users = us, ud_pending = PendingUsers d, ud_invites = Invites d, ud_new_invite = [],
       ud_resets = concat (map (\<lambda>u. case OutstandingReset d now (u_name u) of None \<Rightarrow> [] | Some rp \<Rightarrow> [(u_name u, rp)]) us),
       ud_new_reset = [], ud_new_reset_user = []\<rparr>)"

definition handleUsers :: "'b config \<Rightarrow> user \<Rightarrow> 'b handler" where
  "handleUsers C u dr r s =
     (let p = users_page C (dr_now dr) (sdb_of s); tok = FormValue r ''new_invite'';
          p = (if tok \<noteq> [] then p\<lparr>ud_new_invite := baseURL C r @ ''/invite/'' @ cf_escape C tok\<rparr> else p)
      in (render C r [] 200 (UsersPage p), s))"

definition renderUsersWithReset :: "'b config \<Rightarrow> draws \<Rightarrow> request \<Rightarrow> 'b server \<Rightarrow> string \<Rightarrow> string \<Rightarrow> http" where
  "renderUsersWithReset C dr r s user token =
     render C r [] 200 (UsersPage ((users_page C (dr_now dr) (sdb_of s))
       \<lparr>ud_new_reset := baseURL C r @ ''/reset/'' @ cf_escape C token, ud_new_reset_user := user\<rparr>))"

text \<open>The account action of a form, but for minting a reset link: an error, or the new database and what to say.\<close>

definition account_action :: "user \<Rightarrow> request \<Rightarrow> 'b config \<Rightarrow> db \<Rightarrow> err + (string \<times> db)" where
  "account_action me r C d =
     (let name = TrimSpace (FormValue r ''username''); role = FormValue r ''role''; action = FormValue r ''action'';
          say = (\<lambda>msg (u, d). Inr (msg, d))
      in if action = ''add'' then Inl (ErrRefused (''accounts are created by invitation, so that nobody else '' @
           ''ever knows the password. Use \"Invite someone by link\" below.''))
         else if action = ''approve'' then
           bindE (ApproveUser name role d) (say (name @ '' approved as '' @ role @ ''.''))
         else if action = ''reject'' then
           (if name = u_name me then Inl (ErrRefused ''you cannot reject your own account'')
            else bindE (DeleteUser name d) (say (''Request from '' @ name @ '' rejected and the account removed.'')))
         else if action = ''role'' then
           (if name = u_name me then Inl (ErrRefused ''you cannot change your own role'')
            else bindE (SetRole name role d) (say (''Role updated for '' @ name @ ''.'')))
         else if action = ''delete'' then
           (if name = u_name me then Inl (ErrRefused ''you cannot delete your own account'')
            else if TrimSpace (FormValue r ''confirm'') \<noteq> name then
              Inl (ErrRefused ''not deleted: type the username exactly to confirm'')
            else bindE (DeleteUser name d) (say (''Account '' @ name @ '' deleted.'')))
         else Inl (ErrRefused ''unknown action''))"

definition handleUsersPost :: "'b config \<Rightarrow> user \<Rightarrow> 'b handler" where
  "handleUsersPost C me dr r s =
     (let name = TrimSpace (FormValue r ''username'');
          back = (\<lambda>msg isErr s. (see_other C r [setFlash C msg isErr] ''/admin/users'', s)) in
      if \<not> rq_parsed r then (fail C r [] 400 ''could not read the submitted form'', s)
      else if FormValue r ''action'' = ''reset-link'' then
        (case on_store (tx (CreateReset (cf_mac C) (dr_id dr) (dr_bytes dr) (dr_now dr) name (u_name me))) s of
           (Inl e, s) \<Rightarrow>
             \<comment> \<open>a second message, with nothing to say, replaces the first\<close>
             (see_other C r [setFlash C (cf_text C e) True, setFlash C [] False] ''/admin/users'', s)
         | (Inr (rp, token), s) \<Rightarrow> (renderUsersWithReset C dr r s name token, s))
      else case on_store (tx (account_action me r C)) s of
        (Inl e, s) \<Rightarrow> back (cf_text C e) True s
      | (Inr msg, s) \<Rightarrow> back msg False s)"

section \<open>What they do to the database\<close>

text \<open>Pages that only show something.\<close>

lemma show_pages:
  "snd (handlePending C u dr r s) = s" "snd (handleDashboard C u dr r s) = s" "snd (handleAdminSurvey C u dr r s) = s"
  "snd (handleEditForm C u dr r s) = s" "snd (handleExport C u dr r s) = s" "snd (handleSaveSurvey C u dr r s) = s"
  "snd (handleUsers C u dr r s) = s" "snd (handlePasswordForm C u dr r s) = s" "snd (handleIndex C dr r s) = s"
  by (simp_all add: handlePending_def handleDashboard_def handleAdminSurvey_def handleEditForm_def handleExport_def
      handleSaveSurvey_def handleUsers_def handlePasswordForm_def handleIndex_def Let_def split: option.split prod.split)

lemma form_pages:
  "sdb_of (snd (handleInviteForm C dr r s)) = sdb_of s" "sdb_of (snd (handleResetForm C dr r s)) = sdb_of s"
  "sdb_of (snd (handleLoginForm C dr r s)) = sdb_of s" "sdb_of (snd (handleLogin C dr r s)) = sdb_of s"
  by (cases "voterToken C dr r s";
      auto simp: handleInviteForm_def handleResetForm_def handleLoginForm_def handleLogin_def spend_login_def Let_def
        dest!: voterToken_db split: option.split prod.split)+

text \<open>A transaction that succeeded, or nothing.\<close>

definition ran :: "(db \<Rightarrow> err + ('a \<times> db)) \<Rightarrow> db \<Rightarrow> db \<Rightarrow> bool" where
  "ran f d d' = (d' = d \<or> (\<exists>x. f d = Inr (x, d')))"

lemma ran_tx: "ran f (sdb_of s) (sdb_of (snd (on_store (tx f) s)))"
  by (auto simp: ran_def on_tx split: sum.split prod.split)

lemma ran_case:
  assumes "\<And>e s'. on_store (tx f) s = (Inl e, s') \<Longrightarrow> sdb_of (g (Inl e) s') = sdb_of s'"
    and "\<And>x s'. on_store (tx f) s = (Inr x, s') \<Longrightarrow> sdb_of (g (Inr x) s') = sdb_of s'"
  shows "ran f (sdb_of s) (sdb_of (case on_store (tx f) s of (v, s') \<Rightarrow> g v s'))"
  using ran_tx [of f s] assms by (cases "on_store (tx f) s"; cases "fst (on_store (tx f) s)") auto

lemma editor_pages:
  "ran (CreateSurvey (dr_id dr) (dr_ids dr) (dr_now dr) (FormValue r ''title'') (FormValue r ''description'')
     (split_at (CHR 0x0A) (FormValue r ''options''))) (sdb_of s) (sdb_of (snd (handleCreateSurvey C u dr r s)))"
  "ran (UpdateSurvey (dr_now dr) (rq_val r ''id'') (moderation r)) (sdb_of s) (sdb_of (snd (handleModerate C u dr r s)))"
  "ran (DeleteSurvey (rq_val r ''id'')) (sdb_of s) (sdb_of (snd (handleDeleteSurvey C u dr r s)))"
  by (auto simp: handleCreateSurvey_def handleModerate_def handleDeleteSurvey_def Let_def on_tx ran_def split: sum.split prod.split)

lemma edit_page:
  "sdb_of (snd (handleEditSave C u dr r s)) = sdb_of s \<or>
   (\<exists>closeAt sv. parseCloseAt C (FormValue r ''close_at'') = Some closeAt \<and>
     UpdateSurvey (dr_now dr) (rq_val r ''id'') (edit_form (dr_ids dr) (dr_now dr) closeAt r) (sdb_of s) =
       Inr (sv, sdb_of (snd (handleEditSave C u dr r s))))"
  by (auto simp: handleEditSave_def Let_def on_tx split: sum.split prod.split option.split)

lemma valid_open: "validState StateOpen"
  by (simp add: validState_def)

lemma set_state_db:
  "FormValue r ''state'' = StateOpen \<Longrightarrow>
     sdb_of (snd (handleSetState C u dr r s)) = sdb_of (snd (on_store (Publish (dr_now dr) (rq_val r ''id'')) s))"
  "validState (FormValue r ''state'') \<Longrightarrow> FormValue r ''state'' \<noteq> StateOpen \<Longrightarrow>
     sdb_of (snd (handleSetState C u dr r s)) =
     sdb_of (snd (on_store (tx (UpdateSurvey (dr_now dr) (rq_val r ''id'') (\<lambda>sv. Inr (sv\<lparr>sv_state := FormValue r ''state''\<rparr>)))) s))"
  "\<not> validState (FormValue r ''state'') \<Longrightarrow> sdb_of (snd (handleSetState C u dr r s)) = sdb_of s"
  by (simp_all add: handleSetState_def Let_def valid_open split: sum.split prod.split)

lemma state_page:
  "ran (publishTx (dr_now dr) (rq_val r ''id'')) (sdb_of s) (sdb_of (snd (handleSetState C u dr r s))) \<or>
   validState (FormValue r ''state'') \<and> FormValue r ''state'' \<noteq> StateOpen \<and>
   ran (UpdateSurvey (dr_now dr) (rq_val r ''id'') (\<lambda>sv. Inr (sv\<lparr>sv_state := FormValue r ''state''\<rparr>))) (sdb_of s)
     (sdb_of (snd (handleSetState C u dr r s)))"
proof (cases "validState (FormValue r ''state'')")
  case True
  then show ?thesis
    using ran_tx [of "publishTx (dr_now dr) (rq_val r ''id'')" s]
      ran_tx [of "UpdateSurvey (dr_now dr) (rq_val r ''id'') (\<lambda>sv. Inr (sv\<lparr>sv_state := FormValue r ''state''\<rparr>))" s]
    by (cases "FormValue r ''state'' = StateOpen") (simp_all add: set_state_db Publish_def)
next
  case False
  then show ?thesis by (simp add: set_state_db ran_def)
qed

lemma read_document_cases:
  "(\<exists>e. ReadSurveyDocument header decode nid oids rids now body keepID st = (Inl e, st)) \<or>
   (\<exists>doc. ReadSurveyDocument header decode nid oids rids now body keepID st = tx (restoreTx nid oids rids now doc keepID) st)"
  by (auto simp: ReadSurveyDocument_def RestoreSurvey_def split: option.split sum.split prod.split)

lemma restore_page:
  "sdb_of (snd (handleRestoreSurvey C u dr r s)) = sdb_of s \<or>
   (\<exists>doc keepID. ran (restoreTx (dr_id dr) (dr_ids dr) (dr_rids dr) (dr_now dr) doc keepID) (sdb_of s)
     (sdb_of (snd (handleRestoreSurvey C u dr r s))))"
proof (cases "rq_file r")
  case (Some body)
  let ?k = "FormValue r ''keep_id'' \<noteq> []"
  consider (1) e where "ReadSurveyDocument (cf_header C) (cf_decode C) (dr_id dr) (dr_ids dr) (dr_rids dr) (dr_now dr) body ?k (sv_store s) = (Inl e, sv_store s)"
    | (2) doc where "ReadSurveyDocument (cf_header C) (cf_decode C) (dr_id dr) (dr_ids dr) (dr_rids dr) (dr_now dr) body ?k (sv_store s) =
        tx (restoreTx (dr_id dr) (dr_ids dr) (dr_rids dr) (dr_now dr) doc ?k) (sv_store s)"
    using read_document_cases by metis
  then show ?thesis
  proof cases
    case (1 e)
    then show ?thesis using Some by (simp add: handleRestoreSurvey_def on_store_def Let_def)
  next
    case (2 doc)
    then have "on_store (ReadSurveyDocument (cf_header C) (cf_decode C) (dr_id dr) (dr_ids dr) (dr_rids dr) (dr_now dr) body ?k) s =
        on_store (tx (restoreTx (dr_id dr) (dr_ids dr) (dr_rids dr) (dr_now dr) doc ?k)) s"
      by (simp add: on_store_def)
    then have "ran (restoreTx (dr_id dr) (dr_ids dr) (dr_rids dr) (dr_now dr) doc ?k) (sdb_of s)
        (sdb_of (snd (handleRestoreSurvey C u dr r s)))"
      using Some by (auto simp: handleRestoreSurvey_def on_tx ran_def Let_def split: sum.split prod.split)
    then show ?thesis by blast
  qed
qed (simp add: handleRestoreSurvey_def Let_def)

text \<open>Account pages: every change is a step of the account history.\<close>

lemma account_action_step:
  "account_action me r C d = Inr (msg, d') \<Longrightarrow> account_step kdf mac d d'"
  by (auto simp: account_action_def Let_def split: if_split_asm
      intro: account_step.approve_user account_step.delete_user account_step.set_role)

lemma invites_page:
  "handleInvitesPost C me dr r s = (rsp, s') \<Longrightarrow>
   sdb_of s' = sdb_of s \<or> account_step (cf_kdf C) (cf_mac C) (sdb_of s) (sdb_of s')"
  by (auto simp: handleInvitesPost_def Let_def on_tx split: if_split_asm sum.split_asm prod.split_asm
      intro: account_step.create_invite account_step.revoke_invite)

lemma users_post_page:
  "handleUsersPost C me dr r s = (rsp, s') \<Longrightarrow> dr_now dr \<noteq> 0 \<Longrightarrow>
   sdb_of s' = sdb_of s \<or> account_step (cf_kdf C) (cf_mac C) (sdb_of s) (sdb_of s')"
  by (auto simp: handleUsersPost_def Let_def on_tx split: if_split_asm sum.split_asm prod.split_asm
      intro: account_step.create_reset account_action_step)

text \<open>Public account pages act on an open link, or on the caller's own account.\<close>

lemma claim_page:
  assumes "handleInviteClaim C dr r s = (rsp, s')"
  shows "sdb_of s' = sdb_of s \<or> checkCSRF C r \<and>
    InviteByToken (cf_mac C) (sdb_of s) (dr_now dr) (rq_val r ''token'') \<noteq> None \<and>
    (\<exists>u. ClaimInvite (cf_kdf C) (cf_mac C) (dr_salt dr) (dr_now dr) (rq_val r ''token'') (TrimSpace (FormValue r ''username''))
       (FormValue r ''password'') (sdb_of s) = Inr (u, sdb_of s'))"
  using assms
  by (auto simp: handleInviteClaim_def Let_def on_tx spend_login_def split: if_split_asm option.split_asm sum.split_asm prod.split_asm)

lemma reset_page:
  assumes "handleReset C dr r s = (rsp, s')"
  shows "sdb_of s' = sdb_of s \<or> checkCSRF C r \<and>
    ResetByToken (cf_mac C) (sdb_of s) (dr_now dr) (rq_val r ''token'') \<noteq> None \<and>
    (\<exists>name. UseReset (cf_kdf C) (cf_mac C) (dr_salt dr) (dr_now dr) (rq_val r ''token'') (FormValue r ''password'') (sdb_of s)
       = Inr (name, sdb_of s'))"
  using assms
  by (auto simp: handleReset_def Let_def on_tx spend_login_def split: if_split_asm option.split_asm sum.split_asm prod.split_asm)

lemma logout_page:
  assumes "handleLogout C dr r s = (rsp, s')"
  shows "sdb_of s' = sdb_of s \<or> checkCSRF C r \<and>
    (\<exists>u. sessionUser C (dr_now dr) (sdb_of s) r = Some u \<and> RevokeSessions (dr_now dr) (u_name u) (sdb_of s) = Inr ((), sdb_of s'))"
  using assms
  by (auto simp: handleLogout_def Let_def on_tx split: if_split_asm option.split_asm sum.split_asm prod.split_asm)

lemma password_page:
  assumes "handlePasswordChange C u dr r s = (rsp, s')"
  shows "sdb_of s' = sdb_of s \<or> Authenticate (cf_kdf C) (sdb_of s) (u_name u) (FormValue r ''current'') \<noteq> None \<and>
    SetPassword (cf_kdf C) (dr_salt dr) (dr_now dr) (u_name u) (FormValue r ''new'') (sdb_of s) = Inr ((), sdb_of s')"
  using assms
  by (auto simp: handlePasswordChange_def Let_def on_tx split: if_split_asm option.split_asm sum.split_asm prod.split_asm)

section \<open>The edits keep surveys well-formed\<close>

lemma edit_of_trans:
  assumes a: "edit_of d sv sv1" and b: "edit_of d sv1 sv2"
  shows "edit_of d sv sv2"
proof -
  let ?n = "length (options sv)" and ?m = "length (options sv1)"
  have la: "map ident (take ?n (options sv1)) = map ident (options sv)"
    and lb: "map ident (take ?m (options sv2)) = map ident (options sv1)" using a b by (simp_all add: edit_of_def)
  have nm: "?n \<le> ?m" using arg_cong [OF la, of length] by simp
  have "map ident (take ?n (options sv2)) = take ?n (map ident (take ?m (options sv2)))"
    using nm by (simp add: take_map min_def)
  also have "\<dots> = map ident (options sv)" using la by (simp add: lb take_map)
  finally have t: "map ident (take ?n (options sv2)) = map ident (options sv)" .
  have "o_id o' \<notin> o_id ` set (opts d)" if "o' \<in> set (drop ?n (options sv2))" for o'
  proof -
    let ?A = "drop ?n (take ?m (options sv2))" and ?B = "drop ?m (options sv2)"
    have "map ident ?A = map ident (drop ?n (options sv1))" by (metis drop_map lb)
    then have im: "ident ` set ?A = ident ` set (drop ?n (options sv1))" by (metis list.set_map)
    have "drop ?n (options sv2) = drop ?n (take ?m (options sv2) @ drop ?m (options sv2))" by simp
    also have "\<dots> = ?A @ ?B" by (subst drop_append) (use nm arg_cong [OF lb, of length] in simp)
    finally have "o' \<in> set ?A \<or> o' \<in> set ?B" using that by simp
    then consider "ident o' \<in> ident ` set (drop ?n (options sv1))" | "o' \<in> set ?B"
      using imageI [of o' "set ?A" ident] unfolding im by blast
    then show ?thesis
    proof cases
      case 1
      then obtain x where "x \<in> set (drop ?n (options sv1))" "ident o' = ident x" by (rule imageE)
      then show ?thesis using a by (simp add: edit_of_def list_all_iff ident_def)
    next
      case 2
      then show ?thesis using b by (simp add: edit_of_def list_all_iff)
    qed
  qed
  with a b t show ?thesis by (simp add: edit_of_def list_all_iff)
qed

lemma leads_map:
  assumes "leads s n i o'" and f: "\<And>x. o_id (f x) = o_id x" "\<And>x. forwards (f x) = forwards x" "\<And>x. o_merged (f x) = o_merged x"
  shows "leads (s\<lparr>options := map f (options s)\<rparr>) n i (f o')"
proof -
  have l: "OptionOf (s\<lparr>options := map f (options s)\<rparr>) j = map_option f (OptionOf s j)" for j
  proof -
    have "lookup_by o_id j (map f xs) = map_option f (lookup_by o_id j xs)" for xs by (induction xs) (auto simp: f)
    then show ?thesis by (simp add: OptionOf_def)
  qed
  from assms(1) show ?thesis
    by (induction rule: leads.induct) (auto intro!: leads.intros simp: l f)
qed

lemma edit_row_facts:
  "o_id (edit_row r o') = o_id o'" "o_merged (edit_row r o') = o_merged o'" "ident (edit_row r o') = ident o'"
  "opt_ok o' \<Longrightarrow> opt_ok (edit_row r o')" "forwards (edit_row r o') = forwards o'"
  by (auto simp: edit_row_def Let_def ident_def opt_ok_def validOptionStatus_def forwards_def OptApproved_def OptRemoved_def
      OptMerged_def OptPending_def OptRejected_def)

lemma edit_rows_ok:
  assumes "survey_ok sv"
  shows "survey_ok (sv\<lparr>options := map (edit_row r) (options sv)\<rparr>)" "edit_of d sv (sv\<lparr>options := map (edit_row r) (options sv)\<rparr>)"
proof -
  note ok = survey_okD [OF assms]
  have m: "map o_id (map (edit_row r) (options sv)) = map o_id (options sv)" by (simp add: edit_row_facts)
  show "edit_of d sv (sv\<lparr>options := map (edit_row r) (options sv)\<rparr>)"
    using ok(1) m by (simp add: edit_of_def ids_unique_def edit_row_facts comp_def)
  have "ends (sv\<lparr>options := map (edit_row r) (options sv)\<rparr>) (o_id o')" if "o' \<in> set (options sv)" for o'
    using ok(3) [OF that] leads_map [of sv _ _ _ "edit_row r"] edit_row_facts unfolding ends_iff by metis
  with ok m show "survey_ok (sv\<lparr>options := map (edit_row r) (options sv)\<rparr>)"
    by (auto simp: survey_ok_def ids_unique_def list_all_iff edit_row_facts comp_def)
qed

text \<open>Identifiers drawn for new options are new, and differ from each other.\<close>

definition new_ids :: "db \<Rightarrow> (nat \<Rightarrow> string) \<Rightarrow> bool" where
  "new_ids d ids = (inj ids \<and> range ids \<inter> o_id ` set (opts d) = {})"

lemma add_rows_facts:
  assumes "add_rows ids k now sv ts = Inr sv1" and "survey_ok sv" and "new_ids d ids"
    and "o_id ` set (options sv) \<subseteq> o_id ` set (opts d) \<union> ids ` {..<k}"
  shows "survey_ok sv1 \<and>
    (\<exists>new. sv1 = sv\<lparr>options := options sv @ new\<rparr> \<and> map o_text new = filter (\<lambda>t. t \<noteq> []) (map TrimSpace ts) \<and>
       list_all (\<lambda>o'. o_status o' = OptApproved \<and> o_merged o' = [] \<and> o_source o' = ''editor'' \<and> o_created o' = now \<and>
          length (o_text o') \<le> MaxOptionText \<and> o_id o' \<in> range ids) new)"
  using assms(1,2,4)
proof (induction ts arbitrary: k sv)
  case (Cons t ts)
  show ?case
  proof (cases "TrimSpace t = []")
    case True
    with Cons show ?thesis by simp
  next
    case False
    let ?o = "\<lparr>o_id = ids k, o_text = TrimSpace t, o_status = OptApproved, o_source = ''editor'', o_merged = [], o_created = now\<rparr>"
    from Cons.prems(1) False obtain x sv0 where a: "AddOption (ids k) now sv t OptApproved ''editor'' = Inr (x, sv0)"
      "add_rows ids (Suc k) now sv0 ts = Inr sv1" by auto
    note c = AddOption_cases [OF a(1)]
    then have sv0: "sv0 = sv\<lparr>options := options sv @ [?o]\<rparr>" by blast
    have "ids k \<notin> o_id ` set (options sv)"
    proof
      assume "ids k \<in> o_id ` set (options sv)"
      then have "ids k \<in> o_id ` set (opts d) \<union> ids ` {..<k}" using Cons.prems(3) by (rule set_mp [rotated])
      then have "ids k \<in> ids ` {..<k}" using assms(3) by (auto simp: new_ids_def)
      then show False using assms(3) by (auto simp: new_ids_def dest: injD)
    qed
    then have ok: "survey_ok sv0" by (intro AddOption_ok [OF Cons.prems(2) a(1)]) (simp_all add: validOptionStatus_def OptApproved_def OptMerged_def)
    have "o_id ` set (options sv0) \<subseteq> o_id ` set (opts d) \<union> ids ` {..<Suc k}"
      using Cons.prems(3) by (auto simp: sv0)
    from Cons.IH [OF a(2) ok this] obtain new where n: "survey_ok sv1" "sv1 = sv0\<lparr>options := options sv0 @ new\<rparr>"
      "map o_text new = filter (\<lambda>t. t \<noteq> []) (map TrimSpace ts)"
      "list_all (\<lambda>o'. o_status o' = OptApproved \<and> o_merged o' = [] \<and> o_source o' = ''editor'' \<and> o_created o' = now \<and>
          length (o_text o') \<le> MaxOptionText \<and> o_id o' \<in> range ids) new" by blast
    with False c sv0 show ?thesis by (intro conjI exI [of _ "?o # new"]) auto
  qed
qed (use assms in simp)

lemma edit_of_append:
  assumes "survey_ok (sv\<lparr>options := options sv @ new\<rparr>)" and "list_all (\<lambda>o'. o_id o' \<notin> o_id ` set (opts d)) new"
  shows "edit_of d sv (sv\<lparr>options := options sv @ new\<rparr>)"
  using survey_okD(1) [OF assms(1)] assms(2) by (simp add: edit_of_def)

lemma edit_form_edit:
  assumes l: "loadSurvey d i = Some sv" and k: "keys_ok d" and ok: "survey_ok sv" and ids: "new_ids d ids"
    and r: "edit_form ids now closeAt r sv = Inr sv1"
  shows "edit_of d sv sv1 \<and> survey_ok sv1 \<and>
    (\<exists>new. options sv1 = map (edit_row r) (options sv) @ new \<and>
       map o_text new = filter (\<lambda>t. t \<noteq> []) (map TrimSpace (rq_form r ''newopt'')) \<and>
       list_all (\<lambda>o'. o_status o' = OptApproved \<and> o_merged o' = [] \<and> o_source o' = ''editor'' \<and> o_created o' = now \<and>
          length (o_text o') \<le> MaxOptionText \<and> o_id o' \<in> range ids) new)"
proof -
  let ?sv0 = "sv\<lparr>options := map (edit_row r) (options sv)\<rparr>"
  obtain sv2 where d: "sv2 = sv\<lparr>sv_title := TrimSpace (FormValue r ''title''), sv_desc := TrimSpace (FormValue r ''description''),
      show_results := (FormValue r ''show_results'' \<noteq> []), allow_write_in := (FormValue r ''allow_write_in'' \<noteq> []),
      allow_comment := (FormValue r ''allow_comment'' \<noteq> []), no_randomize := (FormValue r ''randomize'' = []),
      close_at := closeAt, options := map (edit_row r) (options sv)\<rparr>" by blast
  have s2: "options sv2 = options ?sv0" "sv_id sv2 = sv_id sv" "sv_created sv2 = sv_created sv" by (simp_all add: d)
  have a: "add_rows ids 0 now sv2 (rq_form r ''newopt'') = Inr sv1"
    using r by (simp add: edit_form_def Let_def d split: if_splits)
  have ok2: "survey_ok sv2" using edit_rows_ok(1) [OF ok, of r] s2(1) by (simp add: survey_ok_parts [of sv2 ?sv0])
  have e2: "edit_of d sv sv2" by (rule edit_of_fields [OF edit_rows_ok(2) [OF ok, where r = r]]) (simp_all add: s2)
  have "o_id ` set (options sv2) = o_id ` set (options sv)" by (simp add: s2(1) image_image edit_row_facts)
  then have sub: "o_id ` set (options sv2) \<subseteq> o_id ` set (opts d) \<union> ids ` {..<0}"
    using options_in_table [OF l k] by simp
  from add_rows_facts [OF a ok2 ids sub] obtain new where n: "survey_ok sv1" "sv1 = sv2\<lparr>options := options sv2 @ new\<rparr>"
    "map o_text new = filter (\<lambda>t. t \<noteq> []) (map TrimSpace (rq_form r ''newopt''))"
    "list_all (\<lambda>o'. o_status o' = OptApproved \<and> o_merged o' = [] \<and> o_source o' = ''editor'' \<and> o_created o' = now \<and>
          length (o_text o') \<le> MaxOptionText \<and> o_id o' \<in> range ids) new" by blast
  have "list_all (\<lambda>o'. o_id o' \<notin> o_id ` set (opts d)) new"
    using n(4) ids by (auto simp: list_all_iff new_ids_def)
  then have "edit_of d sv2 sv1" using n(1) unfolding n(2) by (rule edit_of_append [rotated])
  with e2 n s2(1) show ?thesis by (auto intro: edit_of_trans)
qed

lemma moderation_ok:
  assumes "survey_ok sv" and "moderation r sv = Inr sv1"
  shows "edit_of d sv sv1 \<and> survey_ok sv1"
proof -
  obtain sv0 i st into where s: "(if TrimSpace (FormValue r ''text'') \<noteq> [] \<and> FormValue r ''action'' \<noteq> ''merge''
        then SetOptionText sv (FormValue r ''option'') (TrimSpace (FormValue r ''text'')) else Inr sv) = Inr sv0"
    "SetOptionStatus sv0 i st into = Inr sv1"
    using assms(2) by (auto simp: moderation_def Let_def split: if_split_asm)
  have "survey_ok sv0 \<and> edit_of d sv sv0"
  proof (cases "TrimSpace (FormValue r ''text'') \<noteq> [] \<and> FormValue r ''action'' \<noteq> ''merge''")
    case True
    with s(1) show ?thesis
      using SetOptionText_ok [OF assms(1)] edit_of_SetOptionText [OF survey_okD(1) [OF assms(1)]] by auto
  next
    case False
    with s(1) assms(1) survey_okD(1) [OF assms(1)] show ?thesis by (auto simp: edit_of_def)
  qed
  with moderation_edit [OF _ s(2)] show ?thesis by (blast intro: edit_of_trans)
qed

lemma state_ok: "survey_ok sv \<Longrightarrow> edit_of d sv (sv\<lparr>sv_state := x\<rparr>) \<and> survey_ok (sv\<lparr>sv_state := x\<rparr>)"
  using survey_okD(1) [of sv] by (simp add: edit_of_def survey_ok_parts [of "sv\<lparr>sv_state := x\<rparr>" sv] ids_unique_def)

text \<open>The write of an administration page about surveys, other than a restore.\<close>

definition survey_tables_only :: "db \<Rightarrow> db \<Rightarrow> bool" where
  "survey_tables_only d d' = (users d' = users d \<and> invites d' = invites d \<and> resets d' = resets d \<and> meta d' = meta d)"

lemma tables_refl [simp]: "survey_tables_only d d"
  by (simp add: survey_tables_only_def)

lemma tables_save: "saveSurvey now d sv = Inr (sv', d') \<Longrightarrow> survey_tables_only d d'"
  using saveSurvey_rest [of now d sv sv' d'] by (simp add: survey_tables_only_def)

lemma tables_update: "UpdateSurvey now i fn d = Inr (sv, d') \<Longrightarrow> survey_tables_only d d'"
  by (erule UpdateSurvey_cases) (rule tables_save)

lemma tables_create: "CreateSurvey nid ids now title desc texts d = Inr (sv, d') \<Longrightarrow> survey_tables_only d d'"
  by (erule CreateSurvey_cases) (rule tables_save)

lemma tables_delete: "DeleteSurvey i d = Inr (x, d') \<Longrightarrow> survey_tables_only d d'"
  by (auto simp: DeleteSurvey_def survey_tables_only_def split: if_splits)

lemma tables_publish: "publishTx now i d = Inr (n, d') \<Longrightarrow> survey_tables_only d d'"
  by (auto simp: publishTx_def clearResponsesTx_def survey_tables_only_def dest!: tables_save split: option.splits if_splits)

lemma tables_insert: "insertResponses sid rs d = Inr ((), d') \<Longrightarrow> survey_tables_only d d'"
proof (induction rs arbitrary: d)
  case (Cons r rs)
  then obtain t cs where "insertResponses sid rs (d\<lparr>responses := t, choices := cs,
      seen := insertSeen (q_id r) (q_seen r) (seen d)\<rparr>) = Inr ((), d')" by auto
  from Cons.IH [OF this] show ?case by (simp add: survey_tables_only_def)
qed simp

lemma tables_restore: "restoreTx nid oids rids now doc keep d = Inr (sv, d') \<Longrightarrow> survey_tables_only d d'"
  by (erule restoreTx_cases) (auto dest!: tables_save tables_insert simp: survey_tables_only_def)

text \<open>What a request draws is new to the database, and the clock has started.\<close>

definition fresh_draws :: "draws \<Rightarrow> db \<Rightarrow> bool" where
  "fresh_draws dr d =
     (fresh_ids d (dr_id dr) (dr_ids dr) \<and> dr_id2 dr \<notin> o_id ` set (opts d) \<and> dr_now dr \<noteq> 0)"

lemma fresh_new_ids: "fresh_draws dr d \<Longrightarrow> new_ids d (dr_ids dr)"
  by (simp add: fresh_draws_def fresh_ids_def new_ids_def)

definition editor_pages_of :: "'b config \<Rightarrow> (user \<Rightarrow> 'b handler) set" where
  "editor_pages_of C = {handleCreateSurvey C, handleEditSave C, handleSetState C, handleModerate C, handleDeleteSurvey C}"

lemma ran_keeps:
  assumes "ran f d d'" "Q d d" "\<And>x. f d = Inr (x, d') \<Longrightarrow> Q d d'"
  shows "Q d d'"
  using assms by (auto simp: ran_def)

lemma edit_form_db_ok:
  assumes "db_ok d" "fresh_draws dr d" and u: "UpdateSurvey (dr_now dr) i (edit_form (dr_ids dr) now' closeAt r) d = Inr (sv, d')"
  shows "db_ok d'"
proof (rule UpdateSurvey_db_ok [OF assms(1) u])
  show "dr_now dr \<noteq> 0" using assms(2) by (simp add: fresh_draws_def)
  show "edit_of d sv sv1 \<and> survey_ok sv1" if "loadSurvey d i = Some sv" "survey_ok sv" "edit_form (dr_ids dr) now' closeAt r sv = Inr sv1" for sv sv1
    using edit_form_edit [OF that(1) db_okD(1) [OF assms(1)] that(2) fresh_new_ids [OF assms(2)] that(3)] by blast
qed

lemma editor_page_keeps:
  assumes ok: "db_ok (sdb_of s)" and fr: "fresh_draws dr (sdb_of s)" and h: "h \<in> editor_pages_of C"
  shows "db_ok (sdb_of (snd (h u dr r s))) \<and> survey_tables_only (sdb_of s) (sdb_of (snd (h u dr r s)))"
proof -
  let ?Q = "\<lambda>d d'. db_ok d' \<and> survey_tables_only d d'"
  have now: "dr_now dr \<noteq> 0" and ids: "fresh_ids (sdb_of s) (dr_id dr) (dr_ids dr)" using fr by (simp_all add: fresh_draws_def)
  have refl: "?Q (sdb_of s) (sdb_of s)" using ok by simp
  note keep = ran_keeps [of _ "sdb_of s" _ ?Q, OF _ refl]
  have "?Q (sdb_of s) (sdb_of (snd (handleCreateSurvey C u dr r s)))"
    by (rule keep [OF editor_pages(1)]) (use CreateSurvey_db_ok [OF ok ids now] tables_create in blast)
  moreover have "?Q (sdb_of s) (sdb_of (snd (handleModerate C u dr r s)))"
    by (rule keep [OF editor_pages(2)]) (use UpdateSurvey_db_ok [OF ok _ now] moderation_ok tables_update in blast)
  moreover have "?Q (sdb_of s) (sdb_of (snd (handleDeleteSurvey C u dr r s)))"
    by (rule keep [OF editor_pages(3)]) (use DeleteSurvey_db_ok [OF ok] tables_delete in auto)
  moreover have "?Q (sdb_of s) (sdb_of (snd (handleEditSave C u dr r s)))"
    using edit_page [of C u dr r s] refl edit_form_db_ok [OF ok fr] tables_update by metis
  moreover have "?Q (sdb_of s) (sdb_of (snd (handleSetState C u dr r s)))"
    using state_page [of dr r s C u]
  proof
    assume "ran (publishTx (dr_now dr) (rq_val r ''id'')) (sdb_of s) (sdb_of (snd (handleSetState C u dr r s)))"
    then show ?thesis by (rule keep) (use publishTx_db_ok [OF ok now] tables_publish in blast)
  next
    assume "validState (FormValue r ''state'') \<and> FormValue r ''state'' \<noteq> StateOpen \<and>
      ran (UpdateSurvey (dr_now dr) (rq_val r ''id'') (\<lambda>sv. Inr (sv\<lparr>sv_state := FormValue r ''state''\<rparr>))) (sdb_of s)
        (sdb_of (snd (handleSetState C u dr r s)))"
    then have "ran (UpdateSurvey (dr_now dr) (rq_val r ''id'') (\<lambda>sv. Inr (sv\<lparr>sv_state := FormValue r ''state''\<rparr>))) (sdb_of s)
        (sdb_of (snd (handleSetState C u dr r s)))" by blast
    then show ?thesis
    proof (rule keep)
      fix x assume x: "UpdateSurvey (dr_now dr) (rq_val r ''id'') (\<lambda>sv. Inr (sv\<lparr>sv_state := FormValue r ''state''\<rparr>)) (sdb_of s)
        = Inr (x, sdb_of (snd (handleSetState C u dr r s)))"
      then have "db_ok (sdb_of (snd (handleSetState C u dr r s)))"
        by (rule UpdateSurvey_db_ok [OF ok _ now]) (use state_ok in auto)
      with tables_update [OF x] show "?Q (sdb_of s) (sdb_of (snd (handleSetState C u dr r s)))" by blast
    qed
  qed
  ultimately show ?thesis using h by (auto simp: editor_pages_of_def)
qed

section \<open>The edit form\<close>

lemma edit_form_fields:
  assumes "edit_form ids now closeAt r sv = Inr sv1" "survey_ok sv" "new_ids d ids" "loadSurvey d i = Some sv" "keys_ok d"
  shows "sv_title sv1 = TrimSpace (FormValue r ''title'') \<and> sv_title sv1 \<noteq> [] \<and>
    sv_desc sv1 = TrimSpace (FormValue r ''description'') \<and> close_at sv1 = closeAt \<and> sv_state sv1 = sv_state sv"
proof -
  obtain sv2 where a: "add_rows ids 0 now sv2 (rq_form r ''newopt'') = Inr sv1"
    and d: "sv2 = sv\<lparr>sv_title := TrimSpace (FormValue r ''title''), sv_desc := TrimSpace (FormValue r ''description''),
      show_results := (FormValue r ''show_results'' \<noteq> []), allow_write_in := (FormValue r ''allow_write_in'' \<noteq> []),
      allow_comment := (FormValue r ''allow_comment'' \<noteq> []), no_randomize := (FormValue r ''randomize'' = []),
      close_at := closeAt, options := map (edit_row r) (options sv)\<rparr>" and t: "TrimSpace (FormValue r ''title'') \<noteq> []"
    using assms(1) by (auto simp: edit_form_def Let_def split: if_splits)
  have "options sv2 = options (sv\<lparr>options := map (edit_row r) (options sv)\<rparr>)" by (simp add: d)
  then have "survey_ok sv2 = survey_ok (sv\<lparr>options := map (edit_row r) (options sv)\<rparr>)" by (rule survey_ok_parts)
  then have "survey_ok sv2" using edit_rows_ok(1) [OF assms(2), of r] by (rule iffD2)
  moreover have "o_id ` set (options sv2) = o_id ` set (options sv)" by (simp add: d image_image edit_row_facts)
  then have "o_id ` set (options sv2) \<subseteq> o_id ` set (opts d) \<union> ids ` {..<0}"
    using options_in_table [OF assms(4,5)] by simp
  ultimately obtain new where "sv1 = sv2\<lparr>options := options sv2 @ new\<rparr>"
    using add_rows_facts [OF a _ assms(3)] by blast
  with t show ?thesis by (simp add: d)
qed


text \<open>A request, and what it draws, for the demonstration database.\<close>

definition admin_draws :: draws where
  "admin_draws = late_draws\<lparr>dr_id := ''s9'', dr_ids := \<lambda>k. replicate (Suc k) CHR 0x7A\<rparr>"

lemma admin_draws_fresh: "fresh_draws admin_draws demo_db"
proof -
  let ?ids = "\<lambda>k. replicate (Suc k) CHR 0x7A"
  have hd: "\<forall>i \<in> o_id ` set (opts demo_db). hd i \<noteq> CHR 0x7A" by code_simp
  have "?ids k \<notin> o_id ` set (opts demo_db)" for k
    using hd by (metis hd_replicate nat.distinct(1))
  then have "range ?ids \<inter> o_id ` set (opts demo_db) = {}" by blast
  moreover have "inj ?ids" by (rule injI) (metis length_replicate Suc_inject)
  moreover have "''s9'' \<notin> sv_id ` set (surveys demo_db)" "''n2'' \<notin> o_id ` set (opts demo_db)" by code_simp+
  ultimately show ?thesis by (simp add: fresh_draws_def fresh_ids_def admin_draws_def late_draws_def demo_draws_def)
qed

definition edit_fields :: "string \<Rightarrow> string list" where
  "edit_fields k =
     (if k = ''title'' then ['' Supper ''] else if k = ''newopt'' then ['' '', ''Beans'']
      else if k = ''remove_a'' then [''1''] else if k = ''opt_b'' then ['' Rye ''] else [])"


end
