(* ===== verification/Routes.thy ===== *)
theory Routes
  imports AdminPages
begin

text \<open>
  \<open>ServeHTTP\<close> and \<open>routes\<close> of \<open>internal/web/server.go\<close>: the limits on a body, the redirect to HTTPS,
  the table of routes, and the matching of \<open>net/http.ServeMux\<close> that picks one of them. Response
  headers other than \<open>Location\<close> and cookies are not modelled, nor \<open>OPTIONS *\<close>.
\<close>

section \<open>Before routing\<close>

definition MaxBody :: int where "MaxBody = 64 * 1024"
definition MaxUpload :: int where "MaxUpload = 1024 * 1024"
definition restorePath :: string where "restorePath = ''/admin/surveys/restore''"

text \<open>\<open>MaxBytesReader\<close>: what is read of a longer body is an error, and only the address's fields are left.\<close>

definition limit_body :: "int \<Rightarrow> request \<Rightarrow> request" where
  "limit_body n r =
     (if rq_size r > n then r\<lparr>rq_form := rq_query r, rq_file := None, rq_parsed := False\<rparr> else r)"

text \<open>
  \<open>strings.EqualFold\<close> against \<open>''https''\<close>: the only character beyond ASCII that folds to one of its
  letters is the long s.
\<close>

definition lower :: "char \<Rightarrow> char" where
  "lower c = (if 65 \<le> byte c \<and> byte c \<le> 90 then char_of (byte c + 32) else c)"

fun fold_s :: "string \<Rightarrow> string" where
  "fold_s (a # b # xs) = (if byte a = 0xC5 \<and> byte b = 0xBF then CHR ''s'' # fold_s xs else lower a # fold_s (b # xs))"
| "fold_s [a] = [lower a]"
| "fold_s [] = []"

definition isHTTPS :: "request \<Rightarrow> bool" where
  "isHTTPS r =
     (if rq_tls r \<or> rq_path r = ''/healthz'' then True
      else fold_s (first_of_list (rq_header r ''X-Forwarded-Proto'')) = ''https'')"

section \<open>Patterns\<close>

text \<open>\<open>Lit ''/''\<close> is \<open>{$}\<close>; \<open>Rest\<close> is the rest of the path, at least a slash.\<close>

datatype pat = Lit string | Wild string | Rest

text \<open>The decoded segments of a path; a slash at its end is a segment of its own.\<close>

definition path_segs :: "(string \<Rightarrow> string) \<Rightarrow> string \<Rightarrow> string list" where
  "path_segs un p =
     (let xs = split_at (CHR ''/'') (tl p)
      in map un (butlast xs) @ [if last xs = [] then ''/'' else un (last xs)])"

fun match_segs :: "pat list \<Rightarrow> string list \<Rightarrow> (string \<times> string) list option" where
  "match_segs [Rest] (s # ss) = Some []"
| "match_segs (Lit l # ps) (s # ss) = (if s = l then match_segs ps ss else None)"
| "match_segs (Wild w # ps) (s # ss) =
     (if s = ''/'' then None else map_option (Cons (w, s)) (match_segs ps ss))"
| "match_segs [] [] = Some []"
| "match_segs _ _ = None"

text \<open>\<open>cleanPath\<close> of \<open>net/http\<close>\<close>

definition cleanPath :: "string \<Rightarrow> string" where
  "cleanPath p =
     (let p = (if p = [] \<or> hd p \<noteq> CHR ''/'' then CHR ''/'' # p else p); np = path_clean p
      in if last p = CHR ''/'' \<and> np \<noteq> ''/'' then np @ ''/'' else np)"

section \<open>The table\<close>

text \<open>\<open>NoRoute\<close> has the methods that are allowed: none is 404, some is 405.\<close>

datatype served =
    Answered http
  | Health
  | StaticFile
  | MuxRedirect string
  | NoRoute "string list"

record 'b route =
  rt_method :: string
  rt_pats :: "pat list"
  rt_handle :: "draws \<Rightarrow> request \<Rightarrow> 'b server \<Rightarrow> served \<times> 'b server"

definition route_to :: "string \<Rightarrow> pat list \<Rightarrow> 'b handler \<Rightarrow> 'b route" where
  "route_to m ps h = \<lparr>rt_method = m, rt_pats = ps, rt_handle = \<lambda>dr r s. case h dr r s of (x, s) \<Rightarrow> (Answered x, s)\<rparr>"

definition plain_route :: "pat list \<Rightarrow> served \<Rightarrow> 'b route" where
  "plain_route ps x = \<lparr>rt_method = ''GET'', rt_pats = ps, rt_handle = \<lambda>dr r s. (x, s)\<rparr>"

definition public_routes :: "'b config \<Rightarrow> 'b route list" where
  "public_routes C =
     [plain_route [Lit ''static'', Rest] StaticFile,
      plain_route [Lit ''healthz''] Health,
      route_to ''GET'' [Lit ''/''] (handleIndex C),
      route_to ''GET'' [Lit ''s'', Wild ''id''] (handleBallot C),
      route_to ''POST'' [Lit ''s'', Wild ''id'', Lit ''vote''] (handleVote C),
      route_to ''POST'' [Lit ''s'', Wild ''id'', Lit ''writein''] (handleWriteIn C),
      route_to ''GET'' [Lit ''s'', Wild ''id'', Lit ''results''] (handlePublicResults C),
      route_to ''GET'' [Lit ''invite'', Wild ''token''] (handleInviteForm C),
      route_to ''POST'' [Lit ''invite'', Wild ''token''] (limitLogin C (handleInviteClaim C)),
      route_to ''GET'' [Lit ''reset'', Wild ''token''] (handleResetForm C),
      route_to ''POST'' [Lit ''reset'', Wild ''token''] (limitLogin C (handleReset C)),
      route_to ''GET'' [Lit ''login''] (handleLoginForm C),
      route_to ''POST'' [Lit ''login''] (limitLogin C (handleLogin C)),
      route_to ''POST'' [Lit ''logout''] (handleLogout C),
      route_to ''GET'' [Lit ''account'', Lit ''pending''] (requireRole C RoleViewer (handlePending C)),
      route_to ''GET'' [Lit ''account'', Lit ''password''] (requireRole C RoleViewer (handlePasswordForm C)),
      route_to ''POST'' [Lit ''account'', Lit ''password''] (requireRole C RoleViewer (handlePasswordChange C))]"

definition admin_routes :: "'b config \<Rightarrow> 'b route list" where
  "admin_routes C =
     [route_to ''GET'' [Lit ''admin'', Lit ''/''] (requireRole C RoleViewer (handleDashboard C)),
      route_to ''GET'' [Lit ''admin'', Lit ''s'', Wild ''id''] (requireRole C RoleViewer (handleAdminSurvey C)),
      route_to ''GET'' [Lit ''admin'', Lit ''s'', Wild ''id'', Lit ''export'', Wild ''kind''] (requireRole C RoleViewer (handleExport C)),
      route_to ''POST'' [Lit ''admin'', Lit ''surveys''] (requireRole C RoleEditor (handleCreateSurvey C)),
      route_to ''GET'' [Lit ''admin'', Lit ''s'', Wild ''id'', Lit ''save'', Wild ''kind''] (requireRole C RoleEditor (handleSaveSurvey C)),
      route_to ''POST'' [Lit ''admin'', Lit ''surveys'', Lit ''restore''] (requireRole C RoleEditor (handleRestoreSurvey C)),
      route_to ''GET'' [Lit ''admin'', Lit ''s'', Wild ''id'', Lit ''edit''] (requireRole C RoleEditor (handleEditForm C)),
      route_to ''POST'' [Lit ''admin'', Lit ''s'', Wild ''id'', Lit ''edit''] (requireRole C RoleEditor (handleEditSave C)),
      route_to ''POST'' [Lit ''admin'', Lit ''s'', Wild ''id'', Lit ''state''] (requireRole C RoleEditor (handleSetState C)),
      route_to ''POST'' [Lit ''admin'', Lit ''s'', Wild ''id'', Lit ''moderate''] (requireRole C RoleEditor (handleModerate C)),
      route_to ''POST'' [Lit ''admin'', Lit ''s'', Wild ''id'', Lit ''delete''] (requireRole C RoleEditor (handleDeleteSurvey C)),
      route_to ''GET'' [Lit ''admin'', Lit ''users''] (requireRole C RoleAdmin (handleUsers C)),
      route_to ''POST'' [Lit ''admin'', Lit ''users''] (requireRole C RoleAdmin (handleUsersPost C)),
      route_to ''POST'' [Lit ''admin'', Lit ''invites''] (requireRole C RoleAdmin (handleInvitesPost C))]"

definition routes :: "'b config \<Rightarrow> 'b route list" where
  "routes C = public_routes C @ admin_routes C"

section \<open>Matching\<close>

text \<open>A request with \<open>HEAD\<close> is served by the route of \<open>GET\<close>.\<close>

fun find_route :: "string \<Rightarrow> string list \<Rightarrow> 'b route list \<Rightarrow> ('b route \<times> (string \<times> string) list) option" where
  "find_route m segs [] = None"
| "find_route m segs (rt # rts) =
     (if rt_method rt = m \<and> match_segs (rt_pats rt) segs \<noteq> None then Some (rt, the (match_segs (rt_pats rt) segs))
      else find_route m segs rts)"

definition mux_match :: "'b route list \<Rightarrow> string \<Rightarrow> string list \<Rightarrow> ('b route \<times> (string \<times> string) list) option" where
  "mux_match rts m segs =
     (case find_route m segs rts of
        Some x \<Rightarrow> Some x
      | None \<Rightarrow> if m = ''HEAD'' then find_route ''GET'' segs rts else None)"

definition slash_end :: "string \<Rightarrow> bool" where
  "slash_end path = (path \<noteq> [] \<and> last path = CHR ''/'')"

definition exactMatch :: "('b route \<times> 'c) option \<Rightarrow> string \<Rightarrow> bool" where
  "exactMatch hit path =
     (case hit of
        None \<Rightarrow> False
      | Some (rt, _) \<Rightarrow>
          if Rest \<notin> set (rt_pats rt) then True
          else if path \<noteq> [] \<and> \<not> slash_end path then False
          else length (rt_pats rt) = length (filter (\<lambda>c. c = CHR ''/'') path))"

definition matchingMethods :: "'b route list \<Rightarrow> (string \<Rightarrow> string) \<Rightarrow> string \<Rightarrow> string list" where
  "matchingMethods rts un path =
     filter (\<lambda>m. mux_match rts m (path_segs un path) \<noteq> None \<or>
         \<not> slash_end path \<and> mux_match rts m (path_segs un (path @ ''/'')) \<noteq> None)
       [''GET'', ''HEAD'', ''POST'']"

definition path_value :: "(string \<times> string) list \<Rightarrow> string \<Rightarrow> string" where
  "path_value vals k = (case map_of vals k of None \<Rightarrow> [] | Some v \<Rightarrow> v)"

definition mux_serve :: "'b config \<Rightarrow> draws \<Rightarrow> request \<Rightarrow> 'b server \<Rightarrow> served \<times> 'b server" where
  "mux_serve C dr r s =
     (let rts = routes C; m = rq_method r; un = cf_unescape C;
          path = (if m = ''CONNECT'' then rq_raw r else cleanPath (rq_raw r));
          hit = mux_match rts m (path_segs un path)
      in if \<not> exactMatch hit path \<and> \<not> slash_end path \<and> exactMatch (mux_match rts m (path_segs un (path @ ''/''))) (path @ ''/'') then
           (MuxRedirect (cleanPath (rq_path r) @ ''/''), s)
         else if m \<noteq> ''CONNECT'' \<and> path \<noteq> rq_raw r then (MuxRedirect path, s)
         else case hit of
           None \<Rightarrow> (NoRoute (matchingMethods rts un path), s)
         | Some (rt, vals) \<Rightarrow> rt_handle rt dr (r\<lparr>rq_val := path_value vals\<rparr>) s)"

definition ServeHTTP :: "'b config \<Rightarrow> draws \<Rightarrow> request \<Rightarrow> 'b server \<Rightarrow> served \<times> 'b server" where
  "ServeHTTP C dr r s =
     (let body = (rq_method r = ''POST'' \<or> rq_method r = ''PUT''); upload = (rq_path r = restorePath) in
      if body \<and> upload \<and> rq_length r > MaxUpload then
        (Answered (fail C r [] 413 ''that file is larger than 1 MB''), s)
      else
        let r = (if body then limit_body (if upload then MaxUpload else MaxBody) r else r) in
        if cf_redirect C \<and> \<not> isHTTPS r then
          (Answered (redirect C r [] 308 (''https://'' @ rq_host r @ rq_uri r)), s)
        else mux_serve C dr r s)"

section \<open>One route at most\<close>

fun overlap :: "pat list \<Rightarrow> pat list \<Rightarrow> bool" where
  "overlap (Lit a # ps) (Lit b # qs) = (a = b \<and> overlap ps qs)"
| "overlap (Lit a # ps) (Wild w # qs) = (a \<noteq> ''/'' \<and> overlap ps qs)"
| "overlap (Wild w # ps) (Lit a # qs) = (a \<noteq> ''/'' \<and> overlap ps qs)"
| "overlap (Wild v # ps) (Wild w # qs) = overlap ps qs"
| "overlap [] [] = True"
| "overlap [] (Lit a # qs) = False"
| "overlap [] (Wild w # qs) = False"
| "overlap (Lit a # ps) [] = False"
| "overlap (Wild w # ps) [] = False"
| "overlap _ _ = True"

lemma overlap_sound: "match_segs ps ss \<noteq> None \<Longrightarrow> match_segs qs ss \<noteq> None \<Longrightarrow> overlap ps qs"
proof (induction ps qs arbitrary: ss rule: overlap.induct)
  case (1 a ps b qs)
  then show ?case by (cases ss) (auto split: if_split_asm)
next
  case (2 a ps w qs)
  then show ?case by (cases ss) (auto split: if_split_asm)
next
  case (3 w ps a qs)
  then show ?case by (cases ss) (auto split: if_split_asm)
next
  case (4 v ps w qs)
  then show ?case by (cases ss) (auto split: if_split_asm)
next
  case (6 a qs)
  then show ?case by (cases ss) auto
next
  case (7 w qs)
  then show ?case by (cases ss) auto
next
  case (8 a ps)
  then show ?case by (cases ss) auto
next
  case (9 w ps)
  then show ?case by (cases ss) auto
qed simp_all

lemma routes_apart:
  "sorted_wrt (\<lambda>x y. rt_method x = rt_method y \<longrightarrow> \<not> overlap (rt_pats x) (rt_pats y)) (routes C)"
proof -
  have "sorted_wrt (\<lambda>(m, ps) (n, qs). m = n \<longrightarrow> \<not> overlap ps qs) (map (\<lambda>rt. (rt_method rt, rt_pats rt)) (routes C))"
    by code_simp
  then show ?thesis by (simp add: sorted_wrt_map)
qed

text \<open>So the order of the table does not matter, as it does not for the multiplexer.\<close>

lemma one_route:
  assumes "i < j" "j < length (routes C)" "rt_method (routes C ! i) = rt_method (routes C ! j)"
  shows "match_segs (rt_pats (routes C ! i)) segs = None \<or> match_segs (rt_pats (routes C ! j)) segs = None"
  using sorted_wrt_nth_less [OF routes_apart [of C] assms(1,2)] assms(3) overlap_sound by blast

lemma find_route_SomeD:
  "find_route m segs rts = Some (rt, vals) \<Longrightarrow> rt \<in> set rts \<and> rt_method rt = m \<and> match_segs (rt_pats rt) segs = Some vals"
  by (induction rts) (auto split: if_split_asm)

lemma mux_match_SomeD:
  assumes "mux_match rts m segs = Some (rt, vals)"
  shows "rt \<in> set rts \<and> match_segs (rt_pats rt) segs = Some vals \<and> (rt_method rt = m \<or> m = ''HEAD'' \<and> rt_method rt = ''GET'')"
  using assms by (auto simp: mux_match_def dest: find_route_SomeD split: option.split_asm if_split_asm)

section \<open>Who may change what\<close>

text \<open>The decoded path is the one the client encoded.\<close>

definition decoded :: "'b config \<Rightarrow> request \<Rightarrow> bool" where
  "decoded C r = (rq_path r = CHR ''/'' # join_slash (map (cf_unescape C) (split_at (CHR ''/'') (tl (rq_raw r)))))"

text \<open>A request as its handler sees it.\<close>

definition path_values :: "'b config \<Rightarrow> request \<Rightarrow> (string \<times> string) list" where
  "path_values C r =
     (case mux_match (routes C) (rq_method r) (path_segs (cf_unescape C) (rq_raw r)) of None \<Rightarrow> [] | Some (_, vals) \<Rightarrow> vals)"

definition handled :: "'b config \<Rightarrow> request \<Rightarrow> request" where
  "handled C r = (limit_body (if rq_path r = restorePath then MaxUpload else MaxBody) r)\<lparr>rq_val := path_value (path_values C r)\<rparr>"

text \<open>An account that is approved and has chosen its own password.\<close>

definition in_standing :: "user \<Rightarrow> bool" where
  "in_standing u = (\<not> u_pending u \<and> \<not> u_must_change u)"

text \<open>The changes of the database a request is entitled to.\<close>

inductive permitted :: "'b config \<Rightarrow> draws \<Rightarrow> request \<Rightarrow> db \<Rightarrow> db \<Rightarrow> bool" for C dr r where
  answer: "own_answer_only (rq_val r ''id'') (voter_id C (rq_val r ''id'') (token_of C dr r)) d d' \<Longrightarrow>
    checkCSRF C r \<Longrightarrow> permitted C dr r d d'"
| authoring: "sessionUser C (dr_now dr) d r = Some u \<Longrightarrow> in_standing u \<Longrightarrow> AtLeast (u_role u) RoleEditor \<Longrightarrow>
    checkCSRF C r \<Longrightarrow> survey_tables_only d d' \<Longrightarrow>
    (rq_path r \<noteq> restorePath \<Longrightarrow> fresh_draws dr d \<Longrightarrow> db_ok d') \<Longrightarrow> permitted C dr r d d'"
| administration: "sessionUser C (dr_now dr) d r = Some u \<Longrightarrow> in_standing u \<Longrightarrow> AtLeast (u_role u) RoleAdmin \<Longrightarrow>
    checkCSRF C r \<Longrightarrow> account_step (cf_kdf C) (cf_mac C) d d' \<Longrightarrow> permitted C dr r d d'"
| own_password: "sessionUser C (dr_now dr) d r = Some u \<Longrightarrow> \<not> u_pending u \<Longrightarrow> checkCSRF C r \<Longrightarrow>
    Authenticate (cf_kdf C) d (u_name u) (FormValue r ''current'') \<noteq> None \<Longrightarrow>
    SetPassword (cf_kdf C) (dr_salt dr) (dr_now dr) (u_name u) (FormValue r ''new'') d = Inr ((), d') \<Longrightarrow> permitted C dr r d d'"
| sign_out: "sessionUser C (dr_now dr) d r = Some u \<Longrightarrow> checkCSRF C r \<Longrightarrow>
    RevokeSessions (dr_now dr) (u_name u) d = Inr ((), d') \<Longrightarrow> permitted C dr r d d'"
| claim: "InviteByToken (cf_mac C) d (dr_now dr) (rq_val r ''token'') \<noteq> None \<Longrightarrow> checkCSRF C r \<Longrightarrow>
    ClaimInvite (cf_kdf C) (cf_mac C) (dr_salt dr) (dr_now dr) (rq_val r ''token'') name pw d = Inr (u, d') \<Longrightarrow> permitted C dr r d d'"
| reset: "ResetByToken (cf_mac C) d (dr_now dr) (rq_val r ''token'') \<noteq> None \<Longrightarrow> checkCSRF C r \<Longrightarrow>
    UseReset (cf_kdf C) (cf_mac C) (dr_salt dr) (dr_now dr) (rq_val r ''token'') pw d = Inr (name, d') \<Longrightarrow> permitted C dr r d d'"

lemma gate_passed:
  assumes "requireRole C need h dr r s = (x, s')"
  shows "s' = s \<or>
    (\<exists>u. sessionUser C (dr_now dr) (sdb_of s) r = Some u \<and> (u_pending u \<longrightarrow> rq_path r = ''/account/pending'') \<and>
       (u_must_change u \<longrightarrow> has_prefix (rq_path r) ''/account/password'') \<and> AtLeast (u_role u) need \<and>
       (rq_method r = ''GET'' \<or> checkCSRF C r) \<and> h u dr r s = (x, s'))"
  using assms by (auto simp: requireRole_def split: option.split_asm if_split_asm)

lemma limit_passed:
  assumes "limitLogin C h dr r s = (x, s')"
  shows "sdb_of s' = sdb_of s \<or> (\<exists>s1. sdb_of s1 = sdb_of s \<and> h dr r s1 = (x, s'))"
  using assms by (auto simp: limitLogin_def Let_def split: prod.split_asm if_split_asm intro: exI [of _ "s\<lparr>sv_login := _\<rparr>"])

lemma spend_login_db [simp]: "sdb_of (spend_login C dr r s) = sdb_of s"
  by (simp add: spend_login_def)

text \<open>The pages of an editor write the survey tables, and those of an administrator take account steps.\<close>

lemma editor_tables:
  assumes "h \<in> editor_pages_of C \<union> {handleRestoreSurvey C}"
  shows "survey_tables_only (sdb_of s) (sdb_of (snd (h u dr r s)))"
proof -
  note k = ran_keeps [where Q = survey_tables_only, OF _ tables_refl]
  have "survey_tables_only (sdb_of s) (sdb_of (snd (handleCreateSurvey C u dr r s)))"
    by (rule k [OF editor_pages(1)]) (rule tables_create)
  moreover have "survey_tables_only (sdb_of s) (sdb_of (snd (handleModerate C u dr r s)))"
    by (rule k [OF editor_pages(2)]) (rule tables_update)
  moreover have "survey_tables_only (sdb_of s) (sdb_of (snd (handleDeleteSurvey C u dr r s)))"
    by (rule k [OF editor_pages(3)]) (rule tables_delete)
  moreover have "survey_tables_only (sdb_of s) (sdb_of (snd (handleEditSave C u dr r s)))"
    using edit_page [of C u dr r s] tables_update by fastforce
  moreover have "survey_tables_only (sdb_of s) (sdb_of (snd (handleSetState C u dr r s)))"
    using state_page [of dr r s C u] k tables_publish tables_update by metis
  moreover have "survey_tables_only (sdb_of s) (sdb_of (snd (handleRestoreSurvey C u dr r s)))"
    using restore_page [of C u dr r s] k tables_restore by (metis tables_refl)
  ultimately show ?thesis using assms by (auto simp: editor_pages_of_def)
qed

lemma at_gate:
  assumes "requireRole C need h dr r s = (x, s')" and "sdb_of s' \<noteq> sdb_of s" "rq_method r = ''POST''"
    and "take 6 (rq_path r) = ''/admin''"
  obtains u where "sessionUser C (dr_now dr) (sdb_of s) r = Some u" "in_standing u" "AtLeast (u_role u) need"
    "checkCSRF C r" "h u dr r s = (x, s')"
proof -
  have "rq_path r \<noteq> ''/account/pending''" "\<not> has_prefix (rq_path r) ''/account/password''"
  proof -
    show "rq_path r \<noteq> ''/account/pending''" using assms(4) by auto
    show "\<not> has_prefix (rq_path r) ''/account/password''"
    proof
      assume "has_prefix (rq_path r) ''/account/password''"
      then have "take 6 (take (length ''/account/password'') (rq_path r)) = take 6 ''/account/password''"
        unfolding has_prefix_def by (rule arg_cong)
      then have "take 6 (rq_path r) = ''/accou''" by (simp only: take_take) (simp add: min_def)
      with assms(4) show False by simp
    qed
  qed
  with gate_passed [OF assms(1)] assms(2,3) that show thesis by (auto simp: in_standing_def)
qed

definition ready :: "draws \<Rightarrow> 'b server \<Rightarrow> bool" where
  "ready dr s = (db_ok (sdb_of s) \<and> dr_id2 dr \<notin> o_id ` set (opts (sdb_of s)) \<and> dr_now dr \<noteq> 0)"

text \<open>What a route of the administration pages does, given that its path is below \<open>/admin\<close>.\<close>

definition admin_route_ok :: "'b config \<Rightarrow> 'b route \<Rightarrow> bool" where
  "admin_route_ok C rt =
     (\<forall>dr r s x s'. rt_handle rt dr r s = (x, s') \<longrightarrow> ready dr s \<longrightarrow> take 6 (rq_path r) = ''/admin'' \<longrightarrow>
        (rt_pats rt = [Lit ''admin'', Lit ''surveys'', Lit ''restore''] \<longrightarrow> rq_path r = restorePath) \<longrightarrow>
        sdb_of s' = sdb_of s \<or> rt_method rt = ''POST'' \<and> (rq_method r = ''POST'' \<longrightarrow> permitted C dr r (sdb_of s) (sdb_of s')))"

lemma show_route_ok:
  assumes "\<And>u dr r s. snd (h u dr r s) = s"
  shows "admin_route_ok C (route_to m ps (requireRole C need h))"
  unfolding admin_route_ok_def route_to_def route.simps
proof (intro allI impI disjI1)
  fix dr r s x s'
  assume "(case requireRole C need h dr r s of (x, s) \<Rightarrow> (Answered x, s)) = (x, s')"
  then obtain y where g: "requireRole C need h dr r s = (y, s')" by (auto split: prod.split_asm)
  have "h u dr r s = (y, s') \<Longrightarrow> s' = s" for u using assms [of u dr r s] by simp
  with gate_passed [OF g] show "sdb_of s' = sdb_of s" by blast
qed

lemma editor_route_ok:
  assumes h: "h \<in> editor_pages_of C \<or> h = handleRestoreSurvey C \<and> ps = [Lit ''admin'', Lit ''surveys'', Lit ''restore'']"
  shows "admin_route_ok C (route_to ''POST'' ps (requireRole C RoleEditor h))"
  unfolding admin_route_ok_def route_to_def route.simps
proof (intro allI impI)
  fix dr r s x s'
  assume "(case requireRole C RoleEditor h dr r s of (x, s) \<Rightarrow> (Answered x, s)) = (x, s')"
    and rd: "ready dr s" and p: "take 6 (rq_path r) = ''/admin''"
    and q: "ps = [Lit ''admin'', Lit ''surveys'', Lit ''restore''] \<longrightarrow> rq_path r = restorePath"
  then obtain y where g: "requireRole C RoleEditor h dr r s = (y, s')" by (auto split: prod.split_asm)
  have "permitted C dr r (sdb_of s) (sdb_of s')" if "sdb_of s' \<noteq> sdb_of s" "rq_method r = ''POST''"
  proof (rule at_gate [OF g that p])
    fix u
    assume a: "sessionUser C (dr_now dr) (sdb_of s) r = Some u" "in_standing u" "AtLeast (u_role u) RoleEditor" "checkCSRF C r"
      "h u dr r s = (y, s')"
    from editor_tables [of h C s u dr r] h a(5) have "survey_tables_only (sdb_of s) (sdb_of s')" by auto
    moreover have "db_ok (sdb_of s')" if "rq_path r \<noteq> restorePath" "fresh_draws dr (sdb_of s)"
      using editor_page_keeps [OF _ that(2), of h C u r] that(1) h q rd a(5) by (auto simp: ready_def)
    ultimately show ?thesis by (rule permitted.authoring [OF a(1-4)])
  qed
  then show "sdb_of s' = sdb_of s \<or> ''POST'' = ''POST'' \<and> (rq_method r = ''POST'' \<longrightarrow> permitted C dr r (sdb_of s) (sdb_of s'))"
    by blast
qed

lemma account_route_ok:
  assumes h: "\<And>u dr r s y s'. h u dr r s = (y, s') \<Longrightarrow> dr_now dr \<noteq> 0 \<Longrightarrow>
    sdb_of s' = sdb_of s \<or> account_step (cf_kdf C) (cf_mac C) (sdb_of s) (sdb_of s')"
  shows "admin_route_ok C (route_to ''POST'' ps (requireRole C RoleAdmin h))"
  unfolding admin_route_ok_def route_to_def route.simps
proof (intro allI impI)
  fix dr r s x s'
  assume "(case requireRole C RoleAdmin h dr r s of (x, s) \<Rightarrow> (Answered x, s)) = (x, s')"
    and rd: "ready dr s" and p: "take 6 (rq_path r) = ''/admin''"
  then obtain y where g: "requireRole C RoleAdmin h dr r s = (y, s')" by (auto split: prod.split_asm)
  have "permitted C dr r (sdb_of s) (sdb_of s')" if "sdb_of s' \<noteq> sdb_of s" "rq_method r = ''POST''"
  proof (rule at_gate [OF g that p])
    fix u
    assume a: "sessionUser C (dr_now dr) (sdb_of s) r = Some u" "in_standing u" "AtLeast (u_role u) RoleAdmin" "checkCSRF C r"
      "h u dr r s = (y, s')"
    from h [OF a(5)] rd that(1) have "account_step (cf_kdf C) (cf_mac C) (sdb_of s) (sdb_of s')" by (auto simp: ready_def)
    with a(1-4) show ?thesis by (rule permitted.administration)
  qed
  then show "sdb_of s' = sdb_of s \<or> ''POST'' = ''POST'' \<and> (rq_method r = ''POST'' \<longrightarrow> permitted C dr r (sdb_of s) (sdb_of s'))"
    by blast
qed

lemma admin_routes_ok: "rt \<in> set (admin_routes C) \<Longrightarrow> admin_route_ok C rt"
proof -
  have "list_all (admin_route_ok C) (admin_routes C)"
    unfolding admin_routes_def list.pred_inject
    by (intro conjI TrueI; (rule editor_route_ok, simp add: editor_pages_of_def |
        rule account_route_ok, rule users_post_page, assumption+ | rule account_route_ok, rule invites_page, assumption |
        rule show_route_ok, rule show_pages | simp))
  then show "rt \<in> set (admin_routes C) \<Longrightarrow> admin_route_ok C rt" by (simp add: list_all_iff)
qed

text \<open>What a public route does.\<close>

definition public_route_ok :: "'b config \<Rightarrow> 'b route \<Rightarrow> bool" where
  "public_route_ok C rt =
     (\<forall>dr r s x s'. rt_handle rt dr r s = (x, s') \<longrightarrow> ready dr s \<longrightarrow>
        (rt_pats rt = [Lit ''account'', Lit ''password''] \<longrightarrow> rq_path r = ''/account/password'') \<longrightarrow>
        sdb_of s' = sdb_of s \<or> rt_method rt = ''POST'' \<and> (rq_method r = ''POST'' \<longrightarrow> permitted C dr r (sdb_of s) (sdb_of s')))"

lemma read_route_ok:
  assumes "\<And>dr r s y s'. h dr r s = (y, s') \<Longrightarrow> sdb_of s' = sdb_of s"
  shows "public_route_ok C (route_to m ps h)"
  using assms by (auto simp: public_route_ok_def route_to_def split: prod.split_asm)

lemma write_route_ok:
  assumes "\<And>dr r s y s'. h dr r s = (y, s') \<Longrightarrow> ready dr s \<Longrightarrow>
     sdb_of s' = sdb_of s \<or> permitted C dr r (sdb_of s) (sdb_of s')"
  shows "public_route_ok C (route_to ''POST'' ps h)"
  unfolding public_route_ok_def route_to_def route.simps
proof (intro allI impI)
  fix dr r s x s'
  assume "(case h dr r s of (x, s) \<Rightarrow> (Answered x, s)) = (x, s')" and r: "ready dr s"
  then obtain y where "h dr r s = (y, s')" by (auto split: prod.split_asm)
  from assms [OF this r]
  show "sdb_of s' = sdb_of s \<or> ''POST'' = ''POST'' \<and> (rq_method r = ''POST'' \<longrightarrow> permitted C dr r (sdb_of s) (sdb_of s'))" by blast
qed

lemma answer_permitted:
  assumes "handleVote C dr r s = (y, s') \<or> handleWriteIn C dr r s = (y, s')" and "ready dr s"
  shows "sdb_of s' = sdb_of s \<or> permitted C dr r (sdb_of s) (sdb_of s')"
  using answer_page [OF _ _ _ assms(1)] assms(2) permitted.answer [of r C dr] by (auto simp: ready_def)

lemma limited_permitted:
  assumes "limitLogin C h dr r s = (y, s')" and "ready dr s"
    and "\<And>s1. sdb_of s1 = sdb_of s \<Longrightarrow> h dr r s1 = (y, s') \<Longrightarrow> sdb_of s' = sdb_of s \<or> permitted C dr r (sdb_of s) (sdb_of s')"
  shows "sdb_of s' = sdb_of s \<or> permitted C dr r (sdb_of s) (sdb_of s')"
  using limit_passed [OF assms(1)] assms(3) by blast

lemma claim_permitted:
  "limitLogin C (handleInviteClaim C) dr r s = (y, s') \<Longrightarrow> ready dr s \<Longrightarrow>
   sdb_of s' = sdb_of s \<or> permitted C dr r (sdb_of s) (sdb_of s')"
  by (erule limited_permitted, assumption) (auto dest!: claim_page intro: permitted.claim)

lemma reset_permitted:
  "limitLogin C (handleReset C) dr r s = (y, s') \<Longrightarrow> ready dr s \<Longrightarrow>
   sdb_of s' = sdb_of s \<or> permitted C dr r (sdb_of s) (sdb_of s')"
  by (erule limited_permitted, assumption) (auto dest!: reset_page intro: permitted.reset)

lemma logout_permitted:
  "handleLogout C dr r s = (y, s') \<Longrightarrow> ready dr s \<Longrightarrow> sdb_of s' = sdb_of s \<or> permitted C dr r (sdb_of s) (sdb_of s')"
  by (auto dest!: logout_page intro: permitted.sign_out)

lemma login_db: "limitLogin C (handleLogin C) dr r s = (y, s') \<Longrightarrow> sdb_of s' = sdb_of s"
  using limit_passed form_pages(4) by (metis snd_conv)

lemma password_route_ok:
  "public_route_ok C (route_to ''POST'' [Lit ''account'', Lit ''password''] (requireRole C RoleViewer (handlePasswordChange C)))"
  unfolding public_route_ok_def route_to_def route.simps
proof (intro allI impI)
  fix dr r s x s'
  assume "(case requireRole C RoleViewer (handlePasswordChange C) dr r s of (x, s) \<Rightarrow> (Answered x, s)) = (x, s')"
    and p: "[Lit ''account'', Lit ''password''] = [Lit ''account'', Lit ''password''] \<longrightarrow> rq_path r = ''/account/password''"
  then obtain y where g: "requireRole C RoleViewer (handlePasswordChange C) dr r s = (y, s')" by (auto split: prod.split_asm)
  have "permitted C dr r (sdb_of s) (sdb_of s')" if ne: "sdb_of s' \<noteq> sdb_of s" and m: "rq_method r = ''POST''"
  proof -
    from gate_passed [OF g] ne m p obtain u where u: "sessionUser C (dr_now dr) (sdb_of s) r = Some u" "\<not> u_pending u"
      "checkCSRF C r" "handlePasswordChange C u dr r s = (y, s')" by auto
    from password_page [OF u(4)] ne show ?thesis using permitted.own_password [OF u(1-3)] by blast
  qed
  then show "sdb_of s' = sdb_of s \<or> ''POST'' = ''POST'' \<and> (rq_method r = ''POST'' \<longrightarrow> permitted C dr r (sdb_of s) (sdb_of s'))"
    by blast
qed

lemma gated_page_db:
  assumes "requireRole C need h dr r s = (x, s')" and "\<And>u. snd (h u dr r s) = s"
  shows "sdb_of s' = sdb_of s"
proof -
  have "h u dr r s = (x, s') \<Longrightarrow> s' = s" for u using assms(2) [of u] by simp
  with gate_passed [OF assms(1)] show ?thesis by blast
qed

lemma plain_route_ok: "public_route_ok C (plain_route ps x)"
  by (simp add: public_route_ok_def plain_route_def)

lemma page_dbs:
  "handleIndex C dr r s = (y, s') \<Longrightarrow> sdb_of s' = sdb_of s" "handleInviteForm C dr r s = (y, s') \<Longrightarrow> sdb_of s' = sdb_of s"
  "handleResetForm C dr r s = (y, s') \<Longrightarrow> sdb_of s' = sdb_of s" "handleLoginForm C dr r s = (y, s') \<Longrightarrow> sdb_of s' = sdb_of s"
  "handleBallot C dr r s = (y, s') \<Longrightarrow> sdb_of s' = sdb_of s" "handlePublicResults C dr r s = (y, s') \<Longrightarrow> sdb_of s' = sdb_of s"
  using show_pages(9) [of C dr r s] form_pages [where dr = dr and r = r and s = s] public_pages_db by (metis snd_conv)+

lemma public_routes_ok: "rt \<in> set (public_routes C) \<Longrightarrow> public_route_ok C rt"
proof -
  have "list_all (public_route_ok C) (public_routes C)"
    unfolding public_routes_def list.pred_inject
    by (intro conjI TrueI; (rule plain_route_ok | rule password_route_ok |
        rule read_route_ok, erule page_dbs | rule read_route_ok, erule login_db |
        rule read_route_ok, erule gated_page_db, rule show_pages |
        rule write_route_ok, rule answer_permitted, erule disjI1 disjI2, assumption |
        rule write_route_ok, erule (1) claim_permitted | rule write_route_ok, erule (1) reset_permitted |
        rule write_route_ok, erule (1) logout_permitted | simp))
  then show "rt \<in> set (public_routes C) \<Longrightarrow> public_route_ok C rt" by (simp add: list_all_iff)
qed

section \<open>The whole server\<close>

lemma admin_path:
  assumes "decoded C r" and "path_segs (cf_unescape C) (rq_raw r) = ''admin'' # segs"
  shows "take 6 (rq_path r) = ''/admin''"
proof -
  let ?un = "cf_unescape C"
  obtain a xs where x: "split_at (CHR ''/'') (tl (rq_raw r)) = a # xs" by (meson neq_Nil_conv split_at_nonempty)
  have "?un a = ''admin''"
  proof (cases xs)
    case Nil
    with assms(2) x show ?thesis by (simp add: path_segs_def split: if_split_asm)
  next
    case (Cons b ys)
    with assms(2) x show ?thesis by (simp add: path_segs_def)
  qed
  with assms(1) x show ?thesis by (cases xs) (simp_all add: decoded_def)
qed

lemma literal_path:
  assumes "decoded C r" and "path_segs (cf_unescape C) (rq_raw r) = segs" and "last segs \<noteq> ''/''"
  shows "rq_path r = CHR ''/'' # join_slash segs"
proof -
  obtain xs where x: "xs = split_at (CHR ''/'') (tl (rq_raw r))" by blast
  then have ne: "xs \<noteq> []" by (simp add: split_at_nonempty)
  have "segs = map (cf_unescape C) (butlast xs) @ [if last xs = [] then ''/'' else cf_unescape C (last xs)]"
    using assms(2) unfolding path_segs_def Let_def x by (rule sym)
  moreover from this have "last xs \<noteq> []" using assms(3) by auto
  ultimately have "segs = map (cf_unescape C) (butlast xs @ [last xs])" by simp
  then show ?thesis using assms(1) ne x by (simp add: decoded_def)
qed

lemma match_literals: "match_segs (map Lit ls) segs = Some vals \<Longrightarrow> segs = ls"
  by (induction ls arbitrary: segs vals) (case_tac segs; auto split: if_split_asm)+

lemma served_db:
  assumes "ServeHTTP C dr r s = (x, s')"
  shows "sdb_of s' = sdb_of s \<or>
    (\<exists>rt vals r1. mux_match (routes C) (rq_method r) (path_segs (cf_unescape C) (rq_raw r)) = Some (rt, vals) \<and>
       (rq_method r = ''POST'' \<longrightarrow> r1 = handled C r) \<and> rq_method r1 = rq_method r \<and> rq_path r1 = rq_path r \<and>
       rt_handle rt dr r1 s = (x, s'))"
proof -
  let ?b = "rq_method r = ''POST'' \<or> rq_method r = ''PUT''"
  obtain r0 where r0: "r0 = (if ?b then limit_body (if rq_path r = restorePath then MaxUpload else MaxBody) r else r)" by blast
  have same: "rq_method r0 = rq_method r" "rq_path r0 = rq_path r" "rq_raw r0 = rq_raw r"
    by (simp_all add: r0 limit_body_def)
  have "s' = s \<or> mux_serve C dr r0 s = (x, s')"
    using assms by (auto simp: ServeHTTP_def r0 Let_def split: if_split_asm)
  moreover have "?thesis" if "mux_serve C dr r0 s = (x, s')"
  proof (cases "mux_match (routes C) (rq_method r) (path_segs (cf_unescape C) (rq_raw r))")
    case None
    with that same show ?thesis by (auto simp: mux_serve_def Let_def split: if_split_asm)
  next
    case (Some y)
    then obtain rt vals where y: "mux_match (routes C) (rq_method r) (path_segs (cf_unescape C) (rq_raw r)) = Some (rt, vals)"
      by (cases y) auto
    from that same y have "s' = s \<or> rt_handle rt dr (r0\<lparr>rq_val := path_value vals\<rparr>) s = (x, s')"
      by (auto simp: mux_serve_def Let_def split: if_split_asm)
    moreover have "path_values C r = vals" by (simp only: path_values_def y option.case prod.case)
    then have "rq_method r = ''POST'' \<longrightarrow> r0\<lparr>rq_val := path_value vals\<rparr> = handled C r"
      by (simp add: r0 handled_def)
    moreover have "rq_method (r0\<lparr>rq_val := path_value vals\<rparr>) = rq_method r" "rq_path (r0\<lparr>rq_val := path_value vals\<rparr>) = rq_path r"
      using same by simp_all
    ultimately show ?thesis using y by blast
  qed
  ultimately show ?thesis by blast
qed

lemma change_is_permitted:
  assumes rd: "ready dr s" and dc: "decoded C r" and sv: "ServeHTTP C dr r s = (x, s')"
  shows "sdb_of s' = sdb_of s \<or> rq_method r = ''POST'' \<and> permitted C dr (handled C r) (sdb_of s) (sdb_of s')"
proof (rule disj_imp [THEN iffD2], rule impI)
  assume ne: "sdb_of s' \<noteq> sdb_of s"
  with served_db [OF sv] obtain rt vals r1 where
    m: "mux_match (routes C) (rq_method r) (path_segs (cf_unescape C) (rq_raw r)) = Some (rt, vals)"
    and r1: "rq_method r = ''POST'' \<longrightarrow> r1 = handled C r" "rq_method r1 = rq_method r" "rq_path r1 = rq_path r"
    and h: "rt_handle rt dr r1 s = (x, s')" by blast
  from mux_match_SomeD [OF m] have rt: "rt \<in> set (routes C)" "rt_method rt = ''POST'' \<longrightarrow> rq_method r = ''POST''"
    "match_segs (rt_pats rt) (path_segs (cf_unescape C) (rq_raw r)) = Some vals" by auto
  have literal: "rq_path r1 = CHR ''/'' # join_slash ls" if "rt_pats rt = map Lit ls" "last ls \<noteq> ''/''" for ls
    using literal_path [OF dc match_literals] rt(3) that r1(3) by simp
  have "rt_method rt = ''POST'' \<and> (rq_method r1 = ''POST'' \<longrightarrow> permitted C dr r1 (sdb_of s) (sdb_of s'))"
  proof (cases "rt \<in> set (admin_routes C)")
    case True
    then obtain ps where "rt_pats rt = Lit ''admin'' # ps" by (auto simp: admin_routes_def route_to_def)
    with rt(3) obtain segs where "path_segs (cf_unescape C) (rq_raw r) = ''admin'' # segs"
      by (cases "path_segs (cf_unescape C) (rq_raw r)") (auto split: if_split_asm)
    then have "take 6 (rq_path r1) = ''/admin''" using admin_path [OF dc] r1(3) by simp
    moreover have "rq_path r1 = restorePath" if "rt_pats rt = [Lit ''admin'', Lit ''surveys'', Lit ''restore'']"
      using literal [of "[''admin'', ''surveys'', ''restore'']"] that by (simp add: restorePath_def)
    ultimately show ?thesis using admin_routes_ok [OF True] h ne rd unfolding admin_route_ok_def by blast
  next
    case False
    with rt(1) have p: "rt \<in> set (public_routes C)" by (simp add: routes_def)
    have "rq_path r1 = ''/account/password''" if "rt_pats rt = [Lit ''account'', Lit ''password'']"
      using literal [of "[''account'', ''password'']"] that by simp
    with public_routes_ok [OF p] h rd ne show ?thesis unfolding public_route_ok_def by blast
  qed
  with rt(2) r1 show "rq_method r = ''POST'' \<and> permitted C dr (handled C r) (sdb_of s) (sdb_of s')" by simp
qed

text \<open>
  C4. Every change of the database is authorised. Whatever request the server is sent - any method,
  path, cookies and body - afterwards the database is as it was, or the request was a \<open>POST\<close> that
  carried the CSRF token of its own cookie and the change is one it was entitled to: one answer of
  the identity in its own voter cookie; a write of an editor's session to the survey tables alone; a
  step of the account history by an administrator's session, both of approved accounts that have
  chosen their own password; the caller's own password, given the current one; ending the caller's
  own sessions; or the use of an invitation or reset link that is open. The decoded path is the one
  the client encoded, which is what \<open>net/url\<close> guarantees.
\<close>

theorem every_change_is_authorised:
  assumes "ready dr s" and "decoded C r" and "ServeHTTP C dr r s = (x, s')"
  shows "sdb_of s' = sdb_of s \<or> rq_method r = ''POST'' \<and> permitted C dr (handled C r) (sdb_of s) (sdb_of s')"
  by (rule change_is_permitted [OF assms])

section \<open>Histories of requests\<close>

text \<open>What the account tables say does not enter the invariant of the survey tables, and conversely.\<close>

lemma db_ok_cong:
  assumes "surveys d' = surveys d" "opts d' = opts d" "responses d' = responses d" "choices d' = choices d" "seen d' = seen d"
  shows "db_ok d' = db_ok d"
proof -
  have "loadSurvey d' i = loadSurvey d i" for i using assms by (intro loadSurvey_cong)
  with assms show ?thesis
    by (simp add: db_ok_def keys_ok_def refs_ok_def votes_ok_def opened_ok_def surveys_ok_def)
qed

text \<open>One request after another, each drawing fresh identifiers; a restore is not part of a history.\<close>

inductive history :: "'b config \<Rightarrow> 'b server \<Rightarrow> 'b server \<Rightarrow> bool" for C where
  start: "history C s s"
| served: "history C s s1 \<Longrightarrow> fresh_draws dr (sdb_of s1) \<Longrightarrow> decoded C r \<Longrightarrow> rq_path r \<noteq> restorePath \<Longrightarrow>
    ServeHTTP C dr r s1 = (x, s2) \<Longrightarrow> history C s s2"

lemma account_step_surveys:
  "account_step kdf mac d d' \<Longrightarrow>
   surveys d' = surveys d \<and> opts d' = opts d \<and> responses d' = responses d \<and> choices d' = choices d \<and> seen d' = seen d"
proof (induction rule: account_step.induct)
  case (set_password salt now name password d d')
  then show ?case by (auto simp: SetPassword_def split: if_splits)
next
  case (create_invite nid b now createdBy role nt ttl d iv token d')
  then show ?case using CreateInvite_cases(1) [OF create_invite] by simp
next
  case (create_reset nid b now user createdBy d rp token d')
  then show ?case using CreateReset_cases(1) [OF create_reset(1)] by simp
next
  case (add_user salt now name role password mustChange pending invitedBy d u d')
  then show ?case using addUser_cases(1) [OF add_user] by simp
next
  case (revoke_sessions now name d d')
  then show ?case using RevokeSessions_cases(1) [OF revoke_sessions] by simp
next
  case (revoke_invite i d d')
  then show ?case using RevokeInvite_cases [OF revoke_invite] by simp
qed (auto elim!: SetRole_cases DeleteUser_cases ApproveUser_cases ClaimInvite_cases UseReset_cases)

lemma account_step_db_ok: "account_step kdf mac d d' \<Longrightarrow> db_ok d' = db_ok d"
  by (drule account_step_surveys) (rule db_ok_cong; blast)

lemma same_accounts_inv: "users d' = users d \<Longrightarrow> invites d' = invites d \<Longrightarrow> resets d' = resets d \<Longrightarrow> account_inv d' = account_inv d"
  unfolding account_inv_def links_ok_def using accounts_ok_users [of d' d] by simp

lemma permitted_inv:
  assumes p: "permitted C dr r d d'" and ok: "db_ok d" "account_inv d" and fr: "fresh_draws dr d" and nr: "rq_path r \<noteq> restorePath"
  shows "db_ok d' \<and> account_inv d'"
proof -
  have acc: "db_ok d' \<and> account_inv d'" if "account_step (cf_kdf C) (cf_mac C) d d'"
    using account_step_db_ok [OF that] account_step_inv [OF that] ok by blast
  have now: "dr_now dr \<noteq> 0" using fr by (simp add: fresh_draws_def)
  from p show ?thesis
  proof cases
    case answer
    then show ?thesis using ok same_accounts_inv [of d' d] by (simp add: own_answer_only_def)
  next
    case (authoring u)
    then show ?thesis using ok fr nr same_accounts_inv [of d' d] by (simp add: survey_tables_only_def)
  next
    case (administration u)
    then show ?thesis by (intro acc)
  next
    case (own_password u)
    then show ?thesis using now by (intro acc account_step.set_password)
  next
    case (sign_out u)
    then show ?thesis by (intro acc account_step.revoke_sessions)
  next
    case (claim name pw u)
    then show ?thesis by (intro acc account_step.claim_invite)
  next
    case (reset pw name)
    then show ?thesis using now by (intro acc account_step.use_reset)
  qed
qed

lemma handled_path: "rq_path (handled C r) = rq_path r"
  by (simp add: handled_def limit_body_def)

lemma history_inv: "history C s s' \<Longrightarrow> db_ok (sdb_of s) \<and> account_inv (sdb_of s) \<Longrightarrow> db_ok (sdb_of s') \<and> account_inv (sdb_of s')"
proof (induction rule: history.induct)
  case (served s s1 dr r x s2)
  then have i: "db_ok (sdb_of s1)" "account_inv (sdb_of s1)" by blast+
  then have "ready dr s1" using served.hyps(2) by (simp add: ready_def fresh_draws_def)
  from change_is_permitted [OF this served.hyps(3,5)]
  show ?case using permitted_inv [OF _ i served.hyps(2)] served.hyps(4) i handled_path [of C r] by metis
qed

text \<open>
  The invariants survive any history of requests. From a server whose database is well-formed and
  whose accounts include an approved administrator, every sequence of requests of any kind - by the
  public, by respondents, editors and administrators, well-formed or not - leads to a server of which
  both still hold; so in particular an approved administrator always remains, every stored choice is
  of an option of its survey and every merge chain ends. Only restores of documents are left out.
\<close>

theorem requests_keep_invariants:
  assumes "history C s s'" and "db_ok (sdb_of s)" and "account_inv (sdb_of s)"
  shows "db_ok (sdb_of s') \<and> account_inv (sdb_of s')"
  using history_inv [OF assms(1)] assms(2,3) by blast

section \<open>Witnesses\<close>

definition vote_config :: "(rat \<times> time) config" where
  "vote_config = demo_config\<lparr>cf_mac := \<lambda>_. ''m''\<rparr>"

definition vote_request :: request where
  "vote_request = (demo_request ''POST'' ''/s/s1/vote'' [(''__Host-qs_voter'', ''0123456789abcdef.m'')]
     (\<lambda>k. if k = ''csrf'' then [''m''] else [''b'']))"

lemma vote_request_decoded: "decoded vote_config vote_request"
  by code_simp

definition shop_db :: db where
  "shop_db = demo_db\<lparr>users := [demo_ann]\<rparr>"

lemma shop_accounts: "account_inv shop_db"
proof -
  have "ValidUsername ''ann''" "ValidRole RoleAdmin" by code_simp+
  then show ?thesis
    by (simp add: account_inv_def accounts_ok_def users_ok_def administrable_def approved_admin_def links_ok_def
      shop_db_def demo_db_def demo_ann_def roles_ok_def invites_valid_def resets_valid_def)
qed

lemma vote_route:
  "mux_match (routes C) ''POST'' [''s'', ''s1'', ''vote''] =
     Some (route_to ''POST'' [Lit ''s'', Wild ''id'', Lit ''vote''] (handleVote C), [(''id'', ''s1'')])"
  by (simp add: mux_match_def routes_def public_routes_def plain_route_def route_to_def)

lemma vote_served:
  "snd (ServeHTTP vote_config dr vote_request s) = snd (handleVote vote_config dr (vote_request\<lparr>rq_val := path_value [(''id'', ''s1'')]\<rparr>) s)"
proof -
  have c: "cleanPath ''/s/s1/vote'' = ''/s/s1/vote''" "path_segs id ''/s/s1/vote'' = [''s'', ''s1'', ''vote'']" by code_simp+
  have r: "rq_method vote_request = ''POST''" "rq_raw vote_request = ''/s/s1/vote''" "rq_path vote_request \<noteq> restorePath"
    "\<not> cf_redirect vote_config" by code_simp+
  have u: "cf_unescape vote_config = id" "limit_body MaxBody vote_request = vote_request"
    by (simp_all add: vote_config_def demo_config_def vote_request_def demo_request_def limit_body_def MaxBody_def)
  show ?thesis
    by (simp add: ServeHTTP_def mux_serve_def r u c Let_def vote_route exactMatch_def route_to_def split: prod.split)
qed

lemma vote_recorded:
  assumes "loadSurvey (sdb_of s) ''s1'' = Some demo_survey"
  shows "sdb_of (snd (ServeHTTP vote_config dr vote_request s)) =
    (case saveResponseTx (dr_id dr) (dr_now dr) ''s1'' ''m'' [''b''] ''b'' [] False (sdb_of s) of
       Inl e \<Rightarrow> sdb_of s | Inr (q, d) \<Rightarrow> d)"
proof -
  let ?r = "vote_request\<lparr>rq_val := path_value [(''id'', ''s1'')]\<rparr>"
  have "known_voter vote_config ?r = Some ''0123456789abcdef''" "checkCSRF vote_config ?r" "sv_state demo_survey \<noteq> StateDraft"
    by code_simp+
  from vote_of_known [OF this(1) _ this(2) _ _ this(3), of s dr] assms show ?thesis
    unfolding vote_served by (simp add: path_value_def vote_request_def demo_request_def FormValue_def voter_id_def vote_config_def)
qed

lemma vote_changes:
  "responses (sdb_of (snd (ServeHTTP vote_config admin_draws vote_request (demo_server demo_db)))) \<noteq> responses demo_db"
  "responses (sdb_of (snd (ServeHTTP vote_config admin_draws vote_request (demo_server shop_db)))) \<noteq> responses shop_db"
proof -
  have l: "loadSurvey shop_db ''s1'' = Some demo_survey"
    using demo_db_loads loadSurvey_cong [of shop_db demo_db] by (simp add: shop_db_def)
  let ?f = "\<lambda>d. case saveResponseTx ''s9'' 99 ''s1'' ''m'' [''b''] ''b'' [] False d of Inl e \<Rightarrow> d | Inr (q, d) \<Rightarrow> d"
  have c: "responses (?f demo_db) \<noteq> responses demo_db" "responses (?f shop_db) \<noteq> responses shop_db" by code_simp+
  have i: "dr_id admin_draws = ''s9''" "dr_now admin_draws = 99" by (simp_all add: admin_draws_def late_draws_def)
  show "responses (sdb_of (snd (ServeHTTP vote_config admin_draws vote_request (demo_server demo_db)))) \<noteq> responses demo_db"
    using vote_recorded [of "demo_server demo_db" admin_draws] demo_db_loads c(1) unfolding i demo_server_db by simp
  show "responses (sdb_of (snd (ServeHTTP vote_config admin_draws vote_request (demo_server shop_db)))) \<noteq> responses shop_db"
    using vote_recorded [of "demo_server shop_db" admin_draws] l c(2) unfolding i demo_server_db by simp
qed

theorem every_change_is_authorised_witness:
  "\<exists>x s'. ServeHTTP vote_config admin_draws vote_request (demo_server demo_db) = (x, s') \<and> sdb_of s' \<noteq> demo_db \<and>
     permitted vote_config admin_draws (handled vote_config vote_request) demo_db (sdb_of s')"
proof -
  obtain x s' where h: "ServeHTTP vote_config admin_draws vote_request (demo_server demo_db) = (x, s')" by fastforce
  have "ready admin_draws (demo_server demo_db)"
    using admin_draws_fresh demo_db_ok by (simp add: ready_def fresh_draws_def)
  from every_change_is_authorised [OF this vote_request_decoded h] vote_changes(1) h show ?thesis by auto
qed

theorem requests_keep_invariants_witness:
  "\<exists>s'. history vote_config (demo_server shop_db) s' \<and> responses (sdb_of s') \<noteq> responses shop_db \<and>
     db_ok (sdb_of s') \<and> account_inv (sdb_of s')"
proof -
  obtain x s' where h: "ServeHTTP vote_config admin_draws vote_request (demo_server shop_db) = (x, s')" by fastforce
  have "fresh_draws admin_draws shop_db" using admin_draws_fresh by (simp add: fresh_draws_def fresh_ids_def shop_db_def)
  moreover have "rq_path vote_request \<noteq> restorePath" by code_simp
  ultimately have "history vote_config (demo_server shop_db) s'"
    using history.served [OF history.start, of admin_draws "demo_server shop_db" vote_config vote_request x s'] h vote_request_decoded by simp
  moreover note vote_changes(2)
  moreover have "db_ok (sdb_of (demo_server shop_db))" using db_ok_cong [of shop_db demo_db] demo_db_ok by (simp add: shop_db_def)
  moreover have "account_inv (sdb_of (demo_server shop_db))"
    using shop_accounts by simp
  ultimately show ?thesis using requests_keep_invariants [of vote_config "demo_server shop_db" s'] h by auto
qed

end
