(* ===== verification/Interleaving.thy ===== *)
theory Interleaving
  imports Routes
begin

text \<open>
  Requests that overlap. The pool of \<open>store.go\<close> holds several connections (\<open>MaxConns\<close>): handlers run
  at the same time, their reads see the database of some earlier moment, and only the bodies of
  transactions are serialised (\<open>_txlock=immediate\<close>). So what a request finally writes is the
  transaction it chose by what it read, run on a database that others may have changed since. This
  theory states which transactions a request can choose, forgets every decision that was based on a
  read outside them, and shows that no interleaving of them breaks the invariants.
\<close>

section \<open>The transactions of a request\<close>

text \<open>
  \<open>chosen C dr r d d'\<close>: a transaction request \<open>r\<close> may choose takes \<open>d\<close> to \<open>d'\<close>. Whether a draft is
  previewed, who is signed in and which link is open were read earlier and may be anything here;
  what a transaction checks itself is part of its body.
\<close>

inductive chosen :: "'b config \<Rightarrow> draws \<Rightarrow> request \<Rightarrow> db \<Rightarrow> db \<Rightarrow> bool" for C dr r where
  vote: "saveResponseTx (dr_id dr) (dr_now dr) (rq_val r ''id'') (voter_id C (rq_val r ''id'') (token_of C dr r))
    (rq_form r ''choice'') (FormValue r ''comment'') [] preview d = Inr (q, d') \<Longrightarrow> chosen C dr r d d'"
| write_in: "addWriteIn (dr_id2 dr) (dr_id dr) (dr_now dr) (rq_val r ''id'') (voter_id C (rq_val r ''id'') (token_of C dr r))
    (FormValue r ''text'') preview d = Inr (i, d') \<Longrightarrow> chosen C dr r d d'"
| create: "CreateSurvey (dr_id dr) (dr_ids dr) (dr_now dr) (FormValue r ''title'') (FormValue r ''description'')
    (split_at (CHR 0x0A) (FormValue r ''options'')) d = Inr (sv, d') \<Longrightarrow> chosen C dr r d d'"
| edit: "UpdateSurvey (dr_now dr) (rq_val r ''id'') (edit_form (dr_ids dr) (dr_now dr) closeAt r) d = Inr (sv, d') \<Longrightarrow>
    chosen C dr r d d'"
| moderate: "UpdateSurvey (dr_now dr) (rq_val r ''id'') (moderation r) d = Inr (sv, d') \<Longrightarrow> chosen C dr r d d'"
| state: "UpdateSurvey (dr_now dr) (rq_val r ''id'') (\<lambda>sv. Inr (sv\<lparr>sv_state := FormValue r ''state''\<rparr>)) d = Inr (sv, d') \<Longrightarrow>
    chosen C dr r d d'"
| publish: "publishTx (dr_now dr) (rq_val r ''id'') d = Inr (n, d') \<Longrightarrow> chosen C dr r d d'"
| delete: "DeleteSurvey (rq_val r ''id'') d = Inr (x, d') \<Longrightarrow> chosen C dr r d d'"
| account: "account_step (cf_kdf C) (cf_mac C) d d' \<Longrightarrow> chosen C dr r d d'"

section \<open>Served requests choose them\<close>

definition chooses :: "'b config \<Rightarrow> 'b route \<Rightarrow> bool" where
  "chooses C rt =
     (\<forall>dr r s x s'. rt_handle rt dr r s = (x, s') \<longrightarrow> dr_now dr \<noteq> 0 \<longrightarrow>
        sdb_of s' = sdb_of s \<or> chosen C dr r (sdb_of s) (sdb_of s'))"

lemma route_chooses:
  assumes "\<And>dr r s y s'. h dr r s = (y, s') \<Longrightarrow> dr_now dr \<noteq> 0 \<Longrightarrow>
     sdb_of s' = sdb_of s \<or> chosen C dr r (sdb_of s) (sdb_of s')"
  shows "chooses C (route_to m ps h)"
  unfolding chooses_def route_to_def route.simps
proof (intro allI impI)
  fix dr r s x s'
  assume "(case h dr r s of (x, s) \<Rightarrow> (Answered x, s)) = (x, s')" and now: "dr_now dr \<noteq> 0"
  then obtain y where "h dr r s = (y, s')" by (auto split: prod.split_asm)
  from assms [OF this now] show "sdb_of s' = sdb_of s \<or> chosen C dr r (sdb_of s) (sdb_of s')" .
qed

text \<open>A handler that only reads, behind a gate or not, and one whose write runs behind a gate.\<close>

lemma reader_chooses:
  assumes "\<And>dr r s y s'. h dr r s = (y, s') \<Longrightarrow> sdb_of s' = sdb_of s"
  shows "chooses C (route_to m ps h)"
  using assms by (intro route_chooses) blast

lemma gated_chooses:
  assumes "\<And>u dr r s y s'. h u dr r s = (y, s') \<Longrightarrow> dr_now dr \<noteq> 0 \<Longrightarrow>
     sdb_of s' = sdb_of s \<or> chosen C dr r (sdb_of s) (sdb_of s')"
  shows "chooses C (route_to m ps (requireRole C need h))"
proof (rule route_chooses)
  fix dr r s y s'
  assume g: "requireRole C need h dr r s = (y, s')" and now: "dr_now dr \<noteq> 0"
  from gate_passed [OF g] consider "s' = s" | u where "h u dr r s = (y, s')" by blast
  then show "sdb_of s' = sdb_of s \<or> chosen C dr r (sdb_of s) (sdb_of s')"
    by cases (simp, erule assms [OF _ now])
qed

lemma limited_chooses:
  assumes "\<And>dr r s y s'. h dr r s = (y, s') \<Longrightarrow> dr_now dr \<noteq> 0 \<Longrightarrow>
     sdb_of s' = sdb_of s \<or> chosen C dr r (sdb_of s) (sdb_of s')"
  shows "chooses C (route_to m ps (limitLogin C h))"
proof (rule route_chooses)
  fix dr r s y s'
  assume g: "limitLogin C h dr r s = (y, s')" and now: "dr_now dr \<noteq> 0"
  from limit_passed [OF g] consider "sdb_of s' = sdb_of s" | s1 where "sdb_of s1 = sdb_of s" "h dr r s1 = (y, s')" by blast
  then show "sdb_of s' = sdb_of s \<or> chosen C dr r (sdb_of s) (sdb_of s')"
    by cases (simp, metis assms [OF _ now])
qed

lemma plain_chooses: "chooses C (plain_route ps x)"
  by (simp add: chooses_def plain_route_def)

lemma ran_chosen:
  assumes "ran f d d'" and "\<And>x. f d = Inr (x, d') \<Longrightarrow> chosen C dr r d d'"
  shows "d' = d \<or> chosen C dr r d d'"
  using assms by (auto simp: ran_def)

lemma editor_choices:
  "handleCreateSurvey C u dr r s = (y, s') \<Longrightarrow> sdb_of s' = sdb_of s \<or> chosen C dr r (sdb_of s) (sdb_of s')"
  "handleModerate C u dr r s = (y, s') \<Longrightarrow> sdb_of s' = sdb_of s \<or> chosen C dr r (sdb_of s) (sdb_of s')"
  "handleDeleteSurvey C u dr r s = (y, s') \<Longrightarrow> sdb_of s' = sdb_of s \<or> chosen C dr r (sdb_of s) (sdb_of s')"
  "handleEditSave C u dr r s = (y, s') \<Longrightarrow> sdb_of s' = sdb_of s \<or> chosen C dr r (sdb_of s) (sdb_of s')"
  "handleSetState C u dr r s = (y, s') \<Longrightarrow> sdb_of s' = sdb_of s \<or> chosen C dr r (sdb_of s) (sdb_of s')"
  using editor_pages [where dr = dr and r = r and s = s and C = C and u = u] edit_page [of C u dr r s] state_page [of dr r s C u]
  unfolding ran_def
  by (auto intro: chosen.intros)

lemma public_choices:
  "handleVote C dr r s = (y, s') \<Longrightarrow> sdb_of s' = sdb_of s \<or> chosen C dr r (sdb_of s) (sdb_of s')"
  "handleWriteIn C dr r s = (y, s') \<Longrightarrow> sdb_of s' = sdb_of s \<or> chosen C dr r (sdb_of s) (sdb_of s')"
  using vote_db [of C dr r s y s'] write_in_db [of C dr r s y s'] chosen.vote chosen.write_in by metis+

lemma account_choices:
  assumes now: "dr_now dr \<noteq> 0"
  shows "handleUsersPost C u dr r s = (y, s') \<Longrightarrow> sdb_of s' = sdb_of s \<or> chosen C dr r (sdb_of s) (sdb_of s')"
    and "handleInvitesPost C u dr r s = (y, s') \<Longrightarrow> sdb_of s' = sdb_of s \<or> chosen C dr r (sdb_of s) (sdb_of s')"
    and "handleInviteClaim C dr r s = (y, s') \<Longrightarrow> sdb_of s' = sdb_of s \<or> chosen C dr r (sdb_of s) (sdb_of s')"
    and "handleReset C dr r s = (y, s') \<Longrightarrow> sdb_of s' = sdb_of s \<or> chosen C dr r (sdb_of s) (sdb_of s')"
    and "handleLogout C dr r s = (y, s') \<Longrightarrow> sdb_of s' = sdb_of s \<or> chosen C dr r (sdb_of s) (sdb_of s')"
    and "handlePasswordChange C u dr r s = (y, s') \<Longrightarrow> sdb_of s' = sdb_of s \<or> chosen C dr r (sdb_of s) (sdb_of s')"
  using users_post_page [of C u dr r s y s'] invites_page [of C u dr r s y s'] claim_page [of C dr r s y s']
    reset_page [of C dr r s y s'] logout_page [of C dr r s y s'] password_page [of C u dr r s y s'] now
  by (auto intro!: chosen.account intro: account_step.claim_invite account_step.use_reset account_step.revoke_sessions account_step.set_password)

lemma routes_choose:
  assumes "rt \<in> set (routes C)" "rt_pats rt \<noteq> [Lit ''admin'', Lit ''surveys'', Lit ''restore'']"
  shows "chooses C rt"
proof -
  have shown: "chooses C (route_to m ps (requireRole C need h))" if "\<And>u dr r s. snd (h u dr r s) = s" for m ps need h
    using that by (intro gated_chooses) (metis snd_conv)
  have "list_all (chooses C) (public_routes C)"
    unfolding public_routes_def list.pred_inject
    by (intro conjI TrueI; (rule plain_chooses | rule reader_chooses, erule page_dbs | rule reader_chooses, erule login_db |
        rule shown, rule show_pages | rule route_chooses, erule public_choices | rule limited_chooses, erule account_choices [rotated] |
        rule route_chooses, erule account_choices [rotated] | rule gated_chooses, erule account_choices [rotated] | simp); assumption?)
  moreover have "list_all (\<lambda>rt. rt_pats rt = [Lit ''admin'', Lit ''surveys'', Lit ''restore''] \<or> chooses C rt) (admin_routes C)"
    unfolding admin_routes_def list.pred_inject
    by (intro conjI TrueI; (rule disjI1, simp add: route_to_def; fail | rule disjI2, (rule shown, rule show_pages |
        rule gated_chooses, erule editor_choices | rule gated_chooses, erule account_choices [rotated], assumption) | simp))
  ultimately show ?thesis using assms by (auto simp: routes_def list_all_iff)
qed

lemma served_chooses:
  assumes now: "dr_now dr \<noteq> 0" and dc: "decoded C r" and nr: "rq_path r \<noteq> restorePath" and sv: "ServeHTTP C dr r s = (x, s')"
  shows "sdb_of s' = sdb_of s \<or> (\<exists>r1. chosen C dr r1 (sdb_of s) (sdb_of s'))"
proof -
  consider "sdb_of s' = sdb_of s"
    | rt vals r1 where "mux_match (routes C) (rq_method r) (path_segs (cf_unescape C) (rq_raw r)) = Some (rt, vals)"
      "rq_path r1 = rq_path r" "rt_handle rt dr r1 s = (x, s')"
    using served_db [OF sv] by blast
  then show ?thesis
  proof cases
    case (2 rt vals r1)
    have "rt_pats rt \<noteq> [Lit ''admin'', Lit ''surveys'', Lit ''restore'']"
    proof
      assume p: "rt_pats rt = [Lit ''admin'', Lit ''surveys'', Lit ''restore'']"
      then have "match_segs (map Lit [''admin'', ''surveys'', ''restore'']) (path_segs (cf_unescape C) (rq_raw r)) = Some vals"
        using mux_match_SomeD [OF 2(1)] by simp
      from literal_path [OF dc match_literals [OF this]] nr show False by (simp add: restorePath_def)
    qed
    with routes_choose mux_match_SomeD [OF 2(1)] have "chooses C rt" by blast
    then show ?thesis using 2(3) now unfolding chooses_def by blast
  qed blast
qed

section \<open>Any interleaving\<close>

text \<open>Transactions of any requests, in the order in which the database takes them.\<close>

inductive interleaved :: "'b config \<Rightarrow> db \<Rightarrow> db \<Rightarrow> bool" for C where
  start: "interleaved C d d"
| commit: "interleaved C d d1 \<Longrightarrow> fresh_draws dr d1 \<Longrightarrow> chosen C dr r d1 d2 \<Longrightarrow> interleaved C d d2"

lemma chosen_inv:
  assumes c: "chosen C dr r d d'" and ok: "db_ok d" and inv: "account_inv d" and fr: "fresh_draws dr d"
  shows "db_ok d' \<and> account_inv d'"
proof -
  have now: "dr_now dr \<noteq> 0" and ids: "fresh_ids d (dr_id dr) (dr_ids dr)" and id2: "dr_id2 dr \<notin> o_id ` set (opts d)"
    using fr by (simp_all add: fresh_draws_def)
  have same: "account_inv d'" if "survey_tables_only d d'"
    using that inv same_accounts_inv [of d' d] by (simp add: survey_tables_only_def)
  have own: "db_ok d' \<and> account_inv d'" if "own_answer_only sid voter d d'" for sid voter
    using that inv same_accounts_inv [of d' d] by (simp add: own_answer_only_def)
  have upd: "db_ok d' \<and> account_inv d'" if "UpdateSurvey (dr_now dr) i fn d = Inr (sv, d')"
    "\<And>sv sv1. loadSurvey d i = Some sv \<Longrightarrow> survey_ok sv \<Longrightarrow> fn sv = Inr sv1 \<Longrightarrow> edit_of d sv sv1 \<and> survey_ok sv1" for i fn sv
    using UpdateSurvey_db_ok [OF ok that(1) now that(2)] same [OF tables_update [OF that(1)]] by blast
  from c show ?thesis
  proof cases
    case (vote preview q)
    then show ?thesis by (intro own) (rule save_own_answer [OF ok])
  next
    case (write_in preview i)
    then show ?thesis by (intro own) (rule write_in_own_answer [OF ok _ id2 now])
  next
    case (create sv)
    then show ?thesis using CreateSurvey_db_ok [OF ok ids now] same tables_create by blast
  next
    case (edit closeAt sv)
    then show ?thesis using edit_form_db_ok [OF ok fr] same tables_update by blast
  next
    case (moderate sv)
    then show ?thesis by (rule upd) (rule moderation_ok)
  next
    case (state sv)
    then show ?thesis by (rule upd) (use state_ok in auto)
  next
    case (publish n)
    then show ?thesis using publishTx_db_ok [OF ok now] same tables_publish by blast
  next
    case (delete x)
    then show ?thesis using DeleteSurvey_db_ok [OF ok] same tables_delete by auto
  next
    case account
    then show ?thesis using account_step_db_ok ok account_step_inv inv by blast
  qed
qed

lemma interleaved_inv:
  "interleaved C d d' \<Longrightarrow> db_ok d \<and> account_inv d \<Longrightarrow> db_ok d' \<and> account_inv d'"
  by (induction rule: interleaved.induct) (simp, use chosen_inv in blast)

text \<open>Requests served one after another are one of the interleavings.\<close>

lemma history_interleaved: "history C s s' \<Longrightarrow> interleaved C (sdb_of s) (sdb_of s')"
proof (induction rule: history.induct)
  case (served s s1 dr r x s2)
  have "dr_now dr \<noteq> 0" using served.hyps(2) by (simp add: fresh_draws_def)
  from served_chooses [OF this served.hyps(3,4,5)] show ?case
    using interleaved.commit [OF served.IH served.hyps(2)] served.IH by metis
qed (rule interleaved.start)



end
