(* ===== verification/Files.thy ===== *)
theory Files
  imports Database Codec
begin

text \<open>
  The files of \<open>store.go\<close> beside the database: paths (\<open>path/filepath\<close>), writing a file so that nobody
  ever reads half of it (\<open>writeFileAtomic\<close>), the snapshots of \<open>BackupTo\<close> and \<open>BackupToWriter\<close>, and
  the SQL literal that carries a file name (\<open>quoteSQLString\<close>). A system call may fail, and the process
  may die between any two of them. The bytes of an SQLite file are a parameter (\<open>bytes_of\<close>).
\<close>

section \<open>Paths\<close>

definition slash :: char where "slash = CHR ''/''"

definition rooted :: "string \<Rightarrow> bool" where "rooted p = (p \<noteq> [] \<and> hd p = slash)"

text \<open>\<open>filepath.Clean\<close>: the elements of a path on a stack, the last one first.\<close>

definition clean_push :: "bool \<Rightarrow> string list \<Rightarrow> string \<Rightarrow> string list" where
  "clean_push r stack seg =
     (if seg = [] \<or> seg = ''.'' then stack
      else if seg = ''..'' then
        (case stack of
           [] \<Rightarrow> if r then [] else [''..'']
         | s # ss \<Rightarrow> if s = ''..'' then ''..'' # stack else ss)
      else seg # stack)"

primrec join_segs :: "string list \<Rightarrow> string" where
  "join_segs [] = []"
| "join_segs (s # ss) = (if ss = [] then s else s @ slash # join_segs ss)"

definition Clean :: "string \<Rightarrow> string" where
  "Clean p =
     (let body = join_segs (rev (foldl (clean_push (rooted p)) [] (split_at slash p)))
      in if rooted p then slash # body else if body = [] then ''.'' else body)"

text \<open>\<open>filepath.Join\<close> of two elements, \<open>filepath.Dir\<close> and \<open>filepath.Abs\<close>; \<open>cwd\<close> is \<open>os.Getwd\<close>.\<close>

definition Join :: "string \<Rightarrow> string \<Rightarrow> string" where
  "Join a b = (if a = [] then (if b = [] then [] else Clean b) else Clean (a @ slash # b))"

definition Dir :: "string \<Rightarrow> string" where
  "Dir p = Clean (rev (dropWhile (\<lambda>c. c \<noteq> slash) (rev p)))"

definition Abs :: "string option \<Rightarrow> string \<Rightarrow> err + string" where
  "Abs cwd p =
     (if rooted p then Inr (Clean p)
      else case cwd of None \<Rightarrow> Inl (ErrRefused ''getwd'') | Some w \<Rightarrow> Inr (Join w p))"

lemma Clean_examples:
  "Clean ''/a/./b//../c/'' = ''/a/c''" "Clean ''../x/..'' = ''..''" "Clean [] = ''.''" "Clean ''/..'' = ''/''"
  "Dir ''/data/initial-password'' = ''/data''" "Dir ''x'' = ''.''" "Join ''/data/'' ''x.db'' = ''/data/x.db''"
  by code_simp+

text \<open>What stays on the stack: no empty element, no dot, and a double dot only below others of its kind.\<close>

definition stack_ok :: "bool \<Rightarrow> string list \<Rightarrow> bool" where
  "stack_ok r st =
     (list_all (\<lambda>s. s \<noteq> [] \<and> s \<noteq> ''.'' \<and> slash \<notin> set s) st \<and>
      (if r then ''..'' \<notin> set st else \<exists>k xs. st = xs @ replicate k ''..'' \<and> ''..'' \<notin> set xs))"

lemma split_at_segs: "seg \<in> set (split_at sep s) \<Longrightarrow> sep \<notin> set seg"
proof (induction s arbitrary: seg)
  case (Cons c s)
  show ?case
    using Cons.prems Cons.IH by (cases "split_at sep s") (auto split: if_splits)
qed simp

lemma push_ok:
  assumes "stack_ok r st" "slash \<notin> set seg"
  shows "stack_ok r (clean_push r st seg)"
proof (cases "seg = ''..''")
  case False
  show ?thesis
  proof (cases "r \<or> seg = [] \<or> seg = ''.''")
    case False
    then obtain k xs where s: "st = xs @ replicate k ''..''" "''..'' \<notin> set xs" using assms(1) by (auto simp: stack_ok_def)
    have "\<exists>j ys. clean_push r st seg = ys @ replicate j ''..'' \<and> ''..'' \<notin> set ys"
      using s \<open>seg \<noteq> ''..''\<close> False by (intro exI [of _ k] exI [of _ "seg # xs"]) (simp add: clean_push_def)
    moreover have "list_all (\<lambda>s. s \<noteq> [] \<and> s \<noteq> ''.'' \<and> slash \<notin> set s) (clean_push r st seg)"
      using assms \<open>seg \<noteq> ''..''\<close> by (simp add: stack_ok_def clean_push_def)
    ultimately show ?thesis using False by (simp add: stack_ok_def)
  qed (use assms \<open>seg \<noteq> ''..''\<close> in \<open>auto simp: stack_ok_def clean_push_def\<close>)
next
  case True
  show ?thesis
  proof (cases r)
    case True
    then show ?thesis
      using assms \<open>seg = ''..''\<close> by (cases st) (auto simp: stack_ok_def clean_push_def)
  next
    case False
    then obtain k xs where s: "st = xs @ replicate k ''..''" "''..'' \<notin> set xs"
      using assms(1) by (auto simp: stack_ok_def)
    have base: "list_all (\<lambda>s. s \<noteq> [] \<and> s \<noteq> ''.'' \<and> slash \<notin> set s) st" using assms(1) by (simp add: stack_ok_def)
    have "\<exists>k xs. clean_push r st seg = xs @ replicate k ''..'' \<and> ''..'' \<notin> set xs"
    proof (cases xs)
      case Nil
      then have "clean_push r st seg = [] @ replicate (Suc k) ''..''"
        using \<open>seg = ''..''\<close> False s(1) by (cases k) (simp_all add: clean_push_def)
      then show ?thesis by (intro exI [of _ "Suc k"] exI [of _ "[]"]) simp
    next
      case (Cons y ys)
      then have "clean_push r st seg = ys @ replicate k ''..''"
        using \<open>seg = ''..''\<close> s by (auto simp: clean_push_def)
      then show ?thesis using Cons s(2) by (intro exI [of _ k] exI [of _ ys]) simp
    qed
    moreover have "list_all (\<lambda>s. s \<noteq> [] \<and> s \<noteq> ''.'' \<and> slash \<notin> set s) (clean_push r st seg)"
      using base \<open>seg = ''..''\<close> by (cases st) (auto simp: clean_push_def slash_def)
    ultimately show ?thesis using False by (simp add: stack_ok_def)
  qed
qed

lemma fold_push_ok:
  "stack_ok r st \<Longrightarrow> \<forall>s\<in>set segs. slash \<notin> set s \<Longrightarrow> stack_ok r (foldl (clean_push r) st segs)"
  by (induction segs arbitrary: st) (simp_all add: push_ok)

text \<open>A clean stack, read back, is built again as it was.\<close>

lemma split_join:
  "segs \<noteq> [] \<Longrightarrow> \<forall>s\<in>set segs. slash \<notin> set s \<Longrightarrow> split_at slash (join_segs segs) = segs"
  by (induction segs) (auto simp: split_at_append split_at_none)

lemma push_dots: "foldl (clean_push False) (replicate j ''..'') (replicate k ''..'') = replicate (k + j) ''..''"
proof (induction k arbitrary: j)
  case (Suc k)
  have "clean_push False (replicate j ''..'') ''..'' = replicate (Suc j) ''..''"
    by (cases j) (simp_all add: clean_push_def)
  then show ?case using Suc [of "Suc j"] by simp
qed simp

lemma push_plain:
  "list_all (\<lambda>s. s \<noteq> [] \<and> s \<noteq> ''.'') xs \<Longrightarrow> ''..'' \<notin> set xs \<Longrightarrow> foldl (clean_push r) st xs = rev xs @ st"
  by (induction xs arbitrary: st) (auto simp: clean_push_def)

lemma push_again:
  assumes "stack_ok r st"
  shows "foldl (clean_push r) [] (rev st) = st"
proof (cases r)
  case True
  then show ?thesis using assms push_plain [of "rev st" r "[]"] by (simp add: stack_ok_def list_all_iff)
next
  case False
  then obtain k xs where s: "st = xs @ replicate k ''..''" "''..'' \<notin> set xs" using assms by (auto simp: stack_ok_def)
  then show ?thesis
    using assms False push_dots [of 0 k] push_plain [of "rev xs" False "replicate k ''..''"]
    by (simp add: stack_ok_def list_all_iff)
qed

lemma join_plain: "join_segs segs = [] \<longleftrightarrow> segs = [] \<or> segs = [[]]"
  by (cases segs) auto

lemma hd_join: "segs \<noteq> [] \<Longrightarrow> hd segs \<noteq> [] \<Longrightarrow> join_segs segs \<noteq> [] \<and> hd (join_segs segs) = hd (hd segs)"
  by (cases segs) auto

text \<open>A clean path is clean.\<close>

lemma Clean_idem: "Clean (Clean p) = Clean p"
proof -
  let ?st = "foldl (clean_push (rooted p)) [] (split_at slash p)"
  have ok: "stack_ok (rooted p) ?st"
    using split_at_segs by (intro fold_push_ok) (auto simp: stack_ok_def)
  then have el: "\<forall>s\<in>set ?st. s \<noteq> [] \<and> slash \<notin> set s" by (simp add: stack_ok_def list_all_iff)
  have nn: "join_segs (rev ?st) = [] \<longleftrightarrow> ?st = []" using el by (auto simp: join_plain)
  have sp: "?st \<noteq> [] \<Longrightarrow> split_at slash (join_segs (rev ?st)) = rev ?st" using el by (intro split_join) auto
  have again: "foldl (clean_push (rooted p)) [] (rev ?st) = ?st" by (rule push_again [OF ok])
  show ?thesis
  proof (cases "rooted p")
    case True
    then have c: "Clean p = slash # join_segs (rev ?st)" by (simp add: Clean_def)
    then have r: "rooted (Clean p)" by (simp add: rooted_def)
    have "foldl (clean_push True) [] (split_at slash (Clean p)) = ?st"
    proof (cases "?st = []")
      case True
      then show ?thesis by (simp add: c) (simp add: clean_push_def)
    next
      case False
      then show ?thesis using sp again True by (simp add: c) (simp add: clean_push_def)
    qed
    then show ?thesis using c r unfolding Clean_def [of "Clean p"] by simp
  next
    case False
    show ?thesis
    proof (cases "?st = []")
      case True
      then have "Clean p = ''.''" using False nn by (simp add: Clean_def)
      moreover have "Clean ''.'' = ''.''" by code_simp
      ultimately show ?thesis by simp
    next
      case non: False
      then have c: "Clean p = join_segs (rev ?st)" using False nn by (simp add: Clean_def)
      have "hd (rev ?st) \<noteq> []" "slash \<notin> set (hd (rev ?st))" using el non by (metis hd_in_set rev_is_Nil_conv set_rev)+
      then have r: "\<not> rooted (Clean p)"
        using hd_join [of "rev ?st"] non by (auto simp: c rooted_def) (metis hd_in_set)
      have "foldl (clean_push False) [] (split_at slash (Clean p)) = ?st" using sp again non False by (simp add: c)
      then show ?thesis using c r nn non unfolding Clean_def [of "Clean p"] by simp
    qed
  qed
qed

lemma Clean_rooted: "rooted (Clean p) \<longleftrightarrow> rooted p"
proof (cases "rooted p")
  case True
  then show ?thesis by (simp add: Clean_def Let_def rooted_def)
next
  case False
  let ?st = "foldl (clean_push (rooted p)) [] (split_at slash p)"
  have "stack_ok (rooted p) ?st" using split_at_segs by (intro fold_push_ok) (auto simp: stack_ok_def)
  then have el: "\<forall>s\<in>set ?st. s \<noteq> [] \<and> slash \<notin> set s" by (simp add: stack_ok_def list_all_iff)
  have "\<not> rooted (join_segs (rev ?st))"
  proof (cases "?st = []")
    case non: False
    then have "hd (rev ?st) \<noteq> []" "slash \<notin> set (hd (rev ?st))" using el by (metis hd_in_set rev_is_Nil_conv set_rev)+
    then show ?thesis using hd_join [of "rev ?st"] non by (auto simp: rooted_def) (metis hd_in_set)
  qed (simp add: rooted_def)
  then show ?thesis using False by (auto simp: Clean_def Let_def rooted_def slash_def)
qed

text \<open>An absolute name starts with a slash: \<open>VACUUM INTO\<close> takes it for no URI and no database in memory.\<close>

lemma Abs_rooted:
  assumes "\<And>w. cwd = Some w \<Longrightarrow> rooted w" and "Abs cwd p = Inr a"
  shows "rooted a \<and> Clean a = a"
proof (cases "rooted p")
  case True
  then show ?thesis using assms(2) by (auto simp: Abs_def Clean_rooted Clean_idem)
next
  case False
  then obtain w where w: "cwd = Some w" "a = Join w p" using assms(2) by (auto simp: Abs_def split: option.split_asm)
  have "rooted w" by (rule assms(1) [OF w(1)])
  moreover from this have "w \<noteq> []" "rooted (w @ slash # p)" by (auto simp: rooted_def)
  ultimately show ?thesis using w(2) by (simp add: Join_def Clean_rooted Clean_idem)
qed

section \<open>A directory of files\<close>

text \<open>
  A file has permissions, bytes and whether they have reached the disk: when the power fails, a file
  that was not synced may hold anything. A directory maps names to files; the program spells
  each of its files one way, so a name stands for a file.
\<close>

record disk_file =
  f_mode :: nat
  f_data :: string
  f_synced :: bool

type_synonym disk = "string \<Rightarrow> disk_file option"

definition after_power_loss :: "disk \<Rightarrow> disk \<Rightarrow> bool" where
  "after_power_loss d d' =
     (\<forall>p. case d p of None \<Rightarrow> d' p = None
          | Some f \<Rightarrow> \<exists>g. d' p = Some g \<and> f_mode g = f_mode f \<and> (f_synced f \<longrightarrow> g = f))"

text \<open>
  \<open>os.CreateTemp\<close>: a name in the directory, ending in what was drawn, that no file has (the call draws
  again while one has it); the file is created empty, for its owner only.
\<close>

definition temp_name :: "string \<Rightarrow> string \<Rightarrow> string \<Rightarrow> string" where
  "temp_name dir prefix rnd =
     (if dir \<noteq> [] \<and> last dir = slash then dir @ prefix @ rnd else dir @ slash # prefix @ rnd)"

definition empty_temp :: disk_file where
  "empty_temp = \<lparr>f_mode = 384, f_data = [], f_synced = False\<rparr>"

definition CreateTemp :: "string list \<Rightarrow> string \<Rightarrow> string \<Rightarrow> disk \<Rightarrow> (err + string) \<times> disk" where
  "CreateTemp rnds dir prefix d =
     (case List.find (\<lambda>t. d t = None) (map (temp_name dir prefix) rnds) of
        None \<Rightarrow> (Inl (ErrExists ''createtemp''), d)
      | Some t \<Rightarrow> if CHR 0x00 \<in> set t then (Inl (ErrRefused ''createtemp''), d) else (Inr t, d(t \<mapsto> empty_temp)))"

lemma CreateTemp_cases:
  assumes "CreateTemp rnds dir prefix d = (Inr t, d')"
  shows "d t = None" "d' = d(t \<mapsto> empty_temp)" "CHR 0x00 \<notin> set t" "t \<in> temp_name dir prefix ` set rnds"
  using assms by (auto simp: CreateTemp_def find_Some_iff split: option.split_asm if_splits)

section \<open>Writing a file in one step\<close>

text \<open>
  The points of \<open>writeFileAtomic\<close>: after each of them another process may look, or this one may die.
  \<open>written n\<close>: the first \<open>n\<close> bytes have been written to the file.
\<close>

datatype point =
    AtCreate | AtChmod string | Writing string nat | AtSync string | AtClose string | AtRename string
  | AtRemove string "err + unit" | Done "err + unit"

definition SysErr :: err where "SysErr = ErrRefused ''system call''"

inductive write_step :: "string \<Rightarrow> string \<Rightarrow> nat \<Rightarrow> point \<times> disk \<Rightarrow> point \<times> disk \<Rightarrow> bool" for path bytes perm where
  create: "CreateTemp rnds (Dir path) ''.tmp-'' d = (Inr t, d') \<Longrightarrow>
    write_step path bytes perm (AtCreate, d) (AtChmod t, d')"
| create_fails: "write_step path bytes perm (AtCreate, d) (Done (Inl e), d)"
| chmod: "d t = Some f \<Longrightarrow>
    write_step path bytes perm (AtChmod t, d) (Writing t 0, d(t \<mapsto> f\<lparr>f_mode := perm\<rparr>))"
| chmod_fails: "write_step path bytes perm (AtChmod t, d) (AtRemove t (Inl e), d)"
| bytes_written: "d t = Some f \<Longrightarrow> n < m \<Longrightarrow> m \<le> length bytes \<Longrightarrow>
    write_step path bytes perm (Writing t n, d) (Writing t m, d(t \<mapsto> f\<lparr>f_data := take m bytes\<rparr>))"
| all_written: "write_step path bytes perm (Writing t (length bytes), d) (AtSync t, d)"
| write_fails: "write_step path bytes perm (Writing t n, d) (AtRemove t (Inl e), d)"
| sync: "d t = Some f \<Longrightarrow>
    write_step path bytes perm (AtSync t, d) (AtClose t, d(t \<mapsto> f\<lparr>f_synced := True\<rparr>))"
| sync_fails: "write_step path bytes perm (AtSync t, d) (AtRemove t (Inl e), d)"
| close: "write_step path bytes perm (AtClose t, d) (AtRename t, d)"
| close_fails: "write_step path bytes perm (AtClose t, d) (AtRemove t (Inl e), d)"
| rename: "write_step path bytes perm (AtRename t, d) (AtRemove t (Inr ()), (d(path := d t))(t := None))"
| rename_fails: "write_step path bytes perm (AtRename t, d) (AtRemove t (Inl e), d)"
| remove: "write_step path bytes perm (AtRemove t x, d) (Done x, d(t := None))"
| remove_fails: "write_step path bytes perm (AtRemove t x, d) (Done x, d)"

definition written :: "string \<Rightarrow> nat \<Rightarrow> disk_file" where
  "written bytes perm = \<lparr>f_mode = perm, f_data = bytes, f_synced = True\<rparr>"

text \<open>What the directory may look like at each point, from the directory \<open>d0\<close> at the start.\<close>

definition point_ok :: "string \<Rightarrow> string \<Rightarrow> nat \<Rightarrow> disk \<Rightarrow> point \<times> disk \<Rightarrow> bool" where
  "point_ok path bytes perm d0 s =
     (case s of
        (AtCreate, d) \<Rightarrow> d = d0
      | (AtChmod t, d) \<Rightarrow> t \<noteq> path \<and> d0 t = None \<and> d = d0(t \<mapsto> empty_temp)
      | (Writing t n, d) \<Rightarrow> t \<noteq> path \<and> d0 t = None \<and> n \<le> length bytes \<and>
          d = d0(t \<mapsto> \<lparr>f_mode = perm, f_data = take n bytes, f_synced = False\<rparr>)
      | (AtSync t, d) \<Rightarrow> t \<noteq> path \<and> d0 t = None \<and> d = d0(t \<mapsto> \<lparr>f_mode = perm, f_data = bytes, f_synced = False\<rparr>)
      | (AtClose t, d) \<Rightarrow> t \<noteq> path \<and> d0 t = None \<and> d = d0(t \<mapsto> written bytes perm)
      | (AtRename t, d) \<Rightarrow> t \<noteq> path \<and> d0 t = None \<and> d = d0(t \<mapsto> written bytes perm)
      | (AtRemove t (Inl e), d) \<Rightarrow> t \<noteq> path \<and> d0 t = None \<and> (\<exists>f. d = d0(t \<mapsto> f))
      | (AtRemove t (Inr _), d) \<Rightarrow> t \<noteq> path \<and> d0 t = None \<and> d = d0(path \<mapsto> written bytes perm)
      | (Done (Inl e), d) \<Rightarrow> d = d0 \<or> (\<exists>t f. t \<noteq> path \<and> d0 t = None \<and> d = d0(t \<mapsto> f))
      | (Done (Inr _), d) \<Rightarrow> d = d0(path \<mapsto> written bytes perm))"

text \<open>A temporary file is never the file to be written.\<close>

definition own_name :: "string \<Rightarrow> bool" where
  "own_name path = (\<forall>rnd. temp_name (Dir path) ''.tmp-'' rnd \<noteq> path)"

lemma step_point_ok:
  assumes "write_step path bytes perm s s'" and "own_name path" and "point_ok path bytes perm d0 s"
  shows "point_ok path bytes perm d0 s'"
  using assms(1)
proof cases
  case (create rnds d t d')
  then show ?thesis using CreateTemp_cases [OF create(3)] assms(2,3) by (auto simp: point_ok_def own_name_def)
next
  case (write_fails t n d e)
  then show ?thesis using assms(3) by (auto simp: point_ok_def)
next
  case (sync_fails t d e)
  then show ?thesis using assms(3) by (auto simp: point_ok_def)
next
  case (close_fails t d e)
  then show ?thesis using assms(3) by (auto simp: point_ok_def)
next
  case (rename_fails t d e)
  then show ?thesis using assms(3) by (auto simp: point_ok_def)
next
  case (remove t x d)
  then show ?thesis using assms(3) by (cases x) (auto simp: point_ok_def fun_upd_idem)
next
  case (remove_fails t x d)
  then show ?thesis using assms(3) by (cases x) (auto simp: point_ok_def)
qed (use assms(3) in \<open>auto simp: point_ok_def empty_temp_def written_def fun_eq_iff\<close>)

lemma steps_point_ok:
  "(write_step path bytes perm)\<^sup>*\<^sup>* (AtCreate, d0) s \<Longrightarrow> own_name path \<Longrightarrow> point_ok path bytes perm d0 s"
  by (induction rule: rtranclp_induct) (simp add: point_ok_def, blast intro: step_point_ok)

lemma split_at_snoc: "slash \<notin> set name \<Longrightarrow> split_at slash (p @ slash # name) = split_at slash p @ [name]"
  by (induction p) (use split_at_nonempty in \<open>auto simp: split_at_none split: list.split\<close>)

lemma join_snoc: "join_segs (xs @ [name]) = (if xs = [] then name else join_segs xs @ slash # name)"
  by (induction xs) simp_all

lemma last_join:
  "xs \<noteq> [] \<Longrightarrow> \<forall>s\<in>set xs. s \<noteq> [] \<and> slash \<notin> set s \<Longrightarrow> join_segs xs \<noteq> [] \<and> last (join_segs xs) \<noteq> slash"
proof (induction xs)
  case (Cons s xs)
  then have "last s \<noteq> slash" by (metis last_in_set list.set_intros(1))
  with Cons show ?case by (cases "xs = []") auto
qed simp

lemma clean_elements:
  "\<forall>s\<in>set (foldl (clean_push (rooted dir)) [] (split_at slash dir)). s \<noteq> [] \<and> s \<noteq> ''.'' \<and> slash \<notin> set s"
  using fold_push_ok [of "rooted dir" "[]" "split_at slash dir"] split_at_segs
  by (auto simp: stack_ok_def list_all_iff)

lemma Clean_form:
  obtains st where "foldl (clean_push (rooted dir)) [] (split_at slash dir) = st"
    "\<forall>s\<in>set st. s \<noteq> [] \<and> s \<noteq> ''.'' \<and> slash \<notin> set s"
    "Clean dir = (if rooted dir then slash # join_segs (rev st) else if st = [] then ''.'' else join_segs (rev st))"
proof -
  obtain st where st: "foldl (clean_push (rooted dir)) [] (split_at slash dir) = st" by blast
  have el: "\<forall>s\<in>set st. s \<noteq> [] \<and> s \<noteq> ''.'' \<and> slash \<notin> set s" using clean_elements [of dir] unfolding st .
  have "join_segs (rev st) = [] \<longleftrightarrow> st = []" using last_join [of "rev st"] el by (cases "st = []") simp_all
  then have "Clean dir = (if rooted dir then slash # join_segs (rev st) else if st = [] then ''.'' else join_segs (rev st))"
    by (simp add: Clean_def st)
  then show thesis using that st el by blast
qed

text \<open>A clean directory is the dot, the root, or ends in no slash.\<close>

lemma Clean_last: "Clean dir = [slash] \<or> (Clean dir \<noteq> [] \<and> last (Clean dir) \<noteq> slash)"
proof (rule Clean_form [of dir])
  fix st
  assume el: "\<forall>s\<in>set st. s \<noteq> [] \<and> s \<noteq> ''.'' \<and> slash \<notin> set s"
    and c: "Clean dir = (if rooted dir then slash # join_segs (rev st) else if st = [] then ''.'' else join_segs (rev st))"
  show ?thesis
  proof (cases "st = []")
    case False
    then show ?thesis using last_join [of "rev st"] el by (simp add: c)
  qed (simp add: c slash_def)
qed

definition plain_name :: "string \<Rightarrow> bool" where
  "plain_name name = (name \<noteq> [] \<and> name \<noteq> ''.'' \<and> name \<noteq> ''..'' \<and> slash \<notin> set name)"

lemma plain_push: "plain_name name \<Longrightarrow> clean_push r st name = name # st"
  by (simp add: plain_name_def clean_push_def)

lemma Clean_snoc:
  assumes "plain_name name"
  shows "Clean (p @ slash # name) =
    (let st = foldl (clean_push (rooted (p @ [slash]))) [] (split_at slash p)
     in if rooted (p @ [slash]) then slash # join_segs (rev st @ [name]) else join_segs (rev st @ [name]))"
proof -
  have n: "name \<noteq> []" "slash \<notin> set name" using assms by (simp_all add: plain_name_def)
  have "join_segs (xs @ [name]) \<noteq> []" for xs using n(1) by (simp add: join_snoc)
  moreover have "rooted (p @ slash # name) = rooted (p @ [slash])" by (cases p) (simp_all add: rooted_def)
  ultimately show ?thesis using n plain_push [OF assms] by (simp add: Clean_def Let_def split_at_snoc)
qed

lemma dot_join:
  assumes "\<forall>s\<in>set xs. s \<noteq> ''.'' \<and> slash \<notin> set s" "xs \<noteq> []"
  shows "join_segs xs \<noteq> ''.''"
proof
  assume n: "join_segs xs = ''.''"
  have "split_at slash (join_segs xs) = xs" using assms by (intro split_join) auto
  then have "xs = [''.'']" using n by (simp add: slash_def)
  then show False using assms by simp
qed

lemma Join_name:
  assumes "plain_name name"
  shows "Join dir name = (if Clean dir = ''.'' then name else if Clean dir = [slash] then slash # name else Clean dir @ slash # name)"
proof (cases "dir = []")
  case True
  have "\<not> rooted name" "name \<noteq> []" using assms by (auto simp: plain_name_def rooted_def dest: hd_in_set)
  then show ?thesis using True plain_push [OF assms] assms
    by (simp add: Join_def Clean_def split_at_none plain_name_def) (simp add: clean_push_def rooted_def)
next
  case False
  have r: "rooted (dir @ [slash]) = rooted dir" using False by (simp add: rooted_def)
  show ?thesis
  proof (rule Clean_form [of dir])
    fix st
    assume st: "foldl (clean_push (rooted dir)) [] (split_at slash dir) = st"
      and el: "\<forall>s\<in>set st. s \<noteq> [] \<and> s \<noteq> ''.'' \<and> slash \<notin> set s"
      and c: "Clean dir = (if rooted dir then slash # join_segs (rev st) else if st = [] then ''.'' else join_segs (rev st))"
    have "Join dir name = (if rooted dir then slash # join_segs (rev st @ [name]) else join_segs (rev st @ [name]))"
      using False by (simp add: Join_def Clean_snoc [OF assms] r Let_def st)
    moreover have "join_segs (rev st) \<noteq> ''.'' \<and> join_segs (rev st) \<noteq> [] \<and> join_segs (rev st) \<noteq> [slash]" if "st \<noteq> []"
    proof -
      have "join_segs (rev st) \<noteq> [] \<and> last (join_segs (rev st)) \<noteq> slash" by (rule last_join) (use that el in simp_all)
      moreover have "join_segs (rev st) \<noteq> ''.''" by (rule dot_join) (use that el in simp_all)
      ultimately show ?thesis by auto
    qed
    ultimately show ?thesis by (cases "st = []") (auto simp: c join_snoc slash_def)
  qed
qed

lemma Dir_append:
  assumes "slash \<notin> set name" and "p = [] \<or> last p = slash"
  shows "Dir (p @ name) = Clean p"
proof -
  have "dropWhile (\<lambda>c. c \<noteq> slash) (rev name @ rev p) = dropWhile (\<lambda>c. c \<noteq> slash) (rev p)"
    using assms(1) by (intro dropWhile_append2) auto
  also have "\<dots> = rev p" using assms(2) by (cases p rule: rev_cases) auto
  finally show ?thesis by (simp add: Dir_def)
qed

lemma Clean_slash: "p \<noteq> [] \<Longrightarrow> Clean (p @ [slash]) = Clean p"
  using split_at_snoc [of "[]" p] by (simp add: Clean_def Let_def rooted_def) (simp add: clean_push_def)

lemma Dir_Join:
  assumes "plain_name name"
  shows "Dir (Join dir name) = Clean dir"
proof -
  have s: "slash \<notin> set name" using assms by (simp add: plain_name_def)
  have "Clean [] = ''.''" "Clean [slash] = [slash]" by code_simp+
  moreover have "Clean (Clean dir @ [slash]) = Clean dir" if "Clean dir \<noteq> []" using that by (simp add: Clean_slash Clean_idem)
  moreover have "Dir name = Clean []" using Dir_append [OF s, of "[]"] by simp
  moreover have "Dir (slash # name) = Clean [slash]" using Dir_append [OF s, of "[slash]"] by simp
  moreover have "Dir (Clean dir @ slash # name) = Clean (Clean dir @ [slash])" using Dir_append [OF s, of "Clean dir @ [slash]"] by simp
  ultimately show ?thesis using Clean_last [of dir] unfolding Join_name [OF assms] by (auto simp: slash_def)
qed

text \<open>So the temporary file lies beside the file, and is another one.\<close>

lemma own_name_Join:
  assumes "plain_name name" "take 5 name \<noteq> ''.tmp-''"
  shows "own_name (Join dir name)"
  unfolding own_name_def
proof
  fix rnd
  have n: "''.tmp-'' @ rnd \<noteq> name" "slash \<notin> set name" using assms by (auto simp: plain_name_def)
  consider "Clean dir = ''.''" | "Clean dir = [slash]" | "Clean dir \<noteq> ''.''" "Clean dir \<noteq> [slash]" "Clean dir \<noteq> []" "last (Clean dir) \<noteq> slash"
    using Clean_last [of dir] by blast
  then have "temp_name (Clean dir) ''.tmp-'' rnd \<noteq> Join dir name"
  proof cases
    case 1
    then show ?thesis using n(2) unfolding Join_name [OF assms(1)] by (auto simp: temp_name_def slash_def)
  next
    case 2
    then show ?thesis using n(1) unfolding Join_name [OF assms(1)] by (auto simp: temp_name_def slash_def)
  next
    case 3
    then show ?thesis using n(1) unfolding Join_name [OF assms(1)] by (simp add: temp_name_def)
  qed
  then show "temp_name (Dir (Join dir name)) ''.tmp-'' rnd \<noteq> Join dir name" by (simp only: Dir_Join [OF assms(1)] simp_thms)
qed

section \<open>The write as a function\<close>

text \<open>What the operating system does: the names it draws, the calls that fail, the bytes of a failed write.\<close>

datatype call = MkdirAll | Ping | Chmod | Write | Sync | Close | Rename | Remove | Stat | Vacuum | OpenFile | Copy

record os =
  os_rnds :: "string list"
  os_fails :: "call list"
  os_short :: nat

definition fails :: "os \<Rightarrow> call \<Rightarrow> bool" where "fails sys c = (c \<in> set (os_fails sys))"

definition upd_file :: "string \<Rightarrow> (disk_file \<Rightarrow> disk_file) \<Rightarrow> disk \<Rightarrow> disk" where
  "upd_file t f d = d(t := map_option f (d t))"

text \<open>The deferred \<open>os.Remove\<close>, whose error is dropped.\<close>

definition finally_remove :: "os \<Rightarrow> string \<Rightarrow> 'a \<times> disk \<Rightarrow> 'a \<times> disk" where
  "finally_remove sys t x = (fst x, if fails sys Remove then snd x else (snd x)(t := None))"

definition writeFileAtomic :: "os \<Rightarrow> string \<Rightarrow> string \<Rightarrow> nat \<Rightarrow> disk \<Rightarrow> (err + unit) \<times> disk" where
  "writeFileAtomic sys path bytes perm d =
     (case CreateTemp (os_rnds sys) (Dir path) ''.tmp-'' d of
        (Inl e, d) \<Rightarrow> (Inl e, d)
      | (Inr t, d) \<Rightarrow> finally_remove sys t
          (if fails sys Chmod then (Inl SysErr, d)
           else let d = upd_file t (\<lambda>f. f\<lparr>f_mode := perm\<rparr>) d in
           if fails sys Write then (Inl SysErr, upd_file t (\<lambda>f. f\<lparr>f_data := take (os_short sys) bytes\<rparr>) d)
           else let d = upd_file t (\<lambda>f. f\<lparr>f_data := bytes\<rparr>) d in
           if fails sys Sync then (Inl SysErr, d)
           else let d = upd_file t (\<lambda>f. f\<lparr>f_synced := True\<rparr>) d in
           if fails sys Close then (Inl SysErr, d)
           else if fails sys Rename then (Inl SysErr, d)
           else (Inr (), (d(path := d t))(t := None))))"

text \<open>Every run of the function is a run of the steps.\<close>

abbreviation write_steps where "write_steps path bytes perm \<equiv> (write_step path bytes perm)\<^sup>*\<^sup>*"

lemma write_some:
  assumes "d t = Some f" "f_data f = []" "m \<le> length bytes"
  shows "write_steps path bytes perm (Writing t 0, d) (Writing t m, upd_file t (\<lambda>f. f\<lparr>f_data := take m bytes\<rparr>) d)"
proof (cases "m = 0")
  case True
  have "f\<lparr>f_data := []\<rparr> = f" using assms(2) by simp
  then show ?thesis using True assms(1) by (simp add: upd_file_def fun_upd_idem)
next
  case False
  then show ?thesis
    using bytes_written [where d = d and t = t and n = 0 and m = m] assms by (simp add: upd_file_def r_into_rtranclp)
qed

lemma removed_run:
  "write_steps path bytes perm (AtRemove t x, d) (Done (fst (finally_remove sys t (x, d))), snd (finally_remove sys t (x, d)))"
  using write_step.remove write_step.remove_fails by (simp add: finally_remove_def r_into_rtranclp)

lemma step_into: "write_step p b m s s1 \<Longrightarrow> write_steps p b m s1 s2 \<Longrightarrow> write_steps p b m s s2"
  by (rule converse_rtranclp_into_rtranclp)

text \<open>From the point where everything is written.\<close>

lemma write_tail:
  assumes "d t = Some f" and "finally_remove sys t
      (if fails sys Sync then (Inl SysErr, d)
       else let d = upd_file t (\<lambda>f. f\<lparr>f_synced := True\<rparr>) d in
       if fails sys Close then (Inl SysErr, d)
       else if fails sys Rename then (Inl SysErr, d)
       else (Inr (), (d(path := d t))(t := None))) = (x, d')"
  shows "write_steps path bytes perm (AtSync t, d) (Done x, d')"
proof -
  let ?run = "write_steps path bytes perm" and ?d1 = "upd_file t (\<lambda>f. f\<lparr>f_synced := True\<rparr>) d"
  have fin: "?run s (AtRemove t y, e) \<Longrightarrow> finally_remove sys t (y, e) = (x, d') \<Longrightarrow> ?run s (Done x, d')" for s y e
    using removed_run [where sys = sys and x = y and d = e and t = t] by (metis fst_conv snd_conv rtranclp_trans)
  have s: "write_step path bytes perm (AtSync t, d) (AtClose t, ?d1)"
    using write_step.sync [where d = d, OF assms(1)] by (simp add: upd_file_def assms(1))
  consider "fails sys Sync" | "\<not> fails sys Sync" "fails sys Close" | "\<not> fails sys Sync" "\<not> fails sys Close" "fails sys Rename"
    | "\<not> fails sys Sync" "\<not> fails sys Close" "\<not> fails sys Rename" by blast
  then show ?thesis
  proof cases
    case 1
    have "?run (AtSync t, d) (AtRemove t (Inl SysErr), d)" using write_step.sync_fails by (rule r_into_rtranclp)
    then show ?thesis by (rule fin) (use assms(2) 1 in simp)
  next
    case 2
    have "?run (AtClose t, ?d1) (AtRemove t (Inl SysErr), ?d1)" using write_step.close_fails by (rule r_into_rtranclp)
    from step_into [OF s this] show ?thesis by (rule fin) (use assms(2) 2 in simp)
  next
    case 3
    have "?run (AtRename t, ?d1) (AtRemove t (Inl SysErr), ?d1)" using write_step.rename_fails by (rule r_into_rtranclp)
    from step_into [OF s step_into [OF write_step.close this]] show ?thesis by (rule fin) (use assms(2) 3 in simp)
  next
    case 4
    have "?run (AtRename t, ?d1) (AtRemove t (Inr ()), (?d1(path := ?d1 t))(t := None))"
      using write_step.rename by (rule r_into_rtranclp)
    from step_into [OF s step_into [OF write_step.close this]] show ?thesis by (rule fin) (use assms(2) 4 in \<open>simp add: Let_def\<close>)
  qed
qed

lemma write_data:
  assumes "d t = Some f" "f_data f = []" and "finally_remove sys t
      (if fails sys Write then (Inl SysErr, upd_file t (\<lambda>f. f\<lparr>f_data := take (os_short sys) bytes\<rparr>) d)
       else let d = upd_file t (\<lambda>f. f\<lparr>f_data := bytes\<rparr>) d in
       if fails sys Sync then (Inl SysErr, d)
       else let d = upd_file t (\<lambda>f. f\<lparr>f_synced := True\<rparr>) d in
       if fails sys Close then (Inl SysErr, d)
       else if fails sys Rename then (Inl SysErr, d)
       else (Inr (), (d(path := d t))(t := None))) = (x, d')"
  shows "write_steps path bytes perm (Writing t 0, d) (Done x, d')"
proof (cases "fails sys Write")
  case True
  let ?m = "min (os_short sys) (length bytes)" and ?d1 = "upd_file t (\<lambda>f. f\<lparr>f_data := take (os_short sys) bytes\<rparr>) d"
  have "take ?m bytes = take (os_short sys) bytes" by (simp add: min_def)
  then have "write_steps path bytes perm (Writing t 0, d) (AtRemove t (Inl SysErr), ?d1)"
    using rtranclp.rtrancl_into_rtrancl [OF write_some [where d = d and m = ?m and bytes = bytes, OF assms(1,2)] write_step.write_fails]
    by (simp only: min.cobounded2)
  from rtranclp_trans [OF this removed_run [where sys = sys]] show ?thesis using assms(3) True by simp
next
  case False
  have "write_steps path bytes perm (Writing t 0, d) (AtSync t, upd_file t (\<lambda>f. f\<lparr>f_data := bytes\<rparr>) d)"
    using rtranclp.rtrancl_into_rtrancl [OF write_some [where d = d and m = "length bytes" and bytes = bytes, OF assms(1,2)] write_step.all_written]
    by simp
  moreover have "write_steps path bytes perm (AtSync t, upd_file t (\<lambda>f. f\<lparr>f_data := bytes\<rparr>) d) (Done x, d')"
    by (rule write_tail [where sys = sys and f = "f\<lparr>f_data := bytes\<rparr>"])
      (simp add: upd_file_def assms(1), use assms(3) False in \<open>simp only: Let_def if_False\<close>)
  ultimately show ?thesis by (rule rtranclp_trans)
qed

lemma writeFileAtomic_runs:
  assumes "writeFileAtomic sys path bytes perm d = (x, d')"
  shows "write_steps path bytes perm (AtCreate, d) (Done x, d')"
proof (cases "CreateTemp (os_rnds sys) (Dir path) ''.tmp-'' d")
  case (Pair y d1)
  show ?thesis
  proof (cases y)
    case (Inl e)
    then have "x = Inl e" "d' = d"
      using assms Pair by (auto simp: writeFileAtomic_def CreateTemp_def split: option.split_asm if_splits)
    then show ?thesis using write_step.create_fails by blast
  next
    case (Inr t)
    note start = step_into [OF write_step.create [OF Pair [unfolded Inr]]]
    have t1: "d1 t = Some empty_temp" using CreateTemp_cases [OF Pair [unfolded Inr]] by simp
    show ?thesis
    proof (cases "fails sys Chmod")
      case True
      have "write_steps path bytes perm (AtChmod t, d1) (AtRemove t (Inl SysErr), d1)"
        using write_step.chmod_fails by (rule r_into_rtranclp)
      from start [OF rtranclp_trans [OF this removed_run [where sys = sys]]] show ?thesis
        using assms True by (simp add: writeFileAtomic_def Pair Inr)
    next
      case False
      have "write_steps path bytes perm (Writing t 0, upd_file t (\<lambda>f. f\<lparr>f_mode := perm\<rparr>) d1) (Done x, d')"
        by (rule write_data [where sys = sys and f = "empty_temp\<lparr>f_mode := perm\<rparr>"])
          (simp add: upd_file_def t1, simp add: empty_temp_def,
            use assms False in \<open>simp only: writeFileAtomic_def Pair Inr Let_def if_False prod.case sum.case\<close>)
      then show ?thesis
        using start [OF step_into [OF write_step.chmod [where d = d1, OF t1]]] by (simp add: upd_file_def t1)
    qed
  qed
qed

text \<open>Without a failure the file is there; after a failure the path is as it was.\<close>

lemma writeFileAtomic_succeeds:
  assumes "os_fails sys = []" and "CreateTemp (os_rnds sys) (Dir path) ''.tmp-'' d = (Inr t, d1)" and "t \<noteq> path"
  shows "writeFileAtomic sys path bytes perm d = (Inr (), d(path \<mapsto> written bytes perm))"
  using assms CreateTemp_cases [OF assms(2)]
  by (auto simp: writeFileAtomic_def fails_def finally_remove_def upd_file_def empty_temp_def written_def Let_def fun_eq_iff)

lemma writeFileAtomic_result:
  assumes "own_name path" and "writeFileAtomic sys path bytes perm d = (x, d')"
  shows "x = Inr () \<Longrightarrow> d' = d(path \<mapsto> written bytes perm)" and "x = Inl e \<Longrightarrow> d' path = d path"
  using steps_point_ok [OF writeFileAtomic_runs [OF assms(2)] assms(1)] by (auto simp: point_ok_def)

lemma power_loss_path:
  assumes "after_power_loss d d1" and "\<forall>f. d p = Some f \<longrightarrow> f_synced f"
  shows "d1 p = d p"
proof -
  have "case d p of None \<Rightarrow> d1 p = None | Some f \<Rightarrow> \<exists>g. d1 p = Some g \<and> f_mode g = f_mode f \<and> (f_synced f \<longrightarrow> g = f)"
    using assms(1) by (simp add: after_power_loss_def)
  then show ?thesis using assms(2) by (cases "d p") auto
qed

text \<open>
  C20. \<open>writeFileAtomic\<close> is atomic. Whoever looks at the file at any point of the write, after the
  process has died there and even after the power has failed there, finds the file as it was or the
  whole new one with its permissions, synced; no other file is touched; success means the new file
  is there, and an error that the path is as it was. Every run of the function, with whatever calls
  failing, is one of these writes.
\<close>

theorem writeFileAtomic_is_atomic:
  assumes "own_name path" and "\<forall>f. d0 path = Some f \<longrightarrow> f_synced f"
    and "write_steps path bytes perm (AtCreate, d0) (pt, d)" and "after_power_loss d d1"
  shows "(d1 path = d0 path \<or> d1 path = Some (written bytes perm)) \<and>
    (\<forall>p f. p \<noteq> path \<longrightarrow> d0 p = Some f \<longrightarrow> d p = Some f) \<and>
    (pt = Done (Inr ()) \<longrightarrow> d = d0(path \<mapsto> written bytes perm)) \<and> (\<forall>e. pt = Done (Inl e) \<longrightarrow> d path = d0 path) \<and>
    (\<forall>sys x d'. writeFileAtomic sys path bytes perm d0 = (x, d') \<longrightarrow> write_steps path bytes perm (AtCreate, d0) (Done x, d'))"
proof -
  note ok = steps_point_ok [OF assms(3,1)]
  have p: "d path = d0 path \<or> d path = Some (written bytes perm)" and q: "\<forall>p f. p \<noteq> path \<longrightarrow> d0 p = Some f \<longrightarrow> d p = Some f"
    using ok by (cases pt; auto simp: point_ok_def split: sum.split_asm)+
  then have "\<forall>f. d path = Some f \<longrightarrow> f_synced f" using assms(2) by (auto simp: written_def)
  from power_loss_path [OF assms(4) this] p have "d1 path = d0 path \<or> d1 path = Some (written bytes perm)" by simp
  moreover have "pt = Done (Inr ()) \<longrightarrow> d = d0(path \<mapsto> written bytes perm)" "\<forall>e. pt = Done (Inl e) \<longrightarrow> d path = d0 path"
    using ok by (auto simp: point_ok_def)
  ultimately show ?thesis using q writeFileAtomic_runs by blast
qed

definition old_file :: disk where
  "old_file = [''/data/initial-password'' \<mapsto> written ''old'' 384]"

text \<open>A write that fails half-way, in a process that cannot clean up either.\<close>

theorem writeFileAtomic_is_atomic_witness:
  "\<exists>x d. writeFileAtomic \<lparr>os_rnds = [''1''], os_fails = [Write, Remove], os_short = 1\<rparr> ''/data/initial-password'' ''new'' 384 old_file = (x, d) \<and>
     d ''/data/.tmp-1'' \<noteq> None \<and> d ''/data/initial-password'' = Some (written ''old'' 384)"
proof -
  let ?p = "''/data/initial-password''" and ?sys = "\<lparr>os_rnds = [''1''], os_fails = [Write, Remove], os_short = 1\<rparr>"
  obtain x d where w: "writeFileAtomic ?sys ?p ''new'' 384 old_file = (x, d)" by fastforce
  have n: "plain_name ''initial-password''" "take 5 ''initial-password'' \<noteq> ''.tmp-''" "Join ''/data'' ''initial-password'' = ?p"
    by code_simp+
  have o: "own_name ?p" using own_name_Join [OF n(1,2), of "''/data''"] unfolding n(3) .
  have s: "\<forall>f. old_file ?p = Some f \<longrightarrow> f_synced f" by (simp add: old_file_def written_def)
  have l: "after_power_loss d d" by (simp add: after_power_loss_def split: option.split)
  have x: "x = Inl SysErr" "d ''/data/.tmp-1'' \<noteq> None"
  proof -
    have "fst (writeFileAtomic ?sys ?p ''new'' 384 old_file) = Inl SysErr" by code_simp
    moreover have "snd (writeFileAtomic ?sys ?p ''new'' 384 old_file) ''/data/.tmp-1'' \<noteq> None" by code_simp
    ultimately show "x = Inl SysErr" "d ''/data/.tmp-1'' \<noteq> None" using w by simp_all
  qed
  with writeFileAtomic_is_atomic [OF o s writeFileAtomic_runs [OF w] l] w show ?thesis by (simp add: old_file_def)
qed

section \<open>A file name in a statement\<close>

definition quote :: char where "quote = CHR 0x27"

definition quoteSQLString :: "string \<Rightarrow> string" where
  "quoteSQLString s = quote # concat (map (\<lambda>c. if c = quote then [quote, quote] else [c]) s) @ [quote]"

text \<open>
  How SQL reads a string literal: up to a quote that is not doubled. A zero byte ends the statement.
  The result is the value and what follows the literal.
\<close>

fun literal_body :: "string \<Rightarrow> (string \<times> string) option" where
  "literal_body [] = None"
| "literal_body (c # cs) =
     (if c = CHR 0x00 then None
      else if c = quote then
        (case cs of
           [] \<Rightarrow> Some ([], [])
         | c' # cs' \<Rightarrow> if c' = quote then map_option (apfst (Cons quote)) (literal_body cs') else Some ([], cs))
      else map_option (apfst (Cons c)) (literal_body cs))"

definition read_literal :: "string \<Rightarrow> (string \<times> string) option" where
  "read_literal s = (case s of [] \<Rightarrow> None | c # cs \<Rightarrow> if c = quote then literal_body cs else None)"

lemma literal_body_doubled:
  assumes "CHR 0x00 \<notin> set s" "rest = [] \<or> hd rest \<noteq> quote"
  shows "literal_body (concat (map (\<lambda>c. if c = quote then [quote, quote] else [c]) s) @ quote # rest) = Some (s, rest)"
  using assms(1)
proof (induction s)
  case Nil
  then show ?case using assms(2) by (cases rest) (simp_all add: quote_def)
next
  case (Cons c s)
  then show ?case by (auto simp: quote_def)
qed

text \<open>
  A file name cannot break out of the statement: whatever it is - quotes included, a zero byte aside,
  which no file name holds - the literal reads back as exactly that name, and ends where it ends.
\<close>

lemma read_quoted:
  assumes "CHR 0x00 \<notin> set s" "rest = [] \<or> hd rest \<noteq> quote"
  shows "read_literal (quoteSQLString s @ rest) = Some (s, rest)"
  using literal_body_doubled [OF assms] by (simp add: read_literal_def quoteSQLString_def)

section \<open>Snapshots\<close>

text \<open>
  \<open>VACUUM INTO\<close> as SQLite documents it: the destination must not exist, or be empty; when it fails half-way
  a file may be left behind. \<open>bytes_of d\<close> are the bytes of an SQLite database whose tables are \<open>d\<close>.
\<close>

definition snapshot :: "string \<Rightarrow> disk_file" where
  "snapshot bytes = \<lparr>f_mode = 420, f_data = bytes, f_synced = True\<rparr>"

definition vacuum_stmt :: "string \<Rightarrow> string" where
  "vacuum_stmt path = ''VACUUM INTO '' @ quoteSQLString path"

definition exec_vacuum :: "(db \<Rightarrow> string) \<Rightarrow> os \<Rightarrow> string \<Rightarrow> db \<Rightarrow> disk \<Rightarrow> (err + unit) \<times> disk" where
  "exec_vacuum bytes_of sys stmt db d =
     (case (take 12 stmt = ''VACUUM INTO '', read_literal (drop 12 stmt)) of
        (True, Some (dest, [])) \<Rightarrow>
          (if case d dest of None \<Rightarrow> False | Some f \<Rightarrow> f_data f \<noteq> [] then (Inl (ErrExists dest), d)
           else if fails sys Vacuum then
             (Inl SysErr, if os_short sys = 0 then d
                          else d(dest \<mapsto> \<lparr>f_mode = 420, f_data = take (os_short sys) (bytes_of db), f_synced = False\<rparr>))
           else (Inr (), d(dest \<mapsto> snapshot (bytes_of db))))
      | _ \<Rightarrow> (Inl (ErrRefused ''syntax error''), d))"

definition BackupTo :: "(db \<Rightarrow> string) \<Rightarrow> os \<Rightarrow> string option \<Rightarrow> string \<Rightarrow> db \<Rightarrow> disk \<Rightarrow> (err + unit) \<times> disk" where
  "BackupTo bytes_of sys cwd path db d =
     (case Abs cwd path of
        Inl e \<Rightarrow> (Inl e, d)
      | Inr a \<Rightarrow>
          if fails sys Stat \<or> CHR 0x00 \<in> set a then (Inl SysErr, d)
          else if d a \<noteq> None then (Inl (ErrExists a), d)
          else exec_vacuum bytes_of sys (vacuum_stmt a) db d)"

text \<open>\<open>BackupToWriter\<close> gives also what it has written to \<open>w\<close>.\<close>

definition BackupToWriter :: "(db \<Rightarrow> string) \<Rightarrow> os \<Rightarrow> string \<Rightarrow> db \<Rightarrow> disk \<Rightarrow> ((err + unit) \<times> string) \<times> disk" where
  "BackupToWriter bytes_of sys dir db d =
     (case CreateTemp (os_rnds sys) dir ''.backup-'' d of
        (Inl e, d) \<Rightarrow> ((Inl e, []), d)
      | (Inr path, d) \<Rightarrow>
          if fails sys Remove then ((Inl SysErr, []), d)
          else let d = d(path := None) in finally_remove sys path
            (case exec_vacuum bytes_of sys (vacuum_stmt path) db d of
               (Inl e, d) \<Rightarrow> ((Inl e, []), d)
             | (Inr _, d) \<Rightarrow>
                 (case d path of
                    None \<Rightarrow> ((Inl SysErr, []), d)
                  | Some f \<Rightarrow>
                      if fails sys OpenFile then ((Inl SysErr, []), d)
                      else if fails sys Copy then ((Inl SysErr, take (os_short sys) (f_data f)), d)
                      else ((Inr (), f_data f), d))))"

definition warnAboutLegacyFiles :: "string \<Rightarrow> disk \<Rightarrow> string list" where
  "warnAboutLegacyFiles dir d =
     filter (\<lambda>p. d p \<noteq> None) (map (Join dir) [''users.json'', ''invites.json'', ''secret.key'', ''surveys''])"

lemma vacuum_quoted:
  assumes "CHR 0x00 \<notin> set a" "d a = None"
  shows "exec_vacuum bytes_of sys (vacuum_stmt a) db d =
    (if fails sys Vacuum then
       (Inl SysErr, if os_short sys = 0 then d
          else d(a \<mapsto> \<lparr>f_mode = 420, f_data = take (os_short sys) (bytes_of db), f_synced = False\<rparr>))
     else (Inr (), d(a \<mapsto> snapshot (bytes_of db))))"
  using read_quoted [OF assms(1), of "[]"] assms(2) by (simp add: exec_vacuum_def vacuum_stmt_def)

lemma BackupTo_cases:
  assumes "BackupTo bytes_of sys cwd path db d = (x, d')"
  shows "(\<exists>e. x = Inl e) \<and> d' = d \<or>
    (\<exists>a. Abs cwd path = Inr a \<and> CHR 0x00 \<notin> set a \<and> d a = None \<and>
       (x = Inl SysErr \<and> (\<exists>f. d' = d(a \<mapsto> f)) \<or> x = Inr () \<and> d' = d(a \<mapsto> snapshot (bytes_of db))))"
proof (cases "Abs cwd path")
  case (Inr a)
  show ?thesis
  proof (cases "fails sys Stat \<or> CHR 0x00 \<in> set a \<or> d a \<noteq> None")
    case True
    then show ?thesis using assms by (auto simp: BackupTo_def Inr split: if_splits)
  next
    case False
    then show ?thesis using assms vacuum_quoted [of a d bytes_of sys db] by (auto simp: BackupTo_def Inr split: if_splits)
  qed
qed (use assms in \<open>auto simp: BackupTo_def\<close>)

lemma BackupTo_succeeds:
  assumes "Abs cwd path = Inr a" "CHR 0x00 \<notin> set a" "d a = None" "os_fails sys = []"
  shows "BackupTo bytes_of sys cwd path db d = (Inr (), d(a \<mapsto> snapshot (bytes_of db)))"
  using assms vacuum_quoted [where d = d, OF assms(2,3)] by (simp add: BackupTo_def fails_def)

lemma BackupToWriter_cases:
  assumes "BackupToWriter bytes_of sys dir db d = ((x, out), d')"
  shows "d' = d \<and> (x = Inr () \<and> out = bytes_of db \<or> (\<exists>e k. x = Inl e \<and> out = take k (bytes_of db))) \<or>
    (\<exists>t f e. fails sys Remove \<and> d t = None \<and> d' = d(t \<mapsto> f) \<and> x = Inl e \<and> out = [])"
proof (cases "CreateTemp (os_rnds sys) dir ''.backup-'' d")
  case (Pair y d1)
  show ?thesis
  proof (cases y)
    case (Inl e)
    then have "x = Inl e" "d' = d" "out = take 0 (bytes_of db)"
      using assms Pair by (auto simp: BackupToWriter_def CreateTemp_def split: option.split_asm if_splits)
    then show ?thesis by blast
  next
    case (Inr t)
    note c = CreateTemp_cases [OF Pair [unfolded Inr]]
    show ?thesis
    proof (cases "fails sys Remove")
      case True
      then show ?thesis using assms c by (auto simp: BackupToWriter_def Pair Inr)
    next
      case False
      have d: "d1(t := None) = d" using c by auto
      have v: "exec_vacuum bytes_of sys (vacuum_stmt t) db d =
          (if fails sys Vacuum then
             (Inl SysErr, if os_short sys = 0 then d
                else d(t \<mapsto> \<lparr>f_mode = 420, f_data = take (os_short sys) (bytes_of db), f_synced = False\<rparr>))
           else (Inr (), d(t \<mapsto> snapshot (bytes_of db))))"
        by (rule vacuum_quoted [where d = d, OF c(3,1)])
      have u: "d(t := None) = d" using c(1) by auto
      have "out = take 0 (bytes_of db) \<or> out = take (os_short sys) (bytes_of db) \<or> out = bytes_of db"
        "d' = d" "x = Inr () \<longrightarrow> out = bytes_of db"
        using assms False u by (auto simp: BackupToWriter_def Pair Inr d v finally_remove_def snapshot_def split: if_splits)
      moreover have "x = Inr () \<or> (\<exists>e. x = Inl e)" by (cases x) auto
      moreover have "bytes_of db = take (length (bytes_of db)) (bytes_of db)" by simp
      ultimately show ?thesis by metis
    qed
  qed
qed

text \<open>
  C21. A backup is the database or an error, and disturbs nothing. \<open>BackupTo\<close> changes no file that exists
  and none but the one it was asked for, whatever its name; when it succeeds that file holds exactly
  the database, and it succeeds when nothing fails and nothing is there. What \<open>BackupToWriter\<close> streams is
  a beginning of the database, all of it when it succeeds, and it leaves the directory as it was: the
  snapshot it copied from is gone, after an error too.
\<close>

theorem backups_are_snapshots:
  assumes "BackupTo bytes_of sys cwd path db d = (x, d')" and "BackupToWriter bytes_of sys dir db d = ((y, out), d2)"
  shows "(\<forall>p f. d p = Some f \<longrightarrow> d' p = Some f \<and> d2 p = Some f) \<and> (\<forall>p. d' p \<noteq> d p \<longrightarrow> Abs cwd path = Inr p) \<and>
    (x = Inr () \<longrightarrow> (\<exists>a. Abs cwd path = Inr a \<and> d' a = Some (snapshot (bytes_of db)))) \<and>
    (os_fails sys = [] \<longrightarrow> (\<forall>a. Abs cwd path = Inr a \<longrightarrow> CHR 0x00 \<notin> set a \<longrightarrow> d a = None \<longrightarrow> x = Inr ())) \<and>
    (\<exists>k. out = take k (bytes_of db)) \<and> (y = Inr () \<longrightarrow> out = bytes_of db) \<and> (\<not> fails sys Remove \<longrightarrow> d2 = d)"
proof (intro conjI)
  show "\<forall>p f. d p = Some f \<longrightarrow> d' p = Some f \<and> d2 p = Some f"
    using BackupTo_cases [OF assms(1)] BackupToWriter_cases [OF assms(2)] by auto
  show "\<forall>p. d' p \<noteq> d p \<longrightarrow> Abs cwd path = Inr p"
    using BackupTo_cases [OF assms(1)] by (auto split: if_splits)
  show "x = Inr () \<longrightarrow> (\<exists>a. Abs cwd path = Inr a \<and> d' a = Some (snapshot (bytes_of db)))"
    using BackupTo_cases [OF assms(1)] by auto
  show "os_fails sys = [] \<longrightarrow> (\<forall>a. Abs cwd path = Inr a \<longrightarrow> CHR 0x00 \<notin> set a \<longrightarrow> d a = None \<longrightarrow> x = Inr ())"
    using BackupTo_succeeds [where sys = sys and d = d] assms(1) by fastforce
  show "\<exists>k. out = take k (bytes_of db)"
    using BackupToWriter_cases [OF assms(2)] by (metis take_all_iff order.refl take0)
  show "y = Inr () \<longrightarrow> out = bytes_of db" "\<not> fails sys Remove \<longrightarrow> d2 = d"
    using BackupToWriter_cases [OF assms(2)] by auto
qed

theorem backups_are_snapshots_witness:
  "\<exists>x d' y out d2. BackupTo (\<lambda>d. ''SQLite'') \<lparr>os_rnds = [''7''], os_fails = [], os_short = 0\<rparr> (Some ''/root'') ''it's.db'' empty_db old_file = (x, d') \<and>
     d' ''/root/it's.db'' = Some (snapshot ''SQLite'') \<and>
     BackupToWriter (\<lambda>d. ''SQLite'') \<lparr>os_rnds = [''7''], os_fails = [], os_short = 0\<rparr> ''/data'' empty_db old_file = ((y, out), d2) \<and>
     out = ''SQLite'' \<and> d2 = old_file"
proof -
  let ?b = "\<lambda>d. ''SQLite''" and ?sys = "\<lparr>os_rnds = [''7''], os_fails = [], os_short = 0\<rparr>"
  obtain x d' where b: "BackupTo ?b ?sys (Some ''/root'') ''it's.db'' empty_db old_file = (x, d')" by fastforce
  obtain y out d2 where w: "BackupToWriter ?b ?sys ''/data'' empty_db old_file = ((y, out), d2)" by (metis surj_pair)
  have a: "Abs (Some ''/root'') ''it's.db'' = Inr ''/root/it's.db''" "CHR 0x00 \<notin> set ''/root/it's.db''" by code_simp+
  have n: "old_file ''/root/it's.db'' = None" by (simp add: old_file_def)
  have "fst (fst (BackupToWriter ?b ?sys ''/data'' empty_db old_file)) = Inr ()" by code_simp
  then have "y = Inr ()" using w by simp
  moreover have "\<not> fails ?sys Remove" by (simp add: fails_def)
  ultimately show ?thesis using backups_are_snapshots [OF b w] a n b w by auto
qed

end
