(* ===== verification/Flags.thy ===== *)
theory Flags
  imports Codec
begin

text \<open>
  The command line of Go's \<open>flag\<close> package as \<open>main.go\<close> uses it: flag sets of strings, numbers and
  booleans that write into a record of variables, parsed with \<open>ExitOnError\<close>; with \<open>strconv.ParseBool\<close> and
  \<open>strconv.ParseInt\<close> in base 0, which read the values.
\<close>

section \<open>Values\<close>

definition ParseBool :: "string \<Rightarrow> bool option" where
  "ParseBool s =
     (if s \<in> {''1'', ''t'', ''T'', ''TRUE'', ''true'', ''True''} then Some True
      else if s \<in> {''0'', ''f'', ''F'', ''FALSE'', ''false'', ''False''} then Some False else None)"

text \<open>The value of a digit in any base up to 36, and digits with underscores between them.\<close>

definition digit_val :: "char \<Rightarrow> int option" where
  "digit_val c =
     (let n = int (of_char c) in
      if 48 \<le> n \<and> n \<le> 57 then Some (n - 48)
      else if 97 \<le> n \<and> n \<le> 122 then Some (n - 87)
      else if 65 \<le> n \<and> n \<le> 90 then Some (n - 55) else None)"

primrec parse_digits :: "int \<Rightarrow> string \<Rightarrow> int \<Rightarrow> int option" where
  "parse_digits base [] n = Some n"
| "parse_digits base (c # cs) n =
     (if c = CHR ''_'' then parse_digits base cs n
      else case digit_val c of
        None \<Rightarrow> None
      | Some d \<Rightarrow> if d < base then parse_digits base cs (n * base + d) else None)"

text \<open>The prefix that chooses the base: the base and the digits.\<close>

definition base_prefix :: "string \<Rightarrow> int \<times> string" where
  "base_prefix s =
     (if s \<noteq> [] \<and> hd s = CHR ''0'' then
        (if length s \<ge> 3 \<and> s ! 1 \<in> {CHR ''b'', CHR ''B''} then (2, drop 2 s)
         else if length s \<ge> 3 \<and> s ! 1 \<in> {CHR ''o'', CHR ''O''} then (8, drop 2 s)
         else if length s \<ge> 3 \<and> s ! 1 \<in> {CHR ''x'', CHR ''X''} then (16, drop 2 s)
         else (8, tl s))
      else (10, s))"

text \<open>
  \<open>underscoreOK\<close>: underscores only between digits, or between a base prefix and a digit. \<open>saw\<close> is the
  class of the last character: a digit, an underscore, or neither.
\<close>

datatype saw = SawDigit | SawUnderscore | SawOther

primrec underscores_from :: "bool \<Rightarrow> saw \<Rightarrow> string \<Rightarrow> bool" where
  "underscores_from hex saw [] = (saw \<noteq> SawUnderscore)"
| "underscores_from hex saw (c # cs) =
     (if (case digit_val c of None \<Rightarrow> False | Some d \<Rightarrow> d < (if hex then 16 else 10)) then underscores_from hex SawDigit cs
      else if c = CHR ''_'' then saw = SawDigit \<and> underscores_from hex SawUnderscore cs
      else saw \<noteq> SawUnderscore \<and> underscores_from hex SawOther cs)"

definition underscoreOK :: "string \<Rightarrow> bool" where
  "underscoreOK s =
     (if length s \<ge> 2 \<and> hd s = CHR ''0'' \<and> s ! 1 \<in> {CHR ''b'', CHR ''B'', CHR ''o'', CHR ''O'', CHR ''x'', CHR ''X''}
      then underscores_from (s ! 1 \<in> {CHR ''x'', CHR ''X''}) SawDigit (drop 2 s)
      else underscores_from False SawOther s)"

definition ParseUint0 :: "string \<Rightarrow> int option" where
  "ParseUint0 s =
     (if s = [] \<or> (CHR ''_'' \<in> set s \<and> \<not> underscoreOK s) then None
      else case base_prefix s of (base, digits) \<Rightarrow> parse_digits base digits 0)"

definition ParseInt0 :: "string \<Rightarrow> int option" where
  "ParseInt0 s =
     (if s = [] then None
      else let neg = (hd s = CHR ''-''); body = (if hd s = CHR ''-'' \<or> hd s = CHR ''+'' then tl s else s) in
      case ParseUint0 body of
        None \<Rightarrow> None
      | Some n \<Rightarrow>
          if neg then (if n \<le> 2 ^ 63 then Some (- n) else None)
          else if n < 2 ^ 63 then Some n else None)"

lemma ParseInt0_examples:
  "ParseInt0 ''-1'' = Some (- 1)" "ParseInt0 ''0x1F'' = Some 31" "ParseInt0 ''1_000'' = Some 1000" "ParseInt0 ''0_7'' = Some 7"
  "ParseInt0 ''1__0'' = None" "ParseInt0 ''0b2'' = None" "ParseInt0 ''09'' = None" "ParseInt0 ''0'' = Some 0"
  "ParseInt0 ''9223372036854775808'' = None" "ParseInt0 ''-9223372036854775808'' = Some (- 9223372036854775808)"
  by code_simp+

text \<open>A value that is read is one of a 64-bit \<open>int\<close>.\<close>

lemma digit_val_nonneg: "digit_val c = Some d \<Longrightarrow> 0 \<le> d"
  by (auto simp: digit_val_def Let_def split: if_splits)

lemma parse_digits_nonneg: "parse_digits base cs n = Some m \<Longrightarrow> 0 \<le> n \<Longrightarrow> 0 \<le> base \<Longrightarrow> 0 \<le> m"
proof (induction cs arbitrary: n)
  case (Cons c cs)
  then show ?case using digit_val_nonneg [of c] by (auto split: if_splits option.split_asm)
qed simp

lemma ParseUint0_nonneg: "ParseUint0 s = Some n \<Longrightarrow> 0 \<le> n"
  by (auto simp: ParseUint0_def base_prefix_def intro: parse_digits_nonneg split: if_splits)

lemma ParseInt0_range:
  assumes "ParseInt0 s = Some n"
  shows "- (2 ^ 63) \<le> n \<and> n < 2 ^ 63"
proof -
  have s: "s \<noteq> []" using assms by (auto simp: ParseInt0_def)
  let ?neg = "hd s = CHR ''-''" and ?body = "if hd s = CHR ''-'' \<or> hd s = CHR ''+'' then tl s else s"
  obtain m where u: "ParseUint0 ?body = Some m"
    and m: "(if ?neg then if m \<le> 2 ^ 63 then Some (- m) else None else if m < 2 ^ 63 then Some m else None) = Some n"
    using assms s unfolding ParseInt0_def Let_def by (cases "ParseUint0 ?body") (simp_all only: if_False option.case, auto)
  show ?thesis using m ParseUint0_nonneg [OF u] by (simp split: if_splits)
qed

section \<open>Flag sets\<close>

text \<open>
  A flag has a name, may be boolean, and sets a variable of the record \<open>'r\<close>, or refuses the text it is
  given. \<open>ExitWith n\<close>: the process prints its usage and exits with status \<open>n\<close>.
\<close>

record 'r flag =
  fg_name :: string
  fg_bool :: bool
  fg_set :: "string \<Rightarrow> 'r \<Rightarrow> 'r option"

definition String_flag :: "string \<Rightarrow> (string \<Rightarrow> 'r \<Rightarrow> 'r) \<Rightarrow> 'r flag" where
  "String_flag name upd = \<lparr>fg_name = name, fg_bool = False, fg_set = \<lambda>s r. Some (upd s r)\<rparr>"

definition Int_flag :: "string \<Rightarrow> (int \<Rightarrow> 'r \<Rightarrow> 'r) \<Rightarrow> 'r flag" where
  "Int_flag name upd = \<lparr>fg_name = name, fg_bool = False, fg_set = \<lambda>s r. map_option (\<lambda>n. upd n r) (ParseInt0 s)\<rparr>"

definition Bool_flag :: "string \<Rightarrow> (bool \<Rightarrow> 'r \<Rightarrow> 'r) \<Rightarrow> 'r flag" where
  "Bool_flag name upd = \<lparr>fg_name = name, fg_bool = True, fg_set = \<lambda>s r. map_option (\<lambda>b. upd b r) (ParseBool s)\<rparr>"

datatype 'r parsed = Parsed 'r "string list" | ExitWith nat

definition dash :: char where "dash = CHR ''-''"
definition equals :: char where "equals = CHR ''=''"

text \<open>The name and the value of \<open>-name=value\<close>.\<close>

definition split_flag :: "string \<Rightarrow> string \<times> string option" where
  "split_flag s =
     (takeWhile (\<lambda>c. c \<noteq> equals) s,
      case dropWhile (\<lambda>c. c \<noteq> equals) s of [] \<Rightarrow> None | _ # v \<Rightarrow> Some v)"

definition set_flag :: "'r flag \<Rightarrow> string \<Rightarrow> 'r \<Rightarrow> ('r \<Rightarrow> 'r parsed) \<Rightarrow> 'r parsed" where
  "set_flag f x r k = (case fg_set f x r of None \<Rightarrow> ExitWith 2 | Some r \<Rightarrow> k r)"

lemma set_flag_cong [fundef_cong]:
  "f = f' \<Longrightarrow> x = x' \<Longrightarrow> r = r' \<Longrightarrow> (\<And>s. fg_set f' x' r' = Some s \<Longrightarrow> k s = k' s) \<Longrightarrow> set_flag f x r k = set_flag f' x' r' k'"
  by (simp add: set_flag_def split: option.split)

text \<open>\<open>FlagSet.Parse\<close>: flags up to the first argument that is none, or past a double dash.\<close>

fun Parse :: "'r flag list \<Rightarrow> string list \<Rightarrow> 'r \<Rightarrow> 'r parsed" where
  "Parse fs [] r = Parsed r []"
| "Parse fs (s # args) r =
     (if length s < 2 \<or> hd s \<noteq> dash then Parsed r (s # args)
      else if s = [dash, dash] then Parsed r args
      else let body = (if s ! 1 = dash then drop 2 s else drop 1 s) in
      if body = [] \<or> hd body = dash \<or> hd body = equals then ExitWith 2
      else case split_flag body of (name, value) \<Rightarrow>
        (case lookup_by fg_name name fs of
           None \<Rightarrow> ExitWith (if name = ''help'' \<or> name = ''h'' then 0 else 2)
         | Some f \<Rightarrow>
             (case value of
                Some x \<Rightarrow> set_flag f x r (\<lambda>r. Parse fs args r)
              | None \<Rightarrow>
                  if fg_bool f then set_flag f ''true'' r (\<lambda>r. Parse fs args r)
                  else (case args of
                          [] \<Rightarrow> ExitWith 2
                        | x # rest \<Rightarrow> set_flag f x r (\<lambda>r. Parse fs rest r)))))"


section \<open>What a command line sets\<close>

text \<open>A setting as it may be written: with one or two minuses, joined by an equals sign or as the next argument, or alone.\<close>

datatype spelling = Joined | Apart | Alone

definition spell :: "bool \<Rightarrow> spelling \<Rightarrow> string \<Rightarrow> string \<Rightarrow> string list" where
  "spell two sp name x =
     (let flag = (if two then [dash, dash] else [dash]) @ name in
      case sp of Joined \<Rightarrow> [flag @ equals # x] | Apart \<Rightarrow> [flag, x] | Alone \<Rightarrow> [flag])"

text \<open>A value may be the next argument for a flag that is not boolean; alone a boolean flag means true.\<close>

definition spelled_for :: "'r flag \<Rightarrow> spelling \<Rightarrow> string \<Rightarrow> bool" where
  "spelled_for f sp x =
     (case sp of Joined \<Rightarrow> True | Apart \<Rightarrow> \<not> fg_bool f | Alone \<Rightarrow> fg_bool f \<and> x = ''true'')"

definition good_flag :: "string \<Rightarrow> bool" where
  "good_flag name = (name \<noteq> [] \<and> hd name \<noteq> dash \<and> equals \<notin> set name)"

lemma split_flag_plain: "equals \<notin> set name \<Longrightarrow> split_flag name = (name, None)"
proof -
  assume e: "equals \<notin> set name"
  then have "takeWhile (\<lambda>c. c \<noteq> equals) name = name" by (auto simp: takeWhile_eq_all_conv)
  moreover have "dropWhile (\<lambda>c. c \<noteq> equals) name = []" using e by (auto simp: dropWhile_eq_Nil_conv)
  ultimately show ?thesis unfolding split_flag_def by (simp only: list.case)
qed

lemma split_flag_joined: "equals \<notin> set name \<Longrightarrow> split_flag (name @ equals # x) = (name, Some x)"
proof -
  assume e: "equals \<notin> set name"
  then have "takeWhile (\<lambda>c. c \<noteq> equals) (name @ equals # x) = name" "dropWhile (\<lambda>c. c \<noteq> equals) (name @ equals # x) = equals # x"
    by (induction name) auto
  then show ?thesis by (simp add: split_flag_def)
qed

lemma Parse_setting:
  assumes "good_flag name" "lookup_by fg_name name fs = Some f" "spelled_for f sp x"
  shows "Parse fs (spell two sp name x @ args) r = set_flag f x r (\<lambda>r. Parse fs args r)"
proof -
  have n: "name \<noteq> []" "hd name \<noteq> dash" "hd name \<noteq> equals" "equals \<notin> set name"
    using assms(1) by (auto simp: good_flag_def dest: hd_in_set)
  obtain c cs where c: "name = c # cs" "c \<noteq> dash" "c \<noteq> equals" using n by (cases name) auto
  show ?thesis
  proof (cases sp)
    case Joined
    then show ?thesis using c split_flag_joined [OF n(4), of x] assms(2) by (cases two) (simp_all add: spell_def dash_def)
  next
    case Apart
    then show ?thesis using c split_flag_plain [OF n(4)] assms(2,3) by (cases two) (simp_all add: spell_def spelled_for_def dash_def)
  next
    case Alone
    then show ?thesis using c split_flag_plain [OF n(4)] assms(2,3) by (cases two) (simp_all add: spell_def spelled_for_def dash_def)
  qed
qed

text \<open>What a list of settings does, however each is spelled: the last one of a flag counts, a refused value ends it.\<close>

type_synonym setting = "bool \<times> spelling \<times> string \<times> string"

primrec assign :: "'r flag list \<Rightarrow> setting list \<Rightarrow> 'r \<Rightarrow> 'r option" where
  "assign fs [] r = Some r"
| "assign fs (s # ss) r =
     (case s of (_, _, name, x) \<Rightarrow>
        (case lookup_by fg_name name fs of
           None \<Rightarrow> None
         | Some f \<Rightarrow> (case fg_set f x r of None \<Rightarrow> None | Some r \<Rightarrow> assign fs ss r)))"

definition legible :: "'r flag list \<Rightarrow> setting \<Rightarrow> bool" where
  "legible fs s =
     (case s of (_, sp, name, x) \<Rightarrow>
        good_flag name \<and> (case lookup_by fg_name name fs of None \<Rightarrow> False | Some f \<Rightarrow> spelled_for f sp x))"

definition arguments :: "setting list \<Rightarrow> string list" where
  "arguments ss = concat (map (\<lambda>(two, sp, name, x). spell two sp name x) ss)"

lemma Parse_settings:
  assumes "\<forall>s\<in>set ss. legible fs s"
  shows "Parse fs (arguments ss @ args) r = (case assign fs ss r of None \<Rightarrow> ExitWith 2 | Some r \<Rightarrow> Parse fs args r)"
  using assms
proof (induction ss arbitrary: r)
  case (Cons s ss)
  obtain two sp name x where s: "s = (two, sp, name, x)" by (cases s) auto
  obtain f where f: "lookup_by fg_name name fs = Some f" "good_flag name" "spelled_for f sp x"
    using Cons.prems s by (auto simp: legible_def split: option.split_asm)
  have "Parse fs (arguments (s # ss) @ args) r = set_flag f x r (\<lambda>r. Parse fs (arguments ss @ args) r)"
    using Parse_setting [OF f(2,1,3), of two "arguments ss @ args"] by (simp add: arguments_def s)
  then show ?case using Cons.IH Cons.prems f by (simp add: s set_flag_def split: option.split)
qed (simp add: arguments_def)

text \<open>Settings written in any of the spellings are read back, up to the first argument that is no flag.\<close>

lemma flags_read_back:
  assumes "\<forall>s\<in>set ss. legible fs s" and "args = [] \<or> length (hd args) < 2 \<or> hd (hd args) \<noteq> dash"
  shows "Parse fs (arguments ss @ args) r = (case assign fs ss r of None \<Rightarrow> ExitWith 2 | Some r \<Rightarrow> Parsed r args)"
proof -
  have "Parse fs args r = Parsed r args" for r using assms(2) by (cases args) auto
  then show ?thesis using Parse_settings [OF assms(1)] by (simp split: option.split)
qed

end
