(* ===== verification/Command.thy ===== *)
theory Command
  imports Routes Migrate Files Flags
begin

text \<open>
  The command line (\<open>cmd/quicksurvey/main.go\<close>): flags, opening the data directory (\<open>Open\<close> of
  \<open>store.go\<close>), starting with the first administrator and the file that holds its password
  (\<open>store.go\<close>, \<open>users.go\<close>, \<open>reset.go\<close>), and the commands \<open>user\<close>, \<open>export\<close>, \<open>backup\<close>, \<open>initial-password\<close> and
  \<open>healthcheck\<close>, whole. What a process finds around it - environment, standard input, clock, random
  bytes, time zones, failing system calls - is the record \<open>process\<close>; the databases and files it leaves
  behind are a \<open>machine\<close>. Listening, signals and log lines are not modelled.
\<close>

section \<open>Settings\<close>

text \<open>\<open>genv k\<close> is \<open>os.Getenv k\<close>: the empty string for a variable that is not set.\<close>

definition env :: "(string \<Rightarrow> string) \<Rightarrow> string \<Rightarrow> string \<Rightarrow> string" where
  "env genv key def = (if genv key \<noteq> [] then genv key else def)"

definition envInt :: "(string \<Rightarrow> string) \<Rightarrow> string \<Rightarrow> int \<Rightarrow> int" where
  "envInt genv key def =
     (if genv key \<noteq> [] then (case Atoi (genv key) of Some n \<Rightarrow> n | None \<Rightarrow> def) else def)"

definition envBool :: "(string \<Rightarrow> string) \<Rightarrow> string \<Rightarrow> bool \<Rightarrow> bool" where
  "envBool genv key def =
     (if genv key \<noteq> [] then (case ParseBool (genv key) of Some b \<Rightarrow> b | None \<Rightarrow> def) else def)"

record serve_flags =
  fl_data :: string
  fl_addr :: string
  fl_base_url :: string
  fl_tz :: string
  fl_secure :: bool
  fl_redirect :: bool
  fl_login_rate :: int
  fl_voter_rate :: int
  fl_trust :: bool

text \<open>What \<open>serve\<close> runs with when no flag is given, and its flags.\<close>

definition serve_defaults :: "(string \<Rightarrow> string) \<Rightarrow> serve_flags" where
  "serve_defaults genv =
     \<lparr>fl_data = env genv ''QS_DATA_DIR'' ''/data'', fl_addr = env genv ''QS_ADDR'' '':8080'',
      fl_base_url = env genv ''QS_BASE_URL'' [], fl_tz = env genv ''QS_TZ'' ''Local'',
      fl_secure = envBool genv ''QS_SECURE_COOKIES'' True, fl_redirect = envBool genv ''QS_REDIRECT_HTTPS'' False,
      fl_login_rate = envInt genv ''QS_LOGIN_RATE'' DefaultLoginRate,
      fl_voter_rate = envInt genv ''QS_VOTER_RATE'' DefaultVoterRate,
      fl_trust = envBool genv ''QS_TRUST_PROXY'' True\<rparr>"

definition serve_flag_set :: "serve_flags flag list" where
  "serve_flag_set =
     [String_flag ''data'' (\<lambda>x fl. fl\<lparr>fl_data := x\<rparr>), String_flag ''addr'' (\<lambda>x fl. fl\<lparr>fl_addr := x\<rparr>),
      String_flag ''base-url'' (\<lambda>x fl. fl\<lparr>fl_base_url := x\<rparr>), String_flag ''tz'' (\<lambda>x fl. fl\<lparr>fl_tz := x\<rparr>),
      Bool_flag ''secure-cookies'' (\<lambda>x fl. fl\<lparr>fl_secure := x\<rparr>), Bool_flag ''redirect-https'' (\<lambda>x fl. fl\<lparr>fl_redirect := x\<rparr>),
      Int_flag ''login-rate'' (\<lambda>x fl. fl\<lparr>fl_login_rate := x\<rparr>), Int_flag ''voter-rate'' (\<lambda>x fl. fl\<lparr>fl_voter_rate := x\<rparr>),
      Bool_flag ''trust-proxy'' (\<lambda>x fl. fl\<lparr>fl_trust := x\<rparr>)]"

section \<open>A data directory\<close>

text \<open>An open store, its directory, and the files of the machine.\<close>

record data_dir =
  in_store :: store
  in_dir :: string
  in_disk :: disk

definition on_db :: "(store \<Rightarrow> 'a \<times> store) \<Rightarrow> data_dir \<Rightarrow> 'a \<times> data_dir" where
  "on_db f i = (case f (in_store i) of (x, st) \<Rightarrow> (x, i\<lparr>in_store := st\<rparr>))"

definition dbFile :: string where "dbFile = ''quicksurvey.db''"

text \<open>The name of the database is taken by a file, whose content is the store.\<close>

definition db_file :: disk_file where
  "db_file = \<lparr>f_mode = 420, f_data = [], f_synced = True\<rparr>"

definition create_db :: "data_dir \<Rightarrow> data_dir" where
  "create_db i =
     (if in_disk i (Join (in_dir i) dbFile) = None then i\<lparr>in_disk := (in_disk i)(Join (in_dir i) dbFile \<mapsto> db_file)\<rparr> else i)"

text \<open>\<open>Open\<close>, with what it draws: \<open>stamp\<close> is the clock, \<open>fresh\<close> the key of a new instance.\<close>

definition Open :: "string \<Rightarrow> string \<Rightarrow> os \<Rightarrow> data_dir \<Rightarrow> (err + string) \<times> data_dir" where
  "Open stamp fresh sys i =
     (if fails sys MkdirAll then (Inl SysErr, i)
      else let i = create_db i in
      if fails sys Ping then (Inl SysErr, i) else on_db (open_store stamp fresh) i)"

section \<open>The password file\<close>

definition InitialPasswordFile :: "string \<Rightarrow> string" where
  "InitialPasswordFile dir = Join dir ''initial-password''"

definition in_file :: "data_dir \<Rightarrow> string option" where
  "in_file i = map_option f_data (in_disk i (InitialPasswordFile (in_dir i)))"

definition writeInitialPassword :: "os \<Rightarrow> string \<Rightarrow> data_dir \<Rightarrow> (err + unit) \<times> data_dir" where
  "writeInitialPassword sys pw i =
     (case writeFileAtomic sys (InitialPasswordFile (in_dir i)) (pw @ [CHR 0x0A]) 384 (in_disk i) of
        (x, d) \<Rightarrow> (x, i\<lparr>in_disk := d\<rparr>))"

text \<open>A failure to remove the file is only logged.\<close>

definition clearInitialPassword :: "os \<Rightarrow> data_dir \<Rightarrow> data_dir" where
  "clearInitialPassword sys i =
     (if fails sys Remove then i else i\<lparr>in_disk := (in_disk i)(InitialPasswordFile (in_dir i) := None)\<rparr>)"

definition InitialPassword :: "os \<Rightarrow> data_dir \<Rightarrow> err + string" where
  "InitialPassword sys i =
     (case in_file i of
        None \<Rightarrow> Inl (ErrRefused ''no initial password on file: it is removed once the password has been changed, so this instance has already been set up'')
      | Some b \<Rightarrow> if fails sys OpenFile then Inl SysErr else Inr (TrimSpace b))"

text \<open>The insert of \<open>addUser\<close> is a single statement: the counter of the tally cache stays as it is.\<close>

definition add_user_stmt :: "(db \<Rightarrow> err + (user \<times> db)) \<Rightarrow> store \<Rightarrow> (err + user) \<times> store" where
  "add_user_stmt f st = (case f (sdb st) of Inl e \<Rightarrow> (Inl e, st) | Inr (u, d) \<Rightarrow> (Inr u, st\<lparr>sdb := d\<rparr>))"

definition AddUserMustChange ::
  "kdf \<Rightarrow> string \<Rightarrow> time \<Rightarrow> os \<Rightarrow> string \<Rightarrow> string \<Rightarrow> string \<Rightarrow> data_dir \<Rightarrow> (err + user) \<times> data_dir" where
  "AddUserMustChange kdf salt now sys name role password i =
     (case on_db (add_user_stmt (addUser kdf salt now name role password True False [])) i of
        (Inl e, i) \<Rightarrow> (Inl e, i)
      | (Inr u, i) \<Rightarrow>
          (case writeInitialPassword sys password i of
             (Inl e, i) \<Rightarrow> (Inl e, i)
           | (Inr _, i) \<Rightarrow> (Inr u, i)))"

text \<open>\<open>SetPassword\<close> and \<open>UseReset\<close> as they end: with the file gone.\<close>

definition SetPassword_file :: "kdf \<Rightarrow> string \<Rightarrow> time \<Rightarrow> os \<Rightarrow> string \<Rightarrow> string \<Rightarrow> data_dir \<Rightarrow> (err + unit) \<times> data_dir" where
  "SetPassword_file kdf salt now sys name password i =
     (case on_db (tx (SetPassword kdf salt now name password)) i of
        (Inl e, i) \<Rightarrow> (Inl e, i) | (Inr _, i) \<Rightarrow> (Inr (), clearInitialPassword sys i))"

definition UseReset_file ::
  "kdf \<Rightarrow> (string list \<Rightarrow> string) \<Rightarrow> string \<Rightarrow> time \<Rightarrow> os \<Rightarrow> string \<Rightarrow> string \<Rightarrow> data_dir \<Rightarrow> (err + string) \<times> data_dir" where
  "UseReset_file kdf mac salt now sys token password i =
     (case on_db (tx (UseReset kdf mac salt now token password)) i of
        (Inl e, i) \<Rightarrow> (Inl e, i) | (Inr u, i) \<Rightarrow> (Inr u, clearInitialPassword sys i))"

section \<open>Starting\<close>

text \<open>\<open>b\<close> are the 12 random bytes of the password.\<close>

definition bootstrapAdmin :: "kdf \<Rightarrow> string \<Rightarrow> time \<Rightarrow> string \<Rightarrow> os \<Rightarrow> data_dir \<Rightarrow> (err + unit) \<times> data_dir" where
  "bootstrapAdmin kdf salt now b sys i =
     (if UserCount (sdb (in_store i)) > 0 then (Inr (), i)
      else case AddUserMustChange kdf salt now sys ''admin'' RoleAdmin (EncodeToString url_alphabet b) i of
        (Inl e, i) \<Rightarrow> (Inl e, i)
      | (Inr _, i) \<Rightarrow> (Inr (), i))"

text \<open>\<open>serve\<close> from opening the store up to listening: the key of the instance and the server, or the error.\<close>

definition serve ::
  "serve_flags \<Rightarrow> kdf \<Rightarrow> string \<Rightarrow> string \<Rightarrow> string \<Rightarrow> time \<Rightarrow> string \<Rightarrow> os \<Rightarrow> data_dir
    \<Rightarrow> (err + (string \<times> 'b server)) \<times> data_dir" where
  "serve fl kdf stamp fresh salt now b sys i =
     (case Open stamp fresh sys i of
        (Inl e, i) \<Rightarrow> (Inl e, i)
      | (Inr secret, i) \<Rightarrow>
          (case bootstrapAdmin kdf salt now b sys i of
             (Inl e, i) \<Rightarrow> (Inl e, i)
           | (Inr _, i) \<Rightarrow> (Inr (secret, newServer (fl_login_rate fl) (fl_voter_rate fl) now (in_store i)), i)))"

section \<open>Processes and machines\<close>

text \<open>
  What a run of the program draws and reads. \<open>p_zone\<close> is \<open>time.LoadLocation\<close> with the export's rendering
  of an instant there, \<open>p_probe\<close> the status of an HTTP request to a URL, \<open>p_bytes\<close> the bytes of an SQLite file.
\<close>

record process =
  p_env :: "string \<Rightarrow> string"
  p_stdin :: string
  p_cwd :: "string option"
  p_sys :: os
  p_kdf :: kdf
  p_stamp :: string
  p_fresh :: string
  p_salt :: string
  p_now :: time
  p_random :: string
  p_zone :: "string \<Rightarrow> (time \<Rightarrow> string) option"
  p_rfc3339 :: "time \<Rightarrow> string"
  p_fmt1 :: "rat \<Rightarrow> string"
  p_probe :: "string \<Rightarrow> err + nat"
  p_bytes :: "db \<Rightarrow> string"

text \<open>The databases, by the name of their file, and the files of a machine.\<close>

record machine =
  m_db :: "string \<Rightarrow> db option"
  m_disk :: disk

definition enter :: "string \<Rightarrow> machine \<Rightarrow> data_dir" where
  "enter dir m =
     \<lparr>in_store = \<lparr>sdb = (case m_db m (Join dir dbFile) of None \<Rightarrow> empty_db | Some d \<Rightarrow> d), gen = 0\<rparr>, in_dir = dir, in_disk = m_disk m\<rparr>"

definition leave :: "data_dir \<Rightarrow> machine \<Rightarrow> machine" where
  "leave i m = m\<lparr>m_db := (m_db m)(Join (in_dir i) dbFile \<mapsto> sdb (in_store i)), m_disk := in_disk i\<rparr>"

text \<open>How a run ends, beside what it has printed: \<open>Exited\<close> by the flag package, or serving.\<close>

datatype 'b ending = Finished | Failed err | Exited nat | Serving string serve_flags "'b server"

type_synonym 'b ran = "(string \<times> 'b ending) \<times> machine"

definition printed :: "err + string \<Rightarrow> string \<times> 'b ending" where
  "printed x = (case x of Inl e \<Rightarrow> ([], Failed e) | Inr s \<Rightarrow> (s, Finished))"

definition on_parsed :: "'r parsed \<Rightarrow> machine \<Rightarrow> ('r \<Rightarrow> 'b ran) \<Rightarrow> 'b ran" where
  "on_parsed x m k = (case x of ExitWith n \<Rightarrow> (([], Exited n), m) | Parsed r _ \<Rightarrow> k r)"

text \<open>\<open>openStore\<close>, the work, and closing the store.\<close>

definition openStore :: "process \<Rightarrow> string \<Rightarrow> machine \<Rightarrow> (data_dir \<Rightarrow> (string \<times> 'b ending) \<times> data_dir) \<Rightarrow> 'b ran" where
  "openStore p dir m work =
     (case Open (p_stamp p) (p_fresh p) (p_sys p) (enter dir m) of
        (Inl e, i) \<Rightarrow> (([], Failed e), leave i m)
      | (Inr _, i) \<Rightarrow> (case work i of (x, i) \<Rightarrow> (x, leave i m)))"

definition data_dir_flag :: "process \<Rightarrow> string" where
  "data_dir_flag p = env (p_env p) ''QS_DATA_DIR'' ''/data''"

section \<open>The commands\<close>

text \<open>\<open>serve\<close> with its flags read: \<open>fl\<close> says where, when and how.\<close>

definition serve_with :: "process \<Rightarrow> machine \<Rightarrow> serve_flags \<Rightarrow> 'b ran" where
  "serve_with p m fl =
     (if p_zone p (fl_tz fl) = None then (([], Failed (ErrRefused ''timezone'')), m)
      else case serve fl (p_kdf p) (p_stamp p) (p_fresh p) (p_salt p) (p_now p) (p_random p) (p_sys p) (enter (fl_data fl) m) of
        (Inl e, i) \<Rightarrow> (([], Failed e), leave i m)
      | (Inr (secret, s), i) \<Rightarrow> (([], Serving secret fl s), leave i m))"

definition serveCmd :: "process \<Rightarrow> string list \<Rightarrow> machine \<Rightarrow> 'b ran" where
  "serveCmd p args m = on_parsed (Parse serve_flag_set args (serve_defaults (p_env p))) m (serve_with p m)"

definition healthcheck :: "process \<Rightarrow> string list \<Rightarrow> machine \<Rightarrow> 'b ran" where
  "healthcheck p args m =
     on_parsed (Parse [String_flag ''url'' (\<lambda>x _. x)] args (''http://127.0.0.1'' @ env (p_env p) ''QS_ADDR'' '':8080'' @ ''/healthz'')) m
       (\<lambda>url. case p_probe p url of
          Inl e \<Rightarrow> (([], Failed e), m)
        | Inr status \<Rightarrow> if status \<noteq> 200 then (([], Failed (ErrRefused url)), m) else (([], Finished), m))"

text \<open>The work of \<open>backup\<close> on the open store of \<open>dir\<close>.\<close>

definition backup_store :: "process \<Rightarrow> string \<Rightarrow> string \<Rightarrow> data_dir \<Rightarrow> (string \<times> 'b ending) \<times> data_dir" where
  "backup_store p dir to i =
     (if to = ''-'' then
        (case BackupToWriter (p_bytes p) (p_sys p) dir (sdb (in_store i)) (in_disk i) of
           ((x, out), d) \<Rightarrow> ((out, case x of Inl e \<Rightarrow> Failed e | Inr _ \<Rightarrow> Finished), i\<lparr>in_disk := d\<rparr>))
      else
        (case BackupTo (p_bytes p) (p_sys p) (p_cwd p) to (sdb (in_store i)) (in_disk i) of
           (Inl e, d) \<Rightarrow> (([], Failed e), i\<lparr>in_disk := d\<rparr>)
         | (Inr _, d) \<Rightarrow> ((''wrote '' @ to @ [CHR 0x0A], Finished), i\<lparr>in_disk := d\<rparr>)))"

definition backup_flag_set :: "(string \<times> string) flag list" where
  "backup_flag_set =
     [String_flag ''data'' (\<lambda>x (_, to). (x, to)), String_flag ''to'' (\<lambda>x (dir, _). (dir, x))]"

definition backupCmd :: "process \<Rightarrow> string list \<Rightarrow> machine \<Rightarrow> 'b ran" where
  "backupCmd p args m =
     on_parsed (Parse backup_flag_set args (data_dir_flag p, [])) m
       (\<lambda>(dir, to).
          if to = [] then (([], Failed (ErrRefused ''-to is required'')), m)
          else openStore p dir m (backup_store p dir to))"

definition initialPasswordCmd :: "process \<Rightarrow> string list \<Rightarrow> machine \<Rightarrow> 'b ran" where
  "initialPasswordCmd p args m =
     on_parsed (Parse [String_flag ''data'' (\<lambda>x _. x)] args (data_dir_flag p)) m
       (\<lambda>dir. openStore p dir m (\<lambda>i. (printed (bindE (InitialPassword (p_sys p) i) (\<lambda>pw. Inr (pw @ [CHR 0x0A]))), i)))"

text \<open>\<open>readPassword\<close>: the variable, or the first line of the input.\<close>

definition readPassword :: "(string \<Rightarrow> string) \<Rightarrow> string \<Rightarrow> err + string" where
  "readPassword genv stdin =
     (if genv ''QS_PASSWORD'' \<noteq> [] then Inr (genv ''QS_PASSWORD'')
      else if stdin = [] then Inl (ErrRefused ''reading password: EOF'')
      else Inr (rev (dropWhile (\<lambda>c. c = CHR 0x0D \<or> c = CHR 0x0A) (rev (takeWhile (\<lambda>c. c \<noteq> CHR 0x0A) stdin)))))"

definition user_line :: "(time \<Rightarrow> string) \<Rightarrow> user \<Rightarrow> string" where
  "user_line fmt u =
     u_name u @ [CHR 0x09] @ u_role u @ [CHR 0x09] @ fmt (u_created u) @
     (if u_must_change u then CHR 0x09 # ''must-change-password'' else []) @ [CHR 0x0A]"

definition NameRequired :: err where "NameRequired = ErrRefused ''-name is required''"

definition usage_lines :: "string list" where
  "usage_lines =
     [''usage:'',
      ''  quicksurvey serve'',
      ''  quicksurvey user add    -name NAME [-role viewer|editor|admin]'',
      ''  quicksurvey user list'',
      ''  quicksurvey user passwd -name NAME'',
      ''  quicksurvey user role   -name NAME -role ROLE'',
      ''  quicksurvey user rm     -name NAME'',
      ''  quicksurvey export      -survey ID [-kind responses|summary]'',
      ''  quicksurvey healthcheck [-url URL]'',
      ''  quicksurvey backup      -to FILE|-   (\"-\" streams to stdout)'',
      ''  quicksurvey initial-password'',
      [],
      ''The data directory comes from -data or $QS_DATA_DIR (default /data).'']"

definition usage :: err where
  "usage = ErrRefused (butlast (concat (map (\<lambda>l. l @ [CHR 0x0A]) usage_lines)))"

text \<open>An operation on the accounts and what is printed after it.\<close>

definition say :: "string \<Rightarrow> (err + 'a) \<times> data_dir \<Rightarrow> (err + string) \<times> data_dir" where
  "say msg x = (case x of (Inl e, i) \<Rightarrow> (Inl e, i) | (Inr _, i) \<Rightarrow> (Inr (msg @ [CHR 0x0A]), i))"

text \<open>The subcommands of \<open>user\<close> on an open store.\<close>

definition user_action :: "process \<Rightarrow> string \<Rightarrow> string \<Rightarrow> string \<Rightarrow> data_dir \<Rightarrow> (err + string) \<times> data_dir" where
  "user_action p sub name role i =
     (if sub = ''list'' then (Inr (concat (map (user_line (p_rfc3339 p)) (Users (sdb (in_store i))))), i)
      else if sub = ''add'' then
        (if name = [] then (Inl NameRequired, i)
         else case readPassword (p_env p) (p_stdin p) of
           Inl e \<Rightarrow> (Inl e, i)
         | Inr pw \<Rightarrow> say (''created '' @ name @ '' ('' @ role @ '')'')
             (on_db (add_user_stmt (AddUser (p_kdf p) (p_salt p) (p_now p) name role pw)) i))
      else if sub = ''passwd'' then
        (if name = [] then (Inl NameRequired, i)
         else case readPassword (p_env p) (p_stdin p) of
           Inl e \<Rightarrow> (Inl e, i)
         | Inr pw \<Rightarrow> say (''password changed for '' @ name @ ''; their sessions are signed out'')
             (SetPassword_file (p_kdf p) (p_salt p) (p_now p) (p_sys p) name pw i))
      else if sub = ''role'' then
        (if name = [] then (Inl NameRequired, i)
         else say (name @ '' is now '' @ role) (on_db (tx (SetRole name role)) i))
      else if sub = ''rm'' then
        (if name = [] then (Inl NameRequired, i) else say (''deleted '' @ name) (on_db (tx (DeleteUser name)) i))
      else (Inl usage, i))"

definition user_flag_set :: "(string \<times> string \<times> string) flag list" where
  "user_flag_set =
     [String_flag ''data'' (\<lambda>x (_, name, role). (x, name, role)), String_flag ''name'' (\<lambda>x (dir, _, role). (dir, x, role)),
      String_flag ''role'' (\<lambda>x (dir, name, _). (dir, name, x))]"

definition userCmd :: "process \<Rightarrow> string list \<Rightarrow> machine \<Rightarrow> 'b ran" where
  "userCmd p args m =
     (case args of
        [] \<Rightarrow> (([], Failed usage), m)
      | sub # rest \<Rightarrow>
          on_parsed (Parse user_flag_set rest (data_dir_flag p, [], RoleEditor)) m
            (\<lambda>(dir, name, role). openStore p dir m (\<lambda>i. apfst printed (user_action p sub name role i))))"

text \<open>The file \<open>export\<close> prints, in the zone of \<open>local\<close>.\<close>

definition export_file :: "(time \<Rightarrow> string) \<Rightarrow> (rat \<Rightarrow> string) \<Rightarrow> string \<Rightarrow> string \<Rightarrow> db \<Rightarrow> err + string" where
  "export_file local fmt1 sid kind d =
     (case loadSurvey d sid of
        None \<Rightarrow> Inl (ErrNotFound ''survey'' sid)
      | Some sv \<Rightarrow>
          if kind = ''responses'' then Inr (Export_Responses local sv (Responses d (sv_id sv)))
          else if kind = ''summary'' then
            (case computeTally d (sv_id sv) of (results, voters) \<Rightarrow> Inr (Summary fmt1 results voters))
          else Inl (ErrRefused ''unknown export kind''))"

definition export_flag_set :: "(string \<times> string \<times> string \<times> string) flag list" where
  "export_flag_set =
     [String_flag ''data'' (\<lambda>x (_, sid, kind, tz). (x, sid, kind, tz)), String_flag ''survey'' (\<lambda>x (dir, _, kind, tz). (dir, x, kind, tz)),
      String_flag ''kind'' (\<lambda>x (dir, sid, _, tz). (dir, sid, x, tz)), String_flag ''tz'' (\<lambda>x (dir, sid, kind, _). (dir, sid, kind, x))]"

definition exportCmd :: "process \<Rightarrow> string list \<Rightarrow> machine \<Rightarrow> 'b ran" where
  "exportCmd p args m =
     on_parsed (Parse export_flag_set args (data_dir_flag p, [], ''responses'', env (p_env p) ''QS_TZ'' ''Local'')) m
       (\<lambda>(dir, sid, kind, tz).
          if sid = [] then (([], Failed (ErrRefused ''-survey is required'')), m)
          else case p_zone p tz of
            None \<Rightarrow> (([], Failed (ErrRefused ''timezone'')), m)
          | Some zone \<Rightarrow> openStore p dir m (\<lambda>i. (printed (export_file zone (p_fmt1 p) sid kind (sdb (in_store i))), i)))"

text \<open>The program: \<open>args\<close> are its arguments.\<close>

definition run :: "process \<Rightarrow> string list \<Rightarrow> machine \<Rightarrow> 'b ran" where
  "run p args m =
     (case args of
        [] \<Rightarrow> (([], Failed usage), m)
      | c # rest \<Rightarrow>
          if c = ''serve'' then serveCmd p rest m
          else if c = ''user'' then userCmd p rest m
          else if c = ''export'' then exportCmd p rest m
          else if c = ''healthcheck'' then healthcheck p rest m
          else if c = ''backup'' then backupCmd p rest m
          else if c = ''initial-password'' then initialPasswordCmd p rest m
          else if c \<in> {''-h'', ''--help'', ''help''} then
            ((concat (map (\<lambda>l. l @ [CHR 0x0A]) usage_lines), Finished), m)
          else (([], Failed (ErrRefused (''unknown command '' @ c))), m))"

text \<open>\<open>main\<close>: the exit status.\<close>

definition exit_status :: "'b ending \<Rightarrow> nat" where
  "exit_status e = (case e of Failed _ \<Rightarrow> 1 | Exited n \<Rightarrow> n | _ \<Rightarrow> 0)"

section \<open>What the commands do\<close>

text \<open>A limiter is off only when its rate is negative; zero, and a rate that is no number, mean the default.\<close>

lemma limits_on:
  "sv_login (newServer l v now st) = None \<longleftrightarrow> l < 0" "sv_voter (newServer l v now st) = None \<longleftrightarrow> v < 0"
  by (simp_all add: newServer_def newLimiter_def DefaultLoginRate_def DefaultVoterRate_def Let_def)

lemma unreadable_rate: "Atoi (genv ''QS_LOGIN_RATE'') = None \<Longrightarrow> fl_login_rate (serve_defaults genv) = DefaultLoginRate"
  by (simp add: serve_defaults_def envInt_def)

text \<open>
  The value of a boolean flag given as the next argument is not read: the flag means true, and the
  arguments from there on, flags included, are left unread.
\<close>

lemma bool_value_ignored:
  "Parse serve_flag_set [''-secure-cookies'', ''false'', ''-addr'', '':80''] fl = Parsed (fl\<lparr>fl_secure := True\<rparr>) [''false'', ''-addr'', '':80'']"
  by (simp add: serve_flag_set_def String_flag_def Bool_flag_def Int_flag_def split_flag_def set_flag_def ParseBool_def dash_def equals_def)

text \<open>The account commands take steps of the account history too.\<close>

lemma on_db_tx: "on_db (tx f) i = (x, i') \<Longrightarrow> in_dir i' = in_dir i \<and> in_disk i' = in_disk i \<and>
  (sdb (in_store i') = sdb (in_store i) \<or> (\<exists>y. f (sdb (in_store i)) = Inr (y, sdb (in_store i'))))"
  by (auto simp: on_db_def tx_def split: prod.split_asm sum.split_asm)

lemma on_db_stmt: "on_db (add_user_stmt f) i = (x, i') \<Longrightarrow> in_dir i' = in_dir i \<and> in_disk i' = in_disk i \<and>
  (sdb (in_store i') = sdb (in_store i) \<or> (\<exists>y. f (sdb (in_store i)) = Inr (y, sdb (in_store i'))))"
  by (auto simp: on_db_def add_user_stmt_def split: prod.split_asm sum.split_asm)

lemma say_snd: "snd (say msg x) = snd x"
  by (simp add: say_def split: prod.split sum.split)

lemma clear_simps [simp]:
  "in_store (clearInitialPassword sys i) = in_store i" "in_dir (clearInitialPassword sys i) = in_dir i"
  by (simp_all add: clearInitialPassword_def)

lemma write_simps [simp]:
  "in_store (snd (writeInitialPassword sys pw i)) = in_store i" "in_dir (snd (writeInitialPassword sys pw i)) = in_dir i"
  by (simp_all add: writeInitialPassword_def split: prod.split)

lemma SetPassword_file_snd:
  "in_store (snd (SetPassword_file kdf salt now sys name pw i)) = in_store (snd (on_db (tx (SetPassword kdf salt now name pw)) i))"
  "in_dir (snd (SetPassword_file kdf salt now sys name pw i)) = in_dir i"
  by (simp_all add: SetPassword_file_def on_db_def split: prod.split sum.split)

definition account_change :: "process \<Rightarrow> data_dir \<Rightarrow> data_dir \<Rightarrow> bool" where
  "account_change p i i' = (in_dir i' = in_dir i \<and>
     (sdb (in_store i') = sdb (in_store i) \<or> account_step (p_kdf p) concat (sdb (in_store i)) (sdb (in_store i'))))"

lemma user_action_step:
  assumes "p_now p \<noteq> 0"
  shows "account_change p i (snd (user_action p sub name role i))"
proof -
  let ?r = "account_change p i"
  have i: "?r i" by (simp add: account_change_def)
  have a: "?r (snd (on_db (add_user_stmt (AddUser (p_kdf p) (p_salt p) (p_now p) name role pw)) i))" for pw
    using on_db_stmt [of "AddUser (p_kdf p) (p_salt p) (p_now p) name role pw" i, OF surjective_pairing]
    by (auto simp: AddUser_def account_change_def intro: account_step.add_user)
  have w: "?r (snd (SetPassword_file (p_kdf p) (p_salt p) (p_now p) (p_sys p) name pw i))" for pw
    using on_db_tx [of "SetPassword (p_kdf p) (p_salt p) (p_now p) name pw" i, OF surjective_pairing] assms
    by (auto simp: SetPassword_file_snd account_change_def intro: account_step.set_password)
  have r: "?r (snd (on_db (tx (SetRole name role)) i))"
    using on_db_tx [of "SetRole name role" i, OF surjective_pairing] by (auto simp: account_change_def intro: account_step.set_role)
  have d: "?r (snd (on_db (tx (DeleteUser name)) i))"
    using on_db_tx [of "DeleteUser name" i, OF surjective_pairing] by (auto simp: account_change_def intro: account_step.delete_user)
  show ?thesis
    using i a w r d by (simp add: user_action_def say_snd split: sum.split)
qed

text \<open>What every command may do to a store that is open: the database stays sound and administrable.\<close>

definition keeps_store :: "data_dir \<Rightarrow> data_dir \<Rightarrow> bool" where
  "keeps_store i i' = (in_dir i' = in_dir i \<and> (db_ok (sdb (in_store i)) \<longrightarrow> db_ok (sdb (in_store i'))) \<and>
     (db_ok (sdb (in_store i)) \<longrightarrow> account_inv (sdb (in_store i)) \<longrightarrow> account_inv (sdb (in_store i'))))"

lemma keeps_refl: "keeps_store i i" and keeps_trans: "keeps_store i j \<Longrightarrow> keeps_store j k \<Longrightarrow> keeps_store i k"
  by (simp_all add: keeps_store_def)

lemma keeps_same: "in_store i' = in_store i \<Longrightarrow> in_dir i' = in_dir i \<Longrightarrow> keeps_store i i'"
  by (simp add: keeps_store_def)

lemma account_change_keeps: "account_change p i i' \<Longrightarrow> keeps_store i i'"
  using account_step_db_ok account_step_inv by (auto simp: account_change_def keeps_store_def)

lemma Open_keeps:
  assumes "Open stamp fresh sys i = (x, i')"
  shows "keeps_store i i' \<and> (db_ok (sdb (in_store i)) \<longrightarrow> untouched (sdb (in_store i)) (sdb (in_store i')))"
proof -
  have c: "in_store (create_db i) = in_store i" "in_dir (create_db i) = in_dir i" by (simp_all add: create_db_def)
  consider "in_store i' = in_store i" "in_dir i' = in_dir i"
    | st where "open_store stamp fresh (in_store i) = (x, st)" "in_store i' = st" "in_dir i' = in_dir i"
    using assms c by (auto simp: Open_def on_db_def Let_def split: if_splits prod.split_asm)
  then show ?thesis
  proof cases
    case 1
    then show ?thesis by (simp add: keeps_store_def)
  next
    case (2 st)
    have "db_ok (sdb (in_store i)) \<Longrightarrow> db_ok (sdb st) \<and> untouched (sdb (in_store i)) (sdb st)" using open_keeps [OF 2(1)] by blast
    then show ?thesis using 2 same_accounts_inv [of "sdb st" "sdb (in_store i)"] by (auto simp: keeps_store_def untouched_def)
  qed
qed

lemma bootstrap_keeps: "keeps_store i (snd (bootstrapAdmin kdf salt now b sys i))"
proof (cases "UserCount (sdb (in_store i)) > 0")
  case False
  let ?f = "addUser kdf salt now ''admin'' RoleAdmin (EncodeToString url_alphabet b) True False []"
  obtain x j where j: "on_db (add_user_stmt ?f) i = (x, j)" by fastforce
  note s = on_db_stmt [OF j]
  have "db_ok (sdb (in_store j)) = db_ok (sdb (in_store i))"
  proof (cases "sdb (in_store j) = sdb (in_store i)")
    case False
    then obtain y where "?f (sdb (in_store i)) = Inr (y, sdb (in_store j))" using s by blast
    then have "\<exists>us. sdb (in_store j) = sdb (in_store i)\<lparr>users := us\<rparr>"
      by (auto simp: addUser_def Let_def split: if_splits) (rule exI, erule sym)
    then obtain us where "sdb (in_store j) = sdb (in_store i)\<lparr>users := us\<rparr>" ..
    then show ?thesis using db_ok_cong [of "sdb (in_store j)" "sdb (in_store i)"] by simp
  qed simp
  moreover have "\<not> account_inv (sdb (in_store i))"
    using False by (simp add: UserCount_def account_inv_def accounts_ok_def administrable_def)
  ultimately have "keeps_store i j" using s by (simp add: keeps_store_def)
  moreover have "in_store (snd (bootstrapAdmin kdf salt now b sys i)) = in_store j" "in_dir (snd (bootstrapAdmin kdf salt now b sys i)) = in_dir j"
    using False j write_simps [of sys "EncodeToString url_alphabet b" j]
    by (auto simp: bootstrapAdmin_def AddUserMustChange_def simp del: write_simps split: prod.split sum.split)
  ultimately show ?thesis using keeps_trans keeps_same by blast
qed (simp add: bootstrapAdmin_def keeps_refl)

text \<open>The files: a command other than \<open>serve\<close> and \<open>user\<close> changes none that is there.\<close>

definition keeps_files :: "disk \<Rightarrow> disk \<Rightarrow> bool" where
  "keeps_files d d' = (\<forall>q f. d q = Some f \<longrightarrow> d' q = Some f)"

definition keeps_machine :: "machine \<Rightarrow> machine \<Rightarrow> bool" where
  "keeps_machine m m' =
     (((\<forall>q d. m_db m q = Some d \<longrightarrow> db_ok d) \<longrightarrow> (\<forall>q d. m_db m' q = Some d \<longrightarrow> db_ok d)) \<and>
      (\<forall>q d. m_db m q = Some d \<longrightarrow> db_ok d \<longrightarrow> account_inv d \<longrightarrow> (\<exists>d'. m_db m' q = Some d' \<and> account_inv d')))"

lemma empty_db_ok: "db_ok empty_db"
  by code_simp

lemma enter_simps [simp]:
  "in_dir (enter dir m) = dir" "in_disk (enter dir m) = m_disk m"
  "m_db m (Join dir dbFile) = Some d \<Longrightarrow> sdb (in_store (enter dir m)) = d"
  by (simp_all add: enter_def)

lemma leave_keeps:
  assumes "keeps_store (enter dir m) i"
  shows "keeps_machine m (leave i m)"
proof -
  have d: "in_dir i = dir" using assms by (simp add: keeps_store_def)
  show ?thesis
  proof (cases "m_db m (Join dir dbFile)")
    case None
    then have "db_ok (sdb (in_store i))" using assms empty_db_ok by (simp add: keeps_store_def enter_def)
    then show ?thesis using None d by (auto simp: keeps_machine_def leave_def)
  next
    case (Some x)
    then show ?thesis using assms d by (auto simp: keeps_machine_def leave_def keeps_store_def)
  qed
qed

lemma keeps_machine_refl: "keeps_machine m m"
  by (simp add: keeps_machine_def)

lemma openStore_keeps:
  assumes "openStore p dir m work = (x, m')" and "\<And>i y i'. work i = (y, i') \<Longrightarrow> keeps_store i i'"
  shows "keeps_machine m m'"
proof -
  obtain y i where o1: "Open (p_stamp p) (p_fresh p) (p_sys p) (enter dir m) = (y, i)" by fastforce
  note k = conjunct1 [OF Open_keeps [OF o1]]
  show ?thesis
  proof (cases y)
    case (Inl e)
    then show ?thesis using assms(1) o1 leave_keeps [OF k] by (simp add: openStore_def)
  next
    case (Inr secret)
    obtain z j where w: "work i = (z, j)" by fastforce
    then show ?thesis using assms(1) o1 Inr leave_keeps [OF keeps_trans [OF k assms(2) [OF w]]] by (simp add: openStore_def)
  qed
qed

lemma on_parsed_keeps:
  "on_parsed x m k = (y, m') \<Longrightarrow> (\<And>r y m'. k r = (y, m') \<Longrightarrow> keeps_machine m m') \<Longrightarrow> keeps_machine m m'"
  by (auto simp: on_parsed_def keeps_machine_refl split: parsed.split_asm)

text \<open>A command that only reads: beside exposures and markers of the upgrade no table changes, and no file that is there.\<close>

definition reads_machine :: "machine \<Rightarrow> machine \<Rightarrow> bool" where
  "reads_machine m m' = (keeps_files (m_disk m) (m_disk m') \<and>
     (\<forall>q d. m_db m q = Some d \<longrightarrow> db_ok d \<longrightarrow> (\<exists>d'. m_db m' q = Some d' \<and> untouched d d')))"

lemma reads_machine_refl: "reads_machine m m"
  by (simp add: reads_machine_def keeps_files_def)

lemma Open_disk: "Open stamp fresh sys i = (x, i') \<Longrightarrow> keeps_files (in_disk i) (in_disk i')"
  by (auto simp: Open_def on_db_def create_db_def keeps_files_def Let_def split: if_splits prod.split_asm)

lemma openStore_reads:
  assumes "openStore p dir m work = (x, m')"
    and "\<And>i y i'. work i = (y, i') \<Longrightarrow> in_store i' = in_store i \<and> in_dir i' = in_dir i \<and> keeps_files (in_disk i) (in_disk i')"
  shows "reads_machine m m'"
proof -
  obtain y i where o1: "Open (p_stamp p) (p_fresh p) (p_sys p) (enter dir m) = (y, i)" by fastforce
  obtain j where j: "m' = leave j m" "in_store j = in_store i" "in_dir j = in_dir i" "keeps_files (in_disk i) (in_disk j)"
  proof (cases y)
    case (Inl e)
    then show ?thesis using assms(1) o1 that [of i] by (simp add: openStore_def keeps_files_def)
  next
    case (Inr secret)
    obtain z j where "work i = (z, j)" by fastforce
    with Inr show ?thesis using assms(1) o1 that [of j] assms(2) by (simp add: openStore_def)
  qed
  have "in_dir i = dir" using Open_keeps [OF o1] by (simp add: keeps_store_def)
  moreover have "keeps_files (m_disk m) (m_disk m')"
    using Open_disk [OF o1] j by (simp add: keeps_files_def leave_def)
  moreover have "untouched d (sdb (in_store i))" if "m_db m (Join dir dbFile) = Some d" "db_ok d" for d
    using conjunct2 [OF Open_keeps [OF o1]] that by simp
  ultimately show ?thesis using j(1-3) by (auto simp: reads_machine_def leave_def)
qed

lemma on_parsed_reads:
  "on_parsed x m k = (y, m') \<Longrightarrow> (\<And>r y m'. k r = (y, m') \<Longrightarrow> reads_machine m m') \<Longrightarrow> reads_machine m m'"
  by (auto simp: on_parsed_def reads_machine_refl split: parsed.split_asm)

lemma backup_store_keeps:
  assumes "backup_store p dir to i = (y, i')"
  shows "in_store i' = in_store i \<and> in_dir i' = in_dir i \<and> keeps_files (in_disk i) (in_disk i')"
proof -
  obtain x1 d1 where b: "BackupTo (p_bytes p) (p_sys p) (p_cwd p) to (sdb (in_store i)) (in_disk i) = (x1, d1)" by fastforce
  obtain x2 out d2 where w: "BackupToWriter (p_bytes p) (p_sys p) dir (sdb (in_store i)) (in_disk i) = ((x2, out), d2)" by (metis surj_pair)
  have "keeps_files (in_disk i) d1" using BackupTo_cases [OF b] by (auto simp: keeps_files_def)
  moreover have "keeps_files (in_disk i) d2" using BackupToWriter_cases [OF w] by (auto simp: keeps_files_def)
  ultimately show ?thesis using assms by (auto simp: backup_store_def b w split: if_splits sum.split_asm)
qed

lemma reading_commands:
  "initialPasswordCmd p args m = (x, m') \<Longrightarrow> reads_machine m m'"
  "exportCmd p args m = (x, m') \<Longrightarrow> reads_machine m m'"
  "healthcheck p args m = (x, m') \<Longrightarrow> reads_machine m m'"
  "backupCmd p args m = (x, m') \<Longrightarrow> reads_machine m m'"
proof -
  have b: "openStore p dir m (backup_store p dir to) = (y, m') \<Longrightarrow> reads_machine m m'" for dir to y m' and p :: process
    by (erule openStore_reads) (rule backup_store_keeps)
  show "backupCmd p args m = (x, m') \<Longrightarrow> reads_machine m m'"
    unfolding backupCmd_def
    by (erule on_parsed_reads) (auto simp: reads_machine_refl split: prod.split_asm if_splits dest: b)
  show "initialPasswordCmd p args m = (x, m') \<Longrightarrow> reads_machine m m'"
    unfolding initialPasswordCmd_def by (erule on_parsed_reads, erule openStore_reads) (auto simp: keeps_files_def)
  show "healthcheck p args m = (x, m') \<Longrightarrow> reads_machine m m'"
    unfolding healthcheck_def
    by (erule on_parsed_reads) (auto simp: reads_machine_refl split: sum.split_asm if_splits)
  have e: "openStore p dir m (\<lambda>i. (f i, i)) = (y, m') \<Longrightarrow> reads_machine m m'" for f and dir y m' and p :: process
    by (erule openStore_reads) (auto simp: keeps_files_def)
  show "exportCmd p args m = (x, m') \<Longrightarrow> reads_machine m m'"
    unfolding exportCmd_def
    by (erule on_parsed_reads) (auto simp: reads_machine_refl split: prod.split_asm if_splits option.split_asm dest: e)
qed

lemma on_db_stmt_Inr:
  "on_db (add_user_stmt f) i = (Inr u, i') \<Longrightarrow> f (sdb (in_store i)) = Inr (u, sdb (in_store i'))"
  by (auto simp: on_db_def add_user_stmt_def split: prod.split_asm sum.split_asm)

lemma serve_result:
  assumes "serve fl kdf stamp fresh salt now b sys i = (x, i')"
  shows "keeps_store i i'" and "x = Inr (k, s) \<Longrightarrow> sdb_of s = sdb (in_store i') \<and> UserCount (sdb_of s) > 0"
proof -
  obtain y j where o1: "Open stamp fresh sys i = (y, j)" by fastforce
  obtain z l where b1: "bootstrapAdmin kdf salt now b sys j = (z, l)" by fastforce
  note kj = conjunct1 [OF Open_keeps [OF o1]]
  have kl: "keeps_store j l" using bootstrap_keeps [of j kdf salt now b sys] b1 by simp
  show "keeps_store i i'"
    using assms o1 b1 kj keeps_trans [OF kj kl] by (auto simp: serve_def split: sum.split_asm)
  show "sdb_of s = sdb (in_store i') \<and> UserCount (sdb_of s) > 0" if "x = Inr (k, s)"
  proof -
    have r: "z = Inr ()" "i' = l" "s = newServer (fl_login_rate fl) (fl_voter_rate fl) now (in_store l)"
      using assms o1 b1 that by (auto simp: serve_def split: sum.split_asm)
    have "UserCount (sdb (in_store l)) > 0"
    proof (cases "UserCount (sdb (in_store j)) > 0")
      case True
      then show ?thesis using b1 by (simp add: bootstrapAdmin_def)
    next
      case False
      let ?f = "addUser kdf salt now ''admin'' RoleAdmin (EncodeToString url_alphabet b) True False []"
      obtain u h where a: "on_db (add_user_stmt ?f) j = (Inr u, h)" "in_store l = in_store h"
        using b1 r(1) False
        by (auto simp: bootstrapAdmin_def AddUserMustChange_def writeInitialPassword_def split: prod.split_asm sum.split_asm)
      have "?f (sdb (in_store j)) = Inr (u, sdb (in_store l))" using on_db_stmt_Inr [OF a(1)] a(2) by simp
      then show ?thesis by (auto simp: addUser_def UserCount_def Let_def split: if_splits dest!: sym [of "_ \<lparr>users := _\<rparr>"])
    qed
    then show ?thesis using r by (simp add: newServer_def sdb_of_def Let_def)
  qed
qed

lemma serveCmd_result:
  assumes "serveCmd p args m = ((out, e), m')"
  shows "keeps_machine m m' \<and>
    (\<forall>k fl s. e = Serving k fl s \<longrightarrow> m_db m' (Join (fl_data fl) dbFile) = Some (sdb_of s) \<and> UserCount (sdb_of s) > 0)"
proof (cases "Parse serve_flag_set args (serve_defaults (p_env p))")
  case (ExitWith n)
  then show ?thesis using assms by (auto simp: serveCmd_def serve_with_def on_parsed_def keeps_machine_refl)
next
  case (Parsed fl rest)
  show ?thesis
  proof (cases "p_zone p (fl_tz fl) = None")
    case True
    then show ?thesis using assms Parsed by (auto simp: serveCmd_def serve_with_def on_parsed_def keeps_machine_refl)
  next
    case False
    obtain x :: "err + (string \<times> 'a server)" and i where
      s: "serve fl (p_kdf p) (p_stamp p) (p_fresh p) (p_salt p) (p_now p) (p_random p) (p_sys p) (enter (fl_data fl) m) = (x, i)" by fastforce
    note k = serve_result(1) [OF s]
    have d: "in_dir i = fl_data fl" using k by (simp add: keeps_store_def)
    have "m' = leave i m" "e = (case x of Inl e \<Rightarrow> Failed e | Inr (secret, sv) \<Rightarrow> Serving secret fl sv)"
      using assms Parsed False s by (auto simp: serveCmd_def serve_with_def on_parsed_def split: sum.split_asm)
    then show ?thesis
      using leave_keeps [OF k] serve_result(2) [OF s] d by (auto simp: leave_def split: sum.split_asm prod.split_asm)
  qed
qed

lemma userCmd_keeps:
  assumes "p_now p \<noteq> 0" "userCmd p args m = (x, m')"
  shows "keeps_machine m m'"
proof (cases args)
  case Nil
  then show ?thesis using assms(2) by (simp add: userCmd_def keeps_machine_refl)
next
  case (Cons sub rest)
  have o1: "openStore p dir m (\<lambda>i. apfst printed (user_action p sub name role i)) = (y, m') \<Longrightarrow> keeps_machine m m'" for dir name role y m'
  proof (erule openStore_keeps)
    fix i z i'
    assume "apfst printed (user_action p sub name role i) = (z, i')"
    then have "i' = snd (user_action p sub name role i)" by (auto simp: apfst_def map_prod_def split: prod.split_asm)
    then show "keeps_store i i'" using account_change_keeps [OF user_action_step [OF assms(1)]] by simp
  qed
  show ?thesis
    using assms(2) unfolding userCmd_def Cons list.case
    by (rule on_parsed_keeps) (auto split: prod.split_asm dest: o1)
qed

lemma reading_keeps:
  "initialPasswordCmd p args m = (x, m') \<Longrightarrow> keeps_machine m m'"
  "exportCmd p args m = (x, m') \<Longrightarrow> keeps_machine m m'"
  "healthcheck p args m = (x, m') \<Longrightarrow> keeps_machine m m'"
  "backupCmd p args m = (x, m') \<Longrightarrow> keeps_machine m m'"
proof -
  have e: "openStore p dir m (\<lambda>i. (f i, i)) = (y, m') \<Longrightarrow> keeps_machine m m'" for f and dir y m' and p :: process
    by (erule openStore_keeps) (auto simp: keeps_refl)
  have b: "openStore p dir m (backup_store p dir to) = (y, m') \<Longrightarrow> keeps_machine m m'" for dir to y m' and p :: process
    by (erule openStore_keeps) (use backup_store_keeps keeps_same in blast)
  show "initialPasswordCmd p args m = (x, m') \<Longrightarrow> keeps_machine m m'"
    unfolding initialPasswordCmd_def by (erule on_parsed_keeps) (erule e)
  show "exportCmd p args m = (x, m') \<Longrightarrow> keeps_machine m m'"
    unfolding exportCmd_def
    by (erule on_parsed_keeps) (auto simp: keeps_machine_refl split: prod.split_asm if_splits option.split_asm dest: e)
  show "healthcheck p args m = (x, m') \<Longrightarrow> keeps_machine m m'"
    unfolding healthcheck_def by (erule on_parsed_keeps) (auto simp: keeps_machine_refl split: sum.split_asm if_splits)
  show "backupCmd p args m = (x, m') \<Longrightarrow> keeps_machine m m'"
    unfolding backupCmd_def
    by (erule on_parsed_keeps) (auto simp: keeps_machine_refl split: prod.split_asm if_splits dest: b)
qed

lemma run_cases:
  assumes "run p args m = (x, m')"
  obtains "args = []" "m' = m" "\<And>k fl s. snd x \<noteq> Serving k fl s"
  | rest where "args = ''serve'' # rest" "serveCmd p rest m = (x, m')"
  | rest where "args = ''user'' # rest" "userCmd p rest m = (x, m')"
  | c rest where "args = c # rest" "c \<noteq> ''serve''" "c \<noteq> ''user''" "keeps_machine m m'" "reads_machine m m'"
proof (cases args)
  case Nil
  then show thesis using assms that(1) by (auto simp: run_def)
next
  case (Cons c rest)
  consider "c = ''serve''" | "c = ''user''" | "c \<noteq> ''serve''" "c \<noteq> ''user''" by blast
  then show thesis
  proof cases
    case 3
    have "keeps_machine m m' \<and> reads_machine m m'"
      using assms 3 Cons
      by (auto simp: run_def keeps_machine_refl reads_machine_refl intro: reading_keeps reading_commands split: if_splits)
    then show thesis using that(4) [OF Cons 3] by blast
  qed (use assms Cons that(2,3) in \<open>auto simp: run_def\<close>)
qed

section \<open>A first start\<close>

lemma token_ends:
  "\<forall>p\<in>set space_runes. p \<noteq> [] \<longrightarrow> hd p \<notin> set url_alphabet"
  "\<forall>p\<in>set (map rev space_runes). p \<noteq> [] \<longrightarrow> hd p \<notin> set url_alphabet"
  by code_simp+

lemma TrimSpace_line:
  assumes "s \<noteq> []" and "set s \<subseteq> set url_alphabet"
  shows "TrimSpace (s @ [CHR 0x0A]) = s"
proof -
  have no: "no_lead rs (x @ y)" if "\<forall>p\<in>set rs. p \<noteq> [] \<longrightarrow> hd p \<notin> set url_alphabet" "x \<noteq> []" "set x \<subseteq> set url_alphabet" for rs x y
    using that by (cases x) (auto simp: no_lead_def dest: starts_with_hd)
  have l: "trim_left space_runes (s @ [CHR 0x0A]) = s @ [CHR 0x0A]"
    by (intro trim_left_id no token_ends(1) assms)
  have "trim_left (map rev space_runes) (CHR 0x0A # rev s) = trim_left (map rev space_runes) (rev s)"
    by (subst trim_left.simps) (simp add: space_runes_def starts_with_def)
  also have "\<dots> = rev s"
    using no [OF token_ends(2), of "rev s" "[]"] assms by (intro trim_left_id) simp
  finally show ?thesis by (simp add: TrimSpace_def l)
qed

definition new_meta :: "string \<Rightarrow> string \<Rightarrow> (string \<times> string) list" where
  "new_meta stamp fresh = [(''seen_backfilled'', stamp), (''secret'', fresh)]"

lemma open_empty:
  "open_store stamp fresh \<lparr>sdb = empty_db, gen = g\<rparr> = (Inr fresh, \<lparr>sdb = empty_db\<lparr>meta := new_meta stamp fresh\<rparr>, gen = g + 1\<rparr>)"
  by (simp add: open_store_def backfillSeen_def backfill_todo_def backfill_done_def surveyIDsAfter_def empty_db_def tx_def
      mark_done_def meta_delete_def meta_put_def loadOrCreateSecret_def meta_get_def new_meta_def Let_def)

lemma open_again:
  assumes "32 \<le> length fresh"
  shows "open_store stamp' fresh' \<lparr>sdb = d\<lparr>meta := new_meta stamp fresh\<rparr>, gen = g\<rparr> =
    (Inr fresh, \<lparr>sdb = d\<lparr>meta := new_meta stamp fresh\<rparr>, gen = g\<rparr>)"
  using assms by (simp add: open_store_def backfillSeen_def backfill_done_def loadOrCreateSecret_def meta_get_def new_meta_def)

text \<open>The first administrator.\<close>

definition first_admin :: "process \<Rightarrow> user" where
  "first_admin p =
     \<lparr>u_name = ''admin'', u_role = RoleAdmin, u_hash = hashPassword (p_kdf p) (p_salt p) (EncodeToString url_alphabet (p_random p)),
      u_created = p_now p, u_must_change = True, u_pending = False, u_invited_by = [], u_sessions_from = 0\<rparr>"

definition first_db :: "process \<Rightarrow> db" where
  "first_db p = (empty_db\<lparr>users := [first_admin p]\<rparr>)\<lparr>meta := new_meta (p_stamp p) (p_fresh p)\<rparr>"

definition new_machine :: machine where
  "new_machine = \<lparr>m_db = Map.empty, m_disk = Map.empty\<rparr>"

text \<open>The machine after a first start; the password file is there when it could be written.\<close>

definition started :: "process \<Rightarrow> string \<Rightarrow> bool \<Rightarrow> machine" where
  "started p dir wrote =
     \<lparr>m_db = [Join dir dbFile \<mapsto> first_db p],
      m_disk = (if wrote then [Join dir dbFile \<mapsto> db_file, InitialPasswordFile dir \<mapsto>
          written (EncodeToString url_alphabet (p_random p) @ [CHR 0x0A]) 384]
        else [Join dir dbFile \<mapsto> db_file])\<rparr>"

lemma admin_facts: "TrimSpace ''admin'' = ''admin''" "ValidUsername ''admin''" "ValidRole RoleAdmin"
  by code_simp+

lemma file_facts:
  "plain_name dbFile" "plain_name ''initial-password''" "take 5 dbFile \<noteq> ''.tmp-''" "take 5 ''initial-password'' \<noteq> ''.tmp-''"
  "dbFile \<noteq> ''initial-password''"
  by code_simp+

lemma two_files: "InitialPasswordFile dir \<noteq> Join dir dbFile"
  using file_facts(5) unfolding InitialPasswordFile_def Join_name [OF file_facts(1)] Join_name [OF file_facts(2)] by auto

text \<open>No call fails and the first name drawn is one a file can have.\<close>

definition can_write :: "os \<Rightarrow> string \<Rightarrow> bool" where
  "can_write sys dir = (os_fails sys = [] \<and> os_rnds sys \<noteq> [] \<and>
     CHR 0x00 \<notin> set (temp_name (Clean dir) ''.tmp-'' (hd (os_rnds sys))))"

lemma write_new:
  assumes "can_write sys dir"
  shows "writeFileAtomic sys (InitialPasswordFile dir) bytes 384 [Join dir dbFile \<mapsto> db_file] =
    (Inr (), [Join dir dbFile \<mapsto> db_file, InitialPasswordFile dir \<mapsto> written bytes 384])"
proof -
  obtain r rs where r: "os_rnds sys = r # rs" using assms by (cases "os_rnds sys") (auto simp: can_write_def)
  let ?t = "temp_name (Clean dir) ''.tmp-'' r"
  have d: "Dir (InitialPasswordFile dir) = Clean dir" by (simp add: InitialPasswordFile_def Dir_Join [OF file_facts(2)])
  have "?t \<noteq> Join dir dbFile" "?t \<noteq> InitialPasswordFile dir"
    using own_name_Join [OF file_facts(1,3), of dir] own_name_Join [OF file_facts(2,4), of dir]
    by (simp_all add: own_name_def Dir_Join [OF file_facts(1)] Dir_Join [OF file_facts(2)] InitialPasswordFile_def)
  moreover from this have "CreateTemp (os_rnds sys) (Dir (InitialPasswordFile dir)) ''.tmp-'' [Join dir dbFile \<mapsto> db_file] =
      (Inr ?t, [Join dir dbFile \<mapsto> db_file, ?t \<mapsto> empty_temp])"
    using assms r by (simp add: CreateTemp_def d can_write_def)
  ultimately show ?thesis using writeFileAtomic_succeeds [where sys = sys] assms by (metis can_write_def)
qed

lemma no_failure: "os_fails sys = [] \<Longrightarrow> \<not> fails sys c"
  by (simp add: fails_def)

lemma Open_new:
  assumes "os_fails sys = []"
  shows "Open stamp fresh sys (enter dir new_machine) =
    (Inr fresh, \<lparr>in_store = \<lparr>sdb = empty_db\<lparr>meta := new_meta stamp fresh\<rparr>, gen = 1\<rparr>, in_dir = dir, in_disk = [Join dir dbFile \<mapsto> db_file]\<rparr>)"
  using assms by (simp add: Open_def no_failure enter_def new_machine_def create_db_def on_db_def open_empty)

lemma bootstrap_new:
  assumes "8 \<le> length (p_random p)"
  shows "bootstrapAdmin (p_kdf p) (p_salt p) (p_now p) (p_random p) sys
      \<lparr>in_store = \<lparr>sdb = empty_db\<lparr>meta := new_meta (p_stamp p) (p_fresh p)\<rparr>, gen = 1\<rparr>, in_dir = dir, in_disk = d\<rparr> =
    (case writeFileAtomic sys (InitialPasswordFile dir) (EncodeToString url_alphabet (p_random p) @ [CHR 0x0A]) 384 d of
       (x, d') \<Rightarrow> (x, \<lparr>in_store = \<lparr>sdb = first_db p, gen = 1\<rparr>, in_dir = dir, in_disk = d'\<rparr>))"
proof -
  have "\<not> length (EncodeToString url_alphabet (p_random p)) < 8" using assms EncodeToString_length [of "p_random p" url_alphabet] by simp
  then show ?thesis
    by (simp add: bootstrapAdmin_def UserCount_def AddUserMustChange_def on_db_def add_user_stmt_def addUser_def admin_facts
        writeInitialPassword_def first_admin_def first_db_def empty_db_def Let_def split: prod.split sum.split)
qed

text \<open>What \<open>serve\<close> runs on, when its flags parse and its time zone is known.\<close>

definition served_with :: "process \<Rightarrow> string list \<Rightarrow> serve_flags \<Rightarrow> bool" where
  "served_with p args fl =
     (p_zone p (fl_tz fl) \<noteq> None \<and> (\<exists>rest. Parse serve_flag_set args (serve_defaults (p_env p)) = Parsed fl rest))"

definition server_of :: "process \<Rightarrow> serve_flags \<Rightarrow> store \<Rightarrow> 'b server" where
  "server_of p fl st = newServer (fl_login_rate fl) (fl_voter_rate fl) (p_now p) st"

lemma run_serve:
  assumes "served_with p args fl"
  shows "run p (''serve'' # args) m =
    (case serve fl (p_kdf p) (p_stamp p) (p_fresh p) (p_salt p) (p_now p) (p_random p) (p_sys p) (enter (fl_data fl) m) of
       (Inl e, i) \<Rightarrow> (([], Failed e), leave i m)
     | (Inr (secret, s), i) \<Rightarrow> (([], Serving secret fl s), leave i m))"
  using assms by (auto simp: run_def serveCmd_def serve_with_def on_parsed_def served_with_def)

lemma run_new:
  assumes "served_with p args fl" "can_write (p_sys p) (fl_data fl)" "8 \<le> length (p_random p)"
  shows "run p (''serve'' # args) new_machine =
    (([], Serving (p_fresh p) fl (server_of p fl \<lparr>sdb = first_db p, gen = 1\<rparr>)), started p (fl_data fl) True)"
proof -
  have "os_fails (p_sys p) = []" using assms(2) by (simp add: can_write_def)
  moreover have "leave \<lparr>in_store = \<lparr>sdb = first_db p, gen = 1\<rparr>, in_dir = dir, in_disk = m_disk (started p dir True)\<rparr> new_machine =
      started p dir True" for dir
    by (simp add: leave_def new_machine_def started_def)
  ultimately show ?thesis
    by (simp add: run_serve [OF assms(1)] serve_def Open_new bootstrap_new [OF assms(3)] write_new [OF assms(2)] server_of_def started_def)
qed

text \<open>Opening a started machine changes nothing.\<close>

lemma Open_again:
  assumes "32 \<le> length (p_fresh p)" "os_fails sys = []"
  shows "Open stamp fresh sys (enter dir (started p dir w)) =
    (Inr (p_fresh p), \<lparr>in_store = \<lparr>sdb = first_db p, gen = 0\<rparr>, in_dir = dir, in_disk = m_disk (started p dir w)\<rparr>)"
proof -
  have "create_db (enter dir (started p dir w)) = enter dir (started p dir w)"
    by (simp add: create_db_def) (simp add: started_def two_files [symmetric])
  moreover have "enter dir (started p dir w) = \<lparr>in_store = \<lparr>sdb = first_db p, gen = 0\<rparr>, in_dir = dir, in_disk = m_disk (started p dir w)\<rparr>"
    by (simp add: enter_def started_def)
  ultimately show ?thesis
    using open_again [OF assms(1)] assms(2) by (simp add: Open_def no_failure on_db_def first_db_def)
qed

lemma leave_started:
  "leave \<lparr>in_store = \<lparr>sdb = first_db p, gen = g\<rparr>, in_dir = dir, in_disk = m_disk (started p dir w)\<rparr> (started p dir w) = started p dir w"
  by (simp add: leave_def started_def)

lemma run_again:
  assumes "served_with q args fl" "os_fails (p_sys q) = []" "32 \<le> length (p_fresh p)"
  shows "run q (''serve'' # args) (started p (fl_data fl) w) =
    (([], Serving (p_fresh p) fl (server_of q fl \<lparr>sdb = first_db p, gen = 0\<rparr>)), started p (fl_data fl) w)"
proof -
  have "UserCount (first_db p) > 0" by (simp add: UserCount_def first_db_def)
  then show ?thesis
    by (simp add: run_serve [OF assms(1)] serve_def Open_again [OF assms(3,2)] bootstrapAdmin_def server_of_def leave_started)
qed

lemma run_initial_password:
  assumes "os_fails (p_sys q) = []" "8 \<le> length (p_random p)" "32 \<le> length (p_fresh p)"
  shows "run q [''initial-password'', ''-data'', dir] (started p dir True) =
    ((EncodeToString url_alphabet (p_random p) @ [CHR 0x0A], Finished), started p dir True)"
proof -
  let ?pw = "EncodeToString url_alphabet (p_random p)"
  let ?i = "\<lparr>in_store = \<lparr>sdb = first_db p, gen = 0\<rparr>, in_dir = dir, in_disk = m_disk (started p dir True)\<rparr>"
  have "?pw \<noteq> []" using assms(2) EncodeToString_length [of "p_random p" url_alphabet] by auto
  then have "TrimSpace (?pw @ [CHR 0x0A]) = ?pw" using TrimSpace_line [OF _ Encode_chars [OF alphabets_good(2)]] by simp
  moreover have "in_file ?i = Some (?pw @ [CHR 0x0A])"
    using two_files [of dir] by (simp add: in_file_def started_def written_def)
  ultimately have i: "InitialPassword (p_sys q) ?i = Inr ?pw" by (simp add: InitialPassword_def no_failure [OF assms(1)])
  have "Parse [String_flag ''data'' (\<lambda>x _. x)] [''-data'', dir] d0 = Parsed dir []" for d0
    by (simp add: String_flag_def split_flag_def set_flag_def dash_def equals_def)
  then show ?thesis
    using i by (simp add: run_def initialPasswordCmd_def on_parsed_def openStore_def Open_again [OF assms(3,1)] printed_def leave_started)
qed

text \<open>
  When the password cannot be written down, the account is there all the same: the next start sees
  an account, creates none, and nobody knows its password.
\<close>

lemma lost_password:
  assumes "served_with p args fl" "os_fails (p_sys p) = []" "os_rnds (p_sys p) = []" "8 \<le> length (p_random p)" "32 \<le> length (p_fresh p)"
    and "served_with q args fl" "os_fails (p_sys q) = []"
  shows "\<exists>e. run p (''serve'' # args) new_machine = (([], Failed e), started p (fl_data fl) False)"
    and "snd (run q (''serve'' # args) (started p (fl_data fl) False)) = started p (fl_data fl) False"
    and "m_disk (started p (fl_data fl) False) (InitialPasswordFile (fl_data fl)) = None"
proof -
  have "writeFileAtomic (p_sys p) path bytes perm d = (Inl (ErrExists ''createtemp''), d)" for path bytes perm d
    using assms(3) by (simp add: writeFileAtomic_def CreateTemp_def)
  moreover have "leave \<lparr>in_store = \<lparr>sdb = first_db p, gen = 1\<rparr>, in_dir = dir, in_disk = m_disk (started p dir False)\<rparr> new_machine =
      started p dir False" for dir
    by (simp add: leave_def new_machine_def started_def)
  ultimately show "\<exists>e. run p (''serve'' # args) new_machine = (([], Failed e), started p (fl_data fl) False)"
    using assms(2) by (simp add: run_serve [OF assms(1)] serve_def Open_new bootstrap_new [OF assms(4)] started_def)
  show "snd (run q (''serve'' # args) (started p (fl_data fl) False)) = started p (fl_data fl) False"
    by (simp add: run_again [OF assms(6,7,5)])
  show "m_disk (started p (fl_data fl) False) (InitialPasswordFile (fl_data fl)) = None"
    using two_files by (simp add: started_def)
qed

text \<open>Setting the password of any account removes the file, though the first administrator's password still works.\<close>

lemma other_password_clears_file:
  assumes "name \<noteq> ''admin''" and "\<not> fails sys Remove" and "SetPassword_file kdf salt now sys name pw i = (Inr (), i')"
  shows "in_file i' = None \<and> UserOf (sdb (in_store i')) ''admin'' = UserOf (sdb (in_store i)) ''admin''"
proof -
  obtain st' where t: "tx (SetPassword kdf salt now name pw) (in_store i) = (Inr (), st')" "i' = clearInitialPassword sys (i\<lparr>in_store := st'\<rparr>)"
    using assms(3) by (auto simp: SetPassword_file_def on_db_def split: prod.split_asm sum.split_asm)
  then obtain d' where d: "SetPassword kdf salt now name pw (sdb (in_store i)) = Inr ((), d')" "sdb st' = d'"
    by (auto simp: tx_def split: sum.split_asm prod.split_asm)
  have "UserOf d' ''admin'' = UserOf (sdb (in_store i)) ''admin''"
    using SetPassword_cases(1) [OF d(1)] assms(1) by (simp add: UserOf_def lookup_modify_by)
  with t(2) d(2) assms(2) show ?thesis by (simp add: clearInitialPassword_def in_file_def)
qed

section \<open>Properties\<close>

lemma first_db_sound: "db_ok (first_db p)" "account_inv (first_db p)"
proof -
  show "db_ok (first_db p)" using db_ok_cong [of "first_db p" empty_db] empty_db_ok by (simp add: first_db_def)
  show "account_inv (first_db p)"
    by (simp add: account_inv_def accounts_ok_def users_ok_def administrable_def approved_admin_def links_ok_def
      first_db_def first_admin_def empty_db_def admin_facts roles_ok_def invites_valid_def resets_valid_def)
qed

lemma server_of_db: "sdb_of (server_of p fl st) = sdb st"
  by (simp add: server_of_def newServer_def sdb_of_def Let_def)

lemma first_db_auth:
  assumes "\<And>pw s n. length (p_kdf p pw s n 32) = 32"
  shows "Authenticate (p_kdf p) (first_db p) ''admin'' (EncodeToString url_alphabet (p_random p)) = Some (first_admin p)"
proof -
  have "verifyPassword (p_kdf p) (u_hash (first_admin p)) (EncodeToString url_alphabet (p_random p))"
    using accepts_derived [of "p_kdf p"] assms by (simp add: first_admin_def)
  then show ?thesis by (simp add: Authenticate_def UserOf_def first_db_def) (simp add: first_admin_def)
qed


definition demo_process :: process where
  "demo_process = \<lparr>p_env = \<lambda>_. [], p_stdin = [], p_cwd = Some ''/'', p_sys = \<lparr>os_rnds = [''1''], os_fails = [], os_short = 0\<rparr>,
     p_kdf = demo_kdf, p_stamp = ''t'', p_fresh = replicate 32 CHR ''k'', p_salt = ''salt'', p_now = 99, p_random = ''012345678901'',
     p_zone = \<lambda>_. Some (\<lambda>_. []), p_rfc3339 = \<lambda>_. [], p_fmt1 = \<lambda>_. [], p_probe = \<lambda>_. Inr 200, p_bytes = \<lambda>_. ''SQLite''\<rparr>"

definition demo_flags :: serve_flags where
  "demo_flags = (serve_defaults (\<lambda>_. []))\<lparr>fl_data := ''/srv'', fl_secure := False\<rparr>"

lemma demo_process_facts:
  "length (p_kdf demo_process pw s n 32) = 32" "8 \<le> length (p_random demo_process)" "32 \<le> length (p_fresh demo_process)"
  "served_with demo_process [''-data'', ''/srv'', ''--secure-cookies=false''] demo_flags" "can_write (p_sys demo_process) (fl_data demo_flags)"
  "os_fails (p_sys demo_process) = []" "p_now demo_process \<noteq> 0" "p_fresh demo_process = replicate 32 CHR ''k''"
proof -
  have "CHR 0x00 \<notin> set (temp_name (Clean ''/srv'') ''.tmp-'' ''1'')" by code_simp
  then show "can_write (p_sys demo_process) (fl_data demo_flags)" by (simp add: can_write_def demo_process_def demo_flags_def)
  show "served_with demo_process [''-data'', ''/srv'', ''--secure-cookies=false''] demo_flags"
    by (simp add: served_with_def demo_process_def demo_flags_def serve_flag_set_def String_flag_def Bool_flag_def Int_flag_def
        split_flag_def set_flag_def ParseBool_def dash_def equals_def)
qed (simp_all add: demo_process_def demo_kdf_def)


text \<open>Only \<open>serve\<close> ends serving.\<close>

lemma openStore_ends:
  "(\<And>i. snd (fst (work i)) \<noteq> Serving k fl s) \<Longrightarrow> snd (fst (openStore p dir m work)) \<noteq> Serving k fl s"
  by (simp add: openStore_def split: prod.split sum.split) (metis fst_conv snd_conv)

lemma on_parsed_ends:
  "(\<And>r. snd (fst (h r)) \<noteq> Serving k fl s) \<Longrightarrow> snd (fst (on_parsed x m h)) \<noteq> Serving k fl s"
  by (simp add: on_parsed_def split: parsed.split)

lemma printed_ends: "snd (printed x) \<noteq> Serving k fl s"
  by (simp add: printed_def split: sum.split)

lemma backup_store_ends: "snd (fst (backup_store p dir to i)) \<noteq> Serving k fl s"
  by (simp add: backup_store_def split: prod.split sum.split)

lemma others_end:
  "snd (fst (userCmd p args m)) \<noteq> Serving k fl s" "snd (fst (exportCmd p args m)) \<noteq> Serving k fl s"
  "snd (fst (healthcheck p args m)) \<noteq> Serving k fl s" "snd (fst (backupCmd p args m)) \<noteq> Serving k fl s"
  "snd (fst (initialPasswordCmd p args m)) \<noteq> Serving k fl s"
proof -
  show "snd (fst (userCmd p args m)) \<noteq> Serving k fl s"
    unfolding userCmd_def
    by (auto simp: printed_ends split: list.split prod.split intro!: on_parsed_ends openStore_ends)
  show "snd (fst (exportCmd p args m)) \<noteq> Serving k fl s"
    unfolding exportCmd_def by (rule on_parsed_ends) (auto simp: printed_ends split: prod.split option.split intro!: openStore_ends)
  show "snd (fst (healthcheck p args m)) \<noteq> Serving k fl s"
    unfolding healthcheck_def by (rule on_parsed_ends) (simp split: sum.split)
  show "snd (fst (backupCmd p args m)) \<noteq> Serving k fl s"
    unfolding backupCmd_def by (rule on_parsed_ends) (auto simp: backup_store_ends split: prod.split intro!: openStore_ends)
  show "snd (fst (initialPasswordCmd p args m)) \<noteq> Serving k fl s"
    unfolding initialPasswordCmd_def by (rule on_parsed_ends) (auto simp: printed_ends intro!: openStore_ends)
qed

lemma run_ends:
  assumes "c \<noteq> ''serve''" "run p (c # rest) m = ((out, e), m')"
  shows "e \<noteq> Serving k fl s"
proof -
  have "snd (fst (run p (c # rest) m)) \<noteq> Serving k fl s" using assms(1) by (simp add: run_def others_end)
  then show ?thesis using assms(2) by simp
qed





end
