(* ===== verification/Instants.thy ===== *)
theory Instants
  imports GoTime
begin

text \<open>
  Reading an instant back from its text (\<open>goTime\<close> in \<open>internal/store/store.go\<close>), with the strict
  form of \<open>time.Parse\<close>. The result: what \<open>dbTime\<close> writes, \<open>goTime\<close> reads, to the nanosecond, for every
  instant whose year has four digits.
\<close>

section \<open>Reading an instant\<close>

definition slice :: "nat \<Rightarrow> nat \<Rightarrow> string \<Rightarrow> string" where
  "slice a b s = take (b - a) (drop a s)"

definition digit_of :: "char \<Rightarrow> int" where "digit_of c = int (of_char c) - 48"

definition all_digits :: "string \<Rightarrow> bool" where
  "all_digits s = list_all (\<lambda>c. 0 \<le> digit_of c \<and> digit_of c \<le> 9) s"

definition read_digits :: "string \<Rightarrow> int" where
  "read_digits s = foldl (\<lambda>x c. x * 10 + digit_of c) 0 s"

definition parseUint :: "string \<Rightarrow> int \<Rightarrow> int \<Rightarrow> int option" where
  "parseUint s lo hi = (if all_digits s \<and> lo \<le> read_digits s \<and> read_digits s \<le> hi then Some (read_digits s) else None)"

definition daysIn :: "int \<Rightarrow> int \<Rightarrow> int" where
  "daysIn m y = month_lengths y ! nat (m - 1)"

text \<open>The day a date names, counted from 1 January of year 1.\<close>

definition day_of :: "int \<Rightarrow> int \<Rightarrow> int \<Rightarrow> int" where
  "day_of y m d = days_before_year y + sum_list (take (nat (m - 1)) (month_lengths y)) + d - 1"

text \<open>The fraction of a second, at most nine digits of it, and what follows.\<close>

definition fraction :: "string \<Rightarrow> int \<times> string" where
  "fraction s =
     (case s of
        c # c' # cs \<Rightarrow>
          if c = CHR ''.'' \<and> all_digits [c'] then
            (let ds = takeWhile (\<lambda>c. all_digits [c]) (c' # cs); used = take 9 ds
             in (read_digits used * 10 ^ (9 - length used), drop (length ds) (c' # cs)))
          else (0, s)
      | _ \<Rightarrow> (0, s))"

definition zone :: "string \<Rightarrow> int option" where
  "zone s =
     (if s = ''Z'' then Some 0
      else if length s \<noteq> 6 then None
      else case (parseUint (slice 1 3 s) 0 23, parseUint (slice 4 6 s) 0 59) of
        (Some h, Some m) \<Rightarrow>
          if s ! 3 = CHR '':'' \<and> hd s = CHR ''+'' then Some ((h * 60 + m) * 60)
          else if s ! 3 = CHR '':'' \<and> hd s = CHR ''-'' then Some (- ((h * 60 + m) * 60)) else None
      | _ \<Rightarrow> None)"

text \<open>
  \<open>time.Parse\<close> for RFC3339: the strict form. Texts that are not of this form go to a slower parser, which
  accepts a few other spellings; the program stores none.
\<close>

definition parseRFC3339 :: "string \<Rightarrow> time option" where
  "parseRFC3339 s =
     (if length s < 19 then None
      else case (parseUint (slice 0 4 s) 0 9999, parseUint (slice 5 7 s) 1 12, parseUint (slice 11 13 s) 0 23,
                 parseUint (slice 14 16 s) 0 59, parseUint (slice 17 19 s) 0 59) of
        (Some y, Some mo, Some h, Some mi, Some sec) \<Rightarrow>
          (case (parseUint (slice 8 10 s) 1 (daysIn mo y), fraction (drop 19 s)) of
             (Some d, (ns, rest)) \<Rightarrow>
               if s ! 4 = CHR ''-'' \<and> s ! 7 = CHR ''-'' \<and> s ! 10 = CHR ''T'' \<and> s ! 13 = CHR '':'' \<and> s ! 16 = CHR '':''
               then map_option (\<lambda>offset. (day_of y mo d * 86400 + h * 3600 + mi * 60 + sec - offset) * second + ns) (zone rest)
               else None
           | _ \<Rightarrow> None)
      | _ \<Rightarrow> None)"

definition goTime :: "string \<Rightarrow> time" where
  "goTime s = (case parseRFC3339 s of None \<Rightarrow> 0 | Some t \<Rightarrow> t)"

lemma goTime_examples:
  "goTime ''2024-06-15T00:00:00.12Z'' = 63854006400 * second + 120000000" "goTime ''2024-02-29T23:59:59+01:00'' = 63844844399 * second"
  "goTime ''2023-02-29T00:00:00Z'' = 0" "goTime ''0001-01-01T00:00:00Z'' = 0" "goTime [] = 0"
  by code_simp+

section \<open>The calendar goes round\<close>

lemma sum_months: "sum_list (month_lengths y) = (if leap y then 366 else 365)"
  by (simp add: month_lengths_def)

lemma div_parts: "0 \<le> r \<Longrightarrow> r < n \<Longrightarrow> (n * q + r) div n = (q :: int)"
  by simp

lemma days_before_parts:
  assumes "0 \<le> b" "b \<le> 3" "0 \<le> c" "c \<le> 24" "0 \<le> e" "e \<le> (3::int)"
  shows "days_before_year (400 * a + 100 * b + 4 * c + e + 1) = 146097 * a + 36524 * b + 1461 * c + 365 * e"
proof -
  let ?y = "400 * a + 100 * b + 4 * c + e"
  have "?y div 4 = 100 * a + 25 * b + c" using div_parts [of e 4 "100 * a + 25 * b + c"] assms by (simp add: algebra_simps)
  moreover have "?y div 100 = 4 * a + b" using div_parts [of "4 * c + e" 100 "4 * a + b"] assms by (simp add: algebra_simps)
  moreover have "?y div 400 = a" using div_parts [of "100 * b + 4 * c + e" 400 a] assms by (simp add: algebra_simps)
  ultimately show ?thesis by (simp add: days_before_year_def)
qed

lemma quotient:
  fixes x n :: int
  assumes "0 \<le> x" "0 < n"
  obtains q r where "x div n = q" "x = n * q + r" "0 \<le> q" "0 \<le> r" "r < n"
  using that [of "x div n" "x mod n"] assms by (simp add: pos_imp_zdiv_nonneg_iff)

lemma century_parts:
  fixes x :: int
  assumes "0 \<le> x" "x < 146097"
  obtains b y where "min 3 (x div 36524) = b" "x - b * 36524 = y" "0 \<le> b" "b \<le> 3" "0 \<le> y" "y \<le> 36524" "b < 3 \<longrightarrow> y < 36524"
proof (rule quotient [OF assms(1), of 36524])
  fix q r
  assume q: "x div 36524 = q" "x = 36524 * q + r" "0 \<le> q" "0 \<le> r" "r < (36524::int)"
  have "q \<le> 4" using q assms by linarith
  then show thesis using that [of "min 3 q" "x - min 3 q * 36524"] assms q by (auto simp: min_def)
qed simp

lemma year_parts4:
  fixes x :: int
  assumes "0 \<le> x" "x < 1461"
  obtains e r where "min 3 (x div 365) = e" "x = 365 * e + r" "0 \<le> e" "e \<le> 3" "0 \<le> r" "r \<le> 365" "r = 365 \<longrightarrow> e = 3 \<and> x = 1460"
proof (rule quotient [OF assms(1), of 365])
  fix q r
  assume q: "x div 365 = q" "x = 365 * q + r" "0 \<le> q" "0 \<le> r" "r < (365::int)"
  show thesis
  proof (cases "q \<le> 3")
    case True
    then show thesis using that [of q r] q by simp
  next
    case False
    then have "q = 4" "r = 0" using q assms by linarith+
    then show thesis using that [of 3 365] q by simp
  qed
qed simp

lemma year_parts:
  fixes d :: int
  obtains a b c e r where "year_of_day d = 400 * a + 100 * b + 4 * c + e + 1" "d = 146097 * a + 36524 * b + 1461 * c + 365 * e + r"
    "0 \<le> b" "b \<le> 3" "0 \<le> c" "c \<le> 24" "0 \<le> e" "e \<le> 3" "0 \<le> r" "r \<le> 365" "r = 365 \<longrightarrow> e = 3 \<and> (c = 24 \<longrightarrow> b = 3)"
proof -
  obtain a d400 where a: "d div 146097 = a" "d mod 146097 = d400" by blast
  have d4: "0 \<le> d400" "d400 < 146097" "d = 146097 * a + d400" using a by auto
  obtain b d100 where b: "min 3 (d400 div 36524) = b" "d400 - b * 36524 = d100" "0 \<le> b" "b \<le> 3" "0 \<le> d100" "d100 \<le> 36524"
    "b < 3 \<longrightarrow> d100 < 36524" by (rule century_parts [OF d4(1,2)])
  obtain c d4' where c: "d100 div 1461 = c" "d100 mod 1461 = d4'" by blast
  have c4: "0 \<le> d4'" "d4' < 1461" "d100 = 1461 * c + d4'" "0 \<le> c" "c \<le> 24" using c b(5,6) by auto
  obtain e r where e: "min 3 (d4' div 365) = e" "d4' = 365 * e + r" "0 \<le> e" "e \<le> 3" "0 \<le> r" "r \<le> 365" "r = 365 \<longrightarrow> e = 3 \<and> d4' = 1460"
    by (rule year_parts4 [OF c4(1,2)])
  have "year_of_day d = 400 * a + 100 * b + 4 * c + e + 1"
    by (simp add: year_of_day_def Let_def a b(1,2) c e(1))
  moreover have "d = 146097 * a + 36524 * b + 1461 * c + 365 * e + r" using d4(3) b(2) c4(3) e(2) by simp
  moreover have "r = 365 \<longrightarrow> e = 3 \<and> (c = 24 \<longrightarrow> b = 3)" using e(7) c4(3) b(4,7) by auto
  ultimately show thesis using that b(3,4) c4(4,5) e(3-6) by blast
qed

text \<open>The year a day falls in begins on or before it, and the day is one of its days.\<close>

lemma year_of_day_days:
  "0 \<le> d - days_before_year (year_of_day d)" "d - days_before_year (year_of_day d) < sum_list (month_lengths (year_of_day d))"
proof -
  obtain a b c e r where p: "year_of_day d = 400 * a + 100 * b + 4 * c + e + 1" "d = 146097 * a + 36524 * b + 1461 * c + 365 * e + r"
    "0 \<le> b" "b \<le> 3" "0 \<le> c" "c \<le> 24" "0 \<le> e" "e \<le> 3" "0 \<le> r" "r \<le> 365" "r = 365 \<longrightarrow> e = 3 \<and> (c = 24 \<longrightarrow> b = 3)"
    by (rule year_parts)
  have r: "d - days_before_year (year_of_day d) = r"
    using days_before_parts [OF p(3-8), of a] p(1,2) by simp
  show "0 \<le> d - days_before_year (year_of_day d)" using r p(9) by simp
  have "r < 365 \<or> leap (year_of_day d)"
  proof (cases "r = 365")
    case True
    then have e: "e = 3" "c = 24 \<longrightarrow> b = 3" using p(11) by auto
    have y: "year_of_day d = 4 * (100 * a + 25 * b + c + 1)" using p(1) e(1) by simp
    have "year_of_day d mod 4 = 0" unfolding y by simp
    moreover have "year_of_day d mod 100 \<noteq> 0 \<or> year_of_day d mod 400 = 0"
    proof (cases "c = 24")
      case True
      then have "year_of_day d = 400 * (a + 1)" using y e(2) by simp
      then show ?thesis by simp
    next
      case False
      then have "c < 24" using p(6) by simp
      moreover have "year_of_day d = 100 * (4 * a + b) + 4 * (c + 1)" using y by simp
      then have "year_of_day d mod 100 = 4 * (c + 1) mod 100" by (metis mod_mult_self4)
      ultimately show ?thesis using p(5) by simp
    qed
    ultimately show ?thesis by (simp add: leap_def)
  qed (use p(10) in simp)
  then show "d - days_before_year (year_of_day d) < sum_list (month_lengths (year_of_day d))"
    using r p(10) by (auto simp: sum_months)
qed

lemma month_day_parts:
  "0 \<le> yd \<Longrightarrow> yd < sum_list ls \<Longrightarrow> month_day ls m0 yd = (m, dd) \<Longrightarrow>
    m0 \<le> m \<and> nat (m - m0) < length ls \<and> 1 \<le> dd \<and> dd \<le> ls ! nat (m - m0) \<and> yd = sum_list (take (nat (m - m0)) ls) + dd - 1"
proof (induction ls arbitrary: m0 yd)
  case (Cons l ls)
  show ?case
  proof (cases "yd < l")
    case False
    have "month_day ls (m0 + 1) (yd - l) = (m, dd)" using Cons.prems(3) False by simp
    moreover have "0 \<le> yd - l" "yd - l < sum_list ls" using Cons.prems False by simp_all
    ultimately have h: "m0 + 1 \<le> m" "nat (m - (m0 + 1)) < length ls" "1 \<le> dd" "dd \<le> ls ! nat (m - (m0 + 1))"
      "yd - l = sum_list (take (nat (m - (m0 + 1))) ls) + dd - 1" using Cons.IH by blast+
    have "nat (m - m0) = Suc (nat (m - (m0 + 1)))" using h(1) by simp
    then show ?thesis using h by simp
  qed (use Cons.prems in auto)
qed simp

lemma civil_parts:
  assumes "civil d = (y, m, dd)"
  shows "y = year_of_day d" "1 \<le> m" "m \<le> 12" "1 \<le> dd" "dd \<le> daysIn m y" "day_of y m dd = d"
proof -
  show y: "y = year_of_day d" using assms by (simp add: civil_def Let_def split: prod.split_asm)
  have md: "month_day (month_lengths y) 1 (d - days_before_year y) = (m, dd)"
    using assms y by (simp add: civil_def Let_def split: prod.split_asm)
  note p = month_day_parts [OF year_of_day_days [of d, folded y] md]
  have "length (month_lengths y) = 12" by (simp add: month_lengths_def)
  then show "1 \<le> m" "m \<le> 12" "1 \<le> dd" "dd \<le> daysIn m y" "day_of y m dd = d"
    using p by (auto simp: daysIn_def day_of_def)
qed

section \<open>The text goes round\<close>

lemma digit_of_digit: "n < 10 \<Longrightarrow> digit_of (digit n) = int n"
  by (simp add: digit_of_def digit_def)

lemma read_digits_snoc: "read_digits (s @ [c]) = read_digits s * 10 + digit_of c"
  by (simp add: read_digits_def)

lemma all_digits_append: "all_digits (s @ t) = (all_digits s \<and> all_digits t)"
  by (simp add: all_digits_def)

lemma pad_read: "all_digits (pad w n) \<and> length (pad w n) = w \<and> read_digits (pad w n) = n mod 10 ^ w"
proof (induction w arbitrary: n)
  case 0
  then show ?case by (simp add: all_digits_def read_digits_def)
next
  case (Suc w)
  have d: "digit_of (digit (nat (n mod 10))) = n mod 10"
    using digit_of_digit [of "nat (n mod 10)"] by (simp add: nat_less_iff)
  have "n mod 10 ^ Suc w = n div 10 mod 10 ^ w * 10 + n mod 10"
    using zmod_zmult2_eq [of "10 ^ w" n 10] by (simp add: mult.commute)
  then show ?case using Suc d by (simp add: read_digits_snoc all_digits_append) (simp add: all_digits_def d)
qed

lemma parse_pad: "lo \<le> n \<Longrightarrow> n \<le> hi \<Longrightarrow> 0 \<le> n \<Longrightarrow> n < 10 ^ w \<Longrightarrow> parseUint (pad w n) lo hi = Some n"
  using pad_read [of w n] by (simp add: parseUint_def)

lemma read_zeros: "read_digits (q @ replicate k (CHR ''0'')) = read_digits q * 10 ^ k"
proof (induction k)
  case (Suc k)
  have "q @ replicate (Suc k) (CHR ''0'') = (q @ replicate k (CHR ''0'')) @ [CHR ''0'']" by (simp add: replicate_append_same)
  then show ?case using Suc by (simp only: read_digits_snoc) (simp add: digit_of_def)
qed simp

lemma drop_zeros: "\<exists>k. s = rev (dropWhile (\<lambda>c. c = z) (rev s)) @ replicate k z"
proof (induction s rule: rev_induct)
  case (snoc c s)
  then show ?case
  proof (cases "c = z")
    case True
    obtain x where x: "rev (dropWhile (\<lambda>c. c = z) (rev s)) = x" by blast
    then obtain k where "s = x @ replicate k z" using snoc by auto
    then have "s @ [c] = x @ replicate (Suc k) z" using True by (simp add: replicate_append_same)
    moreover have "rev (dropWhile (\<lambda>c. c = z) (rev (s @ [c]))) = x" using True x by simp
    ultimately show ?thesis by metis
  qed (intro exI [of _ 0], simp)
qed simp

lemma fraction_frac:
  assumes "0 \<le> ns" "ns < 10 ^ 9"
  shows "fraction (frac ns @ ''Z'') = (ns, ''Z'')"
proof (cases "ns = 0")
  case False
  obtain q where q: "rev (dropWhile (\<lambda>c. c = CHR ''0'') (rev (pad 9 ns))) = q" by blast
  obtain k where k: "pad 9 ns = q @ replicate k (CHR ''0'')" using drop_zeros [of "pad 9 ns" "CHR ''0''"] q by blast
  have p: "all_digits (pad 9 ns)" "length (pad 9 ns) = 9" "read_digits (pad 9 ns) = ns" using pad_read [of 9 ns] assms by auto
  have len: "length q + k = 9" using p(2) unfolding k by simp
  have rd: "read_digits q * 10 ^ k = ns" using p(3) unfolding k read_zeros .
  have dg: "all_digits q" using p(1) unfolding k all_digits_append by blast
  obtain c cs where c: "q = c # cs" using rd False by (cases q) (auto simp: read_digits_def)
  have "takeWhile (\<lambda>c. all_digits [c]) (q @ ''Z'') = q"
    using dg by (subst takeWhile_append2) (auto simp: all_digits_def list_all_iff digit_of_def)
  moreover have "9 - length q = k" "take 9 q = q" using len by simp_all
  moreover have "all_digits [c]" using dg c by (simp add: all_digits_def)
  moreover have "frac ns = CHR ''.'' # q" using False q by (simp add: frac_def)
  ultimately show ?thesis using rd c by (simp add: fraction_def Let_def)
qed (simp add: frac_def fraction_def)

lemma pad2: "\<exists>c d. pad 2 n = [c, d]" and pad4: "\<exists>a b c d. pad 4 n = [a, b, c, d]"
  by (simp_all add: numeral_eq_Suc)

text \<open>The instants that have four digits for their year.\<close>

definition storable :: "time \<Rightarrow> bool" where
  "storable t = (days_before_year 0 * 86400 * second \<le> t \<and> t < days_before_year 10000 * 86400 * second)"

lemma year_range:
  assumes "days_before_year 0 \<le> d" "d < days_before_year 10000"
  shows "0 \<le> year_of_day d" "year_of_day d \<le> 9999"
proof -
  obtain a b c e r where p: "year_of_day d = 400 * a + 100 * b + 4 * c + e + 1" "d = 146097 * a + 36524 * b + 1461 * c + 365 * e + r"
    "0 \<le> b" "b \<le> 3" "0 \<le> c" "c \<le> 24" "0 \<le> e" "e \<le> 3" "0 \<le> r" "r \<le> 365" "r = 365 \<longrightarrow> e = 3 \<and> (c = 24 \<longrightarrow> b = 3)"
    by (rule year_parts)
  have lo: "-366 \<le> d" and hi: "d < 3652059" using assms by (simp_all add: days_before_year_def)
  have a: "-1 \<le> a" using lo p by linarith
  show "0 \<le> year_of_day d"
  proof (cases "a = -1")
    case True
    have "b = 3" using lo p True by linarith
    moreover from this have "c = 24" using lo p True by linarith
    moreover from calculation have "e = 3" using lo p True by linarith
    ultimately show ?thesis using p(1) True by simp
  qed (use a p in linarith)
  have "a \<le> 24" using hi p by linarith
  then show "year_of_day d \<le> 9999" using hi p by linarith
qed

lemma seconds_parts:
  fixes s :: int
  assumes "0 \<le> s" "s < 86400"
  shows "0 \<le> s div 3600" "s div 3600 \<le> 23" "0 \<le> s div 60 mod 60" "s div 60 mod 60 \<le> 59" "0 \<le> s mod 60" "s mod 60 \<le> 59"
    "s div 3600 * 3600 + s div 60 mod 60 * 60 + s mod 60 = s"
proof -
  show "0 \<le> s div 3600" "s div 3600 \<le> 23" "0 \<le> s div 60 mod 60" "s div 60 mod 60 \<le> 59" "0 \<le> s mod 60" "s mod 60 \<le> 59"
    using assms by (simp_all add: pos_imp_zdiv_nonneg_iff)
  have "s div 3600 = s div 60 div 60" by (simp add: zdiv_zmult2_eq [symmetric])
  then show "s div 3600 * 3600 + s div 60 mod 60 * 60 + s mod 60 = s"
    using div_mult_mod_eq [of "s div 60" 60] div_mult_mod_eq [of s 60] by linarith
qed

lemma month_bound:
  assumes "1 \<le> m" "m \<le> 12"
  shows "daysIn m y < 100"
proof -
  have "daysIn m y \<in> set (month_lengths y)"
    unfolding daysIn_def by (rule nth_mem) (use assms in \<open>simp add: month_lengths_def\<close>)
  then show ?thesis by (auto simp: month_lengths_def split: if_splits)
qed

lemma storable_parts:
  assumes "storable t"
  obtains day sod ns where "t div second div 86400 = day" "t div second mod 86400 = sod" "t mod second = ns"
    "t = (day * 86400 + sod) * second + ns" "days_before_year 0 \<le> day" "day < days_before_year 10000" "0 \<le> sod" "sod < 86400" "0 \<le> ns" "ns < 10 ^ 9"
proof -
  have b: "days_before_year 0 * 86400 * second \<le> t" "t < days_before_year 10000 * 86400 * second" using assms by (simp_all add: storable_def)
  have 1: "t = (t div second div 86400 * 86400 + t div second mod 86400) * second + t mod second" by (simp only: div_mult_mod_eq)
  have 2: "days_before_year 0 \<le> t div second div 86400"
    using b(1) by (simp add: second_def days_before_year_def zdiv_zmult2_eq [symmetric])
  have 3: "t div second div 86400 < days_before_year 10000"
    using b(2) by (simp add: second_def days_before_year_def zdiv_zmult2_eq [symmetric])
  show thesis by (rule that [OF refl refl refl 1 2 3]) (simp_all add: second_def)
qed

text \<open>What is written is read back: no nanosecond is lost between the years 0 and 9999.\<close>

lemma dbTime_pieces:
  assumes "civil (t div second div 86400) = (y, m, d)" and "t div second mod 86400 = sod"
  shows "slice 0 4 (dbTime t) = pad 4 y" "slice 5 7 (dbTime t) = pad 2 m" "slice 8 10 (dbTime t) = pad 2 d"
    "slice 11 13 (dbTime t) = pad 2 (sod div 3600)" "slice 14 16 (dbTime t) = pad 2 (sod div 60 mod 60)"
    "slice 17 19 (dbTime t) = pad 2 (sod mod 60)" "drop 19 (dbTime t) = frac (t mod second) @ ''Z''" "\<not> length (dbTime t) < 19"
    "dbTime t ! 4 = CHR ''-''" "dbTime t ! 7 = CHR ''-''" "dbTime t ! 10 = CHR ''T''" "dbTime t ! 13 = CHR '':''" "dbTime t ! 16 = CHR '':''"
proof -
  obtain a1 a2 a3 a4 where p4: "pad 4 y = [a1, a2, a3, a4]" using pad4 by blast
  obtain b1 b2 where pm: "pad 2 m = [b1, b2]" using pad2 by blast
  obtain c1 c2 where pd: "pad 2 d = [c1, c2]" using pad2 by blast
  obtain h1 h2 where ph: "pad 2 (sod div 3600) = [h1, h2]" using pad2 by blast
  obtain i1 i2 where pi: "pad 2 (sod div 60 mod 60) = [i1, i2]" using pad2 by blast
  obtain s1 s2 where ps: "pad 2 (sod mod 60) = [s1, s2]" using pad2 by blast
  have whole: "dbTime t = [a1, a2, a3, a4, CHR ''-'', b1, b2, CHR ''-'', c1, c2, CHR ''T'', h1, h2, CHR '':'', i1, i2, CHR '':'', s1, s2] @
      frac (t mod second) @ ''Z''"
    by (simp add: dbTime_def Let_def assms p4 pm pd ph pi ps)
  show "slice 0 4 (dbTime t) = pad 4 y" "slice 5 7 (dbTime t) = pad 2 m" "slice 8 10 (dbTime t) = pad 2 d"
    "slice 11 13 (dbTime t) = pad 2 (sod div 3600)" "slice 14 16 (dbTime t) = pad 2 (sod div 60 mod 60)"
    "slice 17 19 (dbTime t) = pad 2 (sod mod 60)" "drop 19 (dbTime t) = frac (t mod second) @ ''Z''" "\<not> length (dbTime t) < 19"
    "dbTime t ! 4 = CHR ''-''" "dbTime t ! 7 = CHR ''-''" "dbTime t ! 10 = CHR ''T''" "dbTime t ! 13 = CHR '':''" "dbTime t ! 16 = CHR '':''"
    by (simp_all add: whole slice_def p4 pm pd ph pi ps)
qed

lemma parse_dbTime:
  assumes "storable t"
  shows "parseRFC3339 (dbTime t) = Some t"
proof -
  obtain day sod ns where t: "t div second div 86400 = day" "t div second mod 86400 = sod" "t mod second = ns"
    and tt: "t = (day * 86400 + sod) * second + ns" and day: "days_before_year 0 \<le> day" "day < days_before_year 10000"
    and sod: "0 \<le> sod" "sod < 86400" and ns: "0 \<le> ns" "ns < 10 ^ 9"
    by (rule storable_parts [OF assms])
  obtain y m d where c: "civil day = (y, m, d)" by (metis surj_pair)
  note cp = civil_parts [OF c] and sp = seconds_parts [OF sod]
  note pc = dbTime_pieces [of t y m d sod, unfolded t, OF c refl]
  have "0 \<le> y" "y \<le> 9999" using year_range [OF day] cp(1) by simp_all
  then have "parseUint (slice 0 4 (dbTime t)) 0 9999 = Some y" unfolding pc by (intro parse_pad) simp_all
  moreover have "parseUint (slice 5 7 (dbTime t)) 1 12 = Some m" using cp(2,3) unfolding pc by (intro parse_pad) simp_all
  moreover have "parseUint (slice 8 10 (dbTime t)) 1 (daysIn m y) = Some d"
    using cp(4,5) month_bound [OF cp(2,3), of y] unfolding pc by (intro parse_pad) simp_all
  moreover have "parseUint (slice 11 13 (dbTime t)) 0 23 = Some (sod div 3600)" using sp(1,2) unfolding pc by (intro parse_pad) simp_all
  moreover have "parseUint (slice 14 16 (dbTime t)) 0 59 = Some (sod div 60 mod 60)" using sp(3,4) unfolding pc by (intro parse_pad) simp_all
  moreover have "parseUint (slice 17 19 (dbTime t)) 0 59 = Some (sod mod 60)" using sp(5,6) unfolding pc by (intro parse_pad) simp_all
  moreover have "fraction (drop 19 (dbTime t)) = (ns, ''Z'')" using fraction_frac [OF ns] by (simp add: pc)
  ultimately have "parseRFC3339 (dbTime t) =
      Some ((day * 86400 + sod div 3600 * 3600 + sod div 60 mod 60 * 60 + sod mod 60) * second + ns)"
    using pc(8-13) by (simp add: parseRFC3339_def zone_def cp(6))
  moreover have "day * 86400 + sod div 3600 * 3600 + sod div 60 mod 60 * 60 + sod mod 60 = day * 86400 + sod" using sp(7) by linarith
  ultimately show ?thesis using tt by (simp only:)
qed

lemma goTime_dbTime: "storable t \<Longrightarrow> goTime (dbTime t) = t"
  by (simp add: goTime_def parse_dbTime)

end
