(* ===== verification/Rows.thy ===== *)
theory Rows
  imports Instants Responses Links Flags "HOL-Library.Monad_Syntax"
begin

text \<open>
  The rows as SQLite holds them (\<open>internal/store\<close>): which value each \<open>INSERT\<close> binds to which column
  and which column each \<open>SELECT\<close> scans into which field (\<open>scanUser\<close>, \<open>scanInvite\<close>, \<open>scanReset\<close>,
  \<open>scanSurvey\<close>, the loop of \<open>loadOptions\<close>, the reads of \<open>response.go\<close>), with every instant as text
  and every flag as an integer. A table is a list of rows, a row its columns by name. The records of
  Database are what these rows say: the scans give them back (\<open>read_back\<close>, one contract for six
  tables), and the statements that change rows do what the list operations of the model do.
\<close>

section \<open>Values, rows and statements\<close>

datatype sql = SNull | SInt int | SText string

type_synonym dbrow = "(string \<times> sql) list"

definition column :: "dbrow \<Rightarrow> string \<Rightarrow> sql" where
  "column r c = (case map_of r c of None \<Rightarrow> SNull | Some v \<Rightarrow> v)"

text \<open>The values a query returns for one row, and the row an \<open>INSERT\<close> makes of its arguments.\<close>

definition select :: "string list \<Rightarrow> dbrow \<Rightarrow> sql list" where
  "select cols r = map (column r) cols"

definition insert_values :: "string list \<Rightarrow> sql list \<Rightarrow> dbrow" where
  "insert_values cols args = zip cols args"

text \<open>A comparison with NULL holds of no row; \<open>IS NULL\<close> does.\<close>

definition col_is :: "string \<Rightarrow> sql \<Rightarrow> dbrow \<Rightarrow> bool" where
  "col_is c v r = (v \<noteq> SNull \<and> column r c = v)"

definition is_null :: "string \<Rightarrow> dbrow \<Rightarrow> bool" where
  "is_null c r = (column r c = SNull)"

text \<open>\<open>SET c = v, ...\<close> on one row, on the rows of a \<open>WHERE\<close>, and on a row an insertion conflicts with.\<close>

definition assign_columns :: "(string \<times> sql) list \<Rightarrow> dbrow \<Rightarrow> dbrow" where
  "assign_columns sets r = map (\<lambda>(c, v). (c, case map_of sets c of None \<Rightarrow> v | Some w \<Rightarrow> w)) r"

definition update_where :: "(dbrow \<Rightarrow> bool) \<Rightarrow> (string \<times> sql) list \<Rightarrow> dbrow list \<Rightarrow> dbrow list" where
  "update_where p sets t = map (\<lambda>r. if p r then assign_columns sets r else r) t"

definition delete_where :: "(dbrow \<Rightarrow> bool) \<Rightarrow> dbrow list \<Rightarrow> dbrow list" where
  "delete_where p t = filter (\<lambda>r. \<not> p r) t"

definition conflicting :: "string list \<Rightarrow> dbrow \<Rightarrow> dbrow \<Rightarrow> bool" where
  "conflicting key new old = (select key old = select key new)"

text \<open>\<open>INSERT\<close>: refused when a key of the table is taken.\<close>

definition insert_into :: "string list list \<Rightarrow> dbrow \<Rightarrow> dbrow list \<Rightarrow> dbrow list option" where
  "insert_into keys new t =
     (if list_ex (\<lambda>key. list_ex (conflicting key new) t) keys then None else Some (t @ [new]))"

text \<open>\<open>INSERT ... ON CONFLICT(key) DO UPDATE SET c = excluded.c, ... WHERE guard\<close>.\<close>

definition upsert ::
  "string list list \<Rightarrow> string list \<Rightarrow> string list \<Rightarrow> (dbrow \<Rightarrow> dbrow \<Rightarrow> bool) \<Rightarrow> dbrow \<Rightarrow> dbrow list \<Rightarrow> dbrow list option" where
  "upsert keys key sets guard new t =
     (if list_ex (conflicting key new) t
      then Some (map (\<lambda>old. if conflicting key new old \<and> guard new old
                            then assign_columns (map (\<lambda>c. (c, column new c)) sets) old else old) t)
      else insert_into keys new t)"

text \<open>The order SQLite puts values in: NULL, then numbers, then text by its bytes.\<close>

fun sql_le :: "sql \<Rightarrow> sql \<Rightarrow> bool" where
  "sql_le SNull v = True"
| "sql_le (SInt m) v = (case v of SNull \<Rightarrow> False | SInt n \<Rightarrow> m \<le> n | SText s \<Rightarrow> True)"
| "sql_le (SText s) v = (case v of SText t \<Rightarrow> s \<le> t | _ \<Rightarrow> False)"

instantiation sql :: linorder
begin

definition "v \<le> w = sql_le v w"
definition "v < w = (sql_le v w \<and> \<not> sql_le w v)"

instance
proof
  fix x y z :: sql
  show "x < y \<longleftrightarrow> x \<le> y \<and> \<not> y \<le> x" by (simp add: less_eq_sql_def less_sql_def)
  show "x \<le> x" by (cases x) (simp_all add: less_eq_sql_def)
  show "x \<le> y \<Longrightarrow> y \<le> z \<Longrightarrow> x \<le> z" by (cases x; cases y; cases z) (simp_all add: less_eq_sql_def)
  show "x \<le> y \<Longrightarrow> y \<le> x \<Longrightarrow> x = y" by (cases x; cases y) (simp_all add: less_eq_sql_def)
  show "x \<le> y \<or> y \<le> x" by (cases x; cases y) (auto simp: less_eq_sql_def)
qed

end

lemma sql_order [simp]:
  "SText s \<le> SText t \<longleftrightarrow> s \<le> t" "SText s < SText t \<longleftrightarrow> s < t" "SInt m \<le> SInt n \<longleftrightarrow> m \<le> n"
  by (auto simp: less_eq_sql_def less_sql_def)

definition query :: "string list \<Rightarrow> (dbrow \<Rightarrow> bool) \<Rightarrow> dbrow list \<Rightarrow> sql list list" where
  "query cols p t = map (select cols) (filter p t)"

text \<open>Sorting by a key depends on nothing but the order of the keys.\<close>

lemma insort_key_cong:
  "(\<And>y. y \<in> set xs \<Longrightarrow> (f x \<le> f y) = (g x \<le> g y)) \<Longrightarrow> insort_key f x xs = insort_key g x xs"
  by (induction xs) auto

lemma sort_key_cong:
  "(\<And>x y. x \<in> set xs \<Longrightarrow> y \<in> set xs \<Longrightarrow> (f x \<le> f y) = (g x \<le> g y)) \<Longrightarrow> sort_key f xs = sort_key g xs"
  by (induction xs) (auto intro!: insort_key_cong)

lemma sort_key_map: "sort_key k (map f xs) = map f (sort_key (\<lambda>x. k (f x)) xs)"
proof (induction xs)
  case (Cons x xs)
  have "insort_key k (f x) (map f ys) = map f (insort_key (\<lambda>x. k (f x)) x ys)" for ys by (induction ys) simp_all
  with Cons show ?case by simp
qed simp

section \<open>Binding and scanning\<close>

definition bind_bool :: "bool \<Rightarrow> sql" where "bind_bool b = SInt (if b then 1 else 0)"
definition bind_time :: "time \<Rightarrow> sql" where "bind_time t = SText (dbTime t)"

definition bind_time_ptr :: "time \<Rightarrow> sql" where
  "bind_time_ptr t = (if IsZero t then SNull else SText (dbTime t))"

text \<open>\<open>Scan\<close> into a string, a boolean and a \<open>sql.NullString\<close>; \<open>None\<close> is its error.\<close>

definition scan_string :: "sql \<Rightarrow> string option" where
  "scan_string v = (case v of SNull \<Rightarrow> None | SInt n \<Rightarrow> Some (FormatInt n) | SText s \<Rightarrow> Some s)"

definition scan_bool :: "sql \<Rightarrow> bool option" where
  "scan_bool v =
     (case v of
        SNull \<Rightarrow> None
      | SInt n \<Rightarrow> if n = 0 then Some False else if n = 1 then Some True else None
      | SText s \<Rightarrow> ParseBool s)"

definition scan_time :: "sql \<Rightarrow> time option" where
  "scan_time v = map_option goTime (scan_string v)"

definition scan_time_ptr :: "sql \<Rightarrow> time option" where
  "scan_time_ptr v = (case v of SNull \<Rightarrow> Some 0 | _ \<Rightarrow> scan_time v)"

text \<open>
  The two loops over the rows of a query. In one a row that cannot be scanned fails the whole read
  (\<open>scan_rows\<close>), in the other it ends the list that is returned (\<open>read_rows\<close>).
\<close>

definition scan_rows :: "(sql list \<Rightarrow> 'a option) \<Rightarrow> sql list list \<Rightarrow> 'a list option" where
  "scan_rows scan rs = those (map scan rs)"

primrec read_rows :: "(sql list \<Rightarrow> 'a option) \<Rightarrow> sql list list \<Rightarrow> 'a list" where
  "read_rows scan [] = []"
| "read_rows scan (r # rs) = (case scan r of None \<Rightarrow> [] | Some x \<Rightarrow> x # read_rows scan rs)"

lemma scan_rows_some: "map scan rs = map Some xs \<Longrightarrow> scan_rows scan rs = Some xs"
proof -
  have "those (map Some xs) = Some xs" by (induction xs) simp_all
  then show "map scan rs = map Some xs \<Longrightarrow> ?thesis" by (simp only: scan_rows_def)
qed

lemma read_rows_some: "map scan rs = map Some xs \<Longrightarrow> read_rows scan rs = xs"
proof (induction xs arbitrary: rs)
  case (Cons x xs)
  then show ?case by (cases rs) auto
qed simp

lemma scan_bound [simp]:
  "scan_string (SText s) = Some s" "scan_bool (bind_bool b) = Some b"
  "storable t \<Longrightarrow> scan_time (bind_time t) = Some t" "storable t \<Longrightarrow> scan_time_ptr (bind_time_ptr t) = Some t"
  by (simp_all add: scan_string_def scan_bool_def bind_bool_def scan_time_def bind_time_def scan_time_ptr_def bind_time_ptr_def
      goTime_dbTime IsZero_def)

lemma bound_inj [simp]:
  "bind_bool a = bind_bool b \<longleftrightarrow> a = b" "bind_time t \<noteq> SNull" "bind_time_ptr t = SNull \<longleftrightarrow> t = 0" "bind_bool b \<noteq> SNull"
  "bind_bool b \<noteq> SText s" "bind_time_ptr 0 = SNull"
  by (auto simp: bind_bool_def bind_time_def bind_time_ptr_def IsZero_def)


section \<open>Six tables, one contract\<close>

text \<open>
  A table of records of type \<open>'a\<close>: the row its record is stored as, the columns the program selects,
  the scan, and what of the record the scan is to give back.
\<close>

locale stored =
  fixes enc :: "'a \<Rightarrow> dbrow"
    and cols :: "string list"
    and scan :: "sql list \<Rightarrow> 'b option"
    and view :: "'a \<Rightarrow> 'b"
    and valid :: "'a \<Rightarrow> bool"
  assumes read_back: "valid x \<Longrightarrow> scan (select cols (enc x)) = Some (view x)"
begin

lemma filter_rows: "(\<And>x. p (enc x) = P x) \<Longrightarrow> filter p (map enc t) = map enc (filter P t)"
  by (induction t) simp_all

lemma read_table: "list_all valid t \<Longrightarrow> map scan (map (select cols) (map enc t)) = map Some (map view t)"
  by (induction t) (simp_all add: read_back)

lemma read_query:
  "list_all valid t \<Longrightarrow> (\<And>x. p (enc x) = P x) \<Longrightarrow> map scan (query cols p (map enc t)) = map Some (map view (filter P t))"
  using read_table [of "filter P t"] by (simp add: query_def filter_rows list_all_iff)

lemma read_ordered:
  assumes "list_all valid t" and "\<And>x. p (enc x) = P x" and "\<And>x y. (key (enc x) \<le> key (enc y)) = (k x \<le> k y)"
  shows "map scan (map (select cols) (sort_key key (filter p (map enc t)))) = map Some (map view (sort_key k (filter P t)))"
proof -
  have "sort_key key (map enc (filter P t)) = map enc (sort_key k (filter P t))"
    unfolding sort_key_map by (rule arg_cong [where f = "map enc"]) (rule sort_key_cong, rule assms(3))
  then show ?thesis
    using read_table [of "sort_key k (filter P t)"] assms(1) by (simp add: filter_rows assms(2) list_all_iff)
qed

lemma read_descending:
  assumes "list_all valid t" and "\<And>x y. (key (enc x) \<le> key (enc y)) = (k x \<le> k y)"
  shows "map scan (map (select cols) (rev (sort_key key (rev (map enc t))))) = map Some (map view (rev (sort_key k (rev t))))"
proof -
  have "sort_key key (map enc (rev t)) = map enc (sort_key k (rev t))"
    unfolding sort_key_map by (rule arg_cong [where f = "map enc"]) (rule sort_key_cong, rule assms(2))
  then show ?thesis
    using read_table [of "rev (sort_key k (rev t))"] assms(1) by (simp add: rev_map list_all_iff)
qed

lemma rewritten:
  assumes "\<And>x. p (enc x) = P x" and "\<And>x. P x \<Longrightarrow> assign_columns sets (enc x) = enc (f x)"
  shows "update_where p sets (map enc t) = map enc (map (\<lambda>x. if P x then f x else x) t)"
  using assms by (simp add: update_where_def)

lemma deleted: "(\<And>x. p (enc x) = P x) \<Longrightarrow> delete_where p (map enc t) = map enc (filter (\<lambda>x. \<not> P x) t)"
  using filter_rows [of "\<lambda>r. \<not> p r" "\<lambda>x. \<not> P x"] by (simp add: delete_where_def)

lemma taken: "(\<And>y. conflicting key (enc x) (enc y) = (k x = k y)) \<Longrightarrow> list_ex (conflicting key (enc x)) (map enc t) = (k x \<in> k ` set t)"
  by (auto simp: list_ex_iff)

end


section \<open>Accounts and links\<close>

definition userColumns :: "string list" where
  "userColumns = [''name'', ''role'', ''hash'', ''created'', ''must_change_password'', ''pending'', ''invited_by'', ''sessions_from'']"

definition inviteColumns :: "string list" where
  "inviteColumns = [''id'', ''digest'', ''role'', ''note'', ''created_by'', ''created'', ''expires'', ''claimed_by'', ''claimed'', ''revoked'']"

definition resetColumns :: "string list" where
  "resetColumns = [''id'', ''digest'', ''user_name'', ''created_by'', ''created'', ''expires'', ''used'']"

definition scanUser :: "sql list \<Rightarrow> user option" where
  "scanUser row =
     (case row of
        [c0, c1, c2, c3, c4, c5, c6, c7] \<Rightarrow> do {
          name \<leftarrow> scan_string c0; role \<leftarrow> scan_string c1; hash \<leftarrow> scan_string c2; created \<leftarrow> scan_time c3;
          must \<leftarrow> scan_bool c4; pending \<leftarrow> scan_bool c5; by \<leftarrow> scan_string c6; from \<leftarrow> scan_time_ptr c7;
          Some \<lparr>u_name = name, u_role = role, u_hash = hash, u_created = created, u_must_change = must, u_pending = pending,
                u_invited_by = by, u_sessions_from = from\<rparr> }
      | _ \<Rightarrow> None)"

definition scanInvite :: "sql list \<Rightarrow> invite option" where
  "scanInvite row =
     (case row of
        [c0, c1, c2, c3, c4, c5, c6, c7, c8, c9] \<Rightarrow> do {
          i \<leftarrow> scan_string c0; digest \<leftarrow> scan_string c1; role \<leftarrow> scan_string c2; memo \<leftarrow> scan_string c3; by \<leftarrow> scan_string c4;
          created \<leftarrow> scan_time c5; expires \<leftarrow> scan_time c6; claimant \<leftarrow> scan_string c7; claimed \<leftarrow> scan_time_ptr c8;
          revoked \<leftarrow> scan_bool c9;
          Some \<lparr>i_id = i, i_digest = digest, i_role = role, i_note = memo, i_created_by = by, i_created = created,
                i_expires = expires, i_claimed_by = claimant, i_claimed = claimed, i_revoked = revoked\<rparr> }
      | _ \<Rightarrow> None)"

definition scanReset :: "sql list \<Rightarrow> reset option" where
  "scanReset row =
     (case row of
        [c0, c1, c2, c3, c4, c5, c6] \<Rightarrow> do {
          i \<leftarrow> scan_string c0; digest \<leftarrow> scan_string c1; user \<leftarrow> scan_string c2; by \<leftarrow> scan_string c3;
          created \<leftarrow> scan_time c4; expires \<leftarrow> scan_time c5; used \<leftarrow> scan_time_ptr c6;
          Some \<lparr>p_id = i, p_digest = digest, p_user = user, p_created_by = by, p_created = created, p_expires = expires,
                p_used = used\<rparr> }
      | _ \<Rightarrow> None)"

text \<open>The row of an account, an invitation, a reset link.\<close>

definition user_row :: "user \<Rightarrow> dbrow" where
  "user_row u = insert_values userColumns
     [SText (u_name u), SText (u_role u), SText (u_hash u), bind_time (u_created u), bind_bool (u_must_change u),
      bind_bool (u_pending u), SText (u_invited_by u), bind_time_ptr (u_sessions_from u)]"

definition invite_row :: "invite \<Rightarrow> dbrow" where
  "invite_row i = insert_values inviteColumns
     [SText (i_id i), SText (i_digest i), SText (i_role i), SText (i_note i), SText (i_created_by i), bind_time (i_created i),
      bind_time (i_expires i), SText (i_claimed_by i), bind_time_ptr (i_claimed i), bind_bool (i_revoked i)]"

definition reset_row :: "reset \<Rightarrow> dbrow" where
  "reset_row p = insert_values resetColumns
     [SText (p_id p), SText (p_digest p), SText (p_user p), SText (p_created_by p), bind_time (p_created p),
      bind_time (p_expires p), bind_time_ptr (p_used p)]"

definition user_storable :: "user \<Rightarrow> bool" where
  "user_storable u = (storable (u_created u) \<and> storable (u_sessions_from u))"

definition invite_storable :: "invite \<Rightarrow> bool" where
  "invite_storable i = (storable (i_created i) \<and> storable (i_expires i) \<and> storable (i_claimed i))"

definition reset_storable :: "reset \<Rightarrow> bool" where
  "reset_storable p = (storable (p_created p) \<and> storable (p_expires p) \<and> storable (p_used p))"

text \<open>
  The insertions, which bind the absent instants as NULL: \<open>addUser\<close> and \<open>ClaimInvite\<close>,
  \<open>CreateInvite\<close>, \<open>CreateReset\<close>. The keys are the table's primary key and its unique columns.
\<close>

definition insert_user :: "user \<Rightarrow> dbrow list \<Rightarrow> dbrow list option" where
  "insert_user u = insert_into [[''name'']] (insert_values userColumns
     [SText (u_name u), SText (u_role u), SText (u_hash u), bind_time (u_created u), bind_bool (u_must_change u),
      bind_bool (u_pending u), SText (u_invited_by u), SNull])"

definition insert_invite :: "invite \<Rightarrow> dbrow list \<Rightarrow> dbrow list option" where
  "insert_invite i = insert_into [[''id''], [''digest'']] (insert_values inviteColumns
     [SText (i_id i), SText (i_digest i), SText (i_role i), SText (i_note i), SText (i_created_by i), bind_time (i_created i),
      bind_time (i_expires i), SText [], SNull, bind_bool False])"

definition insert_reset :: "reset \<Rightarrow> dbrow list \<Rightarrow> dbrow list option" where
  "insert_reset p = insert_into [[''id''], [''digest'']] (insert_values resetColumns
     [SText (p_id p), SText (p_digest p), SText (p_user p), SText (p_created_by p), bind_time (p_created p),
      bind_time (p_expires p), SNull])"

text \<open>The updates, by the method that makes them.\<close>

definition set_password_rows :: "string \<Rightarrow> string \<Rightarrow> dbrow list \<Rightarrow> dbrow list" where
  "set_password_rows name hash = update_where (col_is ''name'' (SText name)) [(''hash'', SText hash), (''must_change_password'', SInt 0)]"

definition retire_rows :: "string \<Rightarrow> time \<Rightarrow> dbrow list \<Rightarrow> dbrow list" where
  "retire_rows name now =
     update_where (\<lambda>r. col_is ''user_name'' (SText name) r \<and> is_null ''used'' r) [(''used'', bind_time now)]"

definition revoke_sessions_rows :: "string \<Rightarrow> time \<Rightarrow> dbrow list \<Rightarrow> dbrow list" where
  "revoke_sessions_rows name now = update_where (col_is ''name'' (SText name)) [(''sessions_from'', bind_time now)]"

definition set_role_rows :: "string \<Rightarrow> string \<Rightarrow> dbrow list \<Rightarrow> dbrow list" where
  "set_role_rows name role = update_where (col_is ''name'' (SText name)) [(''role'', SText role)]"

definition approve_rows :: "string \<Rightarrow> string \<Rightarrow> dbrow list \<Rightarrow> dbrow list" where
  "approve_rows name role = update_where (col_is ''name'' (SText name)) [(''pending'', SInt 0), (''role'', SText role)]"

definition delete_user_rows :: "string \<Rightarrow> dbrow list \<Rightarrow> dbrow list" where
  "delete_user_rows name = delete_where (col_is ''name'' (SText name))"

definition revoke_invite_rows :: "string \<Rightarrow> dbrow list \<Rightarrow> dbrow list" where
  "revoke_invite_rows i = update_where (col_is ''id'' (SText i)) [(''revoked'', SInt 1)]"

definition claim_rows :: "string \<Rightarrow> string \<Rightarrow> time \<Rightarrow> dbrow list \<Rightarrow> dbrow list" where
  "claim_rows i name now = update_where (col_is ''id'' (SText i)) [(''claimed_by'', SText name), (''claimed'', bind_time now)]"

definition reset_password_rows :: "string \<Rightarrow> string \<Rightarrow> time \<Rightarrow> dbrow list \<Rightarrow> dbrow list" where
  "reset_password_rows name hash now = update_where (col_is ''name'' (SText name))
     [(''hash'', SText hash), (''must_change_password'', SInt 0), (''sessions_from'', bind_time now)]"

definition use_reset_rows :: "string \<Rightarrow> time \<Rightarrow> dbrow list \<Rightarrow> dbrow list" where
  "use_reset_rows i now = update_where (col_is ''id'' (SText i)) [(''used'', bind_time now)]"

lemmas statement_defs = insert_values_def select_def column_def col_is_def is_null_def conflicting_def assign_columns_def

lemmas row_defs = user_row_def userColumns_def invite_row_def inviteColumns_def reset_row_def resetColumns_def statement_defs

interpretation stored_users: stored user_row userColumns scanUser "\<lambda>u. u" user_storable
  by unfold_locales (simp add: row_defs scanUser_def user_storable_def)

interpretation stored_invites: stored invite_row inviteColumns scanInvite "\<lambda>i. i" invite_storable
  by unfold_locales (simp add: row_defs scanInvite_def invite_storable_def)

interpretation stored_resets: stored reset_row resetColumns scanReset "\<lambda>p. p" reset_storable
  by unfold_locales (simp add: row_defs scanReset_def reset_storable_def)

lemma user_statements:
  "set_password_rows name hash (map user_row t) = map user_row (modify_by u_name name (\<lambda>u. u\<lparr>u_hash := hash, u_must_change := False\<rparr>) t)"
  "set_role_rows name role (map user_row t) = map user_row (modify_by u_name name (\<lambda>u. u\<lparr>u_role := role\<rparr>) t)"
  "approve_rows name role (map user_row t) = map user_row (modify_by u_name name (\<lambda>u. u\<lparr>u_pending := False, u_role := role\<rparr>) t)"
  "delete_user_rows name (map user_row t) = map user_row (filter (\<lambda>u. u_name u \<noteq> name) t)"
  "now \<noteq> 0 \<Longrightarrow> revoke_sessions_rows name now (map user_row t) = map user_row (modify_by u_name name (\<lambda>u. u\<lparr>u_sessions_from := now\<rparr>) t)"
  "now \<noteq> 0 \<Longrightarrow> reset_password_rows name hash now (map user_row t) =
     map user_row (modify_by u_name name (\<lambda>u. u\<lparr>u_hash := hash, u_must_change := False, u_sessions_from := now\<rparr>) t)"
  unfolding set_password_rows_def set_role_rows_def approve_rows_def delete_user_rows_def revoke_sessions_rows_def
    reset_password_rows_def modify_by_def
  by (rule stored_users.rewritten stored_users.deleted; simp add: row_defs bind_bool_def bind_time_def bind_time_ptr_def IsZero_def)+

lemma invite_statements:
  "revoke_invite_rows i (map invite_row t) = map invite_row (modify_by i_id i (\<lambda>iv. iv\<lparr>i_revoked := True\<rparr>) t)"
  "now \<noteq> 0 \<Longrightarrow> claim_rows (i_id iv) name now (map invite_row t) = map invite_row (spend_invite name iv now t)"
  unfolding revoke_invite_rows_def claim_rows_def spend_invite_def modify_by_def
  by (rule stored_invites.rewritten; simp add: row_defs bind_bool_def bind_time_def bind_time_ptr_def IsZero_def)+

lemma reset_statements:
  "now \<noteq> 0 \<Longrightarrow> retire_rows name now (map reset_row t) = map reset_row (retire_resets name now t)"
  "now \<noteq> 0 \<Longrightarrow> use_reset_rows (p_id p) now (map reset_row t) = map reset_row (spend_reset p now t)"
  unfolding retire_rows_def use_reset_rows_def spend_reset_def retire_resets_def modify_by_def
  by (rule stored_resets.rewritten; simp add: row_defs bind_bool_def bind_time_def bind_time_ptr_def IsZero_def)+

lemma account_inserts:
  "u_sessions_from u = 0 \<Longrightarrow>
     insert_user u (map user_row t) = (if u_name u \<in> u_name ` set t then None else Some (map user_row (t @ [u])))"
  "i_claimed_by i = [] \<Longrightarrow> i_claimed i = 0 \<Longrightarrow> \<not> i_revoked i \<Longrightarrow>
     insert_invite i (map invite_row is) =
       (if i_id i \<in> i_id ` set is \<or> i_digest i \<in> i_digest ` set is then None else Some (map invite_row (is @ [i])))"
  "p_used p = 0 \<Longrightarrow>
     insert_reset p (map reset_row ps) =
       (if p_id p \<in> p_id ` set ps \<or> p_digest p \<in> p_digest ` set ps then None else Some (map reset_row (ps @ [p])))"
  by (auto simp: insert_user_def insert_invite_def insert_reset_def insert_into_def list_ex_iff row_defs) (metis imageI)+


section \<open>Surveys and their options\<close>

definition surveyColumns :: "string list" where
  "surveyColumns = [''id'', ''type'', ''title'', ''description'', ''state'', ''show_results'', ''allow_write_in'', ''allow_comment'',
     ''no_randomize'', ''close_at'', ''first_opened_at'', ''created'', ''updated'']"

definition scanSurvey :: "sql list \<Rightarrow> survey_row option" where
  "scanSurvey row =
     (case row of
        [c0, c1, c2, c3, c4, c5, c6, c7, c8, c9, c10, c11, c12] \<Rightarrow> do {
          i \<leftarrow> scan_string c0; type \<leftarrow> scan_string c1; title \<leftarrow> scan_string c2; desc \<leftarrow> scan_string c3; state \<leftarrow> scan_string c4;
          show \<leftarrow> scan_bool c5; write \<leftarrow> scan_bool c6; comment \<leftarrow> scan_bool c7; fixed \<leftarrow> scan_bool c8;
          closes \<leftarrow> scan_time_ptr c9; opened \<leftarrow> scan_time_ptr c10; created \<leftarrow> scan_time c11; updated \<leftarrow> scan_time c12;
          Some \<lparr>sv_id = i, sv_type = type, sv_title = title, sv_desc = desc, sv_state = state, show_results = show,
                allow_write_in = write, allow_comment = comment, no_randomize = fixed, close_at = closes,
                first_opened_at = opened, sv_created = created, sv_updated = updated\<rparr> }
      | _ \<Rightarrow> None)"

definition optionColumns :: "string list" where
  "optionColumns = [''id'', ''text'', ''status'', ''source'', ''merged_into'', ''created'']"

definition scanOption :: "sql list \<Rightarrow> opt option" where
  "scanOption row =
     (case row of
        [c0, c1, c2, c3, c4, c5] \<Rightarrow> do {
          i \<leftarrow> scan_string c0; txt \<leftarrow> scan_string c1; status \<leftarrow> scan_string c2; source \<leftarrow> scan_string c3;
          merged \<leftarrow> scan_string c4; created \<leftarrow> scan_time c5;
          Some \<lparr>o_id = i, o_text = txt, o_status = status, o_source = source, o_merged = merged, o_created = created\<rparr> }
      | _ \<Rightarrow> None)"

definition survey_dbrow :: "survey_row \<Rightarrow> dbrow" where
  "survey_dbrow sv = insert_values surveyColumns
     [SText (sv_id sv), SText (sv_type sv), SText (sv_title sv), SText (sv_desc sv), SText (sv_state sv),
      bind_bool (show_results sv), bind_bool (allow_write_in sv), bind_bool (allow_comment sv), bind_bool (no_randomize sv),
      bind_time_ptr (close_at sv), bind_time_ptr (first_opened_at sv), bind_time (sv_created sv), bind_time (sv_updated sv)]"

definition option_dbrow :: "option_row \<Rightarrow> dbrow" where
  "option_dbrow r = insert_values [''id'', ''survey_id'', ''position'', ''text'', ''status'', ''source'', ''merged_into'', ''created'']
     [SText (o_id r), SText (o_survey r), SInt (int (o_position r)), SText (o_text r), SText (o_status r), SText (o_source r),
      SText (o_merged r), bind_time (o_created r)]"

text \<open>\<open>loadOptions\<close> and \<open>loadSurvey\<close> over the rows; a query that fails is a survey that is not loaded.\<close>

definition option_query :: "dbrow list \<Rightarrow> string \<Rightarrow> sql list list" where
  "option_query os i =
     map (select optionColumns) (sort_key (\<lambda>r. column r ''position'') (filter (col_is ''survey_id'' (SText i)) os))"

definition loadOptions_rows :: "dbrow list \<Rightarrow> string \<Rightarrow> opt list option" where
  "loadOptions_rows os i = scan_rows scanOption (option_query os i)"

definition loadSurvey_rows :: "dbrow list \<Rightarrow> dbrow list \<Rightarrow> string \<Rightarrow> survey option" where
  "loadSurvey_rows ss os i =
     (case query surveyColumns (col_is ''id'' (SText i)) ss of
        [] \<Rightarrow> None
      | row # _ \<Rightarrow> do {
          r \<leftarrow> scanSurvey row; list \<leftarrow> loadOptions_rows os (sv_id r);
          Some (survey_row.extend r (survey.fields list)) })"

text \<open>
  \<open>Surveys\<close>: the rows first, then the options of each; a failure to read those leaves what has been
  read so far in place and the surveys after it without any.
\<close>

primrec fill_options :: "dbrow list \<Rightarrow> survey_row list \<Rightarrow> survey list" where
  "fill_options os [] = []"
| "fill_options os (r # rs) =
     (case loadOptions_rows os (sv_id r) of
        Some list \<Rightarrow> survey_row.extend r (survey.fields list) # fill_options os rs
      | None \<Rightarrow> survey_row.extend r (survey.fields (read_rows scanOption (option_query os (sv_id r)))) #
          map (\<lambda>r. survey_row.extend r (survey.fields [])) rs)"

definition Surveys_rows :: "dbrow list \<Rightarrow> dbrow list \<Rightarrow> survey list" where
  "Surveys_rows ss os =
     fill_options os (read_rows scanSurvey (map (select surveyColumns) (rev (sort_key (\<lambda>r. column r ''created'') (rev ss)))))"

text \<open>The two upserts of \<open>saveSurvey\<close>, with the columns their \<open>DO UPDATE SET\<close> names.\<close>

definition upsert_survey_rows :: "survey_row \<Rightarrow> dbrow list \<Rightarrow> dbrow list option" where
  "upsert_survey_rows sv = upsert [[''id'']] [''id'']
     [''type'', ''title'', ''description'', ''state'', ''show_results'', ''allow_write_in'', ''allow_comment'', ''no_randomize'',
      ''close_at'', ''first_opened_at'', ''updated'']
     (\<lambda>new old. True) (survey_dbrow sv)"

definition upsert_option_rows :: "string \<Rightarrow> nat \<Rightarrow> opt \<Rightarrow> dbrow list \<Rightarrow> dbrow list option" where
  "upsert_option_rows i pos o' = upsert [[''id'']] [''id''] [''position'', ''text'', ''status'', ''source'', ''merged_into'']
     (\<lambda>new old. column old ''survey_id'' = column new ''survey_id'') (option_dbrow (option_row_of i pos o'))"

primrec upsert_options_rows :: "string \<Rightarrow> nat \<Rightarrow> opt list \<Rightarrow> dbrow list \<Rightarrow> dbrow list option" where
  "upsert_options_rows i pos [] t = Some t"
| "upsert_options_rows i pos (o' # os) t = do { t \<leftarrow> upsert_option_rows i pos o' t; upsert_options_rows i (Suc pos) os t }"

definition saveSurvey_rows :: "time \<Rightarrow> dbrow list \<Rightarrow> dbrow list \<Rightarrow> survey \<Rightarrow> err + (survey \<times> dbrow list \<times> dbrow list)" where
  "saveSurvey_rows now ss os sv =
     (let sv = stamp_opened now sv in
      if length (options sv) > maxOptions \<and> length (options sv) > length (filter (col_is ''survey_id'' (SText (sv_id sv))) os)
      then Inl (ErrTooManyOptions (length (options sv)))
      else case upsert_survey_rows (survey_row.truncate sv) ss of
          None \<Rightarrow> Inl (ErrUnique ''surveys'')
        | Some ss \<Rightarrow> (case upsert_options_rows (sv_id sv) 0 (options sv) os of
            None \<Rightarrow> Inl (ErrUnique ''options'')
          | Some os \<Rightarrow> Inr (sv, ss, os)))"

definition survey_storable :: "survey_row \<Rightarrow> bool" where
  "survey_storable sv = (storable (close_at sv) \<and> storable (first_opened_at sv) \<and> storable (sv_created sv) \<and> storable (sv_updated sv))"

definition option_storable :: "option_row \<Rightarrow> bool" where
  "option_storable r = storable (o_created r)"

lemmas survey_defs = survey_dbrow_def surveyColumns_def option_dbrow_def optionColumns_def statement_defs

interpretation stored_surveys: stored survey_dbrow surveyColumns scanSurvey "\<lambda>sv. sv" survey_storable
  by unfold_locales (simp add: survey_defs scanSurvey_def survey_storable_def)

interpretation stored_options: stored option_dbrow optionColumns scanOption opt.truncate option_storable
  by unfold_locales (simp add: survey_defs scanOption_def option_storable_def opt.truncate_def)

lemma option_survey: "col_is ''survey_id'' (SText i) (option_dbrow r) = (o_survey r = i)"
  by (simp add: survey_defs)

lemma loadOptions_from_rows:
  "list_all option_storable (opts d) \<Longrightarrow> loadOptions_rows (map option_dbrow (opts d)) i = Some (loadOptions d i)"
  unfolding loadOptions_rows_def option_query_def loadOptions_def owned_def
  by (rule scan_rows_some, rule stored_options.read_ordered) (simp_all add: option_survey survey_defs)

lemma filter_find: "lookup_by key i t = (case filter (\<lambda>x. key x = i) t of [] \<Rightarrow> None | x # _ \<Rightarrow> Some x)"
  by (induction t) (simp_all add: lookup_by_def)

lemma loadSurvey_from_rows:
  assumes "list_all survey_storable (surveys d)" and "list_all option_storable (opts d)"
  shows "loadSurvey_rows (map survey_dbrow (surveys d)) (map option_dbrow (opts d)) i = loadSurvey d i"
proof -
  have p: "filter (col_is ''id'' (SText i)) (map survey_dbrow (surveys d)) = map survey_dbrow (filter (\<lambda>sv. sv_id sv = i) (surveys d))"
    by (rule stored_surveys.filter_rows) (simp add: survey_defs)
  show ?thesis
  proof (cases "filter (\<lambda>sv. sv_id sv = i) (surveys d)")
    case Nil
    then show ?thesis by (simp add: loadSurvey_rows_def loadSurvey_def query_def p filter_find)
  next
    case (Cons r rs)
    then have "r \<in> set (filter (\<lambda>sv. sv_id sv = i) (surveys d))" by simp
    then have "survey_storable r" "sv_id r = i" using assms(1) by (auto simp: list_all_iff)
    then show ?thesis
      using Cons loadOptions_from_rows [OF assms(2)]
      by (simp add: loadSurvey_rows_def loadSurvey_def query_def p filter_find stored_surveys.read_back)
  qed
qed

lemma Surveys_from_rows:
  assumes "list_all survey_storable (surveys d)" and "list_all option_storable (opts d)"
  shows "Surveys_rows (map survey_dbrow (surveys d)) (map option_dbrow (opts d)) = Surveys_list d"
proof -
  have "fill_options (map option_dbrow (opts d)) rs = map (\<lambda>r. survey_row.extend r (survey.fields (loadOptions d (sv_id r)))) rs" for rs
    by (induction rs) (simp_all add: loadOptions_from_rows [OF assms(2)])
  moreover have "read_rows scanSurvey (map (select surveyColumns) (rev (sort_key (\<lambda>r. column r ''created'')
      (rev (map survey_dbrow (surveys d)))))) = map (\<lambda>sv. sv) (rev (sort_key (\<lambda>r. dbTime (sv_created r)) (rev (surveys d))))"
    by (rule read_rows_some, rule stored_surveys.read_descending) (simp_all add: assms(1) survey_defs bind_time_def)
  ultimately show ?thesis by (simp add: Surveys_rows_def Surveys_list_def)
qed

lemma upsert_survey_from_rows: "upsert_survey_rows r (map survey_dbrow t) = Some (map survey_dbrow (upsert_survey r t))"
proof -
  have c: "conflicting [''id''] (survey_dbrow r) (survey_dbrow old) = (sv_id r = sv_id old)" for old by (auto simp: survey_defs)
  have a: "assign_columns (map (\<lambda>c. (c, column (survey_dbrow r) c)) [''type'', ''title'', ''description'', ''state'', ''show_results'', ''allow_write_in'',
      ''allow_comment'', ''no_randomize'', ''close_at'', ''first_opened_at'', ''updated'']) (survey_dbrow old) =
      survey_dbrow (r\<lparr>sv_created := sv_created old\<rparr>)" if "sv_id r = sv_id old" for old
    using that by (simp add: survey_defs)
  have k: "list_ex (conflicting [''id''] (survey_dbrow r)) (map survey_dbrow t) = (sv_id r \<in> sv_id ` set t)"
    by (rule stored_surveys.taken) (simp add: c)
  show ?thesis
  proof (cases "lookup_by sv_id (sv_id r) t")
    case None
    then have "sv_id r \<notin> sv_id ` set t" by (simp add: lookup_by_None_iff)
    with None k show ?thesis
      by (simp add: upsert_survey_rows_def upsert_def upsert_survey_def insert_into_def)
  next
    case (Some old)
    then have "sv_id r \<in> sv_id ` set t" by (metis imageI lookup_by_SomeD)
    with Some k a show ?thesis
      by (auto simp: upsert_survey_rows_def upsert_def upsert_survey_def modify_by_def c)
  qed
qed

lemma upsert_option_from_rows:
  "upsert_option_rows i pos o' (map option_dbrow t) = Some (map option_dbrow (upsert_option i pos o' t))"
proof -
  obtain r where r: "option_row_of i pos o' = r" by blast
  have f: "o_id o' = o_id r" "o_survey r = i" using r by (auto dest: sym)
  have c: "conflicting [''id''] (option_dbrow r) (option_dbrow old) = (o_id r = o_id old)" for old by (auto simp: survey_defs)
  have g: "(column (option_dbrow old) ''survey_id'' = column (option_dbrow r) ''survey_id'') = (o_survey old = i)" for old
    using f(2) by (simp add: survey_defs)
  have a: "assign_columns (map (\<lambda>c. (c, column (option_dbrow r) c)) [''position'', ''text'', ''status'', ''source'', ''merged_into'']) (option_dbrow old) =
      option_dbrow (r\<lparr>o_created := o_created old\<rparr>)" if "o_id r = o_id old" "o_survey old = i" for old
    using that f(2) by (simp add: survey_defs)
  have k: "list_ex (conflicting [''id''] (option_dbrow r)) (map option_dbrow t) = (o_id r \<in> o_id ` set t)"
    by (rule stored_options.taken) (simp add: c)
  show ?thesis
  proof (cases "lookup_by o_id (o_id r) t")
    case None
    then have "o_id r \<notin> o_id ` set t" by (simp add: lookup_by_None_iff)
    with None k show ?thesis
      by (simp add: upsert_option_rows_def upsert_def upsert_option_def insert_into_def r f(1))
  next
    case (Some old)
    then have "o_id r \<in> o_id ` set t" by (metis imageI lookup_by_SomeD)
    with Some k a show ?thesis
      by (auto simp: upsert_option_rows_def upsert_def upsert_option_def modify_by_def c g r f(1))
  qed
qed

lemma upsert_options_from_rows:
  "upsert_options_rows i pos os (map option_dbrow t) = Some (map option_dbrow (upsert_options i pos os t))"
  by (induction os arbitrary: pos t) (simp_all add: upsert_option_from_rows)

lemma saveSurvey_from_rows:
  "saveSurvey_rows now (map survey_dbrow (surveys d)) (map option_dbrow (opts d)) sv =
     (case saveSurvey now d sv of
        Inl e \<Rightarrow> Inl e
      | Inr (sv', d') \<Rightarrow> Inr (sv', map survey_dbrow (surveys d'), map option_dbrow (opts d')))"
proof -
  have "filter (col_is ''survey_id'' (SText j)) (map option_dbrow (opts d)) = map option_dbrow (owned d j)" for j
    unfolding owned_def by (rule stored_options.filter_rows) (simp add: option_survey)
  then show ?thesis
    by (simp add: saveSurvey_rows_def saveSurvey_def Let_def upsert_survey_from_rows upsert_options_from_rows)
qed


section \<open>Answers\<close>

definition responseColumns :: "string list" where
  "responseColumns = [''id'', ''voter'', ''comment'', ''created'', ''updated'']"

definition scanResponse :: "sql list \<Rightarrow> response option" where
  "scanResponse row =
     (case row of
        [c0, c1, c2, c3, c4] \<Rightarrow> do {
          i \<leftarrow> scan_string c0; voter \<leftarrow> scan_string c1; comment \<leftarrow> scan_string c2; created \<leftarrow> scan_time c3; updated \<leftarrow> scan_time c4;
          Some \<lparr>q_id = i, q_voter = voter, q_choices = [], q_seen = [], q_comment = comment, q_created = created,
                q_updated = updated\<rparr> }
      | _ \<Rightarrow> None)"

definition scanID :: "sql list \<Rightarrow> string option" where
  "scanID row = (case row of [c] \<Rightarrow> scan_string c | _ \<Rightarrow> None)"

definition response_dbrow :: "response_row \<Rightarrow> dbrow" where
  "response_dbrow r = insert_values [''id'', ''survey_id'', ''voter'', ''comment'', ''created'', ''updated'']
     [SText (r_id r), SText (r_survey r), SText (r_voter r), SText (r_comment r), bind_time (r_created r), bind_time (r_updated r)]"

text \<open>A row of \<open>choices\<close> or \<open>seen\<close>.\<close>

definition pair_row :: "string \<times> string \<Rightarrow> dbrow" where
  "pair_row c = insert_values [''response_id'', ''option_id''] [SText (fst c), SText (snd c)]"

definition loadIDs_rows :: "dbrow list \<Rightarrow> string \<Rightarrow> string list option" where
  "loadIDs_rows t rid = scan_rows scanID (query [''option_id''] (col_is ''response_id'' (SText rid)) t)"

definition loadResponse_rows :: "dbrow list \<Rightarrow> dbrow list \<Rightarrow> dbrow list \<Rightarrow> string \<Rightarrow> string \<Rightarrow> bool \<Rightarrow> response option" where
  "loadResponse_rows rs cs ss sid voter withSeen =
     (case query responseColumns (\<lambda>r. col_is ''survey_id'' (SText sid) r \<and> col_is ''voter'' (SText voter) r) rs of
        [] \<Rightarrow> None
      | row # _ \<Rightarrow> do {
          r \<leftarrow> scanResponse row; chosen \<leftarrow> loadIDs_rows cs (q_id r);
          shown \<leftarrow> (if withSeen then loadIDs_rows ss (q_id r) else Some []);
          Some (r\<lparr>q_choices := chosen, q_seen := shown\<rparr>) })"

text \<open>\<open>Comments\<close>: \<open>comment != ''''\<close>, oldest first.\<close>

definition Comments_rows :: "dbrow list \<Rightarrow> string \<Rightarrow> response list" where
  "Comments_rows rs sid =
     read_rows scanResponse (map (select responseColumns) (sort_key (\<lambda>r. (column r ''created'', column r ''id''))
       (filter (\<lambda>r. col_is ''survey_id'' (SText sid) r \<and> column r ''comment'' \<noteq> SNull \<and> column r ''comment'' \<noteq> SText []) rs)))"

text \<open>The writes of \<open>saveResponse\<close>.\<close>

definition upsert_response_rows :: "response_row \<Rightarrow> dbrow list \<Rightarrow> dbrow list option" where
  "upsert_response_rows r =
     upsert [[''id''], [''survey_id'', ''voter'']] [''survey_id'', ''voter''] [''comment'', ''updated''] (\<lambda>new old. True) (response_dbrow r)"

primrec insert_choices_rows :: "string \<Rightarrow> string list \<Rightarrow> dbrow list \<Rightarrow> dbrow list option" where
  "insert_choices_rows rid [] t = Some t"
| "insert_choices_rows rid (i # is) t = do {
     t \<leftarrow> insert_into [[''response_id'', ''option_id'']] (pair_row (rid, i)) t; insert_choices_rows rid is t }"

text \<open>\<open>INSERT OR IGNORE\<close>, row by row of one statement.\<close>

primrec insert_ignore_rows :: "string \<Rightarrow> string list \<Rightarrow> dbrow list \<Rightarrow> dbrow list" where
  "insert_ignore_rows rid [] t = t"
| "insert_ignore_rows rid (i # is) t =
     insert_ignore_rows rid is (case insert_into [[''response_id'', ''option_id'']] (pair_row (rid, i)) t of None \<Rightarrow> t | Some t \<Rightarrow> t)"

definition response_storable :: "response_row \<Rightarrow> bool" where
  "response_storable r = (storable (r_created r) \<and> storable (r_updated r))"

lemmas answer_defs = response_dbrow_def responseColumns_def pair_row_def statement_defs

interpretation stored_responses: stored response_dbrow responseColumns scanResponse bare_response response_storable
  by unfold_locales (simp add: answer_defs scanResponse_def response_storable_def bare_response_def)

interpretation stored_pairs: stored pair_row "[''option_id'']" scanID snd "\<lambda>c. True"
  by unfold_locales (simp add: answer_defs scanID_def)

lemma loadIDs_from_rows: "loadIDs_rows (map pair_row t) rid = Some (loadIDs t rid)"
  unfolding loadIDs_rows_def loadIDs_def
  by (rule scan_rows_some, rule stored_pairs.read_query) (simp_all add: answer_defs list_all_iff)

lemma loadResponse_from_rows:
  assumes "list_all response_storable (responses d)"
  shows "loadResponse_rows (map response_dbrow (responses d)) (map pair_row (choices d)) (map pair_row (seen d)) sid voter w =
     loadResponse d sid voter w"
proof -
  have p: "filter (\<lambda>r. col_is ''survey_id'' (SText sid) r \<and> col_is ''voter'' (SText voter) r) (map response_dbrow (responses d)) =
      map response_dbrow (filter (\<lambda>r. row_key r = (sid, voter)) (responses d))"
    by (rule stored_responses.filter_rows) (simp add: answer_defs row_key_def)
  show ?thesis
  proof (cases "filter (\<lambda>r. row_key r = (sid, voter)) (responses d)")
    case Nil
    then show ?thesis by (simp add: loadResponse_rows_def loadResponse_def query_def p filter_find)
  next
    case (Cons r rs)
    then have "r \<in> set (filter (\<lambda>r. row_key r = (sid, voter)) (responses d))" by simp
    then have "response_storable r" using assms by (auto simp: list_all_iff)
    moreover have "q_id (bare_response r) = r_id r" by (simp add: bare_response_def)
    ultimately show ?thesis using Cons
      by (simp add: loadResponse_rows_def loadResponse_def query_def p filter_find stored_responses.read_back loadIDs_from_rows)
  qed
qed

lemma Comments_from_rows:
  assumes "list_all response_storable (responses d)"
  shows "Comments_rows (map response_dbrow (responses d)) sid = Comments d sid"
proof -
  have "filter (\<lambda>r. r_comment r \<noteq> []) (rows_of d sid) =
      sort_key (\<lambda>r. (dbTime (r_created r), r_id r)) (filter (\<lambda>r. r_survey r = sid \<and> r_comment r \<noteq> []) (responses d))"
    by (simp add: rows_of_def filter_sort conj_commute)
  then show ?thesis
    unfolding Comments_rows_def Comments_def
    by (simp only:) (rule read_rows_some, rule stored_responses.read_ordered, simp_all add: assms answer_defs bind_time_def less_eq_prod_def)
qed

lemma insert_response_from_rows:
  "upsert_response_rows r (map response_dbrow t) =
     (case insert_response r t of Inl e \<Rightarrow> None | Inr t' \<Rightarrow> Some (map response_dbrow t'))"
proof -
  have c: "conflicting [''survey_id'', ''voter''] (response_dbrow r) (response_dbrow old) = (row_key r = row_key old)" for old
    by (auto simp: answer_defs row_key_def)
  have ci: "conflicting [''id''] (response_dbrow r) (response_dbrow old) = (r_id r = r_id old)" for old by (auto simp: answer_defs)
  have a: "assign_columns (map (\<lambda>c. (c, column (response_dbrow r) c)) [''comment'', ''updated'']) (response_dbrow old) =
      response_dbrow (old\<lparr>r_comment := r_comment r, r_updated := r_updated r\<rparr>)" for old
    by (simp add: answer_defs)
  have k: "list_ex (conflicting [''survey_id'', ''voter''] (response_dbrow r)) (map response_dbrow t) = (row_key r \<in> row_key ` set t)"
    by (rule stored_responses.taken) (simp add: c)
  have ki: "list_ex (conflicting [''id''] (response_dbrow r)) (map response_dbrow t) = (r_id r \<in> r_id ` set t)"
    by (rule stored_responses.taken) (simp add: ci)
  show ?thesis
  proof (cases "lookup_by row_key (row_key r) t")
    case None
    then have "row_key r \<notin> row_key ` set t" by (simp add: lookup_by_None_iff)
    with None k ki show ?thesis by (simp add: upsert_response_rows_def upsert_def insert_response_def insert_into_def)
  next
    case (Some old)
    then have "row_key r \<in> row_key ` set t" by (metis imageI lookup_by_SomeD)
    with Some k a show ?thesis
      by (auto simp: upsert_response_rows_def upsert_def insert_response_def modify_by_def c)
  qed
qed

lemma insert_pair: "insert_into [[''response_id'', ''option_id'']] (pair_row c) (map pair_row t) =
    (if c \<in> set t then None else Some (map pair_row (t @ [c])))"
proof -
  have "list_ex (conflicting [''response_id'', ''option_id''] (pair_row c)) (map pair_row t) = ((\<lambda>c. c) c \<in> (\<lambda>c. c) ` set t)"
    by (rule stored_pairs.taken) (auto simp: answer_defs prod_eq_iff)
  then show ?thesis by (simp add: insert_into_def)
qed

lemma pair_statements:
  "insert_choices_rows rid is (map pair_row t) = (case insert_choices rid is t of Inl e \<Rightarrow> None | Inr t' \<Rightarrow> Some (map pair_row t'))"
  "insert_ignore_rows rid is (map pair_row t) = map pair_row (insert_ignore rid is t)"
  "delete_where (col_is ''response_id'' (SText rid)) (map pair_row t) = map pair_row (filter (\<lambda>c. fst c \<noteq> rid) t)"
proof -
  show "insert_choices_rows rid is (map pair_row t) = (case insert_choices rid is t of Inl e \<Rightarrow> None | Inr t' \<Rightarrow> Some (map pair_row t'))"
    by (induction "is" arbitrary: t) (simp_all add: insert_pair del: map_append)
  show "insert_ignore_rows rid is (map pair_row t) = map pair_row (insert_ignore rid is t)"
    by (induction "is" arbitrary: t) (simp_all add: insert_pair del: map_append)
  show "delete_where (col_is ''response_id'' (SText rid)) (map pair_row t) = map pair_row (filter (\<lambda>c. fst c \<noteq> rid) t)"
    by (rule stored_pairs.deleted) (simp add: answer_defs)
qed


text \<open>\<open>attach\<close>: the pairs of the answers of one survey, and \<open>Responses\<close> over the rows.\<close>

definition scanPair :: "sql list \<Rightarrow> (string \<times> string) option" where
  "scanPair row =
     (case row of [c0, c1] \<Rightarrow> do { rid \<leftarrow> scan_string c0; oid \<leftarrow> scan_string c1; Some (rid, oid) } | _ \<Rightarrow> None)"

definition joined :: "dbrow list \<Rightarrow> string \<Rightarrow> dbrow \<Rightarrow> bool" where
  "joined rs sid c = list_ex (\<lambda>r. column r ''id'' = column c ''response_id'' \<and> col_is ''survey_id'' (SText sid) r) rs"

definition attach_rows ::
  "dbrow list \<Rightarrow> string \<Rightarrow> dbrow list \<Rightarrow> (response \<Rightarrow> string \<Rightarrow> response) \<Rightarrow> response list \<Rightarrow> response list" where
  "attach_rows rs sid t add out = attach_pairs add (read_rows scanPair (query [''response_id'', ''option_id''] (joined rs sid) t)) out"

definition Responses_rows :: "dbrow list \<Rightarrow> dbrow list \<Rightarrow> dbrow list \<Rightarrow> string \<Rightarrow> response list" where
  "Responses_rows rs cs ss sid =
     (let out = read_rows scanResponse (map (select responseColumns)
            (sort_key (\<lambda>r. (column r ''created'', column r ''id'')) (filter (col_is ''survey_id'' (SText sid)) rs)));
          out = attach_rows rs sid cs (\<lambda>r i. r\<lparr>q_choices := q_choices r @ [i]\<rparr>) out
      in attach_rows rs sid ss (\<lambda>r i. r\<lparr>q_seen := q_seen r @ [i]\<rparr>) out)"

interpretation joined_pairs: stored pair_row "[''response_id'', ''option_id'']" scanPair "\<lambda>c. c" "\<lambda>c. True"
  by unfold_locales (simp add: answer_defs scanPair_def)

lemma attach_from_rows: "attach_rows (map response_dbrow (responses d)) sid (map pair_row t) add out = attach d sid t add out"
proof -
  have "joined (map response_dbrow (responses d)) sid (pair_row c) =
      list_ex (\<lambda>r. r_id r = fst c \<and> r_survey r = sid) (responses d)" for c
    by (simp add: joined_def list_ex_iff answer_defs)
  then have "read_rows scanPair (query [''response_id'', ''option_id''] (joined (map response_dbrow (responses d)) sid) (map pair_row t)) =
      map (\<lambda>c. c) (filter (\<lambda>c. list_ex (\<lambda>r. r_id r = fst c \<and> r_survey r = sid) (responses d)) t)"
    by (intro read_rows_some joined_pairs.read_query) (simp_all add: list_all_iff)
  then show ?thesis by (simp add: attach_rows_def attach_def)
qed

lemma Responses_from_rows:
  assumes "list_all response_storable (responses d)"
  shows "Responses_rows (map response_dbrow (responses d)) (map pair_row (choices d)) (map pair_row (seen d)) sid = Responses d sid"
proof -
  have "read_rows scanResponse (map (select responseColumns) (sort_key (\<lambda>r. (column r ''created'', column r ''id''))
      (filter (col_is ''survey_id'' (SText sid)) (map response_dbrow (responses d))))) = map bare_response (rows_of d sid)"
    unfolding rows_of_def
    by (rule read_rows_some, rule stored_responses.read_ordered) (simp_all add: assms answer_defs bind_time_def less_eq_prod_def)
  then show ?thesis by (simp add: Responses_rows_def Responses_def attach_from_rows Let_def)
qed

section \<open>The reads of accounts and links\<close>

definition usersWhere_rows :: "string \<Rightarrow> (dbrow \<Rightarrow> bool) \<Rightarrow> dbrow list \<Rightarrow> user list" where
  "usersWhere_rows key p t = read_rows scanUser (map (select userColumns) (sort_key (\<lambda>r. column r key) (filter p t)))"

definition Users_rows :: "dbrow list \<Rightarrow> user list" where
  "Users_rows = usersWhere_rows ''name'' (\<lambda>r. True)"

definition PendingUsers_rows :: "dbrow list \<Rightarrow> user list" where
  "PendingUsers_rows = usersWhere_rows ''created'' (col_is ''pending'' (SInt 1))"

definition User_rows :: "dbrow list \<Rightarrow> string \<Rightarrow> user option" where
  "User_rows t name = (case query userColumns (col_is ''name'' (SText name)) t of [] \<Rightarrow> None | row # _ \<Rightarrow> scanUser row)"

definition Invites_rows :: "dbrow list \<Rightarrow> invite list" where
  "Invites_rows t = read_rows scanInvite (map (select inviteColumns) (rev (sort_key (\<lambda>r. column r ''created'') (rev t))))"

definition findInviteByToken_rows :: "dbrow list \<Rightarrow> string \<Rightarrow> invite option" where
  "findInviteByToken_rows t want =
     (case scan_rows scanInvite (query inviteColumns (\<lambda>r. True) t) of None \<Rightarrow> None | Some is \<Rightarrow> scan_invites want is None)"

definition findResetByToken_rows :: "dbrow list \<Rightarrow> string \<Rightarrow> reset option" where
  "findResetByToken_rows t want =
     (case scan_rows scanReset (query resetColumns (is_null ''used'') t) of None \<Rightarrow> None | Some ps \<Rightarrow> scan_resets want ps None)"

lemma Users_from_rows:
  assumes "list_all user_storable (users d)"
  shows "Users_rows (map user_row (users d)) = Users d" "PendingUsers_rows (map user_row (users d)) = PendingUsers d"
    "User_rows (map user_row (users d)) name = UserOf d name"
proof -
  have "usersWhere_rows ''name'' (\<lambda>r. True) (map user_row (users d)) = map (\<lambda>u. u) (sort_key u_name (filter (\<lambda>u. True) (users d)))"
    unfolding usersWhere_rows_def by (rule read_rows_some, rule stored_users.read_ordered) (simp_all add: assms row_defs)
  then show "Users_rows (map user_row (users d)) = Users d" by (simp add: Users_rows_def Users_def)
  have "usersWhere_rows ''created'' (col_is ''pending'' (SInt 1)) (map user_row (users d)) =
      map (\<lambda>u. u) (sort_key (\<lambda>u. dbTime (u_created u)) (filter u_pending (users d)))"
    unfolding usersWhere_rows_def
    by (rule read_rows_some, rule stored_users.read_ordered) (simp_all add: assms row_defs bind_bool_def bind_time_def)
  then show "PendingUsers_rows (map user_row (users d)) = PendingUsers d" by (simp add: PendingUsers_rows_def PendingUsers_def)
  have p: "filter (col_is ''name'' (SText name)) (map user_row (users d)) = map user_row (filter (\<lambda>u. u_name u = name) (users d))"
    by (rule stored_users.filter_rows) (simp add: row_defs)
  show "User_rows (map user_row (users d)) name = UserOf d name"
  proof (cases "filter (\<lambda>u. u_name u = name) (users d)")
    case (Cons u us)
    then have "u \<in> set (filter (\<lambda>u. u_name u = name) (users d))" by simp
    then have "user_storable u" using assms by (auto simp: list_all_iff)
    then show ?thesis using Cons by (simp add: User_rows_def UserOf_def query_def p filter_find stored_users.read_back)
  qed (simp add: User_rows_def UserOf_def query_def p filter_find)
qed

lemma links_from_rows:
  "list_all invite_storable (invites d) \<Longrightarrow> Invites_rows (map invite_row (invites d)) = Invites d"
  "list_all invite_storable (invites d) \<Longrightarrow> findInviteByToken_rows (map invite_row (invites d)) want = findInviteByToken d want"
  "list_all reset_storable (resets d) \<Longrightarrow> findResetByToken_rows (map reset_row (resets d)) want = findResetByToken d want"
proof -
  show "Invites_rows (map invite_row (invites d)) = Invites d" if v: "list_all invite_storable (invites d)"
  proof -
    have "Invites_rows (map invite_row (invites d)) = map (\<lambda>i. i) (rev (sort_key (\<lambda>i. dbTime (i_created i)) (rev (invites d))))"
      unfolding Invites_rows_def
      by (rule read_rows_some, rule stored_invites.read_descending) (simp_all add: v row_defs bind_time_def)
    then show ?thesis by (simp add: Invites_def)
  qed
  show "findInviteByToken_rows (map invite_row (invites d)) want = findInviteByToken d want" if v: "list_all invite_storable (invites d)"
    using scan_rows_some [OF stored_invites.read_query [OF v, where p = "\<lambda>r. True" and P = "\<lambda>i. True"]]
    by (simp add: findInviteByToken_rows_def findInviteByToken_def)
  show "findResetByToken_rows (map reset_row (resets d)) want = findResetByToken d want" if v: "list_all reset_storable (resets d)"
    using scan_rows_some [OF stored_resets.read_query [OF v, where p = "is_null ''used''" and P = "\<lambda>p. p_used p = 0"]]
    by (simp add: findResetByToken_rows_def findResetByToken_def row_defs)
qed

section \<open>The database as its rows\<close>

record tables =
  t_users :: "dbrow list"
  t_invites :: "dbrow list"
  t_resets :: "dbrow list"
  t_surveys :: "dbrow list"
  t_options :: "dbrow list"
  t_responses :: "dbrow list"
  t_choices :: "dbrow list"
  t_seen :: "dbrow list"

definition tables_of :: "db \<Rightarrow> tables" where
  "tables_of d = \<lparr>t_users = map user_row (users d), t_invites = map invite_row (invites d), t_resets = map reset_row (resets d),
     t_surveys = map survey_dbrow (surveys d), t_options = map option_dbrow (opts d),
     t_responses = map response_dbrow (responses d), t_choices = map pair_row (choices d), t_seen = map pair_row (seen d)\<rparr>"

definition storable_db :: "db \<Rightarrow> bool" where
  "storable_db d =
     (list_all user_storable (users d) \<and> list_all invite_storable (invites d) \<and> list_all reset_storable (resets d) \<and>
      list_all survey_storable (surveys d) \<and> list_all option_storable (opts d) \<and> list_all response_storable (responses d))"

section \<open>Properties\<close>

text \<open>
  C9. While every instant lies in the years 0 to 9999, nothing is lost between the records and the rows of
  SQLite: each read of the store (accounts, invitations, reset links, surveys with their options, answers with
  their choices and exposures, comments), run over the rows with its column list, its WHERE and ORDER BY
  clauses and its scan, returns what the same read returns over the records, to the nanosecond.
\<close>

theorem reads_from_rows:
  assumes "storable_db d"
  shows "Users_rows (t_users (tables_of d)) = Users d \<and>
    PendingUsers_rows (t_users (tables_of d)) = PendingUsers d \<and>
    User_rows (t_users (tables_of d)) name = UserOf d name \<and>
    Invites_rows (t_invites (tables_of d)) = Invites d \<and>
    findInviteByToken_rows (t_invites (tables_of d)) want = findInviteByToken d want \<and>
    findResetByToken_rows (t_resets (tables_of d)) want = findResetByToken d want \<and>
    loadSurvey_rows (t_surveys (tables_of d)) (t_options (tables_of d)) sid = loadSurvey d sid \<and>
    Surveys_rows (t_surveys (tables_of d)) (t_options (tables_of d)) = Surveys_list d \<and>
    loadResponse_rows (t_responses (tables_of d)) (t_choices (tables_of d)) (t_seen (tables_of d)) sid voter withSeen =
      loadResponse d sid voter withSeen \<and>
    Responses_rows (t_responses (tables_of d)) (t_choices (tables_of d)) (t_seen (tables_of d)) sid = Responses d sid \<and>
    Comments_rows (t_responses (tables_of d)) sid = Comments d sid"
  using assms
  by (simp add: storable_db_def tables_of_def Users_from_rows links_from_rows loadSurvey_from_rows Surveys_from_rows
      loadResponse_from_rows Responses_from_rows Comments_from_rows)

lemma reads_from_rows_witness:
  "storable_db demo_accounts \<and> User_rows (t_users (tables_of demo_accounts)) ''bob'' = UserOf demo_accounts ''bob'' \<and>
   UserOf demo_accounts ''bob'' \<noteq> None \<and> storable_db demo_db \<and>
   loadSurvey_rows (t_surveys (tables_of demo_db)) (t_options (tables_of demo_db)) ''s1'' = loadSurvey demo_db ''s1'' \<and>
   loadSurvey demo_db ''s1'' \<noteq> None"
proof (intro conjI)
  show a: "storable_db demo_accounts"
    by (simp add: storable_db_def demo_accounts_def demo_user_def empty_db_def user_storable_def invite_storable_def
        reset_storable_def storable_def days_before_year_def second_def)
  show b: "storable_db demo_db" by code_simp
  show "User_rows (t_users (tables_of demo_accounts)) ''bob'' = UserOf demo_accounts ''bob''" using reads_from_rows [OF a] by blast
  show "loadSurvey_rows (t_surveys (tables_of demo_db)) (t_options (tables_of demo_db)) ''s1'' = loadSurvey demo_db ''s1''"
    using reads_from_rows [OF b] by blast
  show "UserOf demo_accounts ''bob'' \<noteq> None" by (simp add: UserOf_def demo_accounts_def demo_user_def)
  show "loadSurvey demo_db ''s1'' \<noteq> None" by code_simp
qed

text \<open>
  C10. Every statement that writes does to the rows what the operation of the model does to the records: the
  upserts of a survey and its options leave the creation times and the rows of other surveys alone, the upsert of
  an answer rewrites its comment and time only, an insertion fails exactly when a key is taken, and each UPDATE
  and DELETE changes the columns and the rows it is meant to and no others.
\<close>

theorem writes_to_rows:
  assumes "now \<noteq> 0"
  shows "saveSurvey_rows now' (t_surveys (tables_of d)) (t_options (tables_of d)) sv =
      (case saveSurvey now' d sv of
         Inl e \<Rightarrow> Inl e | Inr (sv', d') \<Rightarrow> Inr (sv', t_surveys (tables_of d'), t_options (tables_of d')))
    \<and> upsert_response_rows r (map response_dbrow rs) =
      (case insert_response r rs of Inl e \<Rightarrow> None | Inr rs' \<Rightarrow> Some (map response_dbrow rs'))
    \<and> insert_choices_rows rid ids (map pair_row cs) =
      (case insert_choices rid ids cs of Inl e \<Rightarrow> None | Inr cs' \<Rightarrow> Some (map pair_row cs'))
    \<and> insert_ignore_rows rid ids (map pair_row cs) = map pair_row (insert_ignore rid ids cs)
    \<and> (u_sessions_from u = 0 \<longrightarrow> insert_user u (map user_row us) =
         (if u_name u \<in> u_name ` set us then None else Some (map user_row (us @ [u]))))
    \<and> set_password_rows name hash (map user_row us) =
      map user_row (modify_by u_name name (\<lambda>u. u\<lparr>u_hash := hash, u_must_change := False\<rparr>) us)
    \<and> revoke_sessions_rows name now (map user_row us) = map user_row (modify_by u_name name (\<lambda>u. u\<lparr>u_sessions_from := now\<rparr>) us)
    \<and> set_role_rows name role (map user_row us) = map user_row (modify_by u_name name (\<lambda>u. u\<lparr>u_role := role\<rparr>) us)
    \<and> approve_rows name role (map user_row us) = map user_row (modify_by u_name name (\<lambda>u. u\<lparr>u_pending := False, u_role := role\<rparr>) us)
    \<and> delete_user_rows name (map user_row us) = map user_row (filter (\<lambda>u. u_name u \<noteq> name) us)
    \<and> reset_password_rows name hash now (map user_row us) =
      map user_row (modify_by u_name name (\<lambda>u. u\<lparr>u_hash := hash, u_must_change := False, u_sessions_from := now\<rparr>) us)
    \<and> revoke_invite_rows i (map invite_row is) = map invite_row (modify_by i_id i (\<lambda>iv. iv\<lparr>i_revoked := True\<rparr>) is)
    \<and> claim_rows (i_id iv) name now (map invite_row is) = map invite_row (spend_invite name iv now is)
    \<and> retire_rows name now (map reset_row ps) = map reset_row (retire_resets name now ps)
    \<and> use_reset_rows (p_id p) now (map reset_row ps) = map reset_row (spend_reset p now ps)"
proof -
  have "saveSurvey_rows now' (t_surveys (tables_of d)) (t_options (tables_of d)) sv =
      (case saveSurvey now' d sv of
         Inl e \<Rightarrow> Inl e | Inr (sv', d') \<Rightarrow> Inr (sv', t_surveys (tables_of d'), t_options (tables_of d')))"
    by (simp add: tables_of_def saveSurvey_from_rows split: sum.split prod.split)
  then show ?thesis
    by (intro conjI impI insert_response_from_rows pair_statements user_statements invite_statements reset_statements
        account_inserts assms)
qed

lemma writes_to_rows_witness:
  "set_role_rows ''bob'' RoleViewer (map user_row (users demo_accounts)) =
     map user_row (modify_by u_name ''bob'' (\<lambda>u. u\<lparr>u_role := RoleViewer\<rparr>) (users demo_accounts)) \<and>
   map user_row (modify_by u_name ''bob'' (\<lambda>u. u\<lparr>u_role := RoleViewer\<rparr>) (users demo_accounts)) \<noteq> map user_row (users demo_accounts)"
proof
  show "set_role_rows ''bob'' RoleViewer (map user_row (users demo_accounts)) =
      map user_row (modify_by u_name ''bob'' (\<lambda>u. u\<lparr>u_role := RoleViewer\<rparr>) (users demo_accounts))"
    using writes_to_rows [of 1 _ _ _ _ _ _ _ _ _ "users demo_accounts" "''bob''" _ RoleViewer] by simp
  show "map user_row (modify_by u_name ''bob'' (\<lambda>u. u\<lparr>u_role := RoleViewer\<rparr>) (users demo_accounts)) \<noteq> map user_row (users demo_accounts)"
    by (simp add: demo_accounts_def demo_user_def modify_by_def row_defs RoleViewer_def RoleEditor_def)
qed

end
