(* ===== verification/LocalTime.thy ===== *)
theory LocalTime
  imports Instants "HOL-Library.Monad_Syntax"
begin

text \<open>
  Instants in the configured timezone: how the pages show them (\<open>localtime\<close> and the template function
  \<open>datetimeLocal\<close> of \<open>internal/web/server.go\<close>) and how the edit form is read (\<open>time.ParseInLocation\<close>
  with the layouts of \<open>parseCloseAt\<close> in \<open>internal/web/admin.go\<close>). A timezone is the offset and the
  abbreviation in force at each second; what is in the timezone database is a parameter. The result: a
  closing time that is shown and read back is the same minute, unless the clocks change nearby.
\<close>

record location =
  offset_at :: "int \<Rightarrow> int"        \<comment> \<open>seconds east of UTC, by the second since year 1\<close>
  zone_name :: "int \<Rightarrow> string"

definition wall :: "location \<Rightarrow> time \<Rightarrow> int" where
  "wall loc t = t div second + offset_at loc (t div second)"

text \<open>The parts of a wall clock that the layouts name.\<close>

definition minute_text :: "char \<Rightarrow> int \<Rightarrow> string" where
  "minute_text sep w =
     (case civil (w div 86400) of (y, m, d) \<Rightarrow>
        pad 4 y @ ''-'' @ pad 2 m @ ''-'' @ pad 2 d @ [sep] @ pad 2 (w mod 86400 div 3600) @ '':'' @ pad 2 (w mod 86400 div 60 mod 60))"

definition localtime :: "location \<Rightarrow> time \<Rightarrow> string" where
  "localtime loc t =
     (if IsZero t then [] else minute_text (CHR '' '') (wall loc t) @ '' '' @ zone_name loc (t div second))"

definition datetimeLocal :: "location \<Rightarrow> time \<Rightarrow> string" where
  "datetimeLocal loc t = (if IsZero t then [] else minute_text (CHR ''T'') (wall loc t))"

section \<open>Reading a value of the form\<close>

definition take_year :: "string \<Rightarrow> (int \<times> string) option" where
  "take_year s = (if length s < 4 \<or> \<not> all_digits (take 4 s) then None else Some (read_digits (take 4 s), drop 4 s))"

text \<open>\<open>getnum\<close>: two digits, or one where the layout does not insist.\<close>

definition getnum :: "bool \<Rightarrow> string \<Rightarrow> (int \<times> string) option" where
  "getnum fixed s =
     (case s of
        [] \<Rightarrow> None
      | c # cs \<Rightarrow>
          if \<not> all_digits [c] then None
          else (case cs of
              [] \<Rightarrow> if fixed then None else Some (digit_of c, cs)
            | c' # cs' \<Rightarrow>
                if \<not> all_digits [c'] then if fixed then None else Some (digit_of c, cs)
                else Some (digit_of c * 10 + digit_of c', cs')))"

definition skip :: "char \<Rightarrow> string \<Rightarrow> string option" where
  "skip c s = (case s of [] \<Rightarrow> None | x # xs \<Rightarrow> if x = c then Some xs else None)"

definition below :: "int \<Rightarrow> int \<Rightarrow> int \<Rightarrow> unit option" where
  "below lo n hi = (if lo \<le> n \<and> n < hi then Some () else None)"

text \<open>Seconds, when the layout has them, with a fraction after a point or a comma.\<close>

definition take_seconds :: "bool \<Rightarrow> string \<Rightarrow> ((int \<times> int) \<times> string) option" where
  "take_seconds wanted s =
     (if \<not> wanted then Some ((0, 0), s)
      else do {
        s \<leftarrow> skip (CHR '':'') s; (sec, s) \<leftarrow> getnum True s; below 0 sec 60;
        (case s of
           c # cs \<Rightarrow> (case fraction (CHR ''.'' # cs) of
               (ns, rest) \<Rightarrow> if (c = CHR ''.'' \<or> c = CHR '','') \<and> rest \<noteq> CHR ''.'' # cs then Some ((sec, ns), rest) else Some ((sec, 0), s))
         | [] \<Rightarrow> Some ((sec, 0), s)) })"

definition date_in :: "location \<Rightarrow> int \<Rightarrow> int" where
  "date_in loc w = w - offset_at loc (w - offset_at loc w)"

definition ParseInLocation :: "bool \<Rightarrow> string \<Rightarrow> location \<Rightarrow> time option" where
  "ParseInLocation secs s loc = do {
     (y, s) \<leftarrow> take_year s; s \<leftarrow> skip (CHR ''-'') s;
     (mo, s) \<leftarrow> getnum True s; below 1 mo 13; s \<leftarrow> skip (CHR ''-'') s;
     (d, s) \<leftarrow> getnum True s; s \<leftarrow> skip (CHR ''T'') s;
     (h, s) \<leftarrow> getnum False s; below 0 h 24; s \<leftarrow> skip (CHR '':'') s;
     (mi, s) \<leftarrow> getnum True s; below 0 mi 60;
     ((sec, ns), s) \<leftarrow> take_seconds secs s;
     if s \<noteq> [] then None
     else do {
       below 1 d (daysIn mo y + 1);
       Some (date_in loc (day_of y mo d * 86400 + h * 3600 + mi * 60 + sec) * second + ns) } }"

definition parse_local :: "location \<Rightarrow> string \<Rightarrow> time option" where
  "parse_local loc v = (case ParseInLocation False v loc of Some t \<Rightarrow> Some t | None \<Rightarrow> ParseInLocation True v loc)"

definition UTC :: location where "UTC = \<lparr>offset_at = \<lambda>s. 0, zone_name = \<lambda>s. ''UTC''\<rparr>"

lemma parse_local_examples:
  "parse_local UTC ''2024-06-15T09:30'' = Some ((63854006400 + 34200) * second)"
  "parse_local UTC ''2024-06-15T9:30:07,5'' = Some ((63854006400 + 34207) * second + 500000000)"
  "parse_local UTC ''2024-06-31T09:30'' = None" "parse_local UTC ''15 June 2024'' = None"
  by code_simp+

section \<open>A minute that is shown and read back\<close>

definition to_minute :: "location \<Rightarrow> time \<Rightarrow> time" where
  "to_minute loc t = (if IsZero t then 0 else (wall loc t - wall loc t mod 60 - offset_at loc (t div second)) * second)"

text \<open>No change of clocks within two days of the instant, and offsets of less than a day.\<close>

definition unchanged_clock :: "location \<Rightarrow> time \<Rightarrow> bool" where
  "unchanged_clock loc t = (\<bar>offset_at loc (t div second)\<bar> < 86400 \<and>
     (\<forall>s. \<bar>s - t div second\<bar> \<le> 2 * 86400 \<longrightarrow> offset_at loc s = offset_at loc (t div second)))"

lemma getnum_pad: "0 \<le> n \<Longrightarrow> n < 100 \<Longrightarrow> getnum b (pad 2 n @ rest) = Some (n, rest)"
proof -
  assume n: "0 \<le> n" "n < 100"
  obtain c c' where p: "pad 2 n = [c, c']" using pad2 by blast
  have "all_digits [c, c']" "read_digits [c, c'] = n" using pad_read [of 2 n] n by (simp_all add: p)
  then show ?thesis by (simp add: p getnum_def all_digits_def read_digits_def)
qed

lemma take_year_pad: "0 \<le> n \<Longrightarrow> n < 10000 \<Longrightarrow> take_year (pad 4 n @ rest) = Some (n, rest)"
  using pad_read [of 4 n] by (simp add: take_year_def)

lemma skip_Cons [simp]: "skip c (c # s) = Some s"
  by (simp add: skip_def)

lemma below_Some [simp]: "lo \<le> n \<Longrightarrow> n < hi \<Longrightarrow> below lo n hi = Some ()"
  by (simp add: below_def)

lemma parse_parts:
  assumes "0 \<le> y" "y < 10000" "1 \<le> m" "m \<le> 12" "1 \<le> d" "d \<le> daysIn m y" "0 \<le> h" "h \<le> 23" "0 \<le> mi" "mi \<le> 59"
  shows "ParseInLocation False (pad 4 y @ CHR ''-'' # pad 2 m @ CHR ''-'' # pad 2 d @ CHR ''T'' # pad 2 h @ CHR '':'' # pad 2 mi) loc =
    Some (date_in loc (day_of y m d * 86400 + h * 3600 + mi * 60) * second)"
proof -
  have "d < 100" using assms(6) month_bound [OF assms(3,4), of y] by simp
  moreover have "getnum True (pad 2 mi) = Some (mi, [])" using getnum_pad [of mi True "[]"] assms(9,10) by simp
  ultimately show ?thesis using assms by (simp add: ParseInLocation_def take_year_pad getnum_pad take_seconds_def)
qed

lemma parse_minute_text:
  assumes "days_before_year 0 \<le> w div 86400" "w div 86400 < days_before_year 10000"
  shows "ParseInLocation False (minute_text (CHR ''T'') w) loc = Some (date_in loc (w - w mod 60) * second)"
proof -
  obtain y m d where c: "civil (w div 86400) = (y, m, d)" by (metis surj_pair)
  note cp = civil_parts [OF c]
  have y: "0 \<le> y" "y < 10000" using year_range [OF assms] cp(1) by simp_all
  obtain sod where sod: "w mod 86400 = sod" "0 \<le> sod" "sod < 86400" by simp
  note sp = seconds_parts [OF sod(2,3)]
  have "ParseInLocation False (minute_text (CHR ''T'') w) loc =
      Some (date_in loc (day_of y m d * 86400 + sod div 3600 * 3600 + sod div 60 mod 60 * 60) * second)"
    using parse_parts [OF y cp(2-5) sp(1-4), of loc] by (simp add: minute_text_def c sod(1))
  moreover have "day_of y m d * 86400 + sod div 3600 * 3600 + sod div 60 mod 60 * 60 = w - w mod 60"
  proof -
    have "w = w div 86400 * 86400 + sod" using div_mult_mod_eq [of w 86400] sod(1) by simp
    moreover have "w mod 60 = sod mod 60" unfolding sod(1) [symmetric] by (simp add: mod_mod_cancel)
    ultimately show ?thesis using sp(7) cp(6) by linarith
  qed
  ultimately show ?thesis by simp
qed

lemma date_in_steady:
  assumes "unchanged_clock loc t"
  shows "date_in loc (wall loc t - wall loc t mod 60) = wall loc t - wall loc t mod 60 - offset_at loc (t div second)"
proof -
  obtain n where n: "t div second = n" by blast
  obtain a where a: "offset_at loc n = a" by blast
  have b: "\<bar>a\<bar> < 86400" and eq: "\<And>s. \<bar>s - n\<bar> \<le> 2 * 86400 \<Longrightarrow> offset_at loc s = a"
    using assms unfolding unchanged_clock_def n a by blast+
  have w: "wall loc t = n + a" by (simp only: wall_def n a)
  obtain k where k: "(n + a) mod 60 = k" "0 \<le> k" "k < 60" by simp
  have "offset_at loc (n + a - k) = a" using b k by (intro eq) linarith
  moreover from this have "offset_at loc (n + a - k - offset_at loc (n + a - k)) = a" using b k by (intro eq) linarith
  ultimately show ?thesis by (simp only: date_in_def w k(1) n a)
qed

lemma close_time_read_back:
  assumes "t \<noteq> 0" and "unchanged_clock loc t" and "days_before_year 0 * 86400 \<le> wall loc t" "wall loc t < days_before_year 10000 * 86400"
  shows "parse_local loc (datetimeLocal loc t) = Some (to_minute loc t)"
proof -
  have "days_before_year 0 \<le> wall loc t div 86400" "wall loc t div 86400 < days_before_year 10000"
    using assms(3,4) by (simp_all add: days_before_year_def)
  then show ?thesis
    using parse_minute_text [of "wall loc t" loc] date_in_steady [OF assms(2)] assms(1)
    by (simp add: parse_local_def datetimeLocal_def to_minute_def IsZero_def)
qed

end
