(* ===== verification/EditForm.thy ===== *)
theory EditForm
  imports AdminPages LocalTime
begin

text \<open>
  The edit form of a survey, there and back (\<open>handleEditForm\<close>, \<open>handleEditSave\<close> of
  \<open>internal/web/admin.go\<close>, the fields of \<open>templates/edit.html\<close>). An editor who opens the form and
  presses Save leaves the survey as it was, but for the seconds of its closing time, which the form does
  not show.
\<close>

section \<open>What a browser sends for the untouched page\<close>

text \<open>A ticked box is sent with its value and any other is not sent; the fields of an option carry its identifier.\<close>

definition option_fields :: "opt \<Rightarrow> string \<Rightarrow> string list" where
  "option_fields o' k =
     (if o_status o' = OptApproved \<or> o_status o' = OptRemoved then
        (if k = ''opt_'' @ o_id o' then [o_text o'] else if k = ''remove_'' @ o_id o' \<and> o_status o' = OptRemoved then [''1''] else [])
      else [])"

definition edit_fields_of :: "location \<Rightarrow> survey \<Rightarrow> string \<Rightarrow> string list" where
  "edit_fields_of loc sv k =
     (if k = ''title'' then [sv_title sv]
      else if k = ''description'' then [sv_desc sv]
      else if k = ''newopt'' then [[], [], []]
      else if k = ''show_results'' then (if show_results sv then [''1''] else [])
      else if k = ''allow_write_in'' then (if allow_write_in sv then [''1''] else [])
      else if k = ''allow_comment'' then (if allow_comment sv then [''1''] else [])
      else if k = ''randomize'' then (if Randomize sv then [''1''] else [])
      else if k = ''close_at'' then [datetimeLocal loc (close_at sv)]
      else concat (map (\<lambda>o'. option_fields o' k) (options sv)))"

definition sent_untouched :: "location \<Rightarrow> http \<Rightarrow> string \<Rightarrow> string list" where
  "sent_untouched loc rsp k =
     (case h_reply rsp of
        Page status (EditPage d) \<Rightarrow>
          if k = ''csrf'' then [h_csrf rsp] else edit_fields_of loc (ln_survey (ad_line d)) k
      | _ \<Rightarrow> [])"

text \<open>
  Texts that a text field and a text area send as they are: without line breaks, which a browser rewrites,
  and without the blanks at the ends that every form handler trims.
\<close>

definition plain_text :: "string \<Rightarrow> bool" where
  "plain_text s = (CHR 0x0A \<notin> set s \<and> CHR 0x0D \<notin> set s \<and> TrimSpace s = s)"

definition plain_survey :: "survey \<Rightarrow> bool" where
  "plain_survey sv = (plain_text (sv_title sv) \<and> sv_title sv \<noteq> [] \<and> plain_text (sv_desc sv) \<and>
     list_all (\<lambda>o'. plain_text (o_text o') \<and> o_text o' \<noteq> []) (options sv))"

section \<open>Saving what was sent\<close>

lemma option_fields_named:
  "option_fields p (''opt_'' @ i) = (if (o_status p = OptApproved \<or> o_status p = OptRemoved) \<and> o_id p = i then [o_text p] else [])"
  "option_fields p (''remove_'' @ i) = (if o_status p = OptRemoved \<and> o_id p = i then [''1''] else [])"
  by (auto simp: option_fields_def)

lemma concat_one:
  "distinct (map key xs) \<Longrightarrow> x \<in> set xs \<Longrightarrow> (\<And>y. key y \<noteq> key x \<Longrightarrow> f y = []) \<Longrightarrow> concat (map f xs) = f x"
proof (induction xs)
  case (Cons y ys)
  show ?case
  proof (cases "key y = key x")
    case True
    then have "key x \<notin> key ` set ys" using Cons.prems(1) by auto
    moreover from this have "y = x" using Cons.prems(2) by auto
    moreover have "f z = []" if "z \<in> set ys" for z using calculation(1) that Cons.prems(3) by (metis imageI)
    ultimately show ?thesis by simp
  next
    case False
    then show ?thesis using Cons by auto
  qed
qed simp

lemma fields_of_option:
  assumes "distinct (map o_id os)" "o' \<in> set os"
  shows "concat (map (\<lambda>p. option_fields p (''opt_'' @ o_id o')) os) = option_fields o' (''opt_'' @ o_id o')"
    "concat (map (\<lambda>p. option_fields p (''remove_'' @ o_id o')) os) = option_fields o' (''remove_'' @ o_id o')"
  by (rule concat_one [OF assms]; simp only: option_fields_named if_False simp_thms)+

lemma edit_row_untouched:
  assumes "\<And>k. k \<noteq> ''csrf'' \<Longrightarrow> rq_form r k = edit_fields_of loc sv k" and "ids_unique sv" and "o' \<in> set (options sv)"
    and "plain_text (o_text o')" "o_text o' \<noteq> []" and "opt_ok o'"
  shows "edit_row r o' = o'"
proof (cases "o_status o' = OptApproved \<or> o_status o' = OptRemoved")
  case True
  have d: "distinct (map o_id (options sv))" using assms(2) by (simp add: ids_unique_def)
  note f = fields_of_option [OF d assms(3)] and n = option_fields_named [of o' "o_id o'"]
  have "rq_form r (''opt_'' @ o_id o') = [o_text o']"
    using True f(1) n(1) assms(1) [of "''opt_'' @ o_id o'"] by (simp add: edit_fields_of_def)
  moreover have "rq_form r (''remove_'' @ o_id o') = (if o_status o' = OptRemoved then [''1''] else [])"
    using f(2) n(2) assms(1) [of "''remove_'' @ o_id o'"] by (simp add: edit_fields_of_def)
  ultimately show ?thesis
    using True assms(4,5) by (auto simp: edit_row_def FormValue_def plain_text_def Let_def)
next
  case False
  then show ?thesis using assms(6) by (auto simp: edit_row_def opt_ok_def validOptionStatus_def)
qed

lemma edit_form_untouched:
  assumes f: "\<And>k. k \<noteq> ''csrf'' \<Longrightarrow> rq_form r k = edit_fields_of loc sv k" and ok: "survey_ok sv" and p: "plain_survey sv"
  shows "edit_form ids now closeAt r sv = Inr (sv\<lparr>close_at := closeAt\<rparr>)"
proof -
  have "map (edit_row r) (options sv) = options sv"
    using ok p by (intro map_idI edit_row_untouched [OF f]) (auto simp: survey_ok_def plain_survey_def list_all_iff)
  moreover have "rq_form r ''newopt'' = [[], [], []]" using f by (simp add: edit_fields_of_def)
  moreover have "TrimSpace [] = []" by code_simp
  ultimately show ?thesis
    using p f by (simp add: edit_form_def Let_def FormValue_def edit_fields_of_def plain_survey_def plain_text_def Randomize_def)
qed


text \<open>The value of the closing time is not blank, unless there is none.\<close>

lemma no_lead_digit: "\<forall>p\<in>set rs. p \<noteq> [] \<longrightarrow> \<not> all_digits [hd p] \<Longrightarrow> s \<noteq> [] \<Longrightarrow> all_digits [hd s] \<Longrightarrow> no_lead rs s"
  by (cases s) (auto simp: no_lead_def dest: starts_with_hd)

lemma TrimSpace_digits:
  assumes "s \<noteq> []" "all_digits [hd s]" "all_digits [last s]"
  shows "TrimSpace s = s"
proof -
  have "\<forall>p\<in>set space_runes. p \<noteq> [] \<longrightarrow> \<not> all_digits [hd p]" by code_simp
  then have l: "trim_left space_runes s = s" using assms(1,2) by (intro trim_left_id no_lead_digit)
  have "\<forall>p\<in>set (map rev space_runes). p \<noteq> [] \<longrightarrow> \<not> all_digits [hd p]" by code_simp
  then have "trim_left (map rev space_runes) (rev s) = rev s"
    using assms(1,3) by (intro trim_left_id no_lead_digit) (simp_all add: hd_rev)
  with l show ?thesis by (simp add: TrimSpace_def)
qed

lemma time_not_blank:
  assumes "t \<noteq> 0"
  shows "TrimSpace (datetimeLocal loc t) \<noteq> []"
proof -
  obtain y m d where c: "civil (wall loc t div 86400) = (y, m, d)" by (metis surj_pair)
  obtain a1 a2 a3 a4 where y: "pad 4 y = [a1, a2, a3, a4]" using pad4 by blast
  obtain b1 b2 where mi: "pad 2 (wall loc t mod 86400 div 60 mod 60) = [b1, b2]" using pad2 by blast
  have "all_digits [a1]" using pad_read [of 4 y] by (simp add: y all_digits_def)
  moreover have "all_digits [b2]" using pad_read [of 2 "wall loc t mod 86400 div 60 mod 60"] unfolding mi by (simp add: all_digits_def)
  moreover obtain s where "datetimeLocal loc t = a1 # s @ [b2]"
    using assms by (simp add: datetimeLocal_def IsZero_def minute_text_def c y mi)
  ultimately show ?thesis using TrimSpace_digits [of "datetimeLocal loc t"] by simp
qed

lemma UpdateSurvey_saves:
  assumes "loadSurvey d i = Some sv" and "fn sv = Inr sv1" and "length (options sv1) = length (options sv)" "sv_id sv1 = i"
  shows "\<exists>d'. UpdateSurvey now i fn d = Inr (stamp_opened now (sv1\<lparr>sv_updated := now\<rparr>), d')"
proof -
  have "options sv = loadOptions d i" using assms(1) by (auto simp: loadSurvey_def split: option.splits)
  then have "length (options sv1) = length (owned d i)" using assms(3) by (simp add: loadOptions_def)
  moreover have "options (stamp_opened now (sv1\<lparr>sv_updated := now\<rparr>)) = options sv1" "sv_id (stamp_opened now (sv1\<lparr>sv_updated := now\<rparr>)) = i"
    using assms(4) by (simp_all add: stamp_opened_def)
  ultimately show ?thesis using assms(1,2) by (simp add: UpdateSurvey_def bindE_def saveSurvey_def Let_def)
qed

section \<open>Properties\<close>

text \<open>
  C25. Opening the edit form of a survey and pressing Save changes nothing but the instant of the last change and
  the closing time, which goes back to the minute that the form shows: title, description, settings and every
  option with its status and text read back as they were, no option is added, removed or brought back, and no
  answer and no other survey is touched. The texts hold no line breaks, which a browser would rewrite, and no
  change of the clocks lies within two days of the closing time.
\<close>

theorem edit_form_untouched_keeps:
  assumes ok: "db_ok (sdb_of s)" and now: "dr_now dr2 \<noteq> 0"
    and page: "handleEditForm C u dr r s = (rsp, s)" "loadSurvey (sdb_of s) (rq_val r ''id'') = Some sv" and p: "plain_survey sv"
    and r2: "rq_parsed r2" "rq_val r2 ''id'' = rq_val r ''id''" "rq_form r2 = sent_untouched loc rsp"
    and C: "cf_parse_time C = parse_local loc"
    and t: "close_at sv \<noteq> 0 \<longrightarrow> unchanged_clock loc (close_at sv) \<and> days_before_year 0 * 86400 \<le> wall loc (close_at sv) \<and>
       wall loc (close_at sv) < days_before_year 10000 * 86400"
    and save: "handleEditSave C u dr2 r2 s = (rsp', s')"
  shows "loadSurvey (sdb_of s') (rq_val r ''id'') = Some (sv\<lparr>close_at := to_minute loc (close_at sv), sv_updated := dr_now dr2\<rparr>) \<and>
    (\<forall>j. j \<noteq> rq_val r ''id'' \<longrightarrow> loadSurvey (sdb_of s') j = loadSurvey (sdb_of s) j) \<and>
    responses (sdb_of s') = responses (sdb_of s) \<and> choices (sdb_of s') = choices (sdb_of s) \<and> seen (sdb_of s') = seen (sdb_of s)"
proof -
  obtain status d where rsp: "h_reply rsp = Page status (EditPage d)" "ln_survey (ad_line d) = sv"
    using page by (auto simp: handleEditForm_def loadAdminSurvey_def survey_line_of_def render_def render_with_def split: prod.splits)
  have f: "rq_form r2 k = edit_fields_of loc sv k" if "k \<noteq> ''csrf''" for k
    using that by (simp add: r2(3) sent_untouched_def rsp)
  have so: "survey_ok sv" using ok page(2) by (auto dest: db_okD surveys_ok_load)
  let ?closeAt = "to_minute loc (close_at sv)"
  have "parseCloseAt C (FormValue r2 ''close_at'') = Some ?closeAt"
  proof (cases "close_at sv = 0")
    case True
    then show ?thesis
      by (simp add: parseCloseAt_def FormValue_def f edit_fields_of_def datetimeLocal_def to_minute_def IsZero_def)
  next
    case False
    then have "TrimSpace (datetimeLocal loc (close_at sv)) \<noteq> []" by (simp add: time_not_blank)
    moreover have "parse_local loc (datetimeLocal loc (close_at sv)) = Some ?closeAt"
      using close_time_read_back t False by blast
    ultimately show ?thesis by (simp add: parseCloseAt_def FormValue_def f edit_fields_of_def C)
  qed
  moreover have e: "edit_form (dr_ids dr2) (dr_now dr2) ?closeAt r2 sv = Inr (sv\<lparr>close_at := ?closeAt\<rparr>)"
    using f so p by (rule edit_form_untouched)
  moreover have "sv_id sv = rq_val r ''id''" using page(2) by (rule loadSurvey_id)
  moreover obtain d' where u: "UpdateSurvey (dr_now dr2) (rq_val r ''id'') (edit_form (dr_ids dr2) (dr_now dr2) ?closeAt r2) (sdb_of s) =
      Inr (stamp_opened (dr_now dr2) (sv\<lparr>close_at := ?closeAt, sv_updated := dr_now dr2\<rparr>), d')"
    using UpdateSurvey_saves [OF page(2), where fn = "edit_form (dr_ids dr2) (dr_now dr2) ?closeAt r2" and now = "dr_now dr2", OF e] calculation(3)
    by auto
  ultimately have s': "sdb_of s' = d'"
    using save r2(1,2) by (auto simp: handleEditSave_def on_tx Let_def split: prod.split_asm sum.split_asm)
  have st: "stamp_opened (dr_now dr2) (sv\<lparr>close_at := ?closeAt, sv_updated := dr_now dr2\<rparr>) = sv\<lparr>close_at := ?closeAt, sv_updated := dr_now dr2\<rparr>"
    using opened_ok_load [OF db_okD(4) [OF ok] page(2)] by (auto simp: stamp_opened_def IsZero_def)
  show ?thesis
  proof (rule UpdateSurvey_effect [OF ok now u])
    show "edit_of (sdb_of s) v v1 \<and> survey_ok v1" if "loadSurvey (sdb_of s) (rq_val r ''id'') = Some v" "survey_ok v"
      "edit_form (dr_ids dr2) (dr_now dr2) ?closeAt r2 v = Inr v1" for v v1
    proof -
      have "v1 = sv\<lparr>close_at := ?closeAt\<rparr>" "v = sv" using that page(2) e by simp_all
      then show ?thesis using so survey_ok_parts [of "sv\<lparr>close_at := ?closeAt\<rparr>" sv] by (simp add: edit_of_def survey_ok_def ids_unique_def)
    qed
  qed (use st s' in auto)
qed

text \<open>The seconds are lost, although the form would accept them.\<close>

lemma seconds_not_shown:
  "parse_local UTC ''2024-06-15T09:30:07'' = Some ((63854006400 + 34207) * second)"
  "datetimeLocal UTC ((63854006400 + 34207) * second) = ''2024-06-15T09:30''"
  "to_minute UTC ((63854006400 + 34207) * second) = (63854006400 + 34200) * second"
  by code_simp+

text \<open>A survey that closes at seven seconds past half past nine, in a timezone an hour east.\<close>

definition closing_db :: db where
  "closing_db = demo_db\<lparr>surveys := map (\<lambda>sv. sv\<lparr>close_at := (63854006400 + 34207) * second\<rparr>) (surveys demo_db)\<rparr>"

definition an_hour_east :: location where
  "an_hour_east = \<lparr>offset_at = \<lambda>s. 3600, zone_name = \<lambda>s. ''CET''\<rparr>"

lemma edit_form_untouched_keeps_witness:
  "\<exists>rsp s'. fst (handleEditForm (demo_config\<lparr>cf_parse_time := parse_local an_hour_east\<rparr>) demo_ann demo_draws (survey_request ''GET'' [] (\<lambda>_. [])) (demo_server closing_db)) = rsp \<and>
     snd (handleEditSave (demo_config\<lparr>cf_parse_time := parse_local an_hour_east\<rparr>) demo_ann late_draws
       (survey_request ''POST'' [] (sent_untouched an_hour_east rsp)) (demo_server closing_db)) = s' \<and>
     map_option (\<lambda>sv. (sv_title sv, close_at sv, map o_text (options sv))) (loadSurvey (sdb_of s') ''s1'') =
       Some (sv_title demo_survey, (63854006400 + 34200) * second, map o_text (options demo_survey))"
proof -
  let ?C = "demo_config\<lparr>cf_parse_time := parse_local an_hour_east\<rparr>" and ?r = "survey_request ''GET'' [] (\<lambda>_. [])"
  let ?s = "demo_server closing_db" and ?t = "(63854006400 + 34207) * second"
  have "snd (handleEditForm ?C demo_ann demo_draws ?r ?s) = ?s" by (simp add: handleEditForm_def split: option.split)
  then obtain rsp where page: "handleEditForm ?C demo_ann demo_draws ?r ?s = (rsp, ?s)" by (metis prod.collapse)
  obtain rsp' s' where save: "handleEditSave ?C demo_ann late_draws (survey_request ''POST'' [] (sent_untouched an_hour_east rsp)) ?s = (rsp', s')"
    by fastforce
  have ok: "db_ok closing_db" by code_simp
  have l: "loadSurvey closing_db ''s1'' = Some (demo_survey\<lparr>close_at := ?t\<rparr>)" by code_simp
  have p: "plain_survey (demo_survey\<lparr>close_at := ?t\<rparr>)" by code_simp
  have w: "wall an_hour_east ?t = 63854006400 + 34207 + 3600" by (simp add: wall_def an_hour_east_def second_def)
  have st: "unchanged_clock an_hour_east ?t" by (simp add: unchanged_clock_def an_hour_east_def)
  have m: "to_minute an_hour_east ?t = (63854006400 + 34200) * second"
    unfolding to_minute_def w by (simp add: an_hour_east_def IsZero_def second_def)
  have "loadSurvey (sdb_of s') ''s1'' = Some (demo_survey\<lparr>close_at := to_minute an_hour_east ?t, sv_updated := 99\<rparr>)"
    using edit_form_untouched_keeps [of ?s late_draws ?C demo_ann demo_draws ?r rsp "demo_survey\<lparr>close_at := ?t\<rparr>"
        "survey_request ''POST'' [] (sent_untouched an_hour_east rsp)" an_hour_east rsp' s'] ok page l p st save w
    by (simp add: survey_request_def demo_request_def late_draws_def days_before_year_def)
  with page save m show ?thesis by simp
qed

end
