(* ===== verification/Restores.thy ===== *)
theory Restores
  imports Interleaving
begin

text \<open>
  What remains true when documents of any content are restored (\<open>RestoreSurvey\<close> in
  \<open>internal/store/portable.go\<close>) between and while requests are served. A restore can bring merge cycles,
  and it can name the options of another survey, so the invariant \<open>db_ok\<close> does not survive it; the part
  that the schema itself stands for, and the accounts, do.
\<close>

section \<open>A restore under another identifier\<close>

text \<open>
  The upsert of an option that another survey owns does nothing (\<open>WHERE options.survey_id = ...\<close>) and
  reports nothing. A full backup whose \<open>source_id\<close> was changed, restored beside the survey it was taken
  from, is therefore accepted and loses every option, while its answers keep naming them.
\<close>

definition foreign_document :: document where
  "foreign_document =
     \<lparr>doc_format = docFormat, doc_version = 2, doc_exported = 1, source_id = ''s9'',
      doc_survey = \<lparr>b_type = [], b_title = ''T'', b_desc = [], b_show_results = False, b_allow_write_in = False,
        b_allow_comment = False, b_no_randomize = False,
        b_options = [\<lparr>do_text = ''x'', do_source = [], do_id = ''a'', do_status = OptApproved, do_merged = [], do_created = 1\<rparr>,
                     \<lparr>do_text = ''y'', do_source = [], do_id = ''y'', do_status = OptApproved, do_merged = [], do_created = 1\<rparr>],
        b_state = StateOpen, b_close_at = 0, b_first_opened_at = 1, b_created = 1, b_updated = 1\<rparr>,
      doc_responses = Some [\<lparr>dr_voter = ''v'', dr_choices = [''y''], dr_seen = [''a'', ''y''], dr_comment = [],
        dr_created = 1, dr_updated = 1\<rparr>]\<rparr>"

lemma restore_loses_options:
  "case restoreTx ''n'' (\<lambda>_. []) (\<lambda>_. ''q1'') 60 foreign_document True demo_db of
     Inl _ \<Rightarrow> False
   | Inr (sv, d') \<Rightarrow>
       map o_id (options sv) = [''a'', ''y''] \<and>
       map_option (\<lambda>sv. map o_id (options sv)) (loadSurvey d' ''s9'') = Some [''y''] \<and> \<not> votes_ok d'"
  by code_simp

text \<open>
  From then on a shown set can be as long as the one before and yet another set, so \<open>saveResponseTx\<close>,
  which compares lengths, records a vote for an option without its exposure.
\<close>

definition after_foreign :: "err + db" where
  "after_foreign =
     bindE (restoreTx ''n'' (\<lambda>_. []) (\<lambda>_. ''q1'') 60 foreign_document True demo_db) (\<lambda>(_, d).
     bindE (UpdateSurvey 61 ''s9'' (\<lambda>sv. bindE (AddOption ''z'' 61 sv ''Z'' OptApproved ''editor'') (\<lambda>(_, sv). Inr sv)) d) (\<lambda>(_, d).
     bindE (saveResponseTx ''q2'' 62 ''s9'' ''v'' [''z''] [] [] False d) (\<lambda>(_, d). Inr d)))"

lemma vote_without_exposure:
  "case after_foreign of
     Inl _ \<Rightarrow> False
   | Inr d \<Rightarrow> (''q1'', ''z'') \<in> set (choices d) \<and> (''q1'', ''z'') \<notin> set (seen d)"
  by code_simp

section \<open>What every transaction keeps\<close>

text \<open>Keys are unique, options and answers have their survey, choices and exposures their answer, and an open survey its opening.\<close>

definition referenced :: "db \<Rightarrow> bool" where
  "referenced d = (fst ` set (choices d) \<subseteq> r_id ` set (responses d) \<and> fst ` set (seen d) \<subseteq> r_id ` set (responses d))"

definition schema_ok :: "db \<Rightarrow> bool" where
  "schema_ok d = (keys_ok d \<and> refs_ok d \<and> opened_ok d \<and> referenced d)"

lemma schema_okD:
  assumes "schema_ok d"
  shows "keys_ok d" "refs_ok d" "opened_ok d" "referenced d"
  using assms by (simp_all add: schema_ok_def)

lemma db_ok_schema: "db_ok d \<Longrightarrow> schema_ok d"
  using db_ok_rows_owned [of d] by (auto simp: schema_ok_def referenced_def rows_owned_def dest: db_okD)

lemma save_schema:
  assumes "schema_ok d" "now \<noteq> 0" and s: "saveSurvey now d sv = Inr (sv', d')"
  shows "schema_ok d'"
  using schema_okD [OF assms(1)] saveSurvey_keys(1) [OF _ s] saveSurvey_refs [OF _ _ s] saveSurvey_opened [OF _ s assms(2)]
    saveSurvey_rest [OF s]
  by (simp add: schema_ok_def referenced_def)

lemma delete_responses_schema:
  assumes "schema_ok d"
  shows "schema_ok (delete_responses p d)"
proof -
  note d = schema_okD [OF assms]
  have keep: "x \<in> r_id ` set (filter (\<lambda>r. \<not> p r) (responses d))"
    if x: "x \<in> r_id ` set (responses d)" "x \<notin> set (map r_id (filter p (responses d)))" for x
  proof -
    obtain r where r: "r \<in> set (responses d)" "x = r_id r" using x(1) by blast
    then have "\<not> p r" using x(2) by auto
    with r show ?thesis by auto
  qed
  have old: "\<And>c. c \<in> set (choices d) \<Longrightarrow> fst c \<in> r_id ` set (responses d)" "\<And>c. c \<in> set (seen d) \<Longrightarrow> fst c \<in> r_id ` set (responses d)"
    using d(4) by (auto simp only: referenced_def)
  have "fst ` set (choices (delete_responses p d)) \<subseteq> r_id ` set (responses (delete_responses p d))"
    "fst ` set (seen (delete_responses p d)) \<subseteq> r_id ` set (responses (delete_responses p d))"
    unfolding delete_responses_rest by (rule image_subsetI, rule keep; use old in \<open>simp add: delete_responses_def Let_def\<close>)+
  then show ?thesis
    using d delete_responses_keys [OF d(1)] by (auto simp: schema_ok_def referenced_def refs_ok_def opened_ok_def list_all_iff)
qed

lemma DeleteSurvey_schema:
  assumes ok: "schema_ok d" and r: "DeleteSurvey i d = Inr (x, d')"
  shows "schema_ok d'"
proof -
  from r have d': "d' = (delete_responses (\<lambda>r. r_survey r = i) d)
     \<lparr>surveys := filter (\<lambda>s. sv_id s \<noteq> i) (surveys d), opts := filter (\<lambda>o'. o_survey o' \<noteq> i) (opts d)\<rparr>"
    by (auto simp: DeleteSurvey_def split: if_splits)
  note e = schema_okD [OF delete_responses_schema [OF ok, of "\<lambda>r. r_survey r = i"]] and d = schema_okD [OF ok]
  have "keys_ok d'" using e(1) by (simp add: d' keys_ok_def map_distinct_filter)
  moreover have "refs_ok d'" using d(2) by (auto simp: d' refs_ok_def list_all_iff)
  moreover have "opened_ok d'" using d(3) by (simp add: d' opened_ok_def list_all_iff)
  moreover have "referenced d'" using e(4) by (simp add: d' referenced_def)
  ultimately show ?thesis by (simp add: schema_ok_def)
qed

text \<open>The writes of an answer, whatever was shown before.\<close>

lemma insert_choices_result:
  assumes "insert_choices rid ids t = Inr t'" and "distinct t"
  shows "distinct t'" "fst ` set t' \<subseteq> insert rid (fst ` set t)"
proof -
  have c: "distinct ids" "Pair rid ` set ids \<inter> set t = {}" using insert_choices_cases [OF assms(1)] by blast+
  then have "t' = t @ map (Pair rid) ids" using insert_choices_ok [of ids rid t] assms(1) by simp
  with c assms(2) show "distinct t'" "fst ` set t' \<subseteq> insert rid (fst ` set t)" by (auto simp: distinct_map inj_on_def)
qed

lemma child_rows_schema:
  assumes ok: "schema_ok d" and rs: "distinct (map r_id rs)" "distinct (map row_key rs)" "r_id ` set (responses d) \<subseteq> r_id ` set rs"
      "rid \<in> r_id ` set rs" "r_survey ` set rs \<subseteq> sv_id ` set (surveys d)"
    and cs: "insert_choices rid ids (filter p (choices d)) = Inr cs" and ss: "ss = seen d \<or> ss = insertSeen rid ids' (seen d)"
  shows "schema_ok (d\<lparr>responses := rs, choices := cs, seen := ss\<rparr>)"
proof -
  note d = schema_okD [OF ok]
  have c: "distinct cs" "fst ` set cs \<subseteq> insert rid (fst ` set (filter p (choices d)))"
    using insert_choices_result [OF cs] d(1) by (simp_all add: keys_ok_def)
  have s: "distinct ss" "fst ` set ss \<subseteq> insert rid (fst ` set (seen d))"
    using ss d(1) by (auto simp: keys_ok_def insertSeen_unbatched distinct_insert_ignore set_insert_ignore)
  have "fst ` set (choices d) \<subseteq> r_id ` set (responses d)" "fst ` set (seen d) \<subseteq> r_id ` set (responses d)"
    using d(4) by (simp_all add: referenced_def)
  note old = order_trans [OF this(1) rs(3)] order_trans [OF this(2) rs(3)]
  have "fst ` set (filter p (choices d)) \<subseteq> r_id ` set rs"
    by (rule order_trans [OF image_mono [OF filter_is_subset] old(1)])
  then have "insert rid (fst ` set (filter p (choices d))) \<subseteq> r_id ` set rs" "insert rid (fst ` set (seen d)) \<subseteq> r_id ` set rs"
    using old(2) rs(4) by (simp_all only: insert_subset simp_thms)
  then have "fst ` set cs \<subseteq> r_id ` set rs" "fst ` set ss \<subseteq> r_id ` set rs"
    using order_trans [OF c(2)] order_trans [OF s(2)] by simp_all
  then show ?thesis
    using d rs(1,2,5) c(1) s(1)
    by (auto simp: schema_ok_def keys_ok_def refs_ok_def opened_ok_def referenced_def list_all_iff row_key_def [abs_def])
qed

lemma response_schema:
  assumes ok: "schema_ok d" and r: "saveResponseTx rid now sid voter chs comment allow preview d = Inr (q, d')"
  shows "schema_ok d'"
proof -
  note d = schema_okD [OF ok]
  obtain sv where sv: "loadSurvey d sid = Some sv"
    and put: "put_response sid (loadResponse d sid voter True) (answer rid now sv (loadResponse d sid voter True) voter chs comment allow) d = Inr (q, d')"
    using r by (auto simp: saveResponseTx_def Let_def split: option.split_asm if_split_asm)
  obtain prev where prev: "loadResponse d sid voter True = prev" by blast
  obtain a where a: "answer rid now sv prev voter chs comment allow = a" by blast
  let ?row = "\<lparr>r_id = q_id a, r_survey = sid, r_voter = q_voter a, r_comment = q_comment a, r_created = q_created a, r_updated = q_updated a\<rparr>"
  obtain ss where ss: "(case prev of None \<Rightarrow> insertSeen (q_id a) (q_seen a) (seen d)
      | Some p \<Rightarrow> if length (q_seen a) \<noteq> length (q_seen p) then insertSeen (q_id a) (q_seen a) (seen d) else seen d) = ss" by blast
  have s: "ss = seen d \<or> ss = insertSeen (q_id a) (q_seen a) (seen d)" using ss by (auto split: option.splits if_splits)
  obtain rs cs where i: "insert_response ?row (responses d) = Inr rs"
    and c: "insert_choices (q_id a) (q_choices a) (filter (\<lambda>c. fst c \<noteq> q_id a) (choices d)) = Inr cs"
    and d': "d' = d\<lparr>responses := rs, choices := cs, seen := ss\<rparr>"
    using put unfolding prev a put_response_def ss by auto
  have v: "q_voter a = voter" using a by (auto simp: answer_def)
  have "distinct (map r_id rs) \<and> distinct (map row_key rs) \<and> r_id ` set (responses d) \<subseteq> r_id ` set rs \<and> q_id a \<in> r_id ` set rs \<and>
      r_survey ` set rs \<subseteq> sv_id ` set (surveys d)"
  proof (cases "lookup_by row_key (sid, voter) (responses d)")
    case None
    have "rs = responses d @ [?row]" "q_id a \<notin> r_id ` set (responses d)"
      using i None v by (auto simp: insert_response_def row_key_def split: if_split_asm)
    moreover have "(sid, voter) \<notin> row_key ` set (responses d)" using None by (simp add: lookup_by_None_iff)
    ultimately show ?thesis
      using d(1,2) distinct_row_keys [OF d(1)] v loadSurvey_mem [OF sv] by (auto simp: keys_ok_def refs_ok_def list_all_iff row_key_def)
  next
    case (Some r0)
    then have "prev \<noteq> None" using prev loadResponse_None [of d sid voter True] by auto
    then obtain p where p: "prev = Some p" by blast
    have "q_id a = r_id r0" using loadResponse_row [OF prev [unfolded p]] Some a by (auto simp: p answer_def)
    moreover have "r0 \<in> set (responses d)" using Some by blast
    moreover obtain f where f: "\<And>x. r_id (f x) = r_id x" "\<And>x. row_key (f x) = row_key x" "\<And>x. r_survey (f x) = r_survey x"
      "rs = modify_by row_key (sid, voter) f (responses d)"
    proof -
      have "rs = modify_by row_key (sid, voter) (\<lambda>old. old\<lparr>r_comment := r_comment ?row, r_updated := r_updated ?row\<rparr>) (responses d)"
        using i Some v by (simp add: insert_response_def row_key_def)
      then show thesis by (rule that [rotated 3]) (simp_all add: row_key_def)
    qed
    moreover have "map r_id rs = map r_id (responses d)" "map row_key rs = map row_key (responses d)" "map r_survey rs = map r_survey (responses d)"
      using f by (simp_all add: map_key_modify_by)
    then have "r_id ` set rs = r_id ` set (responses d)" "r_survey ` set rs = r_survey ` set (responses d)"
      "distinct (map r_id rs)" "distinct (map row_key rs)"
      using d(1) distinct_row_keys [OF d(1)] by (metis list.set_map, metis list.set_map, simp_all add: keys_ok_def)
    ultimately show ?thesis using d(2) by (auto simp: refs_ok_def list_all_iff)
  qed
  then show ?thesis unfolding d' using child_rows_schema [OF ok _ _ _ _ _ c s] by blast
qed


lemma update_schema: "schema_ok d \<Longrightarrow> now \<noteq> 0 \<Longrightarrow> UpdateSurvey now i fn d = Inr (sv, d') \<Longrightarrow> schema_ok d'"
  by (erule UpdateSurvey_cases) (rule save_schema)

lemma create_schema: "schema_ok d \<Longrightarrow> now \<noteq> 0 \<Longrightarrow> CreateSurvey nid ids now title desc texts d = Inr (sv, d') \<Longrightarrow> schema_ok d'"
  by (erule CreateSurvey_cases) (rule save_schema)

lemma publish_schema:
  assumes "schema_ok d" "now \<noteq> 0" "publishTx now i d = Inr (n, d')"
  shows "schema_ok d'"
proof -
  obtain sv sv1 d1 where s: "saveSurvey now d (publish_edit now sv) = Inr (sv1, d1)"
    and b: "d' = d1 \<or> (\<exists>n. clearResponsesTx i d1 = Inr (n, d'))"
    using assms(3) by (auto simp: publishTx_def split: option.split_asm if_split_asm)
  have "schema_ok d1" by (rule save_schema [OF assms(1,2) s])
  with b show ?thesis using clearResponsesTx_cases(2) delete_responses_schema by metis
qed

lemma tables_response: "saveResponseTx rid now sid voter chs comment allow preview d = Inr (q, d') \<Longrightarrow> survey_tables_only d d'"
  by (auto simp: saveResponseTx_def put_response_def survey_tables_only_def Let_def split: option.split_asm if_split_asm)

lemma write_in_schema:
  assumes "schema_ok d" "now \<noteq> 0" "addWriteIn nid rid now sid voter txt preview d = Inr (i, d')"
  shows "schema_ok d' \<and> survey_tables_only d d'"
proof -
  obtain sv sv1 d1 chs comment j q where s: "saveSurvey now d sv = Inr (sv1, d1)"
    and r: "saveResponseTx rid now sid voter chs comment j preview d1 = Inr (q, d')"
    using assms(3) by (auto simp: addWriteIn_def Let_def split: option.split_asm if_split_asm prod.split_asm)
  have "schema_ok d1" by (rule save_schema [OF assms(1,2) s])
  then show ?thesis using response_schema [OF _ r] tables_save [OF s] tables_response [OF r] by (simp add: survey_tables_only_def)
qed

lemma insertResponses_schema:
  "insertResponses sid rs d = Inr ((), d') \<Longrightarrow> schema_ok d \<Longrightarrow> sid \<in> sv_id ` set (surveys d) \<Longrightarrow> schema_ok d'"
proof (induction rs arbitrary: d)
  case (Cons r rs)
  let ?row = "\<lparr>r_id = q_id r, r_survey = sid, r_voter = q_voter r, r_comment = q_comment r, r_created = q_created r, r_updated = q_updated r\<rparr>"
  obtain cs where i: "q_id r \<notin> r_id ` set (responses d)" "row_key ?row \<notin> row_key ` set (responses d)"
    and c: "insert_choices (q_id r) (q_choices r) (filter (\<lambda>c. True) (choices d)) = Inr cs"
    and n: "insertResponses sid rs (d\<lparr>responses := responses d @ [?row], choices := cs, seen := insertSeen (q_id r) (q_seen r) (seen d)\<rparr>) = Inr ((), d')"
    using Cons.prems(1) by (auto simp: insert_new_response_def split: if_split_asm)
  note d = schema_okD [OF Cons.prems(2)]
  have "schema_ok (d\<lparr>responses := responses d @ [?row], choices := cs, seen := insertSeen (q_id r) (q_seen r) (seen d)\<rparr>)"
  proof (rule child_rows_schema [OF Cons.prems(2) _ _ _ _ _ c])
    show "distinct (map r_id (responses d @ [?row]))" using i(1) d(1) by (simp add: keys_ok_def)
    show "distinct (map row_key (responses d @ [?row]))" using i(2) distinct_row_keys [OF d(1)] by simp
    show "r_survey ` set (responses d @ [?row]) \<subseteq> sv_id ` set (surveys d)" using Cons.prems(3) d(2) by (auto simp: refs_ok_def list_all_iff)
  qed auto
  from Cons.IH [OF n this] Cons.prems(3) show ?case by simp
qed simp

lemma restore_schema:
  assumes ok: "schema_ok d" and now: "now \<noteq> 0" and r: "restoreTx nid oids rids now doc keep d = Inr (sv, d')"
  shows "schema_ok d'"
  using r
proof (cases rule: restoreTx_cases)
  case (1 sv0 os0 m os rs d1)
  have "schema_ok d1" by (rule save_schema [OF ok now 1(8)])
  moreover have "sv_id sv \<in> sv_id ` set (surveys d1)" using saveSurvey_keys(2) [OF schema_okD(1) [OF ok] 1(8)] 1(11) by simp
  ultimately show ?thesis by (rule insertResponses_schema [OF 1(9)])
qed

section \<open>Any requests, and restores among them\<close>

text \<open>Nothing is asked here of the identifiers that a request draws: they may collide with what is there.\<close>

inductive mixed :: "'b config \<Rightarrow> db \<Rightarrow> db \<Rightarrow> bool" for C where
  mixed_start: "mixed C d d"
| mixed_commit: "mixed C d d1 \<Longrightarrow> dr_now dr \<noteq> 0 \<Longrightarrow> chosen C dr r d1 d2 \<Longrightarrow> mixed C d d2"
| mixed_restore: "mixed C d d1 \<Longrightarrow> dr_now (dr :: draws) \<noteq> 0 \<Longrightarrow>
    restoreTx (dr_id dr) (dr_ids dr) (dr_rids dr) (dr_now dr) doc keep d1 = Inr (sv, d2) \<Longrightarrow> mixed C d d2"

lemma chosen_schema:
  assumes c: "chosen C dr r d d'" and ok: "schema_ok d" "account_inv d" and now: "dr_now dr \<noteq> 0"
  shows "schema_ok d' \<and> account_inv d'"
proof -
  have same: "account_inv d'" if "survey_tables_only d d'"
    using that ok(2) same_accounts_inv [of d' d] by (simp add: survey_tables_only_def)
  from c show ?thesis
  proof cases
    case (vote preview q)
    show ?thesis by (intro conjI response_schema [OF ok(1) vote] same [OF tables_response [OF vote]])
  next
    case (write_in preview i)
    then show ?thesis using write_in_schema [OF ok(1) now] same by blast
  next
    case (create sv)
    then show ?thesis using create_schema [OF ok(1) now] same tables_create by blast
  next
    case (edit closeAt sv)
    then show ?thesis using update_schema [OF ok(1) now] same tables_update by blast
  next
    case (moderate sv)
    then show ?thesis using update_schema [OF ok(1) now] same tables_update by blast
  next
    case (state sv)
    then show ?thesis using update_schema [OF ok(1) now] same tables_update by blast
  next
    case (publish n)
    then show ?thesis using publish_schema [OF ok(1) now] same tables_publish by blast
  next
    case (delete x)
    then show ?thesis using DeleteSurvey_schema [OF ok(1)] same tables_delete by blast
  next
    case account
    then have "schema_ok d'" using account_step_surveys [OF account] ok(1)
      by (simp add: schema_ok_def keys_ok_def refs_ok_def opened_ok_def referenced_def)
    then show ?thesis using account_step_inv [OF account ok(2)] by blast
  qed
qed

lemma mixed_schema: "mixed C d d' \<Longrightarrow> schema_ok d \<and> account_inv d \<Longrightarrow> schema_ok d' \<and> account_inv d'"
proof (induction rule: mixed.induct)
  case (mixed_restore d d1 dr doc keep sv d2)
  then have "schema_ok d1" "account_inv d1" by blast+
  then show ?case
    using restore_schema [OF _ mixed_restore.hyps(2,3)] tables_restore [OF mixed_restore.hyps(3)] same_accounts_inv [of d2 d1]
    by (simp add: survey_tables_only_def)
qed (simp, use chosen_schema in blast)

lemma the_restore_route:
  "rt \<in> set (routes C) \<Longrightarrow> rt_pats rt = [Lit ''admin'', Lit ''surveys'', Lit ''restore''] \<Longrightarrow>
   rt = route_to ''POST'' [Lit ''admin'', Lit ''surveys'', Lit ''restore''] (requireRole C RoleEditor (handleRestoreSurvey C))"
proof -
  let ?p = "\<lambda>rt. rt_pats rt = [Lit ''admin'', Lit ''surveys'', Lit ''restore''] \<longrightarrow>
    rt = route_to ''POST'' [Lit ''admin'', Lit ''surveys'', Lit ''restore''] (requireRole C RoleEditor (handleRestoreSurvey C))"
  have "list_all ?p (public_routes C)"
    unfolding public_routes_def list.pred_inject by (intro conjI TrueI; simp add: route_to_def plain_route_def)
  moreover have "list_all ?p (admin_routes C)"
    unfolding admin_routes_def list.pred_inject by (intro conjI TrueI; simp add: route_to_def)
  ultimately show "rt \<in> set (routes C) \<Longrightarrow> rt_pats rt = [Lit ''admin'', Lit ''surveys'', Lit ''restore''] \<Longrightarrow> ?thesis"
    by (auto simp: routes_def list_all_iff)
qed

lemma served_mixes:
  assumes now: "dr_now dr \<noteq> 0" and sv: "ServeHTTP C dr r s = (x, s')" and m: "mixed C d (sdb_of s)"
  shows "mixed C d (sdb_of s')"
proof -
  consider "sdb_of s' = sdb_of s"
    | rt vals r1 where "mux_match (routes C) (rq_method r) (path_segs (cf_unescape C) (rq_raw r)) = Some (rt, vals)"
      "rt_handle rt dr r1 s = (x, s')"
    using served_db [OF sv] by blast
  then show ?thesis
  proof cases
    case (2 rt vals r1)
    have rt: "rt \<in> set (routes C)" using mux_match_SomeD [OF 2(1)] by blast
    show ?thesis
    proof (cases "rt_pats rt = [Lit ''admin'', Lit ''surveys'', Lit ''restore'']")
      case False
      then have "sdb_of s' = sdb_of s \<or> chosen C dr r1 (sdb_of s) (sdb_of s')"
        using routes_choose [OF rt] 2(2) now unfolding chooses_def by blast
      then show ?thesis using m mixed_commit [OF m now] by metis
    next
      case True
      obtain y where y: "requireRole C RoleEditor (handleRestoreSurvey C) dr r1 s = (y, s')"
        using 2(2) unfolding the_restore_route [OF rt True] by (auto simp: route_to_def split: prod.split_asm)
      from gate_passed [OF y] consider "s' = s" | u where "handleRestoreSurvey C u dr r1 s = (y, s')" by blast
      then show ?thesis
      proof cases
        case (2 u)
        with restore_page [of C u dr r1 s] consider "sdb_of s' = sdb_of s"
          | doc keep where "ran (restoreTx (dr_id dr) (dr_ids dr) (dr_rids dr) (dr_now dr) doc keep) (sdb_of s) (sdb_of s')" by auto
        then show ?thesis using m mixed_restore [OF m now] unfolding ran_def by cases metis+
      qed (use m in simp)
    qed
  qed (use m in simp)
qed

section \<open>Properties\<close>



end
