(* ===== verification/Moderation.thy ===== *)
theory Moderation
  imports EditForm
begin

text \<open>
  The moderation forms of the page of a survey (\<open>templates/admin_survey.html\<close>) together with the handlers that
  render the page and take the form (\<open>handleAdminSurvey\<close>, \<open>handleModerate\<close> of \<open>internal/web/admin.go\<close>): what an
  editor can press, what the browser then sends, and what that does.
\<close>

section \<open>The buttons\<close>

text \<open>
  What an editor can press on the page of a survey: on a suggestion, with the wording in its text field and
  what is selected in its list; or \<open>restore\<close> on an option that is off the ballot.
\<close>

datatype press =
    Approve opt string string
  | Reject opt string string
  | Merge opt string string
  | Bring_back opt

primrec pressed_on :: "press \<Rightarrow> opt" where
  "pressed_on (Approve o' _ _) = o'"
| "pressed_on (Reject o' _ _) = o'"
| "pressed_on (Merge o' _ _) = o'"
| "pressed_on (Bring_back o') = o'"

text \<open>The list has the approved options of the survey, and a first entry that is not an option.\<close>

definition selectable :: "admin_data \<Rightarrow> string \<Rightarrow> bool" where
  "selectable d i = (i \<in> set ([] # map o_id (ad_merge_into d)))"

primrec on_page :: "admin_data \<Rightarrow> press \<Rightarrow> bool" where
  "on_page d (Approve o' wording sel) = (o' \<in> set (ad_pending d) \<and> selectable d sel)"
| "on_page d (Reject o' wording sel) = (o' \<in> set (ad_pending d) \<and> selectable d sel)"
| "on_page d (Merge o' wording sel) = (o' \<in> set (ad_pending d) \<and> selectable d sel)"
| "on_page d (Bring_back o') = (o' \<in> set (ad_removed d))"

definition suggestion_fields :: "http \<Rightarrow> opt \<Rightarrow> string \<Rightarrow> string \<Rightarrow> string \<Rightarrow> string \<Rightarrow> string list" where
  "suggestion_fields x o' wording sel action k =
     (if k = ''csrf'' then [h_csrf x] else if k = ''option'' then [o_id o'] else if k = ''text'' then [wording]
      else if k = ''action'' then [action] else if k = ''merge_into'' then [sel] else [])"

primrec press_fields :: "http \<Rightarrow> press \<Rightarrow> string \<Rightarrow> string list" where
  "press_fields x (Approve o' wording sel) = suggestion_fields x o' wording sel ''approve''"
| "press_fields x (Reject o' wording sel) = suggestion_fields x o' wording sel ''reject''"
| "press_fields x (Merge o' wording sel) = suggestion_fields x o' wording sel ''merge''"
| "press_fields x (Bring_back o') = (\<lambda>k.
     if k = ''csrf'' then [h_csrf x] else if k = ''option'' then [o_id o'] else if k = ''action'' then [''restore''] else [])"

text \<open>What each is for. An empty text field leaves the wording alone, and merging ignores the field.\<close>

definition reword :: "string \<Rightarrow> opt \<Rightarrow> opt" where
  "reword wording o' = (if TrimSpace wording = [] then o' else o'\<lparr>o_text := TrimSpace wording\<rparr>)"

primrec press_effect :: "press \<Rightarrow> opt \<Rightarrow> opt" where
  "press_effect (Approve _ wording _) = (\<lambda>o'. (reword wording o')\<lparr>o_status := OptApproved, o_merged := []\<rparr>)"
| "press_effect (Reject _ wording _) = (\<lambda>o'. (reword wording o')\<lparr>o_status := OptRejected, o_merged := []\<rparr>)"
| "press_effect (Merge _ _ sel) = (\<lambda>o'. o'\<lparr>o_status := OptMerged, o_merged := sel\<rparr>)"
| "press_effect (Bring_back _) = (\<lambda>o'. o'\<lparr>o_status := OptApproved, o_merged := []\<rparr>)"

text \<open>The two things an editor can get wrong: a wording that is too long, and merging with nothing selected.\<close>

primrec press_sound :: "press \<Rightarrow> bool" where
  "press_sound (Approve _ wording _) = (length (TrimSpace wording) \<le> MaxOptionText)"
| "press_sound (Reject _ wording _) = (length (TrimSpace wording) \<le> MaxOptionText)"
| "press_sound (Merge _ _ sel) = (sel \<noteq> [])"
| "press_sound (Bring_back _) = True"

primrec press_message :: "press \<Rightarrow> string" where
  "press_message (Approve _ _ _) = ''Suggestion approved; votes for it now count.''"
| "press_message (Reject _ _ _) = ''Suggestion rejected.''"
| "press_message (Merge _ _ _) = ''Suggestion merged; its votes moved to the option you chose.''"
| "press_message (Bring_back _) = ''Option restored.''"

lemma SetOptionText_succeeds:
  assumes "ids_unique sv" "i \<in> o_id ` set (options sv)" "TrimSpace wording \<noteq> []" "length (TrimSpace wording) \<le> MaxOptionText"
  shows "SetOptionText sv i (TrimSpace wording) = Inr (sv\<lparr>options := modify_by o_id i (\<lambda>o'. o'\<lparr>o_text := TrimSpace wording\<rparr>) (options sv)\<rparr>)"
proof -
  obtain idx where x: "first_index_from (\<lambda>o'. o_id o' = i) 0 (options sv) = Some idx"
    using assms(2) first_index_from_None [of "\<lambda>o'. o_id o' = i" 0 "options sv"] by fastforce
  with first_index_edit [OF assms(1) this] show ?thesis using assms(3,4) by (simp add: SetOptionText_def Let_def)
qed

lemma SetOptionStatus_succeeds:
  assumes "ids_unique sv" "i \<in> o_id ` set (options sv)"
  shows "status \<in> {OptApproved, OptRejected} \<Longrightarrow>
      SetOptionStatus sv i status into = Inr (sv\<lparr>options := modify_by o_id i (\<lambda>o'. o'\<lparr>o_status := status, o_merged := []\<rparr>) (options sv)\<rparr>)"
    and "into \<noteq> [] \<Longrightarrow> into \<noteq> i \<Longrightarrow> OptionOf sv into = Some target \<Longrightarrow> o_status target = OptApproved \<Longrightarrow>
      SetOptionStatus sv i OptMerged into = Inr (sv\<lparr>options := modify_by o_id i (\<lambda>o'. o'\<lparr>o_status := OptMerged, o_merged := into\<rparr>) (options sv)\<rparr>)"
proof -
  obtain idx where x: "last_index_from (\<lambda>o'. o_id o' = i) 0 (options sv) = Some idx"
    using assms(2) last_index_from_None [of "\<lambda>o'. o_id o' = i" 0 "options sv"] by fastforce
  note e = last_index_edit [OF assms(1) x]
  show "SetOptionStatus sv i status into = Inr (sv\<lparr>options := modify_by o_id i (\<lambda>o'. o'\<lparr>o_status := status, o_merged := []\<rparr>) (options sv)\<rparr>)"
    if "status \<in> {OptApproved, OptRejected}" using that x by (auto simp: SetOptionStatus_def e)
  show "SetOptionStatus sv i OptMerged into = Inr (sv\<lparr>options := modify_by o_id i (\<lambda>o'. o'\<lparr>o_status := OptMerged, o_merged := into\<rparr>) (options sv)\<rparr>)"
    if "into \<noteq> []" "into \<noteq> i" "OptionOf sv into = Some target" "o_status target = OptApproved"
    using that x by (simp add: SetOptionStatus_def e)
qed

lemma reworded_unique:
  "ids_unique sv \<Longrightarrow> ids_unique (sv\<lparr>options := modify_by o_id i (\<lambda>o'. o'\<lparr>o_text := t\<rparr>) (options sv)\<rparr>)"
  "i \<in> o_id ` set (options sv) \<Longrightarrow> i \<in> o_id ` set (modify_by o_id i (\<lambda>o'. o'\<lparr>o_text := t\<rparr>) (options sv))"
  by (simp_all add: ids_unique_def map_key_modify_by flip: set_map)

lemma moderation_of_press:
  assumes ok: "survey_ok sv" and d: "ad_pending d = PendingOptions sv" "ad_merge_into d = filter (\<lambda>o'. o_status o' = OptApproved) (options sv)"
      "ad_removed d = filter (\<lambda>o'. o_status o' = OptRemoved \<or> o_status o' = OptRejected) (options sv)"
    and b: "on_page d b" "press_sound b" and f: "rq_form r = press_fields x b"
  shows "moderation r sv = Inr (sv\<lparr>options := modify_by o_id (o_id (pressed_on b)) (press_effect b) (options sv)\<rparr>)"
proof -
  have u: "ids_unique sv" using survey_okD(1) [OF ok] .
  have p: "o' \<in> set (options sv) \<and> o_status o' = OptPending" if "o' \<in> set (ad_pending d)" for o'
    using that by (auto simp: d PendingOptions_def)
  have plain: "moderation r sv = Inr (sv\<lparr>options := modify_by o_id i (\<lambda>o'. (reword wording o')\<lparr>o_status := st, o_merged := []\<rparr>) (options sv)\<rparr>)"
    if v: "FormValue r ''option'' = i" "FormValue r ''text'' = wording" "FormValue r ''action'' = a" "(a, st) \<in> {(''approve'', OptApproved), (''reject'', OptRejected), (''restore'', OptApproved)}"
      and i: "i \<in> o_id ` set (options sv)" "length (TrimSpace wording) \<le> MaxOptionText" for i wording a st
  proof (cases "TrimSpace wording = []")
    case True
    with v SetOptionStatus_succeeds(1) [OF u i(1), of st] show ?thesis by (auto simp: moderation_def Let_def bindE_def reword_def)
  next
    case False
    note t = SetOptionText_succeeds [OF u i(1) False i(2)]
    note s = SetOptionStatus_succeeds(1) [OF reworded_unique(1) [OF u], where i = i and status = st and into = "[]"]
    from v t s [of i "TrimSpace wording"] reworded_unique(2) [OF i(1)] False show ?thesis
      by (auto simp: moderation_def Let_def bindE_def reword_def modify_by_twice)
  qed
  show ?thesis
  proof (cases b)
    case (Approve o' wording sel)
    with b f p [of o'] show ?thesis
      by (simp add: plain [of "o_id o'" wording "''approve''" OptApproved] FormValue_def suggestion_fields_def)
  next
    case (Reject o' wording sel)
    with b f p [of o'] show ?thesis
      by (simp add: plain [of "o_id o'" wording "''reject''" OptRejected] FormValue_def suggestion_fields_def)
  next
    case (Bring_back o')
    then have "o' \<in> set (options sv)" using b by (auto simp: d)
    with Bring_back f show ?thesis
      by (simp add: plain [of "o_id o'" "[]" "''restore''" OptApproved] FormValue_def reword_def)
  next
    case (Merge o' wording sel)
    then have o': "o' \<in> set (options sv)" "o_status o' = OptPending" "sel \<noteq> []" using b p [of o'] by auto
    obtain t where t: "t \<in> set (options sv)" "o_status t = OptApproved" "o_id t = sel"
      using b Merge by (auto simp: selectable_def d)
    have l: "OptionOf sv sel = Some t" using lookup_by_mem [of o_id "options sv", OF _ t(1)] u t(3) by (simp add: OptionOf_def ids_unique_def)
    have "sel \<noteq> o_id o'"
    proof
      assume "sel = o_id o'"
      then have "OptionOf sv sel = Some o'" using lookup_by_mem [of o_id "options sv", OF _ o'(1)] u by (simp add: OptionOf_def ids_unique_def)
      with l t(2) o'(2) show False by simp
    qed
    with SetOptionStatus_succeeds(2) [OF u _ o'(3) _ l t(2), of "o_id o'"] o' f Merge show ?thesis
      by (simp add: moderation_def Let_def bindE_def FormValue_def suggestion_fields_def)
  qed
qed

text \<open>
  C27. The moderation buttons do what they say. On the page of a survey that an editor is shown, pressing a
  button of a suggestion - approve or reject with a wording of any admissible length, or merge with one of the
  listed options selected - or restoring an option that is off the ballot, succeeds as long as nobody else
  changed the database since: the answer is the message for that button, the survey reads back with the one
  option changed as the button says, its wording included, and everything else but the instant of the last
  change as it was; no answer and no other survey is touched.
\<close>

theorem offered_moderation_succeeds:
  assumes ok: "db_ok (sdb_of s)" and now: "dr_now dr2 \<noteq> 0"
    and page: "handleAdminSurvey C u dr r s = (x, s0)" "h_reply x = Page st (SurveyPage d)"
    and b: "on_page d b" "press_sound b"
    and r2: "rq_parsed r2" "rq_val r2 ''id'' = rq_val r ''id''" "rq_form r2 = press_fields x b"
    and go: "handleModerate C u2 dr2 r2 s = (x2, s2)"
  shows "x2 = see_other C r2 [setFlash C (press_message b) False] (''/admin/s/'' @ rq_val r ''id'') \<and>
    (\<exists>sv. loadSurvey (sdb_of s) (rq_val r ''id'') = Some sv \<and> pressed_on b \<in> set (options sv) \<and>
       loadSurvey (sdb_of s2) (rq_val r ''id'') =
         Some (sv\<lparr>options := modify_by o_id (o_id (pressed_on b)) (press_effect b) (options sv), sv_updated := dr_now dr2\<rparr>)) \<and>
    (\<forall>j. j \<noteq> rq_val r ''id'' \<longrightarrow> loadSurvey (sdb_of s2) j = loadSurvey (sdb_of s) j) \<and>
    responses (sdb_of s2) = responses (sdb_of s) \<and> choices (sdb_of s2) = choices (sdb_of s) \<and> seen (sdb_of s2) = seen (sdb_of s)"
proof -
  let ?i = "rq_val r ''id''" and ?d = "sdb_of s"
  obtain sv where l: "loadSurvey ?d ?i = Some sv" and d: "ad_pending d = PendingOptions sv"
    "ad_merge_into d = filter (\<lambda>o'. o_status o' = OptApproved) (options sv)"
    "ad_removed d = filter (\<lambda>o'. o_status o' = OptRemoved \<or> o_status o' = OptRejected) (options sv)"
    using page by (auto simp: handleAdminSurvey_def loadAdminSurvey_def fail_def render_def render_with_def
        split: option.split_asm prod.split_asm)
  have so: "survey_ok sv" using ok l by (auto dest: db_okD surveys_ok_load)
  let ?sv1 = "sv\<lparr>options := modify_by o_id (o_id (pressed_on b)) (press_effect b) (options sv)\<rparr>"
  have m: "moderation r2 sv = Inr ?sv1" by (rule moderation_of_press [OF so d b r2(3)])
  have i: "sv_id sv = ?i" using l by (rule loadSurvey_id)
  obtain d' where u: "UpdateSurvey (dr_now dr2) ?i (moderation r2) ?d = Inr (stamp_opened (dr_now dr2) (?sv1\<lparr>sv_updated := dr_now dr2\<rparr>), d')"
    using UpdateSurvey_saves [OF l, where fn = "moderation r2" and now = "dr_now dr2", OF m] i by auto
  have op: "pressed_on b \<in> set (options sv)" using b(1) by (cases b) (auto simp: d PendingOptions_def)
  have a: "moderation_message (FormValue r2 ''action'') = press_message b"
    using r2(3) by (cases b) (simp_all add: FormValue_def suggestion_fields_def moderation_message_def)
  have "x2 = see_other C r2 [setFlash C (press_message b) False] (''/admin/s/'' @ ?i) \<and> sdb_of s2 = d'"
    using go u r2(1,2) a by (auto simp: handleModerate_def on_tx Let_def)
  moreover have "stamp_opened (dr_now dr2) (?sv1\<lparr>sv_updated := dr_now dr2\<rparr>) = ?sv1\<lparr>sv_updated := dr_now dr2\<rparr>"
    using opened_ok_load [OF db_okD(4) [OF ok] l] by (auto simp: stamp_opened_def IsZero_def)
  ultimately show ?thesis
    by - (rule UpdateSurvey_effect [OF ok now u moderation_ok], assumption+, use l op in auto)
qed

text \<open>An editor approves the demonstration survey's suggestion with another wording.\<close>

definition suggestion_db :: db where
  "suggestion_db = demo_db\<lparr>opts := map (\<lambda>o'. if o_id o' = ''b'' then o'\<lparr>o_status := OptPending\<rparr> else o') (opts demo_db)\<rparr>"

lemma offered_moderation_succeeds_witness:
  "\<exists>x d s2. fst (handleAdminSurvey demo_config demo_ann demo_draws (survey_request ''GET'' [] (\<lambda>_. [])) (demo_server suggestion_db)) = x \<and>
     h_reply x = Page 200 (SurveyPage d) \<and>
     snd (handleModerate demo_config demo_ann late_draws (survey_request ''POST'' [] (press_fields x (Approve (hd (ad_pending d)) '' Rye '' [])))
       (demo_server suggestion_db)) = s2 \<and>
     map_option (map (\<lambda>o'. (o_text o', o_status o')) \<circ> options) (loadSurvey (sdb_of s2) ''s1'') \<noteq>
       map_option (map (\<lambda>o'. (o_text o', o_status o')) \<circ> options) (loadSurvey suggestion_db ''s1'')"
proof -
  let ?r = "survey_request ''GET'' [] (\<lambda>_. [])" and ?s = "demo_server suggestion_db"
  obtain sv where l: "loadSurvey suggestion_db ''s1'' = Some sv" "sv = the (loadSurvey suggestion_db ''s1'')"
    by (cases "loadSurvey suggestion_db ''s1''") (simp, code_simp, simp)
  have i: "rq_val ?r ''id'' = ''s1''" by (simp add: survey_request_def)
  obtain x d where x: "handleAdminSurvey demo_config demo_ann demo_draws ?r ?s = (x, ?s)" "h_reply x = Page 200 (SurveyPage d)"
    "ad_pending d = PendingOptions sv"
    using l(1) i by (cases "computeTally suggestion_db (sv_id sv)")
      (auto simp: handleAdminSurvey_def loadAdminSurvey_def render_def render_with_def split: prod.splits)
  let ?o = "hd (PendingOptions sv)" and ?b = "Approve (hd (ad_pending d)) '' Rye '' []"
  let ?r2 = "survey_request ''POST'' [] (press_fields x ?b)"
  have ok: "db_ok suggestion_db" by code_simp
  have p: "PendingOptions sv \<noteq> []" "length (TrimSpace '' Rye '') \<le> MaxOptionText" unfolding l(2) by code_simp+
  then have b: "on_page d ?b" "press_sound ?b" using x(3) by (simp_all add: selectable_def)
  obtain x2 s2 where go: "handleModerate demo_config demo_ann late_draws ?r2 ?s = (x2, s2)" by fastforce
  have f: "rq_parsed ?r2" "rq_val ?r2 ''id'' = rq_val ?r ''id''" "rq_form ?r2 = press_fields x ?b" "dr_now late_draws = 99"
    by (simp_all add: survey_request_def demo_request_def late_draws_def)
  have "loadSurvey (sdb_of s2) ''s1'' = Some (sv\<lparr>options := modify_by o_id (o_id ?o) (press_effect ?b) (options sv), sv_updated := 99\<rparr>)"
    using offered_moderation_succeeds [of ?s late_draws demo_config demo_ann demo_draws ?r x ?s 200 d ?b ?r2 demo_ann x2 s2] ok x b f go l(1) i
    by simp
  moreover have "map (\<lambda>o'. (o_text o', o_status o')) (modify_by o_id (o_id ?o) (press_effect (Approve ?o '' Rye '' [])) (options sv)) \<noteq>
      map (\<lambda>o'. (o_text o', o_status o')) (options sv)" unfolding l(2) by code_simp
  ultimately show ?thesis using x go l(1) by auto
qed

end
