(* ===== verification/Controls.thy ===== *)
theory Controls
  imports Routes EditForm Restores
begin

text \<open>
  The links and forms of the pages (\<open>internal/web/templates\<close>), the template functions that decide who
  is shown them (\<open>parseTemplates\<close> of \<open>internal/web/server.go\<close>), and what happens to somebody who follows
  them: a page offers nothing that the routes and their gates would then refuse, and the buttons of the
  moderation forms do what they say. The stylesheet, and the address of a survey or link that a page
  shows as text to be copied, are not controls.
\<close>

section \<open>The templates\<close>

definition template_files :: "string list" where
  "template_files = [''_tally.html'', ''admin_survey.html'', ''ballot.html'', ''base.html'', ''dashboard.html'',
     ''edit.html'', ''error.html'', ''index.html'', ''invite.html'', ''login.html'', ''password.html'', ''pending.html'',
     ''reset.html'', ''results.html'', ''users.html'']"

text \<open>\<open>parseTemplates\<close>: every file is a page but the base and the fragments, which are parsed into every page.\<close>

definition shared_templates :: "string list \<Rightarrow> string list" where
  "shared_templates files = ''base.html'' # filter (\<lambda>f. has_prefix f ''_'') files"

definition parseTemplates :: "string list \<Rightarrow> (string \<times> string list) list" where
  "parseTemplates files =
     map (\<lambda>f. (f, shared_templates files @ [f])) (filter (\<lambda>f. \<not> (f = ''base.html'' \<or> has_prefix f ''_'')) files)"

text \<open>The template that each page is rendered with.\<close>

fun template_of :: "page \<Rightarrow> string" where
  "template_of IndexPage = ''index.html''"
| "template_of (LoginPage _ _) = ''login.html''"
| "template_of (PasswordPage _) = ''password.html''"
| "template_of (PendingPage _) = ''pending.html''"
| "template_of (BallotPage _) = ''ballot.html''"
| "template_of (ResultsPage _ _ _) = ''results.html''"
| "template_of (InvitePage _ _ _) = ''invite.html''"
| "template_of (ResetPage _ _) = ''reset.html''"
| "template_of (DashboardPage _) = ''dashboard.html''"
| "template_of (SurveyPage _) = ''admin_survey.html''"
| "template_of (EditPage _) = ''edit.html''"
| "template_of (UsersPage _) = ''users.html''"

text \<open>So \<open>render\<close> always finds the template it is asked for, that of the error page included.\<close>

lemma template_found:
  "map_of (parseTemplates template_files) (template_of p) = Some [''base.html'', ''_tally.html'', template_of p]"
  "map_of (parseTemplates template_files) ''error.html'' = Some [''base.html'', ''_tally.html'', ''error.html'']"
  by (cases p) (simp_all add: parseTemplates_def shared_templates_def template_files_def has_prefix_def)

text \<open>The functions \<open>canEdit\<close> and \<open>isAdmin\<close> of the templates.\<close>

definition canEdit :: "user option \<Rightarrow> bool" where
  "canEdit uo = (case uo of None \<Rightarrow> False | Some u \<Rightarrow> AtLeast (u_role u) RoleEditor)"

definition isAdmin :: "user option \<Rightarrow> bool" where
  "isAdmin uo = (case uo of None \<Rightarrow> False | Some u \<Rightarrow> u_role u = RoleAdmin)"

section \<open>Links and forms\<close>

text \<open>A control is a method and the segments of a path; a path that ends with a slash ends with an empty one.\<close>

record control =
  ct_method :: string
  ct_segs :: "string list"

definition link :: "string list \<Rightarrow> control" where "link segs = \<lparr>ct_method = ''GET'', ct_segs = segs\<rparr>"
definition form :: "string list \<Rightarrow> control" where "form segs = \<lparr>ct_method = ''POST'', ct_segs = segs\<rparr>"

definition ct_path :: "control \<Rightarrow> string" where
  "ct_path c = CHR ''/'' # join_slash (ct_segs c)"

text \<open>The top of every page (\<open>base.html\<close>).\<close>

definition topbar :: "user option \<Rightarrow> control list" where
  "topbar uo = link [[]] #
     (if uo \<noteq> None then
        link [''admin'', []] # (if isAdmin uo then [link [''admin'', ''users'']] else []) @
          [link [''account'', ''password''], form [''logout'']]
      else [link [''login'']])"

definition on_survey :: "admin_data \<Rightarrow> string list \<Rightarrow> string list" where
  "on_survey d segs = [''admin'', ''s'', sv_id (ln_survey (ad_line d))] @ segs"

definition survey_controls :: "admin_data \<Rightarrow> control list" where
  "survey_controls d =
     (if ad_can_edit d then
        [form (on_survey d [''state'']), link (on_survey d [''edit'']), link [''s'', sv_id (ln_survey (ad_line d))]]
      else []) @
     [link (on_survey d [''export'', ''responses.tsv'']), link (on_survey d [''export'', ''summary.tsv''])] @
     (if ad_can_edit d then
        (if ad_pending d \<noteq> [] \<or> ad_removed d \<noteq> [] then [form (on_survey d [''moderate''])] else []) @
        [link (on_survey d [''save'', ''definition.json'']), link (on_survey d [''save'', ''full.json'']),
         form (on_survey d [''delete''])]
      else [])"

definition ballot_controls :: "ballot_data \<Rightarrow> control list" where
  "ballot_controls d =
     (if bd_accepting d then
        form [''s'', sv_id (bd_survey d), ''vote''] #
          (if allow_write_in (bd_survey d) then [form [''s'', sv_id (bd_survey d), ''writein'']] else [])
      else [])"

definition dashboard_controls :: "user option \<Rightarrow> survey_line list \<Rightarrow> control list" where
  "dashboard_controls uo ls =
     (if canEdit uo then [form [''admin'', ''surveys''], form [''admin'', ''surveys'', ''restore'']] else []) @
       map (\<lambda>l. link [''admin'', ''s'', sv_id (ln_survey l)]) ls"

definition edit_controls :: "admin_data \<Rightarrow> control list" where
  "edit_controls d = [link (on_survey d []), form (on_survey d [''edit''])]"

definition users_controls :: "control list" where
  "users_controls = [form [''admin'', ''users''], form [''admin'', ''invites'']]"

definition login_controls :: "control list" where "login_controls = [form [''login'']]"
definition password_controls :: "control list" where "password_controls = [form [''account'', ''password'']]"
definition pending_controls :: "control list" where "pending_controls = [form [''logout'']]"
definition results_controls :: "survey \<Rightarrow> control list" where "results_controls sv = [link [''s'', sv_id sv]]"
definition invite_controls :: "string \<Rightarrow> control list" where "invite_controls token = [form [''invite'', token]]"
definition reset_controls :: "string \<Rightarrow> control list" where "reset_controls token = [form [''reset'', token]]"

lemmas controls_defs = ballot_controls_def dashboard_controls_def edit_controls_def users_controls_def login_controls_def
  password_controls_def pending_controls_def results_controls_def invite_controls_def reset_controls_def

text \<open>The controls of a page below the top bar; the fragment with the tally has none.\<close>

fun page_controls :: "user option \<Rightarrow> page \<Rightarrow> control list" where
  "page_controls uo IndexPage = []"
| "page_controls uo (LoginPage _ _) = login_controls"
| "page_controls uo (PasswordPage _) = password_controls"
| "page_controls uo (PendingPage _) = pending_controls"
| "page_controls uo (BallotPage d) = ballot_controls d"
| "page_controls uo (ResultsPage sv _ _) = results_controls sv"
| "page_controls uo (InvitePage token _ _) = invite_controls token"
| "page_controls uo (ResetPage token _) = reset_controls token"
| "page_controls uo (DashboardPage ls) = dashboard_controls uo ls"
| "page_controls uo (SurveyPage d) = survey_controls d"
| "page_controls uo (EditPage d) = edit_controls d"
| "page_controls uo (UsersPage _) = users_controls"

text \<open>The account a page is rendered for: only \<open>requireRole\<close> puts one into the context of a request.\<close>

fun behind_gate :: "page \<Rightarrow> bool" where
  "behind_gate (PasswordPage _) = True"
| "behind_gate (PendingPage _) = True"
| "behind_gate (DashboardPage _) = True"
| "behind_gate (SurveyPage _) = True"
| "behind_gate (EditPage _) = True"
| "behind_gate (UsersPage _) = True"
| "behind_gate _ = False"

definition viewer_of :: "'b config \<Rightarrow> draws \<Rightarrow> request \<Rightarrow> 'b server \<Rightarrow> page \<Rightarrow> user option" where
  "viewer_of C dr r s p = (if behind_gate p then sessionUser C (dr_now dr) (sdb_of s) r else None)"

definition offered :: "user option \<Rightarrow> page \<Rightarrow> control list" where
  "offered uo p = topbar uo @ page_controls uo p"

text \<open>The identifiers and tokens in the addresses of a page.\<close>

fun page_ids :: "page \<Rightarrow> string list" where
  "page_ids (BallotPage d) = [sv_id (bd_survey d)]"
| "page_ids (ResultsPage sv _ _) = [sv_id sv]"
| "page_ids (InvitePage token _ _) = [token]"
| "page_ids (ResetPage token _) = [token]"
| "page_ids (DashboardPage ls) = map (\<lambda>l. sv_id (ln_survey l)) ls"
| "page_ids (SurveyPage d) = [sv_id (ln_survey (ad_line d))]"
| "page_ids (EditPage d) = [sv_id (ln_survey (ad_line d))]"
| "page_ids _ = []"

text \<open>A segment that no part of an address treats specially: what \<open>newID\<close> and the tokens are made of.\<close>

definition plain_seg :: "string \<Rightarrow> bool" where
  "plain_seg t = (t \<noteq> [] \<and> list_all (\<lambda>c. c \<in> set url_alphabet) t)"


section \<open>Where an address leads\<close>

lemma split_at_no: "sep \<notin> set s \<Longrightarrow> split_at sep s = [s]"
  by (induction s) auto

lemma split_at_cut: "sep \<notin> set s \<Longrightarrow> split_at sep (s @ sep # t) = s # split_at sep t"
  by (induction s) auto

lemma split_at_join: "list_all (\<lambda>t. CHR ''/'' \<notin> set t) ss \<Longrightarrow> ss \<noteq> [] \<Longrightarrow> split_at (CHR ''/'') (join_slash ss) = ss"
  by (induction ss rule: join_slash.induct) (simp_all add: split_at_no split_at_cut)

text \<open>The segments of an address of a page: names of the program, or identifiers and tokens, and a last one that may be empty.\<close>

definition clean_path :: "string list \<Rightarrow> bool" where
  "clean_path ss = (ss \<noteq> [] \<and> list_all (\<lambda>t. CHR ''/'' \<notin> set t \<and> CHR ''%'' \<notin> set t \<and> t \<noteq> ''.'' \<and> t \<noteq> ''..'') ss \<and>
     list_all (\<lambda>t. t \<noteq> []) (butlast ss))"

lemma clean_segs_plain:
  "list_all (\<lambda>t. t \<noteq> [] \<and> t \<noteq> ''.'' \<and> t \<noteq> ''..'') ss \<Longrightarrow> clean_segs st ss = rev st @ ss"
  by (induction ss arbitrary: st) auto

lemma clean_segs_append_nil: "clean_segs st (ss @ [[]]) = clean_segs st ss"
  by (induction st ss rule: clean_segs.induct) auto

lemma join_slash_snoc: "ss \<noteq> [] \<Longrightarrow> join_slash (ss @ [t]) = join_slash ss @ CHR ''/'' # t"
  by (induction ss rule: join_slash.induct) auto

lemma join_slash_last: "ss \<noteq> [] \<Longrightarrow> last ss \<noteq> [] \<Longrightarrow> join_slash ss \<noteq> [] \<and> last (join_slash ss) = last (last ss)"
  by (induction ss rule: join_slash.induct) auto

lemma last_no_slash: "t \<noteq> [] \<Longrightarrow> CHR ''/'' \<notin> set t \<Longrightarrow> last t \<noteq> CHR ''/''"
  by (metis last_in_set)

lemma cleanPath_join:
  assumes "clean_path ss"
  shows "cleanPath (CHR ''/'' # join_slash ss) = CHR ''/'' # join_slash ss"
proof -
  obtain bs l where ss: "ss = bs @ [l]" using assms by (cases ss rule: rev_cases) (auto simp: clean_path_def)
  have s: "list_all (\<lambda>t. CHR ''/'' \<notin> set t) ss" and b: "list_all (\<lambda>t. t \<noteq> [] \<and> t \<noteq> ''.'' \<and> t \<noteq> ''..'') bs"
    and l: "l \<noteq> ''.''" "l \<noteq> ''..''" "CHR ''/'' \<notin> set l"
    using assms by (auto simp: clean_path_def ss list_all_iff)
  have sp: "split_at (CHR ''/'') (join_slash ss) = ss" using split_at_join [OF s] by (simp add: ss)
  show ?thesis
  proof (cases "l = []")
    case False
    then have "list_all (\<lambda>t. t \<noteq> [] \<and> t \<noteq> ''.'' \<and> t \<noteq> ''..'') ss" using b l by (simp add: ss)
    then have "path_clean (CHR ''/'' # join_slash ss) = CHR ''/'' # join_slash ss"
      by (simp add: path_clean_def sp clean_segs_plain)
    moreover have "last (CHR ''/'' # join_slash ss) \<noteq> CHR ''/''"
      using join_slash_last [of ss] last_no_slash [OF False l(3)] False by (simp add: ss)
    ultimately show ?thesis by (simp add: cleanPath_def)
  next
    case True
    have "path_clean (CHR ''/'' # join_slash ss) = CHR ''/'' # join_slash bs"
      using b by (simp add: path_clean_def sp) (simp add: ss True clean_segs_append_nil clean_segs_plain)
    moreover have "join_slash ss = (if bs = [] then [] else join_slash bs @ ''/'')" using join_slash_snoc [of bs "[]"] by (simp add: ss True)
    moreover have "join_slash bs \<noteq> []" if "bs \<noteq> []"
      using that b join_slash_last [of bs] by (cases bs rule: rev_cases) auto
    ultimately show ?thesis by (simp add: cleanPath_def)
  qed
qed

lemma path_segs_join:
  assumes "clean_path ss" and "\<And>t. CHR ''%'' \<notin> set t \<Longrightarrow> un t = t"
  shows "path_segs un (CHR ''/'' # join_slash ss) = butlast ss @ [if last ss = [] then ''/'' else last ss]"
proof -
  obtain bs l where ss: "ss = bs @ [l]" using assms(1) by (cases ss rule: rev_cases) (auto simp: clean_path_def)
  have "split_at (CHR ''/'') (join_slash ss) = bs @ [l]"
    using assms(1) split_at_join [of ss] by (auto simp: clean_path_def ss list_all_iff)
  moreover have "map un bs = bs" "un l = l"
    using assms by (auto simp: clean_path_def ss list_all_iff intro!: map_idI)
  ultimately show ?thesis by (simp add: path_segs_def ss)
qed

section \<open>The one route of a control\<close>

lemma find_route_none: "find_route m segs rts = None \<Longrightarrow> rt \<in> set rts \<Longrightarrow> rt_method rt = m \<Longrightarrow> match_segs (rt_pats rt) segs = None"
  by (induction rts) (auto split: if_split_asm)

lemma route_found:
  assumes rt: "rt \<in> set (routes C)" and m: "match_segs (rt_pats rt) segs = Some vals"
  shows "mux_match (routes C) (rt_method rt) segs = Some (rt, vals)"
proof -
  obtain rt' vals' where f: "find_route (rt_method rt) segs (routes C) = Some (rt', vals')"
    using find_route_none [OF _ rt refl] m by (cases "find_route (rt_method rt) segs (routes C)") auto
  note rt' = find_route_SomeD [OF f]
  have "rt' = rt"
  proof (rule ccontr)
    assume "rt' \<noteq> rt"
    obtain i j where ij: "i < length (routes C)" "routes C ! i = rt" "j < length (routes C)" "routes C ! j = rt'"
      using rt rt' by (auto simp: in_set_conv_nth)
    with \<open>rt' \<noteq> rt\<close> have "i < j \<or> j < i" by (metis nat_neq_iff)
    then show False
      using one_route [of i j C segs] one_route [of j i C segs] ij rt' m by auto
  qed
  with f rt' m show ?thesis by (simp add: mux_match_def)
qed


section \<open>Following a control\<close>

text \<open>
  The next request of the browser that was sent the page \<open>x\<close> for \<open>r\<close>, with a form's CSRF token among
  its fields and a body no longer than the server reads.
\<close>

definition follows :: "'b config \<Rightarrow> http \<Rightarrow> request \<Rightarrow> control \<Rightarrow> request \<Rightarrow> bool" where
  "follows C x r c q =
     (rq_method q = ct_method c \<and> rq_raw q = ct_path c \<and> rq_path q = ct_path c \<and> sent_after x r q \<and>
      (ct_method c = ''POST'' \<longrightarrow>
         rq_form q ''csrf'' = [h_csrf x] \<and> rq_length q \<le> MaxUpload \<and>
         rq_size q \<le> (if rq_path q = restorePath then MaxUpload else MaxBody)) \<and>
      (cf_redirect C \<longrightarrow> isHTTPS q))"

definition open_routes :: "'b config \<Rightarrow> 'b route list" where
  "open_routes C = take 14 (public_routes C)"

text \<open>
  The request gets through to the handler of its route: one that anybody may call, or one behind
  \<open>requireRole\<close> that is called for the account of the session - not the 404 or 405 of the multiplexer, a redirect, or a
  refusal of the gate.
\<close>

definition gets_through :: "'b config \<Rightarrow> draws \<Rightarrow> request \<Rightarrow> 'b server \<Rightarrow> bool" where
  "gets_through C dr q s =
     (\<exists>rt vals. mux_match (routes C) (rq_method q) (path_segs (cf_unescape C) (rq_raw q)) = Some (rt, vals) \<and>
        (let q' = q\<lparr>rq_val := path_value vals\<rparr> in
         rt \<in> set (open_routes C) \<and> ServeHTTP C dr q s = rt_handle rt dr q' s \<or>
         (\<exists>need h u. sessionUser C (dr_now dr) (sdb_of s) q = Some u \<and> rt = route_to (rt_method rt) (rt_pats rt) (requireRole C need h) \<and> AtLeast (u_role u) need \<and>
            ServeHTTP C dr q s = (case h u dr q' s of (x, s') \<Rightarrow> (Answered x, s')))))"

definition page_of :: "control \<Rightarrow> string list" where
  "page_of c = butlast (ct_segs c) @ [if last (ct_segs c) = [] then ''/'' else last (ct_segs c)]"

lemma follows_routed:
  assumes f: "follows C x r c q" and m: "ct_method c \<in> {''GET'', ''POST''}" and cp: "clean_path (ct_segs c)"
    and un: "\<And>t. CHR ''%'' \<notin> set t \<Longrightarrow> cf_unescape C t = t"
    and rt: "rt \<in> set (routes C)" "rt_method rt = ct_method c" "Rest \<notin> set (rt_pats rt)"
      "match_segs (rt_pats rt) (page_of c) = Some vals"
  shows "mux_match (routes C) (rq_method q) (path_segs (cf_unescape C) (rq_raw q)) = Some (rt, vals) \<and>
    ServeHTTP C dr q s = rt_handle rt dr (q\<lparr>rq_val := path_value vals\<rparr>) s"
proof -
  note q = f [unfolded follows_def]
  have segs: "path_segs (cf_unescape C) (rq_raw q) = page_of c"
    using q path_segs_join [OF cp un] by (simp add: ct_path_def page_of_def)
  have mm: "mux_match (routes C) (rq_method q) (path_segs (cf_unescape C) (rq_raw q)) = Some (rt, vals)"
    using route_found [OF rt(1,4)] rt(2) q segs by simp
  have cl: "cleanPath (rq_raw q) = rq_raw q" using q cleanPath_join [OF cp] by (simp add: ct_path_def)
  have "mux_serve C dr q s = rt_handle rt dr (q\<lparr>rq_val := path_value vals\<rparr>) s"
    using mm cl rt(3) q m by (auto simp: mux_serve_def Let_def exactMatch_def)
  moreover have "ServeHTTP C dr q s = mux_serve C dr q s"
    using q m by (auto simp: ServeHTTP_def Let_def limit_body_def)
  ultimately show ?thesis using mm by simp
qed

lemma open_through:
  assumes "follows C x r c q" "ct_method c \<in> {''GET'', ''POST''}" "clean_path (ct_segs c)"
    "\<And>t. CHR ''%'' \<notin> set t \<Longrightarrow> cf_unescape C t = t"
    "rt \<in> set (open_routes C)" "rt_method rt = ct_method c" "Rest \<notin> set (rt_pats rt)"
      "match_segs (rt_pats rt) (page_of c) \<noteq> None"
  shows "gets_through C dr q s"
proof -
  obtain vals where v: "match_segs (rt_pats rt) (page_of c) = Some vals" using assms(8) by blast
  have "rt \<in> set (routes C)" using assms(5) by (auto simp: open_routes_def routes_def dest: in_set_takeD)
  from follows_routed [OF assms(1-4) this assms(6,7) v, of dr s] show ?thesis
    using assms(5) unfolding gets_through_def Let_def by blast
qed

lemma gate_opens:
  assumes "sessionUser C (dr_now dr) (sdb_of s) r = Some u" "in_standing u" "AtLeast (u_role u) need"
    "rq_method r = ''GET'' \<or> checkCSRF C r"
  shows "requireRole C need h dr r s = h u dr r s"
  using assms by (auto simp: requireRole_def in_standing_def)

lemma cookie_val: "Cookie (r\<lparr>rq_val := v\<rparr>) n = Cookie r n"
  by (simp add: Cookie_def)

lemma cookie_value_val: "cookie_value C (r\<lparr>rq_val := v\<rparr>) n = cookie_value C r n"
  by (simp add: cookie_value_def cookie_val)

lemma csrf_val: "csrfToken C (r\<lparr>rq_val := v\<rparr>) = csrfToken C r"
  unfolding csrfToken_def cookie_value_val by (rule refl)

lemma gate_val:
  "sessionUser C now d (r\<lparr>rq_val := v\<rparr>) = sessionUser C now d r" "checkCSRF C (r\<lparr>rq_val := v\<rparr>) = checkCSRF C r"
  by (simp_all add: sessionUser_def checkCSRF_def csrf_val cookie_val FormValue_def)

lemma gated_through:
  assumes "follows C x r c q" "ct_method c \<in> {''GET'', ''POST''}" "clean_path (ct_segs c)"
    "\<And>t. CHR ''%'' \<notin> set t \<Longrightarrow> cf_unescape C t = t"
    and rt: "route_to (ct_method c) ps (requireRole C need h) \<in> set (routes C)" "Rest \<notin> set ps"
      "match_segs ps (page_of c) \<noteq> None"
    and u: "sessionUser C (dr_now dr) (sdb_of s) q = Some u" "in_standing u" "AtLeast (u_role u) need"
    and csrf: "ct_method c = ''POST'' \<longrightarrow> checkCSRF C q"
  shows "gets_through C dr q s"
proof -
  let ?rt = "route_to (ct_method c) ps (requireRole C need h)"
  obtain vals where v: "match_segs ps (page_of c) = Some vals" using rt(3) by blast
  let ?q = "q\<lparr>rq_val := path_value vals\<rparr>"
  from follows_routed [OF assms(1-4) rt(1), of vals dr s] rt(2) v
  have r: "mux_match (routes C) (rq_method q) (path_segs (cf_unescape C) (rq_raw q)) = Some (?rt, vals)"
    "ServeHTTP C dr q s = rt_handle ?rt dr ?q s" by (simp_all add: route_to_def)
  have "requireRole C need h dr ?q s = h u dr ?q s"
  proof (rule gate_opens [OF _ u(2,3)])
    show "sessionUser C (dr_now dr) (sdb_of s) ?q = Some u" using u(1) by (simp add: gate_val)
    show "rq_method ?q = ''GET'' \<or> checkCSRF C ?q" using assms(1,2) csrf by (auto simp: follows_def gate_val)
  qed
  with r u(1,3) show ?thesis unfolding gets_through_def Let_def by (force simp: route_to_def)
qed

section \<open>For whom a page is rendered\<close>

fun meant_for :: "user \<Rightarrow> page \<Rightarrow> bool" where
  "meant_for u (SurveyPage d) = (ad_can_edit d = AtLeast (u_role u) RoleEditor)"
| "meant_for u (EditPage d) = AtLeast (u_role u) RoleEditor"
| "meant_for u (UsersPage d) = AtLeast (u_role u) RoleAdmin"
| "meant_for u _ = True"

definition rendered_ok :: "'b config \<Rightarrow> request \<Rightarrow> user \<Rightarrow> http \<Rightarrow> page \<Rightarrow> bool" where
  "rendered_ok C r u x p = (AtLeast (u_role u) RoleViewer \<and> meant_for u p \<and> h_csrf x = csrfToken C r \<and> set (h_cookies x) \<subseteq> {clear_flash C})"

definition route_renders :: "'b config \<Rightarrow> 'b route \<Rightarrow> bool" where
  "route_renders C rt =
     (\<forall>dr r s x s' st p. rt_handle rt dr r s = (Answered x, s') \<longrightarrow> h_reply x = Page st p \<longrightarrow> behind_gate p \<longrightarrow>
        (\<exists>u. sessionUser C (dr_now dr) (sdb_of s) r = Some u \<and> rendered_ok C r u x p))"

lemma replies [simp]:
  "h_reply (render_with C f r cs rep) = rep" "h_csrf (render_with C f r cs rep) = csrfToken C r"
  "h_reply (render C r cs st p) = Page st p" "h_csrf (render C r cs st p) = csrfToken C r"
  "h_reply (fail C r cs st msg) = Failed st msg" "h_reply (tooMany C r cs msg) = Limited msg"
  "h_reply (redirect C r cs st url) = Redirect st (location_of C r url)"
  "h_reply (see_other C r cs url) = Redirect 303 (location_of C r url)"
  by (simp_all add: render_with_def render_def fail_def tooMany_def redirect_def see_other_def split: prod.split)

lemma render_cookies [simp]:
  "set (h_cookies (render C r [] st p)) \<subseteq> {clear_flash C}" "set (h_cookies (render_with C f r [] rep)) \<subseteq> {clear_flash C}"
  by (auto simp: render_def render_with_def dest: take_flash_cookies split: prod.split)

lemma gate_page:
  assumes "requireRole C need h dr r s = (x, s')" "h_reply x = Page st p"
  shows "\<exists>u. sessionUser C (dr_now dr) (sdb_of s) r = Some u \<and> AtLeast (u_role u) need \<and> h u dr r s = (x, s')"
  using assms by (auto simp: requireRole_def split: option.split_asm if_split_asm)

lemma at_least_viewer: "AtLeast x need \<Longrightarrow> need \<in> {RoleViewer, RoleEditor, RoleAdmin} \<Longrightarrow> AtLeast x RoleViewer"
proof -
  assume a: "AtLeast x need" "need \<in> {RoleViewer, RoleEditor, RoleAdmin}"
  have "get0 roleRank RoleViewer = 1" "get0 roleRank RoleEditor = 2" "get0 roleRank RoleAdmin = 3" by code_simp+
  with a show ?thesis by (auto simp: AtLeast_def)
qed

lemma gated_renders:
  assumes "need \<in> {RoleViewer, RoleEditor, RoleAdmin}"
    and "\<And>u dr r s x s' st p. h u dr r s = (x, s') \<Longrightarrow> h_reply x = Page st p \<Longrightarrow> AtLeast (u_role u) RoleViewer \<Longrightarrow>
      AtLeast (u_role u) need \<Longrightarrow> rendered_ok C r u x p"
  shows "route_renders C (route_to m ps (requireRole C need h))"
  unfolding route_renders_def route_to_def route.simps
proof (intro allI impI)
  fix dr r s x s' st p
  assume "(case requireRole C need h dr r s of (x, s) \<Rightarrow> (Answered x, s)) = (Answered x, s')" and p: "h_reply x = Page st p"
  then have "requireRole C need h dr r s = (x, s')" by (auto split: prod.split_asm)
  from gate_page [OF this p] assms(2) at_least_viewer [OF _ assms(1)] p
  show "\<exists>u. sessionUser C (dr_now dr) (sdb_of s) r = Some u \<and> rendered_ok C r u x p" by blast
qed

lemma open_renders:
  assumes "\<And>dr r s x s' st p. h dr r s = (x, s') \<Longrightarrow> h_reply x = Page st p \<Longrightarrow> \<not> behind_gate p"
  shows "route_renders C (route_to m ps h)"
  using assms by (auto simp: route_renders_def route_to_def split: prod.split_asm)

lemma limited_renders:
  assumes "limitLogin C h dr r s = (x, s')" "h_reply x = Page st p"
  shows "\<exists>s1. h dr r s1 = (x, s')"
  using assms by (auto simp: limitLogin_def Let_def split: prod.split_asm if_split_asm)

lemma open_pages:
  "handleIndex C dr r s = (x, s') \<Longrightarrow> h_reply x = Page st p \<Longrightarrow> \<not> behind_gate p"
  "handleBallot C dr r s = (x, s') \<Longrightarrow> h_reply x = Page st p \<Longrightarrow> \<not> behind_gate p"
  "handleVote C dr r s = (x, s') \<Longrightarrow> h_reply x = Page st p \<Longrightarrow> \<not> behind_gate p"
  "handleWriteIn C dr r s = (x, s') \<Longrightarrow> h_reply x = Page st p \<Longrightarrow> \<not> behind_gate p"
  "handlePublicResults C dr r s = (x, s') \<Longrightarrow> h_reply x = Page st p \<Longrightarrow> \<not> behind_gate p"
  "handleInviteForm C dr r s = (x, s') \<Longrightarrow> h_reply x = Page st p \<Longrightarrow> \<not> behind_gate p"
  "handleResetForm C dr r s = (x, s') \<Longrightarrow> h_reply x = Page st p \<Longrightarrow> \<not> behind_gate p"
  "handleLoginForm C dr r s = (x, s') \<Longrightarrow> h_reply x = Page st p \<Longrightarrow> \<not> behind_gate p"
  "handleLogout C dr r s = (x, s') \<Longrightarrow> h_reply x = Page st p \<Longrightarrow> \<not> behind_gate p"
  by (auto simp: handleIndex_def handleBallot_def handleVote_def handleWriteIn_def handlePublicResults_def visibleSurvey_def
      handleInviteForm_def handleResetForm_def handleLoginForm_def handleLogout_def Let_def
      split: if_split_asm option.split_asm prod.split_asm sum.split_asm)

lemma open_posts:
  "limitLogin C (handleInviteClaim C) dr r s = (x, s') \<Longrightarrow> h_reply x = Page st p \<Longrightarrow> \<not> behind_gate p"
  "limitLogin C (handleReset C) dr r s = (x, s') \<Longrightarrow> h_reply x = Page st p \<Longrightarrow> \<not> behind_gate p"
  "limitLogin C (handleLogin C) dr r s = (x, s') \<Longrightarrow> h_reply x = Page st p \<Longrightarrow> \<not> behind_gate p"
  by (drule (1) limited_renders, auto simp: handleInviteClaim_def handleReset_def handleLogin_def Let_def
      split: if_split_asm option.split_asm prod.split_asm sum.split_asm)+

lemma gated_pages:
  "handlePending C u dr r s = (x, s') \<Longrightarrow> h_reply x = Page st p \<Longrightarrow> AtLeast (u_role u) RoleViewer \<Longrightarrow> rendered_ok C r u x p"
  "handlePasswordForm C u dr r s = (x, s') \<Longrightarrow> h_reply x = Page st p \<Longrightarrow> AtLeast (u_role u) RoleViewer \<Longrightarrow> rendered_ok C r u x p"
  "handlePasswordChange C u dr r s = (x, s') \<Longrightarrow> h_reply x = Page st p \<Longrightarrow> AtLeast (u_role u) RoleViewer \<Longrightarrow> rendered_ok C r u x p"
  "handleDashboard C u dr r s = (x, s') \<Longrightarrow> h_reply x = Page st p \<Longrightarrow> AtLeast (u_role u) RoleViewer \<Longrightarrow> rendered_ok C r u x p"
  "handleAdminSurvey C u dr r s = (x, s') \<Longrightarrow> h_reply x = Page st p \<Longrightarrow> AtLeast (u_role u) RoleViewer \<Longrightarrow> rendered_ok C r u x p"
  "handleEditForm C u dr r s = (x, s') \<Longrightarrow> h_reply x = Page st p \<Longrightarrow> AtLeast (u_role u) RoleViewer \<Longrightarrow> AtLeast (u_role u) RoleEditor \<Longrightarrow> rendered_ok C r u x p"
  "handleUsers C u dr r s = (x, s') \<Longrightarrow> h_reply x = Page st p \<Longrightarrow> AtLeast (u_role u) RoleViewer \<Longrightarrow> AtLeast (u_role u) RoleAdmin \<Longrightarrow> rendered_ok C r u x p"
  "handleUsersPost C u dr r s = (x, s') \<Longrightarrow> h_reply x = Page st p \<Longrightarrow> AtLeast (u_role u) RoleViewer \<Longrightarrow> AtLeast (u_role u) RoleAdmin \<Longrightarrow> rendered_ok C r u x p"
  by (auto simp: handlePending_def handlePasswordForm_def handlePasswordChange_def handleDashboard_def handleAdminSurvey_def
      loadAdminSurvey_def handleEditForm_def handleUsers_def handleUsersPost_def renderUsersWithReset_def rendered_ok_def Let_def
      dest: subsetD [OF render_cookies(1)] subsetD [OF render_cookies(2)]
      split: if_split_asm option.split_asm prod.split_asm sum.split_asm)

lemma gated_posts:
  "handleCreateSurvey C u dr r s = (x, s') \<Longrightarrow> h_reply x \<noteq> Page st p"
  "handleEditSave C u dr r s = (x, s') \<Longrightarrow> h_reply x \<noteq> Page st p"
  "handleSetState C u dr r s = (x, s') \<Longrightarrow> h_reply x \<noteq> Page st p"
  "handleModerate C u dr r s = (x, s') \<Longrightarrow> h_reply x \<noteq> Page st p"
  "handleDeleteSurvey C u dr r s = (x, s') \<Longrightarrow> h_reply x \<noteq> Page st p"
  "handleExport C u dr r s = (x, s') \<Longrightarrow> h_reply x \<noteq> Page st p"
  "handleSaveSurvey C u dr r s = (x, s') \<Longrightarrow> h_reply x \<noteq> Page st p"
  "handleRestoreSurvey C u dr r s = (x, s') \<Longrightarrow> h_reply x \<noteq> Page st p"
  "handleInvitesPost C u dr r s = (x, s') \<Longrightarrow> h_reply x \<noteq> Page st p"
  by (auto simp: handleCreateSurvey_def handleEditSave_def handleSetState_def handleModerate_def handleDeleteSurvey_def
      handleExport_def handleSaveSurvey_def handleRestoreSurvey_def handleInvitesPost_def Let_def
      split: if_split_asm option.split_asm prod.split_asm sum.split_asm)

lemma roles_in: "RoleViewer \<in> {RoleViewer, RoleEditor, RoleAdmin}" "RoleEditor \<in> {RoleViewer, RoleEditor, RoleAdmin}"
  "RoleAdmin \<in> {RoleViewer, RoleEditor, RoleAdmin}" by simp_all

lemma plain_renders: "x \<noteq> Answered y \<Longrightarrow> route_renders C (plain_route ps x)" if "\<And>y. x \<noteq> Answered y"
  using that by (simp add: route_renders_def plain_route_def)

lemma every_route_renders:
  assumes "rt \<in> set (routes C)"
  shows "route_renders C rt"
proof -
  have "list_all (route_renders C) (public_routes C)"
    unfolding public_routes_def list.pred_inject
    by (intro conjI TrueI; (rule plain_renders, simp, simp | rule open_renders, erule (1) open_pages | rule open_renders, erule (1) open_posts |
        rule gated_renders, rule roles_in, erule (1) gated_pages, assumption+ | simp))
  moreover have "list_all (route_renders C) (admin_routes C)"
    unfolding admin_routes_def list.pred_inject
    by (intro conjI TrueI; (rule gated_renders, rule roles_in, erule (1) gated_pages, assumption+ |
        rule gated_renders, rule roles_in, drule gated_posts, erule (1) notE | simp))
  ultimately show ?thesis using assms by (auto simp: routes_def list_all_iff)
qed

lemma cookies_decide:
  assumes "rq_cookies r1 = rq_cookies r"
  shows "csrfToken C r1 = csrfToken C r" and "sessionUser C now d r1 = sessionUser C now d r"
proof -
  have c: "Cookie r1 = Cookie r" using assms by (simp add: Cookie_def fun_eq_iff)
  then have "cookie_value C r1 n = cookie_value C r n" for n by (simp add: cookie_value_def)
  then show "csrfToken C r1 = csrfToken C r" unfolding csrfToken_def by (simp only:)
  from c show "sessionUser C now d r1 = sessionUser C now d r" by (simp add: sessionUser_def)
qed

lemma page_from_route:
  assumes sv: "ServeHTTP C dr r s = (Answered x, s')" and p: "h_reply x = Page st p"
  shows "\<exists>rt r1. rt \<in> set (routes C) \<and> rq_cookies r1 = rq_cookies r \<and> rt_handle rt dr r1 s = (Answered x, s')"
proof -
  obtain r0 where r0: "r0 = (if rq_method r = ''POST'' \<or> rq_method r = ''PUT''
      then limit_body (if rq_path r = restorePath then MaxUpload else MaxBody) r else r)" by blast
  have "mux_serve C dr r0 s = (Answered x, s')"
    using sv p by (auto simp: ServeHTTP_def r0 Let_def split: if_split_asm)
  then obtain rt vals where "mux_match (routes C) (rq_method r0) (path_segs (cf_unescape C)
      (if rq_method r0 = ''CONNECT'' then rq_raw r0 else cleanPath (rq_raw r0))) = Some (rt, vals)"
      "rt_handle rt dr (r0\<lparr>rq_val := path_value vals\<rparr>) s = (Answered x, s')"
    by (auto simp: mux_serve_def Let_def split: if_split_asm option.split_asm prod.split_asm)
  moreover have "rq_cookies (r0\<lparr>rq_val := path_value vals\<rparr>) = rq_cookies r" by (simp add: r0 limit_body_def)
  ultimately show ?thesis using mux_match_SomeD by blast
qed

lemma page_behind_gate:
  assumes sv: "ServeHTTP C dr r s = (Answered x, s')" and p: "h_reply x = Page st p" "behind_gate p"
  shows "\<exists>u. sessionUser C (dr_now dr) (sdb_of s) r = Some u \<and> rendered_ok C r u x p"
proof -
  obtain rt r1 where r1: "rt \<in> set (routes C)" "rq_cookies r1 = rq_cookies r" "rt_handle rt dr r1 s = (Answered x, s')"
    using page_from_route [OF sv p(1)] by blast
  from every_route_renders [OF r1(1)] r1(3) p obtain u where
    "sessionUser C (dr_now dr) (sdb_of s) r1 = Some u" "rendered_ok C r1 u x p" unfolding route_renders_def by blast
  then show ?thesis using cookies_decide [OF r1(2), where C = C] by (simp add: rendered_ok_def)
qed

text \<open>The form of a page behind the gate carries the token its session asks for.\<close>

lemma sessionUser_cookie:
  "sessionUser C now d r = Some u \<Longrightarrow> \<exists>v. Cookie r (cookieName C sessionCookie) = Some v \<and> v \<noteq> []"
  by (auto simp: sessionUser_def split: option.split_asm)

lemma form_token_good:
  assumes u: "sessionUser C now d r = Some u" and x: "rendered_ok C r u x p" and q: "follows C x r c q" "ct_method c = ''POST''"
    and mac: "\<And>xs. cf_mac C xs \<noteq> []"
  shows "checkCSRF C q"
proof -
  obtain v where v: "Cookie r (cookieName C sessionCookie) = Some v" "v \<noteq> []" using sessionUser_cookie [OF u] by blast
  have "lookup_by c_name (cookieName C sessionCookie) (rev (h_cookies x)) = None"
    using x cookie_names(3) [of C] by (auto simp: rendered_ok_def lookup_by_None_iff clear_flash_def)
  then have "Cookie q (cookieName C sessionCookie) = Some v" using q(1) v by (simp add: follows_def sent_after_def)
  then have "csrfToken C q = csrfToken C r" "csrfToken C r \<noteq> []" using v mac by (simp_all add: csrfToken_def cookie_value_def)
  moreover have "FormValue q ''csrf'' = csrfToken C r" using q x by (simp add: FormValue_def follows_def rendered_ok_def)
  ultimately show ?thesis by (simp add: checkCSRF_def)
qed

section \<open>What is offered is granted\<close>

text \<open>Controls that anybody may follow, and controls that a role may follow.\<close>

definition open_control :: "'b config \<Rightarrow> control \<Rightarrow> bool" where
  "open_control C c =
     (ct_method c \<in> {''GET'', ''POST''} \<and> clean_path (ct_segs c) \<and>
      (\<exists>rt\<in>set (open_routes C). rt_method rt = ct_method c \<and> Rest \<notin> set (rt_pats rt) \<and> match_segs (rt_pats rt) (page_of c) \<noteq> None))"

definition granted :: "'b config \<Rightarrow> string \<Rightarrow> control \<Rightarrow> bool" where
  "granted C need c =
     (ct_method c \<in> {''GET'', ''POST''} \<and> clean_path (ct_segs c) \<and>
      (\<exists>ps h. route_to (ct_method c) ps (requireRole C need h) \<in> set (routes C) \<and> Rest \<notin> set ps \<and> match_segs ps (page_of c) \<noteq> None))"

lemma plain_seg_facts:
  assumes "plain_seg t"
  shows "t \<noteq> []" "CHR ''/'' \<notin> set t" "CHR ''%'' \<notin> set t" "t \<noteq> ''.''" "t \<noteq> ''..''" "t \<noteq> ''/''"
proof -
  have "CHR ''/'' \<notin> set url_alphabet" "CHR ''%'' \<notin> set url_alphabet" "CHR ''.'' \<notin> set url_alphabet" by code_simp+
  then show "t \<noteq> []" "CHR ''/'' \<notin> set t" "CHR ''%'' \<notin> set t" "t \<noteq> ''.''" "t \<noteq> ''..''" "t \<noteq> ''/''"
    using assms by (auto simp: plain_seg_def list_all_iff)
qed

lemmas control_simps = open_control_def granted_def link_def form_def page_of_def clean_path_def

lemma open_controls:
  "open_control C (link [[]])" "open_control C (link [''login''])" "open_control C (form [''login''])" "open_control C (form [''logout''])"
  "plain_seg i \<Longrightarrow> open_control C (link [''s'', i])"
  "plain_seg i \<Longrightarrow> open_control C (form [''s'', i, ''vote''])" "plain_seg i \<Longrightarrow> open_control C (form [''s'', i, ''writein''])"
  "plain_seg i \<Longrightarrow> open_control C (form [''invite'', i])" "plain_seg i \<Longrightarrow> open_control C (form [''reset'', i])"
  by (auto simp: control_simps open_routes_def public_routes_def route_to_def plain_route_def plain_seg_facts)

lemma grantedI:
  assumes "route_to (ct_method c) ps (requireRole C need h) \<in> set (routes C)" "ct_method c \<in> {''GET'', ''POST''}"
    "clean_path (ct_segs c)" "Rest \<notin> set ps" "match_segs ps (page_of c) \<noteq> None"
  shows "granted C need c"
  using assms unfolding granted_def by blast

lemma gate_of_route:
  "route_to ''GET'' [Lit ''account'', Lit ''password''] (requireRole C RoleViewer (handlePasswordForm C)) \<in> set (routes C)"
  "route_to ''POST'' [Lit ''account'', Lit ''password''] (requireRole C RoleViewer (handlePasswordChange C)) \<in> set (routes C)"
  "route_to ''GET'' [Lit ''admin'', Lit ''/''] (requireRole C RoleViewer (handleDashboard C)) \<in> set (routes C)"
  "route_to ''GET'' [Lit ''admin'', Lit ''s'', Wild ''id''] (requireRole C RoleViewer (handleAdminSurvey C)) \<in> set (routes C)"
  "route_to ''GET'' [Lit ''admin'', Lit ''s'', Wild ''id'', Lit ''export'', Wild ''kind''] (requireRole C RoleViewer (handleExport C)) \<in> set (routes C)"
  "route_to ''POST'' [Lit ''admin'', Lit ''surveys''] (requireRole C RoleEditor (handleCreateSurvey C)) \<in> set (routes C)"
  "route_to ''POST'' [Lit ''admin'', Lit ''surveys'', Lit ''restore''] (requireRole C RoleEditor (handleRestoreSurvey C)) \<in> set (routes C)"
  "route_to ''GET'' [Lit ''admin'', Lit ''s'', Wild ''id'', Lit ''save'', Wild ''kind''] (requireRole C RoleEditor (handleSaveSurvey C)) \<in> set (routes C)"
  "route_to ''GET'' [Lit ''admin'', Lit ''s'', Wild ''id'', Lit ''edit''] (requireRole C RoleEditor (handleEditForm C)) \<in> set (routes C)"
  "route_to ''POST'' [Lit ''admin'', Lit ''s'', Wild ''id'', Lit ''edit''] (requireRole C RoleEditor (handleEditSave C)) \<in> set (routes C)"
  "route_to ''POST'' [Lit ''admin'', Lit ''s'', Wild ''id'', Lit ''state''] (requireRole C RoleEditor (handleSetState C)) \<in> set (routes C)"
  "route_to ''POST'' [Lit ''admin'', Lit ''s'', Wild ''id'', Lit ''moderate''] (requireRole C RoleEditor (handleModerate C)) \<in> set (routes C)"
  "route_to ''POST'' [Lit ''admin'', Lit ''s'', Wild ''id'', Lit ''delete''] (requireRole C RoleEditor (handleDeleteSurvey C)) \<in> set (routes C)"
  "route_to ''GET'' [Lit ''admin'', Lit ''users''] (requireRole C RoleAdmin (handleUsers C)) \<in> set (routes C)"
  "route_to ''POST'' [Lit ''admin'', Lit ''users''] (requireRole C RoleAdmin (handleUsersPost C)) \<in> set (routes C)"
  "route_to ''POST'' [Lit ''admin'', Lit ''invites''] (requireRole C RoleAdmin (handleInvitesPost C)) \<in> set (routes C)"
  by (simp_all add: routes_def public_routes_def admin_routes_def)

lemma viewer_controls:
  "granted C RoleViewer (link [''account'', ''password''])" "granted C RoleViewer (form [''account'', ''password''])"
  "granted C RoleViewer (link [''admin'', []])"
  "plain_seg i \<Longrightarrow> granted C RoleViewer (link [''admin'', ''s'', i])"
  "plain_seg i \<Longrightarrow> granted C RoleViewer (link [''admin'', ''s'', i, ''export'', ''responses.tsv''])"
  "plain_seg i \<Longrightarrow> granted C RoleViewer (link [''admin'', ''s'', i, ''export'', ''summary.tsv''])"
  by (rule grantedI, simp add: link_def form_def, rule gate_of_route, (simp add: control_simps plain_seg_facts; fail)+)+

lemma editor_controls:
  "granted C RoleEditor (form [''admin'', ''surveys''])" "granted C RoleEditor (form [''admin'', ''surveys'', ''restore''])"
  "plain_seg i \<Longrightarrow> granted C RoleEditor (link [''admin'', ''s'', i, ''save'', ''definition.json''])"
  "plain_seg i \<Longrightarrow> granted C RoleEditor (link [''admin'', ''s'', i, ''save'', ''full.json''])"
  "plain_seg i \<Longrightarrow> granted C RoleEditor (link [''admin'', ''s'', i, ''edit''])"
  "plain_seg i \<Longrightarrow> granted C RoleEditor (form [''admin'', ''s'', i, ''edit''])"
  "plain_seg i \<Longrightarrow> granted C RoleEditor (form [''admin'', ''s'', i, ''state''])"
  "plain_seg i \<Longrightarrow> granted C RoleEditor (form [''admin'', ''s'', i, ''moderate''])"
  "plain_seg i \<Longrightarrow> granted C RoleEditor (form [''admin'', ''s'', i, ''delete''])"
  by (rule grantedI, simp add: link_def form_def, rule gate_of_route, (simp add: control_simps plain_seg_facts; fail)+)+

lemma admin_controls:
  "granted C RoleAdmin (link [''admin'', ''users''])" "granted C RoleAdmin (form [''admin'', ''users''])"
  "granted C RoleAdmin (form [''admin'', ''invites''])"
  by (rule grantedI, simp add: link_def form_def, rule gate_of_route, (simp add: control_simps; fail)+)+

text \<open>Each control of a page is open to all, or granted to a role that the account it was rendered for has.\<close>

definition within_role :: "'b config \<Rightarrow> user option \<Rightarrow> control \<Rightarrow> bool" where
  "within_role C uo c = (open_control C c \<or> (\<exists>u need. uo = Some u \<and> AtLeast (u_role u) need \<and> granted C need c))"

lemma within_roleI:
  "open_control C c \<Longrightarrow> within_role C uo c"
  "AtLeast (u_role u) need \<Longrightarrow> granted C need c \<Longrightarrow> within_role C (Some u) c"
  by (auto simp: within_role_def)

lemma topbar_within:
  assumes "\<And>u. uo = Some u \<Longrightarrow> AtLeast (u_role u) RoleViewer" and "c \<in> set (topbar uo)"
  shows "within_role C uo c"
proof (cases uo)
  case None
  then show ?thesis using assms(2) open_controls by (auto simp: topbar_def intro: within_roleI)
next
  case (Some u)
  note v = assms(1) [OF Some]
  have a: "isAdmin uo \<Longrightarrow> AtLeast (u_role u) RoleAdmin" by (simp add: isAdmin_def Some AtLeast_def)
  from assms(2) Some consider "c = link [[]]" | "c = link [''admin'', []]" | "isAdmin uo" "c = link [''admin'', ''users'']"
    | "c = link [''account'', ''password'']" | "c = form [''logout'']" by (auto simp: topbar_def split: if_split_asm)
  then show ?thesis unfolding Some
    by cases (rule within_roleI(1) [OF open_controls(1)] within_roleI(2) [OF v viewer_controls(3)] within_roleI(2) [OF v viewer_controls(1)]
        within_roleI(1) [OF open_controls(4)] within_roleI(2) [OF a admin_controls(1)] | simp add: Some)+
qed

lemma survey_controls_within:
  assumes "AtLeast (u_role u) RoleViewer" "ad_can_edit d = AtLeast (u_role u) RoleEditor" "plain_seg (sv_id (ln_survey (ad_line d)))"
    and "c \<in> set (survey_controls d)"
  shows "within_role C (Some u) c"
proof -
  note i = assms(3)
  note open_controls(5) [OF i, of C] viewer_controls(5,6) [OF i, of C] editor_controls(3-9) [OF i, of C]
  then have k: "within_role C (Some u) (link [''s'', sv_id (ln_survey (ad_line d))])"
    "within_role C (Some u) (link (on_survey d [''export'', ''responses.tsv'']))"
    "within_role C (Some u) (link (on_survey d [''export'', ''summary.tsv'']))"
    "AtLeast (u_role u) RoleEditor \<Longrightarrow> list_all (within_role C (Some u))
      [form (on_survey d [''state'']), link (on_survey d [''edit'']), form (on_survey d [''moderate'']),
       link (on_survey d [''save'', ''definition.json'']), link (on_survey d [''save'', ''full.json'']), form (on_survey d [''delete''])]"
    using assms(1) by (auto simp: on_survey_def intro: within_roleI)
  then show ?thesis using assms(2,4) by (auto simp: survey_controls_def split: if_split_asm)
qed

lemma page_controls_within:
  assumes r: "behind_gate p \<Longrightarrow> \<exists>u. uo = Some u \<and> AtLeast (u_role u) RoleViewer \<and> meant_for u p" "\<not> behind_gate p \<Longrightarrow> uo = None"
    and i: "list_all plain_seg (page_ids p)" and c: "c \<in> set (page_controls uo p)"
  shows "within_role C uo c"
proof (cases "behind_gate p")
  case False
  then show ?thesis using i c open_controls [where C = C]
    by (cases p) (auto simp: controls_defs split: if_split_asm intro!: within_roleI(1))
next
  case True
  then obtain u where u: "uo = Some u" "AtLeast (u_role u) RoleViewer" "meant_for u p" using r(1) by blast
  note w = within_roleI(2) [where C = C]
  show ?thesis
  proof (cases p)
    case (PasswordPage x)
    with c u viewer_controls(2) show ?thesis by (auto simp: controls_defs intro: w)
  next
    case (PendingPage x)
    with c open_controls(4) show ?thesis by (auto simp: controls_defs intro: within_roleI(1))
  next
    case (DashboardPage ls)
    with c consider "canEdit uo" "c \<in> {form [''admin'', ''surveys''], form [''admin'', ''surveys'', ''restore'']}"
      | l where "l \<in> set ls" "c = link [''admin'', ''s'', sv_id (ln_survey l)]"
      by (auto simp: controls_defs split: if_split_asm)
    then show ?thesis
    proof cases
      case 1
      then have "AtLeast (u_role u) RoleEditor" by (simp add: canEdit_def u(1))
      with 1(2) u(1) show ?thesis using editor_controls(1,2) by (auto intro: w)
    next
      case (2 l)
      then have "plain_seg (sv_id (ln_survey l))" using i DashboardPage by (auto simp: list_all_iff)
      with 2(2) u show ?thesis using viewer_controls(4) by (auto intro: w)
    qed
  next
    case (SurveyPage d)
    then show ?thesis using survey_controls_within [of u d c C] u i c by simp
  next
    case (EditPage d)
    with i have i: "plain_seg (sv_id (ln_survey (ad_line d)))" by simp
    have e: "AtLeast (u_role u) RoleEditor" using u(3) EditPage by simp
    have "c = link (on_survey d []) \<or> c = form (on_survey d [''edit''])" using c EditPage by (auto simp: controls_defs)
    with w [OF u(2) viewer_controls(4) [OF i]] w [OF e editor_controls(6) [OF i]] u(1) show ?thesis by (auto simp: on_survey_def)
  next
    case (UsersPage d)
    with c u show ?thesis using admin_controls(2,3) by (auto simp: controls_defs intro: w)
  qed (use True in auto)
qed

section \<open>Properties\<close>


text \<open>
  The identifier of a survey put back under its original link is taken from the file as it is. With a slash in
  it the addresses on the pages of the survey lead nowhere, the one that deletes it among them.
\<close>

definition slash_document :: document where
  "slash_document = foreign_document\<lparr>source_id := ''a/b'', doc_responses := None\<rparr>"

lemma slash_restored:
  "case restoreTx ''n'' (\<lambda>_. []) (\<lambda>_. ''q1'') 60 slash_document True demo_db of
     Inl _ \<Rightarrow> False | Inr (sv, d') \<Rightarrow> sv_id sv = ''a/b'' \<and> map_option sv_id (loadSurvey d' ''a/b'') = Some ''a/b''"
  by code_simp

lemma slash_leads_nowhere:
  assumes "sv_id (ln_survey (ad_line d)) = ''a/b''" and "cf_unescape C = id" and "m = ''GET'' \<or> m = ''POST''"
    and "c \<in> {form (on_survey d [''delete'']), form (on_survey d [''state'']), form (on_survey d [''moderate'']), link (on_survey d [''edit''])}"
  shows "mux_match (routes C) m (path_segs (cf_unescape C) (ct_path c)) = None"
proof -
  have "path_segs id (ct_path c) \<in> {[''admin'', ''s'', ''a'', ''b'', ''delete''], [''admin'', ''s'', ''a'', ''b'', ''state''],
      [''admin'', ''s'', ''a'', ''b'', ''moderate''], [''admin'', ''s'', ''a'', ''b'', ''edit'']}"
    using assms(1,4) by (auto simp: ct_path_def form_def link_def on_survey_def path_segs_def)
  moreover have "find_route k [''admin'', ''s'', ''a'', ''b'', t] (routes C) = None" for k t
    by (simp add: routes_def public_routes_def admin_routes_def route_to_def plain_route_def)
  ultimately show ?thesis using assms(2) by (auto simp: mux_match_def)
qed

text \<open>An administrator opens the dashboard and sends its form.\<close>

definition dash_request :: "string \<Rightarrow> string \<Rightarrow> request" where
  "dash_request m p = demo_request m p [(''__Host-qs_session'', ''ann'' @ bar # ''99'' @ bar # ''m'')]
     (\<lambda>k. if k = ''csrf'' then [''m''] else if k = ''title'' then [''Lunch''] else [])"


end
